(* ===== verification/Prelude.thy ===== *)
theory Prelude
  imports Main "HOL-Library.Word" "HOL-Library.Code_Target_Nat"
begin

text \<open>
  Shared vocabulary of the development: names for the machine integer types of the C++
  sources, the collections of rewrite rules the component proofs use, the two compiler
  builtins the sources call (\<^verbatim>\<open>__builtin_ctzll\<close> and \<^verbatim>\<open>__builtin_popcountll\<close>) with the loop
  \<^verbatim>\<open>while (word) { bit = ctz(word); ...; word &= word - 1; }\<close> that appears in the roaring
  bitmap, and generic facts about lists, bits and counting.
\<close>

unbundle bit_operations_syntax

type_synonym u8 = "8 word"
type_synonym u16 = "16 word"
type_synonym u32 = "32 word"
type_synonym u64 = "64 word"

named_theorems inv_simps \<open>invariants unfolded\<close>
named_theorems op_simps \<open>operations unfolded\<close>

section \<open>Bits of a 64-bit word\<close>

text \<open>
  \<^verbatim>\<open>__builtin_popcountll\<close> counts the set bits, \<^verbatim>\<open>__builtin_ctzll\<close> is the index of the lowest
  set bit of a word that is not zero.
\<close>

definition popcount :: "u64 \<Rightarrow> nat" where
  "popcount w = length (filter (bit w) [0..<64])"

definition ctz :: "u64 \<Rightarrow> nat" where
  "ctz w = (case filter (bit w) [0..<64] of [] \<Rightarrow> 64 | n # _ \<Rightarrow> n)"

lemma bit_64_bound: "bit (w::u64) n \<Longrightarrow> n < 64"
  using bit_imp_le_length [of w n] by simp

lemma u64_eq_0_iff: "(w::u64) = 0 \<longleftrightarrow> filter (bit w) [0..<64] = []"
  by (auto simp: filter_empty_conv bit_eq_iff dest: bit_64_bound)

lemma u64_eqI: "(\<And>n. n < 64 \<Longrightarrow> bit (v::u64) n = bit w n) \<Longrightarrow> v = w"
  by (rule bit_word_eqI) simp

lemma bit_nonzero: "bit (w::u64) n \<Longrightarrow> w \<noteq> 0"
  by auto

lemma ctz_bit: "(w::u64) \<noteq> 0 \<Longrightarrow> bit w (ctz w) \<and> (\<forall>m < ctz w. \<not> bit w m)"
proof -
  assume "w \<noteq> 0"
  then obtain n ns where ns: "filter (bit w) [0..<64] = n # ns"
    using u64_eq_0_iff by (cases "filter (bit w) [0..<64]") auto
  then obtain us vs where uv: "[0..<64] = us @ n # vs" "\<forall>u\<in>set us. \<not> bit w u" "bit w n"
    by (auto simp: filter_eq_Cons_iff)
  have len: "length us < 64" using arg_cong [OF uv(1), of length] by simp
  have n_eq: "n = length us"
  proof -
    have "[0..<64] ! length us = n" using uv(1) by (simp add: nth_append)
    then show ?thesis using len by simp
  qed
  have us_eq: "us = [0..<length us]"
  proof -
    have "take (length us) [0..<64] = us" using uv(1) by simp
    then show ?thesis using len by (simp add: take_upt)
  qed
  have "\<forall>m < n. \<not> bit w m"
    using uv(2) us_eq n_eq by (metis atLeast0LessThan lessThan_iff set_upt)
  then show ?thesis using ns uv(3) by (simp add: ctz_def)
qed

lemma ctz_less: "(w::u64) \<noteq> 0 \<Longrightarrow> ctz w < 64"
  using ctz_bit bit_64_bound by blast

text \<open>\<open>w AND (w - 1)\<close> clears the lowest set bit.\<close>

lemma drop_lowest:
  assumes "bit (w::u64) k" "\<forall>m<k. \<not> bit w m"
  shows "bit (w AND (w - 1)) n \<longleftrightarrow> bit w n \<and> n \<noteq> k"
proof -
  have k64: "k < 64" using assms(1) by (rule bit_64_bound)
  define v where "v = w AND NOT (push_bit k 1)"
  have bv: "bit v m \<longleftrightarrow> bit w m \<and> m \<noteq> k" if "m < 64" for m
    using that k64 by (auto simp: v_def bit_simps)
  have disj: "v AND push_bit k 1 = 0"
    by (rule u64_eqI) (auto simp: v_def bit_simps)
  have w_eq: "w = v + push_bit k 1"
  proof -
    have "w = v OR push_bit k 1"
      by (rule u64_eqI) (use assms(1) k64 in \<open>auto simp: v_def bit_simps\<close>)
    then show ?thesis using disj by (simp add: disjunctive_add_eq_or)
  qed
  have w1: "w - 1 = v + mask k"
    by (subst w_eq) (simp add: mask_eq_exp_minus_1 push_bit_eq_mult)
  have disj2: "v AND mask k = 0"
    by (rule u64_eqI) (use assms(2) bv in \<open>auto simp: bit_simps\<close>)
  have "w - 1 = v OR mask k"
    using w1 disj2 by (simp add: disjunctive_add_eq_or)
  then have "bit (w AND (w - 1)) n \<longleftrightarrow> bit w n \<and> (bit v n \<or> bit (mask k :: u64) n)"
    by (simp add: bit_simps)
  also have "\<dots> \<longleftrightarrow> bit w n \<and> n \<noteq> k"
    using bv assms(2) bit_64_bound [of w n] by (auto simp: bit_simps)
  finally show ?thesis .
qed

lemma popcount_drop_lowest:
  assumes "w \<noteq> (0::u64)"
  shows "popcount (w AND (w - 1)) < popcount w"
proof -
  note c = ctz_bit [OF assms]
  have set_eq: "{n. n < 64 \<and> bit (w AND (w - 1)) n} = {n. n < 64 \<and> bit w n} - {ctz w}"
    using c drop_lowest [of w "ctz w"] by auto
  have pc: "popcount u = card {n. n < 64 \<and> bit u n}" for u :: u64
  proof -
    have "popcount u = card (set (filter (bit u) [0..<64]))"
      by (metis popcount_def distinct_card distinct_filter distinct_upt)
    then show ?thesis by (simp add: conj_commute)
  qed
  have fin: "finite {n. n < 64 \<and> bit w n}" by simp
  have mem: "ctz w \<in> {n. n < 64 \<and> bit w n}" using c ctz_less [OF assms] by simp
  show ?thesis unfolding pc set_eq
    by (rule psubset_card_mono) (use fin mem in auto)
qed

text \<open>The positions the builtin loop visits, in its order.\<close>

function word_bits :: "u64 \<Rightarrow> nat list" where
  "word_bits w = (if w = 0 then [] else ctz w # word_bits (w AND (w - 1)))"
  by pat_completeness auto
termination
  by (relation "measure popcount") (auto simp: popcount_drop_lowest)

declare word_bits.simps [simp del]

lemma sorted_wrt_less_unique:
  assumes "sorted_wrt (<) xs" "sorted_wrt (<) ys" "set xs = set (ys :: 'a::linorder list)"
  shows "xs = ys"
proof -
  have "sorted xs \<and> distinct xs" "sorted ys \<and> distinct ys"
    using assms(1,2) strict_sorted_iff by blast+
  then show ?thesis using assms(3) by (meson sorted_distinct_set_unique)
qed

lemma word_bits_set_sorted:
  "set (word_bits w) = {n. bit w n} \<and> sorted_wrt (<) (word_bits w)"
proof (induction w rule: word_bits.induct)
  case (1 w)
  show ?case
  proof (cases "w = 0")
    case True
    then show ?thesis by (simp add: word_bits.simps)
  next
    case False
    note c = ctz_bit [OF False]
    from "1.IH" [OF False] have ih: "set (word_bits (w AND (w - 1))) = {n. bit (w AND (w - 1)) n}"
      "sorted_wrt (<) (word_bits (w AND (w - 1)))" by auto
    have mem: "bit (w AND (w - 1)) n \<longleftrightarrow> bit w n \<and> n \<noteq> ctz w" for n
      using c drop_lowest [of w "ctz w"] by blast
    have lt: "\<forall>n. bit w n \<and> n \<noteq> ctz w \<longrightarrow> ctz w < n"
      using c by (metis linorder_neqE_nat)
    show ?thesis
      using False ih mem lt c by (subst (1 2) word_bits.simps) auto
  qed
qed

lemma set_word_bits [simp]: "set (word_bits w) = {n. bit w n}"
  and sorted_word_bits [simp]: "sorted_wrt (<) (word_bits w)"
  using word_bits_set_sorted by blast+

lemma word_bits_eq_filter: "word_bits w = filter (bit w) [0..<64]"
proof (rule sorted_wrt_less_unique)
  show "sorted_wrt (<) (filter (bit w) [0..<64])"
    by (rule sorted_wrt_filter) simp
  show "set (word_bits w) = set (filter (bit w) [0..<64])"
    by (auto dest: bit_64_bound)
qed simp

lemma length_word_bits: "length (word_bits w) = popcount w"
  by (simp add: word_bits_eq_filter popcount_def)

lemma popcount_card: "popcount w = card {n. bit w n}"
proof -
  have "distinct (word_bits w)" using sorted_word_bits strict_sorted_iff by blast
  then have "card (set (word_bits w)) = length (word_bits w)" by (rule distinct_card)
  then show ?thesis by (simp add: length_word_bits)
qed

lemma popcount_0_iff: "popcount w = 0 \<longleftrightarrow> w = 0"
  by (simp add: popcount_def u64_eq_0_iff)

section \<open>Lists\<close>

lemma nth_list_update_if:
  "j < length xs \<Longrightarrow> xs[i := v] ! j = (if i = j then v else xs ! j)"
  by (cases "i = j") auto

lemma distinct_sorted_wrt_less: "sorted_wrt (<) (xs :: 'a::linorder list) \<Longrightarrow> distinct xs"
  using strict_sorted_iff by blast

lemma sum_list_map_le: "(\<And>x. x \<in> set xs \<Longrightarrow> f x \<le> g x) \<Longrightarrow> sum_list (map f xs) \<le> (sum_list (map g xs) :: nat)"
  by (induction xs) (auto simp: add_mono)

section \<open>Bit vectors as lists of 64-bit words\<close>

definition wbit :: "u64 list \<Rightarrow> nat \<Rightarrow> bool" where
  "wbit b p \<longleftrightarrow> bit (b ! (p div 64)) (p mod 64)"

lemma div64_less: "(p::nat) < 64 * n \<Longrightarrow> p div 64 < n"
  by (simp add: less_mult_imp_div_less mult.commute)

lemma wbit_or_word:
  assumes "w < length b" "q div 64 < length b"
  shows "wbit (b[w := b ! w OR m]) q \<longleftrightarrow> wbit b q \<or> (q div 64 = w \<and> bit m (q mod 64))"
  using assms by (auto simp: wbit_def nth_list_update_if bit_simps)

lemma same_page: "q div 64 = p div 64 \<Longrightarrow> q mod 64 = p mod 64 \<Longrightarrow> q = (p::nat)"
  by (metis div_mult_mod_eq)

lemma bit_push_one: "k < 64 \<Longrightarrow> bit (push_bit k 1 :: u64) j \<longleftrightarrow> j = k"
  by (auto simp: bit_simps)

lemma wbit_in_word: "k < 64 \<Longrightarrow> wbit b (w * 64 + k) = bit (b ! w) k"
  by (simp add: wbit_def)

lemma less_by_word:
  fixes p pc :: nat
  shows "p < pc \<longleftrightarrow> p div 64 < pc div 64 \<or> (p div 64 = pc div 64 \<and> p mod 64 < pc mod 64)"
proof (cases "p div 64" "pc div 64" rule: linorder_cases)
  case less
  then show ?thesis by (metis div_le_mono leD leI)
next
  case equal
  then show ?thesis
    using div_mult_mod_eq [of p 64] div_mult_mod_eq [of pc 64] by linarith
next
  case greater
  then show ?thesis by (metis div_le_mono leD less_imp_le_nat less_irrefl)
qed

lemma wbit_set:
  assumes "p < 64 * length b" "q < 64 * length b"
  shows "wbit (b[p div 64 := b ! (p div 64) OR push_bit (p mod 64) 1]) q \<longleftrightarrow> wbit b q \<or> q = p"
proof -
  have "wbit (b[p div 64 := b ! (p div 64) OR push_bit (p mod 64) 1]) q
    \<longleftrightarrow> wbit b q \<or> (q div 64 = p div 64 \<and> q mod 64 = p mod 64)"
    using wbit_or_word [OF div64_less [OF assms(1)] div64_less [OF assms(2)]] by (simp only: bit_push_one mod_less_divisor zero_less_numeral)
  then show ?thesis using same_page by blast
qed

lemma wbit_clear:
  assumes "p < 64 * length b" "q < 64 * length b"
  shows "wbit (b[p div 64 := b ! (p div 64) AND NOT (push_bit (p mod 64) 1)]) q \<longleftrightarrow> wbit b q \<and> q \<noteq> p"
proof -
  have "wbit (b[p div 64 := b ! (p div 64) AND NOT (push_bit (p mod 64) 1)]) q
    \<longleftrightarrow> wbit b q \<and> \<not> (q div 64 = p div 64 \<and> q mod 64 = p mod 64)"
    unfolding wbit_def nth_list_update_if [OF div64_less [OF assms(2)]]
    by (auto simp: bit_and_iff bit_not_iff bit_exp_iff)
  then show ?thesis using same_page by blast
qed

lemma sorted_wrt_nth: "sorted_wrt P xs \<Longrightarrow> i < j \<Longrightarrow> j < length xs \<Longrightarrow> P (xs ! i) (xs ! j)"
  by (simp add: sorted_wrt_iff_nth_less)

text \<open>The elements of a bit vector, in ascending order: the loop over the words with the loop
  \<^verbatim>\<open>word &= word - 1\<close> over the bits of each.\<close>

definition words_list :: "u64 list \<Rightarrow> nat list" where
  "words_list w = concat (map (\<lambda>wi. map (\<lambda>k. wi * 64 + k) (word_bits (w ! wi))) [0..<length w])"

lemma words_list_filter: "words_list w = filter (wbit w) [0..<64 * length w]"
proof -
  have "concat (map (\<lambda>wi. map (\<lambda>k. wi * 64 + k) (word_bits (w ! wi))) [0..<n]) = filter (wbit w) [0..<64 * n]" for n
  proof (induction n)
    case (Suc n)
    have "[0..<64 * Suc n] = [0..<64 * n] @ map (\<lambda>k. n * 64 + k) [0..<64]"
      using upt_add_eq_append [of 0 "64 * n" 64] map_add_upt [of "n * 64" 64]
      by (simp add: ac_simps)
    moreover have "filter (wbit w) (map (\<lambda>k. n * 64 + k) [0..<64]) = map (\<lambda>k. n * 64 + k) (word_bits (w ! n))"
      unfolding filter_map word_bits_eq_filter
      by (intro arg_cong [of _ _ "map _"] filter_cong) (auto simp: wbit_in_word)
    ultimately show ?case using Suc by simp
  qed simp
  then show ?thesis by (simp add: words_list_def)
qed

lemma set_words_list: "set (words_list w) = {i. i < 64 * length w \<and> wbit w i}"
  by (auto simp: words_list_filter)

lemma sorted_words_list: "sorted_wrt (<) (words_list w)"
  unfolding words_list_filter by (rule sorted_wrt_filter) (rule sorted_wrt_upt)

lemma length_words_list: "length (words_list w) = sum_list (map popcount w)"
proof -
  have "length (words_list w) = sum_list (map (\<lambda>wi. popcount (w ! wi)) [0..<length w])"
    by (simp add: words_list_def length_concat comp_def length_word_bits)
  also have "map (\<lambda>wi. popcount (w ! wi)) [0..<length w] = map popcount w"
    by (rule nth_equalityI) auto
  finally show ?thesis .
qed

section \<open>Little-endian bytes\<close>

definition le_bytes :: "nat \<Rightarrow> nat \<Rightarrow> u8 list" where
  "le_bytes k n = map (\<lambda>i. word_of_nat (n div 256 ^ i)) [0..<k]"

primrec le_nat :: "u8 list \<Rightarrow> nat" where
  "le_nat [] = 0"
| "le_nat (b # bs) = unat b + 256 * le_nat bs"

lemma length_le_bytes [simp]: "length (le_bytes k n) = k"
  by (simp add: le_bytes_def)

lemma le_bytes_Suc: "le_bytes (Suc k) n = word_of_nat n # le_bytes k (n div 256)"
  unfolding le_bytes_def upt_conv_Cons [OF zero_less_Suc] map_Suc_upt [symmetric]
  by (simp add: div_mult2_eq)

lemma le_nat_bytes: "le_nat (le_bytes k n) = n mod 256 ^ k"
proof (induction k arbitrary: n)
  case (Suc k)
  have "n mod 256 + 256 * (n div 256 mod 256 ^ k) = n mod (256 * 256 ^ k)"
    by (simp add: mod_mult2_eq)
  then show ?case by (simp add: le_bytes_Suc Suc unat_of_nat)
qed (simp add: le_bytes_def)

section \<open>Decimal numerals\<close>

text \<open>\<^verbatim>\<open>std::to_string\<close> of an unsigned number.\<close>

function to_string :: "nat \<Rightarrow> string" where
  "to_string n = (if n < 10 then [char_of (48 + n)] else to_string (n div 10) @ [char_of (48 + n mod 10)])"
  by pat_completeness auto
termination by (relation "measure id") auto

declare to_string.simps [simp del]

end
