(* ===== verification/SizeClass.thy ===== *)
theory SizeClass
  imports Prelude
begin

text \<open>
  The size classes of the arena allocator (src/libs/yikv/alloc/ft_allocator.cc, lines 24 to 219
  and 527 to 541): \<^verbatim>\<open>AlignUp\<close>, \<^verbatim>\<open>IsPowerOfTwo\<close>, \<^verbatim>\<open>BuildSizeClasses\<close>, \<^verbatim>\<open>find_class_tiny\<close> and
  \<^verbatim>\<open>find_class\<close>. Sizes that come from the caller are 64-bit words, because
  \<^verbatim>\<open>user_size + kHeaderSize\<close> may wrap; block sizes are natural numbers.
\<close>

section \<open>Constants\<close>

definition kHeaderSize :: nat where "kHeaderSize = 8"
definition kLargeExtSize :: nat where "kLargeExtSize = 8"
definition kLargeHdrSize :: nat where "kLargeHdrSize = kLargeExtSize + kHeaderSize"
definition kFreeChainSize :: nat where "kFreeChainSize = 16"
definition kMinBlockSize :: nat where "kMinBlockSize = kHeaderSize + kFreeChainSize"
definition kTinyStep :: nat where "kTinyStep = 8"
definition kMaxTinyTotal :: nat where "kMaxTinyTotal = 320"
definition kMaxSizeClasses :: nat where "kMaxSizeClasses = 64"
definition kDefaultSlabPages :: nat where "kDefaultSlabPages = 4"
definition kTlcCapacity :: nat where "kTlcCapacity = 32"

lemmas size_consts = kHeaderSize_def kLargeExtSize_def kLargeHdrSize_def kFreeChainSize_def
  kMinBlockSize_def kTinyStep_def kMaxTinyTotal_def kMaxSizeClasses_def kDefaultSlabPages_def
  kTlcCapacity_def

section \<open>Arithmetic helpers\<close>

definition AlignUp :: "nat \<Rightarrow> nat \<Rightarrow> nat" where
  "AlignUp v a = (v + a - 1) div a * a"

definition IsPowerOfTwo :: "u64 \<Rightarrow> bool" where
  "IsPowerOfTwo v \<longleftrightarrow> v \<noteq> 0 \<and> v AND (v - 1) = 0"

lemma AlignUp_bounds:
  assumes "0 < a"
  shows "v \<le> AlignUp v a" "AlignUp v a < v + a" "a dvd AlignUp v a"
proof -
  have "v + a - 1 = (v + a - 1) div a * a + (v + a - 1) mod a"
    by (rule div_mult_mod_eq [symmetric])
  moreover have "(v + a - 1) mod a \<le> a - 1"
    using mod_less_divisor [OF assms, of "v + a - 1"] by linarith
  moreover have "AlignUp v a = (v + a - 1) div a * a" by (simp add: AlignUp_def)
  ultimately show "v \<le> AlignUp v a" "AlignUp v a < v + a"
    using assms by linarith+
  show "a dvd AlignUp v a" by (simp add: AlignUp_def)
qed

text \<open>
  The test accepts exactly the words with one set bit, the powers of two.
\<close>

lemma IsPowerOfTwo_popcount: "IsPowerOfTwo v \<longleftrightarrow> popcount v = 1"
proof (cases "v = 0")
  case True
  then show ?thesis by (simp add: IsPowerOfTwo_def popcount_0_iff [THEN iffD2])
next
  case False
  have "popcount v = Suc (popcount (v AND (v - 1)))"
    using False by (metis length_Cons length_word_bits word_bits.simps)
  then show ?thesis using False by (simp add: IsPowerOfTwo_def popcount_0_iff)
qed

section \<open>The table of block sizes\<close>

text \<open>
  The first loop pushes 24, 32, ..., 320; the second pushes each of the middle sizes and the
  page size when it is larger than the last one pushed.
\<close>

function tiny_sizes :: "nat \<Rightarrow> nat list" where
  "tiny_sizes s = (if s \<le> kMaxTinyTotal then s # tiny_sizes (s + kTinyStep) else [])"
  by pat_completeness auto
termination
  by (relation "measure (\<lambda>s. kMaxTinyTotal + 1 - s)") (auto simp: size_consts)

declare tiny_sizes.simps [simp del]

definition push_middle :: "nat \<Rightarrow> nat list \<Rightarrow> nat list" where
  "push_middle s v = (if v = [] \<or> last v < s then v @ [s] else v)"

definition BuildSizeClasses :: "nat \<Rightarrow> (string + nat list)" where
  "BuildSizeClasses page_size =
     (let v = fold push_middle [384, 512, 768, 1024, 1536, 2048, 3072, page_size]
                (tiny_sizes kMinBlockSize)
      in if kMaxSizeClasses < length v then Inl ''too many size classes'' else Inr v)"

lemma tiny_sizes_eq: "tiny_sizes kMinBlockSize = map (\<lambda>i. 24 + i * 8) [0..<38]"
  by code_simp

definition middle_sizes :: "nat \<Rightarrow> nat list" where
  "middle_sizes page_size = [384, 512, 768, 1024, 1536, 2048, 3072] @ (if 3072 < page_size then [page_size] else [])"

lemma last_tiny: "last (tiny_sizes kMinBlockSize) = 320" "tiny_sizes kMinBlockSize \<noteq> []"
  by (code_simp, code_simp)

text \<open>The construction never throws, and the table is the 38 tiny sizes and the middle ones.\<close>

lemma BuildSizeClasses_eq:
  "BuildSizeClasses page_size = Inr (tiny_sizes kMinBlockSize @ middle_sizes page_size)"
proof -
  have len: "length (tiny_sizes kMinBlockSize) = 38" by (simp add: tiny_sizes_eq)
  have eq: "fold push_middle [384, 512, 768, 1024, 1536, 2048, 3072, page_size] (tiny_sizes kMinBlockSize)
        = tiny_sizes kMinBlockSize @ middle_sizes page_size"
    by (simp add: push_middle_def last_tiny middle_sizes_def)
  have "length (tiny_sizes kMinBlockSize @ middle_sizes page_size) \<le> kMaxSizeClasses"
    by (simp add: len middle_sizes_def kMaxSizeClasses_def)
  then show ?thesis by (simp only: BuildSizeClasses_def eq Let_def not_less [symmetric] if_False)
qed

definition size_table :: "nat \<Rightarrow> nat list" where
  "size_table page_size = tiny_sizes kMinBlockSize @ middle_sizes page_size"

lemma sorted_size_table: "sorted_wrt (<) (size_table page_size)"
proof -
  have tiny: "sorted_wrt (<) (tiny_sizes kMinBlockSize)" "\<forall>x \<in> set (tiny_sizes kMinBlockSize). x \<le> 320"
    by (code_simp, code_simp)
  have mid: "sorted_wrt (<) (middle_sizes page_size)" "\<forall>x \<in> set (middle_sizes page_size). 384 \<le> x"
    by (auto simp: middle_sizes_def)
  show ?thesis
    unfolding size_table_def sorted_wrt_append using tiny mid by fastforce
qed

section \<open>Looking a class up\<close>

text \<open>
  \<^verbatim>\<open>find_class_tiny\<close> computes the class of a small request, \<^verbatim>\<open>find_class\<close> scans the middle
  classes for the others; the answer \<open>None\<close> is the C++ answer -1, a large object.
\<close>

definition find_class_tiny :: "u64 \<Rightarrow> nat option" where
  "find_class_tiny total_needed =
     (let t = unat total_needed in
      if kMaxTinyTotal < t then None
      else if t \<le> kMinBlockSize then Some 0
      else Some ((t - kMinBlockSize + kTinyStep - 1) div kTinyStep))"

fun scan_classes :: "nat list \<Rightarrow> u64 \<Rightarrow> nat list \<Rightarrow> nat option" where
  "scan_classes block_sizes need [] = None"
| "scan_classes block_sizes need (i # is) =
     (if unat need \<le> block_sizes ! i then Some i else scan_classes block_sizes need is)"

definition tiny_count :: nat where
  "tiny_count = (kMaxTinyTotal - kMinBlockSize) div kTinyStep + 1"

definition find_class :: "nat list \<Rightarrow> u64 \<Rightarrow> nat option" where
  "find_class block_sizes user_size =
     (let need = user_size + of_nat kHeaderSize in
      case find_class_tiny need of
        Some c \<Rightarrow> Some c
      | None \<Rightarrow> scan_classes block_sizes need [tiny_count..<length block_sizes])"

lemma scan_classes_Some:
  "scan_classes bs need is = Some i \<Longrightarrow>
     i \<in> set is \<and> unat need \<le> bs ! i \<and> (sorted_wrt (<) is \<longrightarrow> (\<forall>j \<in> set is. j < i \<longrightarrow> bs ! j < unat need))"
  by (induction "is") (auto split: if_splits)

lemma scan_classes_None:
  "scan_classes bs need is = None \<longleftrightarrow> (\<forall>j \<in> set is. bs ! j < unat need)"
  by (induction "is") (auto simp: not_le)

lemma tiny_count_eq: "tiny_count = 38"
  by (simp add: tiny_count_def size_consts)

lemma size_table_tiny: "i < 38 \<Longrightarrow> size_table ps ! i = 24 + i * 8"
  by (simp add: size_table_def tiny_sizes_eq nth_append)

lemma size_table_middle: "38 \<le> i \<Longrightarrow> i < length (size_table ps) \<Longrightarrow> 384 \<le> size_table ps ! i"
proof -
  assume "38 \<le> i" "i < length (size_table ps)"
  then have "size_table ps ! i \<in> set (middle_sizes ps)"
    by (simp add: size_table_def tiny_sizes_eq nth_append)
  then show ?thesis by (auto simp: middle_sizes_def split: if_splits)
qed

lemma length_size_table: "length (size_table ps) = 45 + (if 3072 < ps then 1 else 0)"
  by (simp add: size_table_def tiny_sizes_eq middle_sizes_def)

lemma find_class_tiny_least:
  assumes "find_class_tiny need = Some c"
  shows "c < 38 \<and> unat need \<le> 24 + c * 8 \<and> (\<forall>j < c. 24 + j * 8 < unat need)"
proof (cases "unat need \<le> 24")
  case True
  then show ?thesis using assms by (auto simp: find_class_tiny_def size_consts)
next
  case False
  then have t: "unat need \<le> 320" "24 < unat need" and c: "c = (unat need - 24 + 7) div 8"
    using assms by (auto simp: find_class_tiny_def size_consts Let_def split: if_splits)
  have "c * 8 \<le> unat need - 24 + 7" "unat need - 24 + 7 < c * 8 + 8"
    unfolding c by (simp_all add: dividend_less_div_times mult.commute [of 8] div_times_less_eq_dividend)
  then show ?thesis using t by auto
qed

text \<open>The class returned is the least one whose blocks are large enough, and there is none
  exactly when the request is larger than every block.\<close>

lemma find_class_total:
  fixes user_size :: u64
  defines "need \<equiv> user_size + 8"
  shows "case find_class (size_table ps) user_size of
           Some c \<Rightarrow> c < length (size_table ps) \<and> unat need \<le> size_table ps ! c \<and>
                     (\<forall>j < c. size_table ps ! j < unat need)
         | None \<Rightarrow> \<forall>j < length (size_table ps). size_table ps ! j < unat need"
proof (cases "find_class_tiny need")
  case (Some c)
  then have "find_class (size_table ps) user_size = Some c"
    by (simp add: find_class_def need_def size_consts)
  then show ?thesis
    using find_class_tiny_least [OF Some] by (simp add: length_size_table size_table_tiny)
next
  case None
  then have big: "320 < unat need"
    by (auto simp: find_class_tiny_def Let_def size_consts split: if_splits)
  have fc: "find_class (size_table ps) user_size = scan_classes (size_table ps) need [38..<length (size_table ps)]"
    using None by (simp add: find_class_def need_def size_consts tiny_count_eq)
  have tiny: "j < 38 \<Longrightarrow> size_table ps ! j < unat need" for j
    using big by (simp add: size_table_tiny)
  show ?thesis
  proof (cases "scan_classes (size_table ps) need [38..<length (size_table ps)]")
    case None
    then have "\<forall>j \<in> set [38..<length (size_table ps)]. size_table ps ! j < unat need"
      by (simp only: scan_classes_None)
    then show ?thesis using fc None tiny by (auto simp: not_less)
  next
    case (Some c)
    from scan_classes_Some [OF Some] show ?thesis
      using fc Some tiny by (fastforce simp: not_less)
  qed
qed

text \<open>(C6) The size class of a request whose size plus header does not overflow is the least class whose
  blocks hold the request and its header; a request gets no class exactly when every block is too
  small. The tiny classes are found by arithmetic, the others by a scan, and both agree.\<close>

theorem find_class_least:
  fixes user_size :: u64
  assumes "unat user_size + kHeaderSize < 2 ^ 64"
  shows "case find_class (size_table ps) user_size of
           Some c \<Rightarrow> c < length (size_table ps) \<and> unat user_size + kHeaderSize \<le> size_table ps ! c \<and>
                     (\<forall>j < c. size_table ps ! j < unat user_size + kHeaderSize)
         | None \<Rightarrow> \<forall>j < length (size_table ps). size_table ps ! j < unat user_size + kHeaderSize"
proof -
  have "unat (user_size + 8) = unat user_size + kHeaderSize"
    using assms by (simp add: kHeaderSize_def unat_word_ariths)
  then show ?thesis using find_class_total [of ps user_size] by (simp only:)
qed

theorem find_class_least_witness:
  "unat (400 :: u64) + kHeaderSize < 2 ^ 64 \<and> find_class (size_table 4096) 400 = Some 39 \<and>
   size_table 4096 ! 38 < unat (400 :: u64) + kHeaderSize"
proof -
  have h: "unat (400 :: u64) + kHeaderSize < 2 ^ 64" by (simp add: kHeaderSize_def)
  have c: "find_class (size_table 4096) 400 = Some 39" by code_simp
  show ?thesis using find_class_least [OF h, of 4096] h c by simp
qed

text \<open>A defect of the size arithmetic: the sum of the request and the header wraps around, so the
  largest requests are served from the smallest class instead of being refused.\<close>

theorem find_class_wraps: "2 ^ 64 - 8 \<le> unat (user_size :: u64) \<Longrightarrow> find_class (size_table ps) user_size = Some 0"
proof -
  assume "2 ^ 64 - 8 \<le> unat user_size"
  moreover have "unat user_size < 2 ^ 64" using unsigned_less [of user_size] by simp
  ultimately have "unat (user_size + 8) < 8" by (simp add: unat_word_ariths mod_if) linarith
  then have "find_class_tiny (user_size + 8) = Some 0" by (simp add: find_class_tiny_def size_consts)
  then show ?thesis by (simp add: find_class_def size_consts)
qed

theorem find_class_wraps_witness: "find_class (size_table 4096) (- 1) = Some 0"
  by (rule find_class_wraps) (simp add: unsigned_minus_1_eq_mask mask_eq_exp_minus_1)

end
