(* ===== verification/Segments.thy ===== *)
theory Segments
  imports SizeClass
begin

text \<open>
  The segmented memory mapping \<^verbatim>\<open>MappedFile\<close> of the arena allocator
  (src/libs/yikv/alloc/ft_allocator.cc): one contiguous virtual range is reserved, and the segment
  files that back it are opened, truncated and mapped one by one, on demand.

  The operating system is outside the sources, so it is a parameter: \<open>reserve n\<close> says whether
  reserving \<open>n\<close> bytes of address space succeeds, \<open>exists p\<close> whether the file \<open>p\<close> is there, and
  \<open>os p c\<close> whether opening (creating when \<open>c\<close>), truncating and mapping the file \<open>p\<close> succeeds. An
  exception of the sources is an error value together with the state at the throw.
\<close>

datatype alloc_error = BadAlloc | SystemError | InvalidArgument string | RuntimeError string
  | OutOfRange | LogicError string | Nonterminating

record AllocatorOptions =
  opt_path :: string
  opt_arena_size :: nat
  opt_segment_size :: nat
  opt_max_arena_size :: nat
  opt_page_size :: nat
  opt_concurrent :: bool
  opt_create_if_missing :: bool
  opt_reclaim_delay_ns :: u64

record mapped_file =
  path :: string
  base_set :: bool
  virtual_size :: nat
  segment_size :: nat
  seg_mapped :: "bool list"

section \<open>Mapping segments\<close>

definition seg_path :: "mapped_file \<Rightarrow> nat \<Rightarrow> string" where
  "seg_path m seg_idx = (if seg_idx = 0 then path m else path m @ ''.seg'' @ to_string seg_idx)"

definition map_segment ::
  "(string \<Rightarrow> bool \<Rightarrow> bool) \<Rightarrow> nat \<Rightarrow> bool \<Rightarrow> mapped_file \<Rightarrow> alloc_error option \<times> mapped_file" where
  "map_segment os seg_idx allow_create m =
     (if \<not> base_set m then (Some (RuntimeError ''mapping is not reserved''), m)
      else if virtual_size m \<le> seg_idx * segment_size m then (Some BadAlloc, m)
      else if path m = [] then (None, m)
      else
        let sm = (if length (seg_mapped m) \<le> seg_idx
                  then seg_mapped m @ replicate (seg_idx + 1 - length (seg_mapped m)) False
                  else seg_mapped m);
            m' = m\<lparr>seg_mapped := sm\<rparr>
        in if sm ! seg_idx then (None, m')
           else if \<not> os (seg_path m seg_idx) allow_create then (Some SystemError, m')
           else (None, m'\<lparr>seg_mapped := sm[seg_idx := True]\<rparr>))"

fun map_segments ::
  "(string \<Rightarrow> bool \<Rightarrow> bool) \<Rightarrow> nat list \<Rightarrow> mapped_file \<Rightarrow> alloc_error option \<times> mapped_file" where
  "map_segments os [] m = (None, m)"
| "map_segments os (s # ss) m =
     (if length (seg_mapped m) \<le> s \<or> \<not> seg_mapped m ! s
      then case map_segment os s True m of
             (Some e, m') \<Rightarrow> (Some e, m')
           | (None, m') \<Rightarrow> map_segments os ss m'
      else map_segments os ss m)"

definition EnsureMapped ::
  "(string \<Rightarrow> bool \<Rightarrow> bool) \<Rightarrow> nat \<Rightarrow> nat \<Rightarrow> mapped_file \<Rightarrow> alloc_error option \<times> mapped_file" where
  "EnsureMapped os off bytes m =
     (if \<not> base_set m \<or> path m = [] \<or> bytes = 0 then (None, m)
      else map_segments os
             [off div segment_size m..<(off + bytes - 1) div segment_size m + 1] m)"

section \<open>Opening and closing\<close>

definition Close_mapping :: "mapped_file \<Rightarrow> mapped_file" where
  "Close_mapping m = \<lparr>path = [], base_set = False, virtual_size = 0, segment_size = 0, seg_mapped = []\<rparr>"

text \<open>The loop over the segment files left by an earlier run; it stops at the first missing one.\<close>

fun map_existing ::
  "(string \<Rightarrow> bool \<Rightarrow> bool) \<Rightarrow> (string \<Rightarrow> bool) \<Rightarrow> nat list \<Rightarrow> mapped_file \<Rightarrow>
   alloc_error option \<times> mapped_file" where
  "map_existing os exists [] m = (None, m)"
| "map_existing os exists (i # is) m =
     (if \<not> exists (seg_path m i) then (None, m)
      else case map_segment os i False m of
             (Some e, m') \<Rightarrow> (Some e, m')
           | (None, m') \<Rightarrow> map_existing os exists is m')"

definition Open_mapping ::
  "(nat \<Rightarrow> bool) \<Rightarrow> (string \<Rightarrow> bool \<Rightarrow> bool) \<Rightarrow> (string \<Rightarrow> bool) \<Rightarrow> AllocatorOptions \<Rightarrow> mapped_file \<Rightarrow>
   alloc_error option \<times> mapped_file" where
  "Open_mapping reserve os exists opts m =
     (let m0 = Close_mapping m in
      if opt_arena_size opts < 1024 * 1024
      then (Some (InvalidArgument ''arena_size must be >= 1 MiB''), m0)
      else if opt_path opts = [] then
        (if \<not> reserve (opt_arena_size opts) then (Some SystemError, m0)
         else (None, m0\<lparr>base_set := True, virtual_size := opt_arena_size opts\<rparr>))
      else
        let vs = (if opt_max_arena_size opts \<noteq> 0 then opt_max_arena_size opts else opt_arena_size opts);
            m1 = m0\<lparr>path := opt_path opts, virtual_size := vs\<rparr>
        in if vs < opt_arena_size opts
           then (Some (InvalidArgument ''max_arena_size must be >= arena_size''), m1)
           else
             let seg0 = (if opt_segment_size opts \<noteq> 0 then opt_segment_size opts else 2 ^ 30);
                 seg = (if \<not> opt_arena_size opts < vs then opt_arena_size opts
                        else if seg0 < opt_arena_size opts then opt_arena_size opts else seg0);
                 m2 = m1\<lparr>segment_size := seg\<rparr>
             in if \<not> reserve vs then (Some SystemError, m2)
                else case map_segment os 0 (opt_create_if_missing opts) (m2\<lparr>base_set := True\<rparr>) of
                       (Some e, m') \<Rightarrow> (Some e, m')
                     | (None, m') \<Rightarrow> map_existing os exists [1..<(vs + seg - 1) div seg] m')"

section \<open>What mapping a range does\<close>

definition seg_is_mapped :: "mapped_file \<Rightarrow> nat \<Rightarrow> bool" where
  "seg_is_mapped m i \<longleftrightarrow> i < length (seg_mapped m) \<and> seg_mapped m ! i"

text \<open>Mapping changes only the set of mapped segments, and only adds to it.\<close>

definition mapping_grows :: "mapped_file \<Rightarrow> mapped_file \<Rightarrow> bool" where
  "mapping_grows m m' \<longleftrightarrow> m' = m\<lparr>seg_mapped := seg_mapped m'\<rparr> \<and>
     (\<forall>i. seg_is_mapped m i \<longrightarrow> seg_is_mapped m' i)"

lemma mapping_grows_refl [simp]: "mapping_grows m m"
  by (simp add: mapping_grows_def)

lemma mapping_grows_mapped: "mapping_grows m m' \<Longrightarrow> seg_is_mapped m i \<Longrightarrow> seg_is_mapped m' i"
  by (simp add: mapping_grows_def)

lemma mapping_grows_trans: "mapping_grows m m' \<Longrightarrow> mapping_grows m' m'' \<Longrightarrow> mapping_grows m m''"
  by (auto simp: mapping_grows_def) (metis mapped_file.surjective mapped_file.update_convs(5))

lemma mapping_grows_fields:
  assumes "mapping_grows m m'"
  shows "path m' = path m" "base_set m' = base_set m" "virtual_size m' = virtual_size m"
    "segment_size m' = segment_size m" "seg_path m' = seg_path m"
proof -
  from assms have e: "m' = m\<lparr>seg_mapped := seg_mapped m'\<rparr>" by (simp add: mapping_grows_def)
  show "path m' = path m" "base_set m' = base_set m" "virtual_size m' = virtual_size m"
    "segment_size m' = segment_size m" by (subst e, simp)+
  then show "seg_path m' = seg_path m" by (auto simp: seg_path_def)
qed

lemma map_segment_spec:
  assumes "map_segment os i c m = (r, m')" "base_set m" "path m \<noteq> []"
  shows "mapping_grows m m'"
    "r = None \<Longrightarrow> seg_is_mapped m' i"
    "r = Some e \<Longrightarrow> e = BadAlloc \<and> virtual_size m \<le> i * segment_size m \<or>
       e = SystemError \<and> \<not> os (seg_path m i) c"
  using assms
  by (auto simp: map_segment_def mapping_grows_def seg_is_mapped_def nth_append Let_def
        nth_list_update split: if_splits)

lemma map_segments_spec:
  assumes "map_segments os is m = (r, m')" "base_set m" "path m \<noteq> []"
  shows "mapping_grows m m' \<and> (r = None \<longrightarrow> (\<forall>i \<in> set is. seg_is_mapped m' i)) \<and>
    (\<forall>e. r = Some e \<longrightarrow> (\<exists>i \<in> set is. e = BadAlloc \<and> virtual_size m \<le> i * segment_size m \<or>
       e = SystemError \<and> \<not> os (seg_path m i) True))"
  using assms
proof (induction "is" arbitrary: m)
  case (Cons i "is")
  show ?case
  proof (cases "seg_is_mapped m i")
    case True
    then have "map_segments os is m = (r, m')" using Cons.prems(1) by (auto simp: seg_is_mapped_def)
    from Cons.IH [OF this Cons.prems(2,3)] show ?thesis using True by (auto dest: mapping_grows_mapped)
  next
    case False
    obtain r1 m1 where s: "map_segment os i True m = (r1, m1)" by fastforce
    note spec = map_segment_spec [OF s Cons.prems(2,3)]
    show ?thesis
    proof (cases r1)
      case (Some e)
      then show ?thesis using Cons.prems(1) False s spec by (auto simp: seg_is_mapped_def)
    next
      case None
      then have "map_segments os is m1 = (r, m')" using Cons.prems(1) False s by (auto simp: seg_is_mapped_def)
      note ih = Cons.IH [OF this]
      note f = mapping_grows_fields [OF spec(1)]
      from ih have "mapping_grows m1 m' \<and> (r = None \<longrightarrow> (\<forall>i \<in> set is. seg_is_mapped m' i)) \<and>
        (\<forall>e. r = Some e \<longrightarrow> (\<exists>i \<in> set is. e = BadAlloc \<and> virtual_size m \<le> i * segment_size m \<or>
          e = SystemError \<and> \<not> os (seg_path m i) True))" using f Cons.prems(2,3) by simp
      then show ?thesis using mapping_grows_trans [OF spec(1)] mapping_grows_mapped [OF _ spec(2) [OF None]]
        by auto
    qed
  qed
qed simp

lemma map_existing_grows:
  "map_existing os exists is m = (r, m') \<Longrightarrow> base_set m \<Longrightarrow> path m \<noteq> [] \<Longrightarrow> mapping_grows m m'"
proof (induction "is" arbitrary: m)
  case (Cons i "is")
  obtain r1 m1 where s: "map_segment os i False m = (r1, m1)" by fastforce
  note g = map_segment_spec(1) [OF s Cons.prems(2,3)]
  show ?case
  proof (cases "exists (seg_path m i) \<and> r1 = None")
    case True
    then have "map_existing os exists is m1 = (r, m')" using Cons.prems(1) s by simp
    then show ?thesis using Cons.IH [of m1] mapping_grows_fields [OF g] Cons.prems mapping_grows_trans [OF g] by simp
  next
    case False
    then show ?thesis using Cons.prems(1) s g by (auto split: if_splits option.splits)
  qed
qed simp

lemma Open_mapping_file:
  assumes "Open_mapping reserve os exists opts m = (None, m')" "opt_path opts \<noteq> []"
  shows "base_set m' \<and> path m' = opt_path opts \<and> opt_arena_size opts \<le> virtual_size m' \<and>
    opt_arena_size opts \<le> segment_size m' \<and> seg_is_mapped m' 0 \<and> 1048576 \<le> opt_arena_size opts"
proof -
  from assms obtain m2 m3 where
      s: "map_segment os 0 (opt_create_if_missing opts) m2 = (None, m3)"
      and e: "map_existing os exists [1..<(virtual_size m2 + segment_size m2 - 1) div segment_size m2] m3 = (None, m')"
      and f: "base_set m2" "path m2 = opt_path opts" "opt_arena_size opts \<le> virtual_size m2"
        "opt_arena_size opts \<le> segment_size m2" "1048576 \<le> opt_arena_size opts"
    by (force simp: Open_mapping_def Let_def split: if_splits prod.splits option.splits)
  have g1: "mapping_grows m2 m3" and z: "seg_is_mapped m3 0"
    using map_segment_spec [OF s] f assms(2) by auto
  have g2: "mapping_grows m3 m'"
    using map_existing_grows [OF e] mapping_grows_fields [OF g1] f assms(2) by simp
  show ?thesis
    using mapping_grows_fields [OF g1] mapping_grows_fields [OF g2] f
      mapping_grows_mapped [OF g2 z] by simp
qed

text \<open>Mapping on demand is complete: when \<^verbatim>\<open>EnsureMapped\<close> returns on an open file-backed mapping,
  every byte of the range lies in a mapped segment and no segment was unmapped. It throws only when
  the range reaches past the reserved address space or the operating system refuses a segment.\<close>

theorem EnsureMapped_covers:
  assumes "base_set m" "path m \<noteq> []" "0 < bytes" "0 < segment_size m" "EnsureMapped os off bytes m = (r, m')"
  shows "mapping_grows m m' \<and>
    (case r of
       None \<Rightarrow> \<forall>b. off \<le> b \<and> b < off + bytes \<longrightarrow> seg_is_mapped m' (b div segment_size m)
     | Some e \<Rightarrow> e = BadAlloc \<and> virtual_size m < off + bytes \<or>
                 e = SystemError \<and> (\<exists>i. \<not> os (seg_path m i) True))"
proof -
  let ?is = "[off div segment_size m..<(off + bytes - 1) div segment_size m + 1]"
  have ms: "map_segments os ?is m = (r, m')" using assms by (simp add: EnsureMapped_def)
  note all = map_segments_spec [OF ms assms(1,2)]
  have bad: "virtual_size m < off + bytes" if "i \<in> set ?is" "virtual_size m \<le> i * segment_size m" for i
  proof -
    have "i * segment_size m \<le> (off + bytes - 1) div segment_size m * segment_size m"
      using that(1) by (intro mult_right_mono) auto
    also have "\<dots> \<le> off + bytes - 1" by (rule div_times_less_eq_dividend)
    finally show ?thesis using that(2) assms(3) by linarith
  qed
  have inr: "b div segment_size m \<in> set ?is" if "off \<le> b" "b < off + bytes" for b
  proof -
    have "b \<le> off + bytes - 1" using that assms(3) by linarith
    then have "b div segment_size m \<le> (off + bytes - 1) div segment_size m" by (rule div_le_mono)
    then show ?thesis using div_le_mono [OF that(1), of "segment_size m"]
      by (simp only: set_upt atLeastLessThan_iff less_Suc_eq_le Suc_eq_plus1 [symmetric] simp_thms)
  qed
  show ?thesis
  proof (cases r)
    case None
    then have "\<forall>i \<in> set ?is. seg_is_mapped m' i" using all by blast
    then have "\<forall>b. off \<le> b \<and> b < off + bytes \<longrightarrow> seg_is_mapped m' (b div segment_size m)"
      using inr by blast
    then show ?thesis using None all by simp
  next
    case (Some e)
    with all obtain i where "i \<in> set ?is"
      "e = BadAlloc \<and> virtual_size m \<le> i * segment_size m \<or> e = SystemError \<and> \<not> os (seg_path m i) True"
      by blast
    then show ?thesis using Some all bad [of i] by (auto simp del: set_upt)
  qed
qed

theorem EnsureMapped_covers_witness:
  "\<exists>m'. EnsureMapped (\<lambda>_ _. True) 5 4 \<lparr>path = ''a'', base_set = True, virtual_size = 9, segment_size = 3, seg_mapped = [True]\<rparr>
     = (None, m') \<and> seg_is_mapped m' (8 div 3)"
proof -
  let ?m = "\<lparr>path = ''a'', base_set = True, virtual_size = 9, segment_size = 3, seg_mapped = [True]\<rparr>"
  have e: "EnsureMapped (\<lambda>_ _. True) 5 4 ?m = (None, ?m\<lparr>seg_mapped := [True, True, True]\<rparr>)"
    by (simp add: EnsureMapped_def map_segment_def upt_rec Let_def)
  from EnsureMapped_covers [OF _ _ _ _ e]
  have "\<forall>b. 5 \<le> b \<and> b < 9 \<longrightarrow> seg_is_mapped (?m\<lparr>seg_mapped := [True, True, True]\<rparr>) (b div 3)" by simp
  from this [THEN spec, of 8] e show ?thesis by auto
qed

end
