(* ===== verification/Doc.thy ===== *)
theory Doc
  imports Segments
begin

text \<open>
  Documents stored in an arena (\<^verbatim>\<open>src/libs/yikv/index/doc.h\<close>, \<^verbatim>\<open>doc.cc\<close>).

  A document is a root block (a header and 16-byte slots) and one payload block per
  variable-length field.  The model works on bytes: \<open>hp_mem\<close> gives the bytes of each block by
  its offset, exactly as many as were requested, and an access outside them is the error
  \<open>OutOfBounds\<close>; a freed block has no bytes, so a use after free is such an error too.  Pointers
  are arena offsets, so \<^verbatim>\<open>OffsetToPtr\<close> and \<^verbatim>\<open>PtrToOffset\<close> are identities.

  As in the C++ class, documents use an allocator only through its interface: the record
  \<open>Allocator\<close> holds \<^verbatim>\<open>Malloc\<close> and the delayed \<^verbatim>\<open>Free\<close> on some state, and the locale
  \<open>block_allocator\<close> states what documents rely on.  The bytes a new block holds are those of
  \<open>al_junk\<close>.  Values of a C++ type are their bytes or words; \<^verbatim>\<open>int32_t\<close> and \<^verbatim>\<open>float\<close> are 32-bit
  patterns, \<^verbatim>\<open>int64_t\<close> and \<^verbatim>\<open>double\<close> 64-bit patterns, as the code stores them.
\<close>

section \<open>Heap and allocator interface\<close>

type_synonym bytes = "u8 list"

record 'st heap =
  hp_st :: 'st
  hp_mem :: "nat \<Rightarrow> bytes"

record 'st Allocator =
  al_malloc :: "nat \<Rightarrow> 'st \<Rightarrow> (alloc_error + nat) \<times> 'st"
  al_free :: "nat \<Rightarrow> 'st \<Rightarrow> alloc_error option \<times> 'st"
  al_junk :: "nat \<Rightarrow> nat \<Rightarrow> u8"

datatype doc_error = Thrown alloc_error | OutOfBounds

type_synonym ('st, 'a) act = "'st heap \<Rightarrow> (doc_error + 'a) \<times> 'st heap"

definition hret :: "'a \<Rightarrow> ('st, 'a) act" where
  "hret x h = (Inr x, h)"

definition hthen :: "('st, 'a) act \<Rightarrow> ('a \<Rightarrow> ('st, 'b) act) \<Rightarrow> ('st, 'b) act" where
  "hthen m k h = (case m h of (Inl e, h') \<Rightarrow> (Inl e, h') | (Inr x, h') \<Rightarrow> k x h')"

definition slice :: "nat \<Rightarrow> nat \<Rightarrow> 'a list \<Rightarrow> 'a list" where
  "slice i n xs = take n (drop i xs)"

definition splice_at :: "nat \<Rightarrow> 'a list \<Rightarrow> 'a list \<Rightarrow> 'a list" where
  "splice_at i bs xs = take i xs @ bs @ drop (i + length bs) xs"

definition load :: "nat \<Rightarrow> nat \<Rightarrow> nat \<Rightarrow> ('st, bytes) act" where
  "load p i n h =
     (if i + n \<le> length (hp_mem h p) then (Inr (slice i n (hp_mem h p)), h) else (Inl OutOfBounds, h))"

definition store :: "nat \<Rightarrow> nat \<Rightarrow> bytes \<Rightarrow> ('st, unit) act" where
  "store p i bs h =
     (if i + length bs \<le> length (hp_mem h p)
      then (Inr (), h\<lparr>hp_mem := (hp_mem h)(p := splice_at i bs (hp_mem h p))\<rparr>)
      else (Inl OutOfBounds, h))"

definition load_nat :: "nat \<Rightarrow> nat \<Rightarrow> nat \<Rightarrow> ('st, nat) act" where
  "load_nat k p i = hthen (load p i k) (\<lambda>bs. hret (le_nat bs))"

definition store_nat :: "nat \<Rightarrow> nat \<Rightarrow> nat \<Rightarrow> nat \<Rightarrow> ('st, unit) act" where
  "store_nat k p i v = store p i (le_bytes k v)"

definition hmalloc :: "'st Allocator \<Rightarrow> nat \<Rightarrow> ('st, nat) act" where
  "hmalloc A n h = (case al_malloc A n (hp_st h) of
       (Inl e, s) \<Rightarrow> (Inl (Thrown e), h\<lparr>hp_st := s\<rparr>)
     | (Inr p, s) \<Rightarrow> (Inr p, h\<lparr>hp_st := s, hp_mem := (hp_mem h)(p := map (al_junk A p) [0..<n])\<rparr>))"

definition hfree :: "'st Allocator \<Rightarrow> nat \<Rightarrow> ('st, unit) act" where
  "hfree A p h = (case al_free A p (hp_st h) of
       (Some e, s) \<Rightarrow> (Inl (Thrown e), h\<lparr>hp_st := s\<rparr>)
     | (None, s) \<Rightarrow> (Inr (), h\<lparr>hp_st := s, hp_mem := (hp_mem h)(p := [])\<rparr>))"

definition free_if :: "'st Allocator \<Rightarrow> nat \<Rightarrow> ('st, unit) act" where
  "free_if A b = (if b \<noteq> 0 then hfree A b else hret ())"

section \<open>The document\<close>

text \<open>\<^verbatim>\<open>sizeof(DocHeader)\<close> is 8 and \<^verbatim>\<open>sizeof(Slot)\<close> is 16.\<close>

definition slot_pos :: "nat \<Rightarrow> nat" where
  "slot_pos fid = 8 + 16 * fid"

definition Doc_new :: "'st Allocator \<Rightarrow> nat \<Rightarrow> nat \<Rightarrow> ('st, nat) act" where
  "Doc_new A n_slots doc_id =
     hthen (hmalloc A (8 + n_slots * 16)) (\<lambda>d.
     hthen (store d 0 (replicate (8 + n_slots * 16) 0)) (\<lambda>_.
     hthen (store_nat 4 d 0 doc_id) (\<lambda>_.
     hthen (store_nat 4 d 4 n_slots) (\<lambda>_. hret d))))"

definition get_doc_id :: "nat \<Rightarrow> ('st, nat) act" where
  "get_doc_id d = load_nat 4 d 0"

definition slot_a :: "nat \<Rightarrow> nat \<Rightarrow> ('st, nat) act" where
  "slot_a d fid = load_nat 8 d (slot_pos fid)"

definition slot_b :: "nat \<Rightarrow> nat \<Rightarrow> ('st, nat) act" where
  "slot_b d fid = load_nat 8 d (slot_pos fid + 8)"

definition set_slot_a :: "nat \<Rightarrow> nat \<Rightarrow> nat \<Rightarrow> ('st, unit) act" where
  "set_slot_a d fid v = store_nat 8 d (slot_pos fid) v"

definition set_slot_b :: "nat \<Rightarrow> nat \<Rightarrow> nat \<Rightarrow> ('st, unit) act" where
  "set_slot_b d fid v = store_nat 8 d (slot_pos fid + 8) v"

definition set_slot :: "nat \<Rightarrow> nat \<Rightarrow> nat \<Rightarrow> nat \<Rightarrow> ('st, unit) act" where
  "set_slot d fid a b = hthen (set_slot_a d fid a) (\<lambda>_. set_slot_b d fid b)"

definition get_int32 :: "nat \<Rightarrow> nat \<Rightarrow> ('st, u32) act" where
  "get_int32 d fid = hthen (slot_a d fid) (\<lambda>a. hret (word_of_nat a))"

definition put_int32 :: "nat \<Rightarrow> nat \<Rightarrow> u32 \<Rightarrow> ('st, unit) act" where
  "put_int32 d fid v = set_slot d fid (unat v) 0"

definition get_int64 :: "nat \<Rightarrow> nat \<Rightarrow> ('st, u64) act" where
  "get_int64 d fid = hthen (slot_a d fid) (\<lambda>a. hret (word_of_nat a))"

definition put_int64 :: "nat \<Rightarrow> nat \<Rightarrow> u64 \<Rightarrow> ('st, unit) act" where
  "put_int64 d fid v = set_slot d fid (unat v) 0"

definition get_float :: "nat \<Rightarrow> nat \<Rightarrow> ('st, u32) act" where
  "get_float d fid = hthen (slot_a d fid) (\<lambda>a. hret (word_of_nat a))"

definition put_float :: "nat \<Rightarrow> nat \<Rightarrow> u32 \<Rightarrow> ('st, unit) act" where
  "put_float d fid v = set_slot d fid (unat v) 0"

definition get_double :: "nat \<Rightarrow> nat \<Rightarrow> ('st, u64) act" where
  "get_double d fid = hthen (slot_a d fid) (\<lambda>a. hret (word_of_nat a))"

definition put_double :: "nat \<Rightarrow> nat \<Rightarrow> u64 \<Rightarrow> ('st, unit) act" where
  "put_double d fid v = set_slot d fid (unat v) 0"

definition get_string :: "nat \<Rightarrow> nat \<Rightarrow> ('st, bytes) act" where
  "get_string d fid =
     hthen (slot_b d fid) (\<lambda>b. if b = 0 then hret [] else
     hthen (slot_a d fid) (\<lambda>a. load b 0 a))"

fun retire_slots :: "'st Allocator \<Rightarrow> nat \<Rightarrow> nat list \<Rightarrow> ('st, unit) act" where
  "retire_slots A d [] = hret ()"
| "retire_slots A d (i # is) =
     hthen (slot_b d i) (\<lambda>b. hthen (free_if A b) (\<lambda>_. retire_slots A d is))"

definition Retire :: "'st Allocator \<Rightarrow> nat \<Rightarrow> ('st, unit) act" where
  "Retire A d = (if d = 0 then hret ()
     else hthen (load_nat 4 d 4) (\<lambda>n. hthen (retire_slots A d [0..<n]) (\<lambda>_. hfree A d)))"

definition put_string :: "'st Allocator \<Rightarrow> nat \<Rightarrow> nat \<Rightarrow> bytes \<Rightarrow> ('st, unit) act" where
  "put_string A d fid v =
     hthen (slot_b d fid) (\<lambda>b.
     hthen (free_if A b) (\<lambda>_.
     hthen (hmalloc A (if 0 < length v then length v else 1)) (\<lambda>mem.
     hthen (if 0 < length v then store mem 0 v else hret ()) (\<lambda>_.
     set_slot d fid (length v) mem))))"

section \<open>Arrays of fixed-size elements\<close>

text \<open>
  An element is its \<open>w\<close> bytes (\<open>w = sizeof(T)\<close>).  The data pointer of a caller may be null
  (\<open>None\<close>); otherwise it gives \<open>count\<close> elements.  Capacities are \<^verbatim>\<open>uint64_t\<close>, with the
  wrap-around of \<^verbatim>\<open>(count + 1) * 12\<close> and of the byte count written out.
\<close>

definition array_size :: "nat \<Rightarrow> nat \<Rightarrow> ('st, nat) act" where
  "array_size d fid = hthen (slot_a d fid) (\<lambda>a. hret (a mod 2 ^ 32))"

definition array_capacity :: "nat \<Rightarrow> nat \<Rightarrow> ('st, nat) act" where
  "array_capacity d fid = hthen (slot_b d fid) (\<lambda>b. if b = 0 then hret 0 else load_nat 8 b 0)"

definition array_get :: "nat \<Rightarrow> nat \<Rightarrow> nat \<Rightarrow> nat \<Rightarrow> ('st, bytes) act" where
  "array_get w d fid i = hthen (slot_b d fid) (\<lambda>b. load b (8 + i * w) w)"

definition array_view :: "nat \<Rightarrow> nat \<Rightarrow> nat \<Rightarrow> ('st, bytes) act" where
  "array_view w d fid =
     hthen (array_size d fid) (\<lambda>n. if n = 0 then hret [] else
     hthen (slot_b d fid) (\<lambda>b. load b 8 (n * w)))"

definition put_cap :: "nat \<Rightarrow> nat" where
  "put_cap count = (let cap = count * 12 div 10; cap1 = (if cap < count then count else cap)
     in if cap1 = 0 then 1 else cap1)"

definition new_array :: "'st Allocator \<Rightarrow> nat \<Rightarrow> nat \<Rightarrow> ('st, nat) act" where
  "new_array A w cap =
     hthen (hmalloc A ((8 + cap * w) mod 2 ^ 64)) (\<lambda>mem.
     hthen (store mem 0 (replicate ((8 + cap * w) mod 2 ^ 64) 0)) (\<lambda>_.
     hthen (store_nat 8 mem 0 cap) (\<lambda>_. hret mem)))"

definition array_put_impl :: "'st Allocator \<Rightarrow> nat \<Rightarrow> nat \<Rightarrow> nat \<Rightarrow> bytes list option \<Rightarrow> nat
    \<Rightarrow> ('st, unit) act" where
  "array_put_impl A w d fid data count =
     hthen (slot_b d fid) (\<lambda>b.
     hthen (free_if A b) (\<lambda>_.
     hthen (new_array A w (put_cap count)) (\<lambda>mem.
     hthen (case data of
         Some xs \<Rightarrow> if 0 < count then store mem 8 (concat (take count xs)) else hret ()
       | None \<Rightarrow> hret ()) (\<lambda>_.
     set_slot d fid count mem))))"

definition append_cap :: "nat \<Rightarrow> nat" where
  "append_cap count = (let new_cap = ((count + 1) * 12 mod 2 ^ 64) div 10
     in if new_cap \<le> count then count + 1 else new_cap)"

definition array_append_impl :: "'st Allocator \<Rightarrow> nat \<Rightarrow> nat \<Rightarrow> nat \<Rightarrow> bytes \<Rightarrow> ('st, unit) act" where
  "array_append_impl A w d fid val =
     hthen (slot_a d fid) (\<lambda>count.
     hthen (array_capacity d fid) (\<lambda>cap.
     hthen (slot_b d fid) (\<lambda>old_off.
     if count < cap then
       hthen (store old_off (8 + count * w) val) (\<lambda>_. set_slot_a d fid (count + 1))
     else
       hthen (new_array A w (append_cap count)) (\<lambda>mem.
       hthen (if 0 < count
              then hthen (load old_off 8 (count * w)) (\<lambda>old. store mem 8 old) else hret ()) (\<lambda>_.
       hthen (store mem (8 + count * w) val) (\<lambda>_.
       hthen (free_if A old_off) (\<lambda>_.
       set_slot d fid (count + 1) mem)))))))"

definition batch_cap :: "nat \<Rightarrow> nat" where
  "batch_cap need = (let new_cap = (need + need div 5) mod 2 ^ 64
     in if new_cap < need then need else new_cap)"

definition array_append_batch_impl :: "'st Allocator \<Rightarrow> nat \<Rightarrow> nat \<Rightarrow> nat \<Rightarrow> bytes list option \<Rightarrow> nat
    \<Rightarrow> ('st, unit) act" where
  "array_append_batch_impl A w d fid data count =
     (case data of None \<Rightarrow> hret () | Some xs \<Rightarrow> if count = 0 then hret () else
     hthen (slot_b d fid) (\<lambda>old_off.
     if old_off = 0 then array_put_impl A w d fid data count
     else
       hthen (slot_a d fid) (\<lambda>cur_count.
       hthen (array_capacity d fid) (\<lambda>cap.
       let need_count = (cur_count + count) mod 2 ^ 64 in
       if need_count \<le> cap then
         hthen (store old_off (8 + cur_count * w) (concat (take count xs))) (\<lambda>_.
         set_slot_a d fid need_count)
       else
         hthen (new_array A w (batch_cap need_count)) (\<lambda>mem.
         hthen (if 0 < cur_count
                then hthen (load old_off 8 (cur_count * w)) (\<lambda>old. store mem 8 old) else hret ()) (\<lambda>_.
         hthen (store mem (8 + cur_count * w) (concat (take count xs))) (\<lambda>_.
         hthen (free_if A old_off) (\<lambda>_.
         set_slot d fid need_count mem))))))))"

text \<open>The typed entry points.\<close>

definition array_get_int32 :: "nat \<Rightarrow> nat \<Rightarrow> nat \<Rightarrow> ('st, u32) act" where
  "array_get_int32 d fid i = hthen (array_get 4 d fid i) (\<lambda>bs. hret (word_of_nat (le_nat bs)))"

definition array_put_int32 :: "'st Allocator \<Rightarrow> nat \<Rightarrow> nat \<Rightarrow> u32 list option \<Rightarrow> nat \<Rightarrow> ('st, unit) act" where
  "array_put_int32 A d fid data count =
     array_put_impl A 4 d fid (map_option (map (\<lambda>v. le_bytes 4 (unat v))) data) count"

definition array_append_int32 :: "'st Allocator \<Rightarrow> nat \<Rightarrow> nat \<Rightarrow> u32 \<Rightarrow> ('st, unit) act" where
  "array_append_int32 A d fid v = array_append_impl A 4 d fid (le_bytes 4 (unat v))"

definition array_append_int32s :: "'st Allocator \<Rightarrow> nat \<Rightarrow> nat \<Rightarrow> u32 list option \<Rightarrow> nat \<Rightarrow> ('st, unit) act" where
  "array_append_int32s A d fid data count =
     array_append_batch_impl A 4 d fid (map_option (map (\<lambda>v. le_bytes 4 (unat v))) data) count"

definition array_get_int64 :: "nat \<Rightarrow> nat \<Rightarrow> nat \<Rightarrow> ('st, u64) act" where
  "array_get_int64 d fid i = hthen (array_get 8 d fid i) (\<lambda>bs. hret (word_of_nat (le_nat bs)))"

definition array_put_int64 :: "'st Allocator \<Rightarrow> nat \<Rightarrow> nat \<Rightarrow> u64 list option \<Rightarrow> nat \<Rightarrow> ('st, unit) act" where
  "array_put_int64 A d fid data count =
     array_put_impl A 8 d fid (map_option (map (\<lambda>v. le_bytes 8 (unat v))) data) count"

definition array_append_int64 :: "'st Allocator \<Rightarrow> nat \<Rightarrow> nat \<Rightarrow> u64 \<Rightarrow> ('st, unit) act" where
  "array_append_int64 A d fid v = array_append_impl A 8 d fid (le_bytes 8 (unat v))"

definition array_append_int64s :: "'st Allocator \<Rightarrow> nat \<Rightarrow> nat \<Rightarrow> u64 list option \<Rightarrow> nat \<Rightarrow> ('st, unit) act" where
  "array_append_int64s A d fid data count =
     array_append_batch_impl A 8 d fid (map_option (map (\<lambda>v. le_bytes 8 (unat v))) data) count"

definition array_get_float :: "nat \<Rightarrow> nat \<Rightarrow> nat \<Rightarrow> ('st, u32) act" where
  "array_get_float d fid i = hthen (array_get 4 d fid i) (\<lambda>bs. hret (word_of_nat (le_nat bs)))"

definition array_put_float :: "'st Allocator \<Rightarrow> nat \<Rightarrow> nat \<Rightarrow> u32 list option \<Rightarrow> nat \<Rightarrow> ('st, unit) act" where
  "array_put_float A d fid data count =
     array_put_impl A 4 d fid (map_option (map (\<lambda>v. le_bytes 4 (unat v))) data) count"

definition array_append_float :: "'st Allocator \<Rightarrow> nat \<Rightarrow> nat \<Rightarrow> u32 \<Rightarrow> ('st, unit) act" where
  "array_append_float A d fid v = array_append_impl A 4 d fid (le_bytes 4 (unat v))"

definition array_append_floats :: "'st Allocator \<Rightarrow> nat \<Rightarrow> nat \<Rightarrow> u32 list option \<Rightarrow> nat \<Rightarrow> ('st, unit) act" where
  "array_append_floats A d fid data count =
     array_append_batch_impl A 4 d fid (map_option (map (\<lambda>v. le_bytes 4 (unat v))) data) count"

definition array_get_double :: "nat \<Rightarrow> nat \<Rightarrow> nat \<Rightarrow> ('st, u64) act" where
  "array_get_double d fid i = hthen (array_get 8 d fid i) (\<lambda>bs. hret (word_of_nat (le_nat bs)))"

definition array_put_double :: "'st Allocator \<Rightarrow> nat \<Rightarrow> nat \<Rightarrow> u64 list option \<Rightarrow> nat \<Rightarrow> ('st, unit) act" where
  "array_put_double A d fid data count =
     array_put_impl A 8 d fid (map_option (map (\<lambda>v. le_bytes 8 (unat v))) data) count"

definition array_append_double :: "'st Allocator \<Rightarrow> nat \<Rightarrow> nat \<Rightarrow> u64 \<Rightarrow> ('st, unit) act" where
  "array_append_double A d fid v = array_append_impl A 8 d fid (le_bytes 8 (unat v))"

definition array_append_doubles :: "'st Allocator \<Rightarrow> nat \<Rightarrow> nat \<Rightarrow> u64 list option \<Rightarrow> nat \<Rightarrow> ('st, unit) act" where
  "array_append_doubles A d fid data count =
     array_append_batch_impl A 8 d fid (map_option (map (\<lambda>v. le_bytes 8 (unat v))) data) count"

section \<open>Arrays of strings\<close>

text \<open>
  Header (capacity of the length table, capacity of the byte area, count, bytes used; 4 bytes
  each), length table, byte area.  Totals are \<^verbatim>\<open>uint64_t\<close>; what goes into the header is cut to
  32 bits, as the casts of the code do.
\<close>

definition StrArrPayloadOff :: "nat \<Rightarrow> nat" where
  "StrArrPayloadOff cap_count = 16 + 4 * cap_count"

definition StrArrAllocBytes :: "nat \<Rightarrow> nat \<Rightarrow> nat" where
  "StrArrAllocBytes cap_count cap_bytes = StrArrPayloadOff cap_count + cap_bytes"

definition GrowCap32 :: "nat \<Rightarrow> nat" where
  "GrowCap32 need =
     (let grown = need + need div 5;
          grown1 = (if grown < need then need else grown);
          grown2 = (if grown1 = 0 then 1 else grown1)
      in if grown2 > 2 ^ 32 - 1 then 2 ^ 32 - 1 else grown2)"

definition StrArrWriteHeader :: "nat \<Rightarrow> nat \<Rightarrow> nat \<Rightarrow> nat \<Rightarrow> nat \<Rightarrow> ('st, unit) act" where
  "StrArrWriteHeader base cap_count cap_bytes count bytes_used =
     hthen (store_nat 4 base 0 cap_count) (\<lambda>_.
     hthen (store_nat 4 base 4 cap_bytes) (\<lambda>_.
     hthen (store_nat 4 base 8 count) (\<lambda>_.
     store_nat 4 base 12 bytes_used)))"

definition StrArrReadHeader :: "nat \<Rightarrow> ('st, nat \<times> nat \<times> nat \<times> nat) act" where
  "StrArrReadHeader base =
     hthen (load_nat 4 base 0) (\<lambda>cap_count.
     hthen (load_nat 4 base 4) (\<lambda>cap_bytes.
     hthen (load_nat 4 base 8) (\<lambda>count.
     hthen (load_nat 4 base 12) (\<lambda>bytes_used.
     hret (cap_count, cap_bytes, count, bytes_used)))))"

text \<open>
  The loop that writes the lengths from index \<open>i\<close> on and the bytes from position \<open>q\<close> of the byte
  area on.
\<close>

fun write_parts :: "nat \<Rightarrow> nat \<Rightarrow> nat \<Rightarrow> nat \<Rightarrow> bytes list \<Rightarrow> ('st, unit) act" where
  "write_parts base cap_count i q [] = hret ()"
| "write_parts base cap_count i q (part # parts) =
     hthen (store_nat 4 base (16 + 4 * i) (length part)) (\<lambda>_.
     hthen (if part \<noteq> [] then store base (StrArrPayloadOff cap_count + q) part else hret ()) (\<lambda>_.
     write_parts base cap_count (Suc i) (q + length part) parts))"

definition total_size :: "bytes list \<Rightarrow> nat" where
  "total_size parts = sum_list (map length parts) mod 2 ^ 64"

definition array_put_string :: "'st Allocator \<Rightarrow> nat \<Rightarrow> nat \<Rightarrow> bytes list option \<Rightarrow> nat
    \<Rightarrow> ('st, unit) act" where
  "array_put_string A d fid parts count =
     hthen (slot_b d fid) (\<lambda>b.
     hthen (free_if A b) (\<lambda>_.
     case parts of None \<Rightarrow> set_slot d fid 0 0 | Some ps \<Rightarrow>
     if count = 0 then set_slot d fid 0 0
     else
       let total_bytes = total_size (take count ps) mod 2 ^ 32;
           cap_count = GrowCap32 count; cap_bytes = GrowCap32 total_bytes;
           alloc_sz = StrArrAllocBytes cap_count cap_bytes in
       hthen (hmalloc A alloc_sz) (\<lambda>mem.
       hthen (store mem 0 (replicate alloc_sz 0)) (\<lambda>_.
       hthen (StrArrWriteHeader mem cap_count cap_bytes count total_bytes) (\<lambda>_.
       hthen (write_parts mem cap_count 0 0 (take count ps)) (\<lambda>_.
       set_slot d fid count mem))))))"

fun sum_lens :: "nat \<Rightarrow> nat \<Rightarrow> nat \<Rightarrow> ('st, nat) act" where
  "sum_lens base j 0 = hret 0"
| "sum_lens base j (Suc n) =
     hthen (load_nat 4 base (16 + 4 * j)) (\<lambda>len.
     hthen (sum_lens base (Suc j) n) (\<lambda>rest. hret (len + rest)))"

definition array_get_string :: "nat \<Rightarrow> nat \<Rightarrow> nat \<Rightarrow> ('st, bytes) act" where
  "array_get_string d fid i =
     hthen (array_size d fid) (\<lambda>n. if n \<le> i then hret [] else
     hthen (slot_b d fid) (\<lambda>base. if base = 0 then hret [] else
     hthen (StrArrReadHeader base) (\<lambda>(cap_count, cap_bytes, count, bytes_used).
     if count \<le> i then hret [] else
     hthen (sum_lens base 0 i) (\<lambda>pos.
     hthen (load_nat 4 base (16 + 4 * i)) (\<lambda>len.
     load base (StrArrPayloadOff cap_count + pos) len)))))"

fun view_parts :: "nat \<Rightarrow> nat \<Rightarrow> nat \<Rightarrow> nat \<Rightarrow> nat \<Rightarrow> ('st, bytes list) act" where
  "view_parts base cap_count i pos 0 = hret []"
| "view_parts base cap_count i pos (Suc n) =
     hthen (load_nat 4 base (16 + 4 * i)) (\<lambda>len.
     hthen (load base (StrArrPayloadOff cap_count + pos) len) (\<lambda>part.
     hthen (view_parts base cap_count (Suc i) (pos + len) n) (\<lambda>parts.
     hret (part # parts))))"

definition array_view_string :: "nat \<Rightarrow> nat \<Rightarrow> ('st, bytes list) act" where
  "array_view_string d fid =
     hthen (array_size d fid) (\<lambda>n. if n = 0 then hret [] else
     hthen (slot_b d fid) (\<lambda>base. if base = 0 then hret [] else
     hthen (StrArrReadHeader base) (\<lambda>(cap_count, cap_bytes, count, bytes_used).
     view_parts base cap_count 0 0 count)))"

definition array_append_strings :: "'st Allocator \<Rightarrow> nat \<Rightarrow> nat \<Rightarrow> bytes list option \<Rightarrow> nat
    \<Rightarrow> ('st, unit) act" where
  "array_append_strings A d fid parts count =
     (case parts of None \<Rightarrow> hret () | Some ps \<Rightarrow> if count = 0 then hret () else
     hthen (slot_b d fid) (\<lambda>base.
     if base = 0 then array_put_string A d fid parts count
     else
       hthen (StrArrReadHeader base) (\<lambda>(cap_count, cap_bytes, cur_count, bytes_used).
       let need_count64 = cur_count + count;
           need_bytes64 = (bytes_used + total_size (take count ps)) mod 2 ^ 64 in
       if need_count64 \<le> cap_count \<and> need_bytes64 \<le> cap_bytes then
         hthen (write_parts base cap_count cur_count bytes_used (take count ps)) (\<lambda>_.
         hthen (StrArrWriteHeader base cap_count cap_bytes need_count64 need_bytes64) (\<lambda>_.
         set_slot_a d fid need_count64))
       else
         let need_count = need_count64 mod 2 ^ 32; need_bytes = need_bytes64 mod 2 ^ 32;
             new_cap_count = (if cap_count < need_count then GrowCap32 need_count else cap_count);
             new_cap_bytes = (if cap_bytes < need_bytes then GrowCap32 need_bytes else cap_bytes);
             new_alloc_sz = StrArrAllocBytes new_cap_count new_cap_bytes in
         hthen (hmalloc A new_alloc_sz) (\<lambda>mem.
         hthen (store mem 0 (replicate new_alloc_sz 0)) (\<lambda>_.
         hthen (StrArrWriteHeader mem new_cap_count new_cap_bytes need_count need_bytes) (\<lambda>_.
         hthen (if 0 < cur_count
                then hthen (load base 16 (4 * cur_count)) (\<lambda>lens. store mem 16 lens) else hret ()) (\<lambda>_.
         hthen (if 0 < bytes_used
                then hthen (load base (StrArrPayloadOff cap_count) bytes_used)
                  (\<lambda>bs. store mem (StrArrPayloadOff new_cap_count) bs) else hret ()) (\<lambda>_.
         hthen (write_parts mem new_cap_count cur_count bytes_used (take count ps)) (\<lambda>_.
         hthen (hfree A base) (\<lambda>_.
         set_slot d fid need_count mem))))))))))"

definition array_append_string :: "'st Allocator \<Rightarrow> nat \<Rightarrow> nat \<Rightarrow> bytes \<Rightarrow> ('st, unit) act" where
  "array_append_string A d fid part = array_append_strings A d fid (Some [part]) 1"

end
