(* ===== verification/Schema.thy ===== *)
theory Schema
  imports Prelude
begin

text \<open>
  The table schema (\<^verbatim>\<open>src/libs/yikv/schema/schema.h\<close> and the first half of
  \<^verbatim>\<open>schema.cc\<close>): data types, index types and table formats with their names, field
  definitions, the look-up maps of a schema and the compiled layout.

  A schema owns its fields through \<^verbatim>\<open>std::unique_ptr\<close> and its look-up maps hold raw
  pointers to them.  The model keeps that distinction: every field object has an identity
  (\<open>FieldPtr\<close>), the maps hold identities, and \<open>deref\<close> reads the object an identity denotes as
  long as the schema still owns it.  A compiled layout is filled in place; the model passes
  the output structure through, so what a failed call leaves in it is visible.
\<close>

section \<open>Enumerations and their names\<close>

datatype DataType = DBool | DInt32 | DInt64 | DFloat32 | DFloat64 | DString | DBytes

fun DataTypeName :: "DataType \<Rightarrow> string" where
  "DataTypeName DBool = ''bool''"
| "DataTypeName DInt32 = ''int32''"
| "DataTypeName DInt64 = ''int64''"
| "DataTypeName DFloat32 = ''float32''"
| "DataTypeName DFloat64 = ''float64''"
| "DataTypeName DString = ''string''"
| "DataTypeName DBytes = ''bytes''"

definition ParseDataType :: "string \<Rightarrow> DataType option" where
  "ParseDataType nm =
     (if nm = ''bool'' then Some DBool
      else if nm = ''int32'' then Some DInt32
      else if nm = ''int64'' then Some DInt64
      else if nm = ''float'' \<or> nm = ''float32'' then Some DFloat32
      else if nm = ''double'' \<or> nm = ''float64'' then Some DFloat64
      else if nm = ''string'' then Some DString
      else if nm = ''bytes'' then Some DBytes
      else None)"

fun IsFixedScalar :: "DataType \<Rightarrow> bool" where
  "IsFixedScalar DBool = True"
| "IsFixedScalar DInt32 = True"
| "IsFixedScalar DInt64 = True"
| "IsFixedScalar DFloat32 = True"
| "IsFixedScalar DFloat64 = True"
| "IsFixedScalar _ = False"

fun FixedTypeSize :: "DataType \<Rightarrow> u32" where
  "FixedTypeSize DBool = 1"
| "FixedTypeSize DInt32 = 4"
| "FixedTypeSize DInt64 = 8"
| "FixedTypeSize DFloat32 = 4"
| "FixedTypeSize DFloat64 = 8"
| "FixedTypeSize _ = 0"

datatype IndexType = INone | IKV | IInverted | IVector

fun IndexTypeName :: "IndexType \<Rightarrow> string" where
  "IndexTypeName INone = ''none''"
| "IndexTypeName IKV = ''kv''"
| "IndexTypeName IInverted = ''inverted''"
| "IndexTypeName IVector = ''vector''"

definition ParseIndexType :: "string \<Rightarrow> IndexType option" where
  "ParseIndexType nm =
     (if nm = ''none'' then Some INone
      else if nm = ''kv'' then Some IKV
      else if nm = ''inverted'' then Some IInverted
      else if nm = ''vector'' then Some IVector
      else None)"

datatype TableFormat = FJson | FFixedRowBinary | FSparseRowBinary

fun TableFormatName :: "TableFormat \<Rightarrow> string" where
  "TableFormatName FJson = ''json''"
| "TableFormatName FFixedRowBinary = ''fixed_row_binary''"
| "TableFormatName FSparseRowBinary = ''sparse_row_binary''"

definition ParseTableFormat :: "string \<Rightarrow> TableFormat option" where
  "ParseTableFormat nm =
     (if nm = ''json'' then Some FJson
      else if nm = ''fixed_row_binary'' then Some FFixedRowBinary
      else if nm = ''sparse_row_binary'' \<or> nm = ''spare_row_binary'' then Some FSparseRowBinary
      else None)"

lemma ParseDataType_Name [simp]: "ParseDataType (DataTypeName t) = Some t"
  by (cases t) (simp_all add: ParseDataType_def)

lemma ParseIndexType_Name [simp]: "ParseIndexType (IndexTypeName t) = Some t"
  by (cases t) (simp_all add: ParseIndexType_def)

lemma ParseTableFormat_Name [simp]: "ParseTableFormat (TableFormatName t) = Some t"
  by (cases t) (simp_all add: ParseTableFormat_def)

section \<open>Fields, layouts and the schema object\<close>

record FieldDef =
  fd_name :: string
  fd_type :: DataType
  fd_is_array :: bool
  fd_nullable :: bool
  fd_is_pk :: bool
  fd_is_index :: bool
  fd_field_id :: u16
  fd_fixed_off :: u32
  fd_index_type :: IndexType

definition default_FieldDef :: FieldDef where
  "default_FieldDef = \<lparr>fd_name = '''', fd_type = DInt32, fd_is_array = False,
     fd_nullable = True, fd_is_pk = False, fd_is_index = False, fd_field_id = 0,
     fd_fixed_off = 0, fd_index_type = INone\<rparr>"

definition SlotBytes :: "FieldDef \<Rightarrow> u32" where
  "SlotBytes f = (if fd_is_array f then 4
     else case fd_type f of DInt64 \<Rightarrow> 8 | DFloat64 \<Rightarrow> 8 | _ \<Rightarrow> 4)"

record FieldLayout =
  fl_field_id :: u32
  fl_type :: DataType
  fl_is_array :: bool
  fl_is_fixed_scalar :: bool
  fl_file_fixed_off :: u32
  fl_file_var_idx :: u32
  fl_mem_chunk_idx :: u32
  fl_mem_chunk_off :: u32
  fl_mem_var_idx :: u32
  fl_elem_size :: u32

definition default_FieldLayout :: FieldLayout where
  "default_FieldLayout = \<lparr>fl_field_id = 0, fl_type = DInt32, fl_is_array = False,
     fl_is_fixed_scalar = False, fl_file_fixed_off = 0, fl_file_var_idx = 0,
     fl_mem_chunk_idx = 0, fl_mem_chunk_off = 0, fl_mem_var_idx = 0, fl_elem_size = 0\<rparr>"

record CompiledSchema =
  cs_n_fixed :: u32
  cs_n_var :: u32
  cs_pk_field_id :: u32
  cs_fixed_payload_bytes :: u32
  cs_mem_n_fixed_chunks :: u32
  cs_mem_n_var_slots :: u32
  cs_layouts :: "FieldLayout list"

definition default_CompiledSchema :: CompiledSchema where
  "default_CompiledSchema = \<lparr>cs_n_fixed = 0, cs_n_var = 0, cs_pk_field_id = 0,
     cs_fixed_payload_bytes = 0, cs_mem_n_fixed_chunks = 0, cs_mem_n_var_slots = 0,
     cs_layouts = []\<rparr>"

text \<open>
  \<open>FieldPtr\<close> is the identity of a \<^verbatim>\<open>FieldDef\<close> object; \<open>sc_fresh\<close> is the identity the next
  \<^verbatim>\<open>std::make_unique<FieldDef>\<close> hands out.  Versions are \<^verbatim>\<open>int64_t\<close> values, kept as integers.
\<close>

type_synonym FieldPtr = nat

record Schema =
  sc_table_name :: string
  sc_version :: int
  sc_format :: TableFormat
  sc_pk :: string
  sc_fields :: "(FieldPtr \<times> FieldDef) list"
  sc_field_map :: "string \<Rightarrow> FieldPtr option"
  sc_field_id_map :: "u16 \<Rightarrow> FieldPtr option"
  sc_max_field_id :: u16
  sc_fresh :: FieldPtr

definition new_Schema :: Schema where
  "new_Schema = \<lparr>sc_table_name = '''', sc_version = 0, sc_format = FSparseRowBinary,
     sc_pk = '''', sc_fields = [], sc_field_map = (\<lambda>_. None), sc_field_id_map = (\<lambda>_. None),
     sc_max_field_id = 0, sc_fresh = 0\<rparr>"

definition fields :: "Schema \<Rightarrow> FieldDef list" where
  "fields s = map snd (sc_fields s)"

definition deref :: "Schema \<Rightarrow> FieldPtr \<Rightarrow> FieldDef option" where
  "deref s ptr = map_of (sc_fields s) ptr"

section \<open>Look-up maps\<close>

fun rebuild_step :: "FieldPtr \<times> FieldDef \<Rightarrow> Schema \<Rightarrow> Schema" where
  "rebuild_step (ptr, fd) s =
     (let s1 = s\<lparr>sc_field_map := (sc_field_map s)(fd_name fd \<mapsto> ptr)\<rparr>;
          s2 = s1\<lparr>sc_field_id_map := (sc_field_id_map s1)(fd_field_id fd \<mapsto> ptr)\<rparr>
      in if sc_max_field_id s2 < fd_field_id fd
         then s2\<lparr>sc_max_field_id := fd_field_id fd\<rparr> else s2)"

definition RebuildMaps :: "Schema \<Rightarrow> Schema" where
  "RebuildMaps s =
     fold rebuild_step (sc_fields s)
       (s\<lparr>sc_field_map := (\<lambda>_. None), sc_field_id_map := (\<lambda>_. None), sc_max_field_id := 0\<rparr>)"

definition FindField :: "Schema \<Rightarrow> string \<Rightarrow> FieldPtr option" where
  "FindField s nm = sc_field_map s nm"

definition FindFieldById :: "Schema \<Rightarrow> u16 \<Rightarrow> FieldPtr option" where
  "FindFieldById s fid = sc_field_id_map s fid"

section \<open>Compiling the layout\<close>

fun find_pk :: "string \<Rightarrow> FieldDef list \<Rightarrow> nat \<Rightarrow> nat option" where
  "find_pk pk [] i = None"
| "find_pk pk (f # fs) i = (if fd_name f = pk then Some i else find_pk pk fs (Suc i))"

fun print_nat :: "nat \<Rightarrow> string" where
  "print_nat n = (if n < 10 then [char_of (48 + n)]
     else print_nat (n div 10) @ [char_of (48 + n mod 10)])"

declare print_nat.simps [simp del]

definition squote :: "string \<Rightarrow> string" where
  "squote s = CHR 0x27 # s @ [CHR 0x27]"

definition field_layout :: "FieldDef \<Rightarrow> u32 \<Rightarrow> u32 \<Rightarrow> FieldLayout \<Rightarrow> FieldLayout" where
  "field_layout f fixed_slot var_slot fl =
     (let fl1 = fl\<lparr>fl_field_id := ucast (fd_field_id f), fl_type := fd_type f,
                  fl_is_array := fd_is_array f,
                  fl_is_fixed_scalar := (\<not> fd_is_array f \<and> IsFixedScalar (fd_type f))\<rparr>
      in if fl_is_fixed_scalar fl1
         then fl1\<lparr>fl_file_fixed_off := fixed_slot * 8, fl_mem_chunk_idx := fixed_slot div 8,
                  fl_mem_chunk_off := (fixed_slot mod 8) * 8\<rparr>
         else
           let fl2 = fl1\<lparr>fl_file_var_idx := var_slot, fl_mem_var_idx := var_slot\<rparr>
           in if fd_is_array f \<and> IsFixedScalar (fd_type f)
              then fl2\<lparr>fl_elem_size := FixedTypeSize (fd_type f)\<rparr> else fl2)"

fun compile_loop :: "FieldDef list \<Rightarrow> nat \<Rightarrow> string set \<Rightarrow> u16 set \<Rightarrow> u32 \<Rightarrow> u32 \<Rightarrow> CompiledSchema
    \<Rightarrow> CompiledSchema \<times> string option" where
  "compile_loop [] i seen_names seen_ids fixed_slot var_slot out = (out, None)"
| "compile_loop (f # fs) i seen_names seen_ids fixed_slot var_slot out =
     (if fd_name f \<in> seen_names
      then (out, Some (''Schema: duplicate field name '' @ squote (fd_name f)))
      else if fd_field_id f \<in> seen_ids
      then (out, Some (''Schema: duplicate field_id '' @ print_nat (unat (fd_field_id f))))
      else
        let fl = field_layout f fixed_slot var_slot (cs_layouts out ! i);
            out1 = out\<lparr>cs_layouts := (cs_layouts out)[i := fl]\<rparr>
        in if fl_is_fixed_scalar fl
           then compile_loop fs (Suc i) (insert (fd_name f) seen_names)
                  (insert (fd_field_id f) seen_ids) (fixed_slot + 1) var_slot
                  (out1\<lparr>cs_n_fixed := cs_n_fixed out1 + 1\<rparr>)
           else compile_loop fs (Suc i) (insert (fd_name f) seen_names)
                  (insert (fd_field_id f) seen_ids) fixed_slot (var_slot + 1)
                  (out1\<lparr>cs_n_var := cs_n_var out1 + 1\<rparr>))"

definition Compile :: "Schema \<Rightarrow> CompiledSchema \<Rightarrow> CompiledSchema \<times> string option" where
  "Compile s out =
     (let fs = fields s;
          out1 = out\<lparr>cs_layouts := replicate (length fs) default_FieldLayout,
                     cs_n_fixed := 0, cs_n_var := 0\<rparr>
      in case find_pk (sc_pk s) fs 0 of
           None \<Rightarrow> (out1, Some (''Schema: pk '' @ squote (sc_pk s) @ '' not found in fields''))
         | Some i \<Rightarrow>
             (case compile_loop fs 0 {} {} 0 0 (out1\<lparr>cs_pk_field_id := of_nat i\<rparr>) of
                (out2, Some e) \<Rightarrow> (out2, Some e)
              | (out2, None) \<Rightarrow>
                  (out2\<lparr>cs_fixed_payload_bytes := cs_n_fixed out2 * 8,
                        cs_mem_n_fixed_chunks :=
                          (if cs_n_fixed out2 \<noteq> 0 then (cs_n_fixed out2 + 7) div 8 else 0),
                        cs_mem_n_var_slots := cs_n_var out2\<rparr>, None)))"


section \<open>The maps denote owned fields\<close>

definition wf_ptrs :: "Schema \<Rightarrow> bool" where
  "wf_ptrs s \<longleftrightarrow> distinct (map fst (sc_fields s)) \<and> (\<forall>p \<in> set (map fst (sc_fields s)). p < sc_fresh s)"

definition live_ptr :: "Schema \<Rightarrow> FieldPtr \<Rightarrow> bool" where
  "live_ptr s ptr \<longleftrightarrow> deref s ptr \<noteq> None"

definition maps_live :: "Schema \<Rightarrow> bool" where
  "maps_live s \<longleftrightarrow> (\<forall>nm p. FindField s nm = Some p \<longrightarrow> live_ptr s p)
                 \<and> (\<forall>fid p. FindFieldById s fid = Some p \<longrightarrow> live_ptr s p)"

lemma rebuild_step_frame [simp]:
  "sc_fields (rebuild_step pf s) = sc_fields s"
  "sc_fresh (rebuild_step pf s) = sc_fresh s"
  "sc_pk (rebuild_step pf s) = sc_pk s"
  "sc_table_name (rebuild_step pf s) = sc_table_name s"
  "sc_version (rebuild_step pf s) = sc_version s"
  "sc_format (rebuild_step pf s) = sc_format s"
  "sc_field_map (rebuild_step pf s) = (sc_field_map s)(fd_name (snd pf) \<mapsto> fst pf)"
  "sc_field_id_map (rebuild_step pf s) = (sc_field_id_map s)(fd_field_id (snd pf) \<mapsto> fst pf)"
  by (cases pf; simp add: Let_def)+

lemma fold_rebuild_frame [simp]:
  "sc_fields (fold rebuild_step l s) = sc_fields s"
  "sc_fresh (fold rebuild_step l s) = sc_fresh s"
  "sc_pk (fold rebuild_step l s) = sc_pk s"
  "sc_table_name (fold rebuild_step l s) = sc_table_name s"
  "sc_version (fold rebuild_step l s) = sc_version s"
  "sc_format (fold rebuild_step l s) = sc_format s"
  by (induction l arbitrary: s) simp_all

lemma RebuildMaps_frame [simp]:
  "sc_fields (RebuildMaps s) = sc_fields s" "fields (RebuildMaps s) = fields s"
  "sc_fresh (RebuildMaps s) = sc_fresh s" "sc_pk (RebuildMaps s) = sc_pk s"
  "sc_table_name (RebuildMaps s) = sc_table_name s"
  "sc_version (RebuildMaps s) = sc_version s" "sc_format (RebuildMaps s) = sc_format s"
  "deref (RebuildMaps s) = deref s"
  by (simp_all add: RebuildMaps_def fields_def deref_def fun_eq_iff)

lemma fold_rebuild_field_map:
  "sc_field_map (fold rebuild_step l s) =
     sc_field_map s ++ map_of (rev (map (\<lambda>(p, f). (fd_name f, p)) l))"
  by (induction l arbitrary: s) (auto simp: case_prod_beta map_add_assoc [symmetric])

lemma fold_rebuild_field_id_map:
  "sc_field_id_map (fold rebuild_step l s) =
     sc_field_id_map s ++ map_of (rev (map (\<lambda>(p, f). (fd_field_id f, p)) l))"
  by (induction l arbitrary: s) (auto simp: case_prod_beta map_add_assoc [symmetric])

lemma FindField_RebuildMaps:
  "FindField (RebuildMaps s) nm = map_of (rev (map (\<lambda>(p, f). (fd_name f, p)) (sc_fields s))) nm"
  by (simp add: FindField_def RebuildMaps_def fold_rebuild_field_map map_add_def split: option.splits)

lemma FindFieldById_RebuildMaps:
  "FindFieldById (RebuildMaps s) fid =
     map_of (rev (map (\<lambda>(p, f). (fd_field_id f, p)) (sc_fields s))) fid"
  by (simp add: FindFieldById_def RebuildMaps_def fold_rebuild_field_id_map map_add_def
      split: option.splits)

lemma deref_owned:
  "wf_ptrs s \<Longrightarrow> (p, f) \<in> set (sc_fields s) \<Longrightarrow> deref s p = Some f"
  by (simp add: wf_ptrs_def deref_def)

lemma RebuildMaps_FindField:
  assumes "wf_ptrs s"
  shows "FindField (RebuildMaps s) nm = Some p \<Longrightarrow> \<exists>f. deref s p = Some f \<and> fd_name f = nm"
    and "nm \<in> fd_name ` set (fields s) \<Longrightarrow> \<exists>p. FindField (RebuildMaps s) nm = Some p"
proof -
  show "\<exists>f. deref s p = Some f \<and> fd_name f = nm" if "FindField (RebuildMaps s) nm = Some p"
    using map_of_SomeD [OF that [unfolded FindField_RebuildMaps]] deref_owned [OF assms] by auto
  show "\<exists>p. FindField (RebuildMaps s) nm = Some p" if "nm \<in> fd_name ` set (fields s)"
  proof -
    have "fst ` set (rev (map (\<lambda>(p, f). (fd_name f, p)) (sc_fields s))) = fd_name ` set (fields s)"
      by (simp add: fields_def image_image case_prod_beta)
    then have "map_of (rev (map (\<lambda>(p, f). (fd_name f, p)) (sc_fields s))) nm \<noteq> None"
      using that by (simp only: map_of_eq_None_iff) simp
    then show ?thesis by (simp add: FindField_RebuildMaps)
  qed
qed

lemma RebuildMaps_FindFieldById:
  assumes "wf_ptrs s"
  shows "FindFieldById (RebuildMaps s) fid = Some p \<Longrightarrow> \<exists>f. deref s p = Some f \<and> fd_field_id f = fid"
  using map_of_SomeD [of "rev (map (\<lambda>(p, f). (fd_field_id f, p)) (sc_fields s))" fid p]
    deref_owned [OF assms] by (auto simp: FindFieldById_RebuildMaps)

lemma RebuildMaps_live: "wf_ptrs s \<Longrightarrow> maps_live (RebuildMaps s)"
  using RebuildMaps_FindField(1) RebuildMaps_FindFieldById
  by (fastforce simp: maps_live_def live_ptr_def)

section \<open>The compiled layout\<close>

text \<open>
  \<open>n_fixed_before fs i\<close> and \<open>n_var_before fs i\<close> count the fixed scalars and the variable-size
  fields among the first \<open>i\<close> fields: the reference for the slots the loop hands out.
\<close>

definition fixed_field :: "FieldDef \<Rightarrow> bool" where
  "fixed_field f \<longleftrightarrow> \<not> fd_is_array f \<and> IsFixedScalar (fd_type f)"

definition n_fixed_before :: "FieldDef list \<Rightarrow> nat \<Rightarrow> nat" where
  "n_fixed_before fs i = length (filter fixed_field (take i fs))"

definition n_var_before :: "FieldDef list \<Rightarrow> nat \<Rightarrow> nat" where
  "n_var_before fs i = length (filter (\<lambda>f. \<not> fixed_field f) (take i fs))"

lemma n_before_Suc:
  "n_fixed_before (f # fs) (Suc i) = of_bool (fixed_field f) + n_fixed_before fs i"
  "n_var_before (f # fs) (Suc i) = of_bool (\<not> fixed_field f) + n_var_before fs i"
  by (simp_all add: n_fixed_before_def n_var_before_def)

lemma n_before_0 [simp]: "n_fixed_before fs 0 = 0" "n_var_before fs 0 = 0"
  by (simp_all add: n_fixed_before_def n_var_before_def)

lemma fl_is_fixed_scalar_field_layout [simp]:
  "fl_is_fixed_scalar (field_layout f a b fl) = fixed_field f"
  by (simp add: field_layout_def fixed_field_def Let_def)

lemma find_pk_Some:
  "find_pk pk fs i = Some j \<Longrightarrow> i \<le> j \<and> j < i + length fs \<and> fd_name (fs ! (j - i)) = pk
     \<and> (\<forall>k < j - i. fd_name (fs ! k) \<noteq> pk)"
proof (induction fs arbitrary: i)
  case (Cons f fs)
  show ?case
  proof (cases "fd_name f = pk")
    case False
    then have "find_pk pk fs (Suc i) = Some j" using Cons.prems by simp
    note IH = Cons.IH [OF this]
    then have "j - i = Suc (j - Suc i)" by linarith
    then show ?thesis using IH False by (auto simp: less_Suc_eq_0_disj)
  qed (use Cons.prems in auto)
qed simp

lemma find_pk_None: "find_pk pk fs i = None \<longleftrightarrow> pk \<notin> fd_name ` set fs"
  by (induction fs arbitrary: i) auto

text \<open>The layouts in closed form, one per field, from the numbers of slots already given out.\<close>

fun layouts_from :: "FieldDef list \<Rightarrow> nat \<Rightarrow> nat \<Rightarrow> FieldLayout list" where
  "layouts_from [] a b = []"
| "layouts_from (f # fs) a b =
     field_layout f (of_nat a) (of_nat b) default_FieldLayout #
       layouts_from fs (a + of_bool (fixed_field f)) (b + of_bool (\<not> fixed_field f))"

lemma length_layouts_from [simp]: "length (layouts_from fs a b) = length fs"
  by (induction fs arbitrary: a b) simp_all

lemma nth_layouts_from:
  "k < length fs \<Longrightarrow> layouts_from fs a b ! k =
     field_layout (fs ! k) (of_nat (a + n_fixed_before fs k)) (of_nat (b + n_var_before fs k))
       default_FieldLayout"
proof (induction fs arbitrary: a b k)
  case (Cons f fs)
  then show ?case by (cases k) (simp_all add: n_before_Suc add.assoc)
qed simp

lemma compile_loop_accepts:
  assumes "cs_layouts out = ls @ replicate (length fs) default_FieldLayout" "length ls = i"
    and "distinct (map fd_name fs)" "distinct (map fd_field_id fs)"
    and "fd_name ` set fs \<inter> sn = {}" "fd_field_id ` set fs \<inter> si = {}"
  shows "compile_loop fs i sn si (of_nat a) (of_nat b) out =
     (out\<lparr>cs_layouts := ls @ layouts_from fs a b,
          cs_n_fixed := cs_n_fixed out + of_nat (n_fixed_before fs (length fs)),
          cs_n_var := cs_n_var out + of_nat (n_var_before fs (length fs))\<rparr>, None)"
  using assms
proof (induction fs arbitrary: i sn si a b out ls)
  case (Cons f fs)
  define fl where "fl = field_layout f (of_nat a) (of_nat b) default_FieldLayout"
  have layouts: "cs_layouts out ! i = default_FieldLayout"
    "(cs_layouts out)[i := fl] = (ls @ [fl]) @ replicate (length fs) default_FieldLayout"
    using Cons.prems(1,2) by (simp_all add: nth_append list_update_append)
  have fresh: "fd_name f \<notin> sn" "fd_field_id f \<notin> si" using Cons.prems(5,6) by auto
  have rest: "distinct (map fd_name fs)" "distinct (map fd_field_id fs)"
    "fd_name ` set fs \<inter> insert (fd_name f) sn = {}"
    "fd_field_id ` set fs \<inter> insert (fd_field_id f) si = {}"
    using Cons.prems(3-6) by auto
  have [simp]: "fl_is_fixed_scalar fl = fixed_field f" by (simp add: fl_def)
  show ?case
  proof (cases "fixed_field f")
    case True
    let ?o = "out\<lparr>cs_layouts := (cs_layouts out)[i := fl], cs_n_fixed := cs_n_fixed out + 1\<rparr>"
    have "compile_loop (f # fs) i sn si (of_nat a) (of_nat b) out =
        compile_loop fs (Suc i) (insert (fd_name f) sn) (insert (fd_field_id f) si)
          (of_nat (a + 1)) (of_nat b) ?o"
      using fresh True by (simp add: layouts(1) fl_def [symmetric] Let_def add.commute)
    also have "\<dots> = (?o\<lparr>cs_layouts := (ls @ [fl]) @ layouts_from fs (a + 1) b,
        cs_n_fixed := cs_n_fixed ?o + of_nat (n_fixed_before fs (length fs)),
        cs_n_var := cs_n_var ?o + of_nat (n_var_before fs (length fs))\<rparr>, None)"
      by (rule Cons.IH) (use Cons.prems(2) rest in \<open>simp_all add: layouts(2)\<close>)
    finally show ?thesis using True by (simp add: n_before_Suc fl_def add.assoc)
  next
    case False
    let ?o = "out\<lparr>cs_layouts := (cs_layouts out)[i := fl], cs_n_var := cs_n_var out + 1\<rparr>"
    have "compile_loop (f # fs) i sn si (of_nat a) (of_nat b) out =
        compile_loop fs (Suc i) (insert (fd_name f) sn) (insert (fd_field_id f) si)
          (of_nat a) (of_nat (b + 1)) ?o"
      using fresh False by (simp add: layouts(1) fl_def [symmetric] Let_def add.commute)
    also have "\<dots> = (?o\<lparr>cs_layouts := (ls @ [fl]) @ layouts_from fs a (b + 1),
        cs_n_fixed := cs_n_fixed ?o + of_nat (n_fixed_before fs (length fs)),
        cs_n_var := cs_n_var ?o + of_nat (n_var_before fs (length fs))\<rparr>, None)"
      by (rule Cons.IH) (use Cons.prems(2) rest in \<open>simp_all add: layouts(2)\<close>)
    finally show ?thesis using False by (simp add: n_before_Suc fl_def add.assoc)
  qed
qed (simp add: n_fixed_before_def n_var_before_def)

lemma compile_loop_distinct:
  "snd (compile_loop fs i sn si a b out) = None \<Longrightarrow>
     distinct (map fd_name fs) \<and> distinct (map fd_field_id fs) \<and>
     fd_name ` set fs \<inter> sn = {} \<and> fd_field_id ` set fs \<inter> si = {}"
proof (induction fs i sn si a b out rule: compile_loop.induct)
  case (2 f fs i sn si a b out)
  have fresh: "fd_name f \<notin> sn" "fd_field_id f \<notin> si" using 2(3) by (auto split: if_splits)
  have "distinct (map fd_name fs) \<and> distinct (map fd_field_id fs) \<and>
     fd_name ` set fs \<inter> insert (fd_name f) sn = {} \<and>
     fd_field_id ` set fs \<inter> insert (fd_field_id f) si = {}"
    using 2(1,2) [OF fresh refl refl] 2(3) fresh
    by (cases "fixed_field f") (simp_all add: Let_def)
  then show ?case using fresh by auto
qed simp

text \<open>The whole call: it succeeds exactly on well-formed field lists, and then in closed form.\<close>

definition compilable :: "string \<Rightarrow> FieldDef list \<Rightarrow> bool" where
  "compilable pk fs \<longleftrightarrow> pk \<in> fd_name ` set fs \<and> distinct (map fd_name fs)
     \<and> distinct (map fd_field_id fs)"

definition compiled :: "Schema \<Rightarrow> CompiledSchema" where
  "compiled s =
     (let fs = fields s; nf = of_nat (n_fixed_before fs (length fs)) :: u32;
          nv = of_nat (n_var_before fs (length fs))
      in \<lparr>cs_n_fixed = nf, cs_n_var = nv, cs_pk_field_id = of_nat (the (find_pk (sc_pk s) fs 0)),
          cs_fixed_payload_bytes = nf * 8,
          cs_mem_n_fixed_chunks = (if nf \<noteq> 0 then (nf + 7) div 8 else 0),
          cs_mem_n_var_slots = nv, cs_layouts = layouts_from fs 0 0\<rparr>)"

lemma Compile_accepts:
  assumes "compilable (sc_pk s) (fields s)"
  shows "Compile s out = (compiled s, None)"
proof -
  obtain i where i: "find_pk (sc_pk s) (fields s) 0 = Some i"
    using assms find_pk_None [of "sc_pk s" "fields s" 0] by (auto simp: compilable_def)
  note loop = compile_loop_accepts [of _ "[]" "fields s" 0 "{}" "{}" 0 0, simplified]
  show ?thesis
    using assms by (simp add: Compile_def i compilable_def loop compiled_def Let_def)
qed

lemma Compile_rejects:
  assumes "\<not> compilable (sc_pk s) (fields s)"
  shows "snd (Compile s out) \<noteq> None"
proof (cases "find_pk (sc_pk s) (fields s) 0")
  case (Some i)
  then have "sc_pk s \<in> fd_name ` set (fields s)"
    using find_pk_None [of "sc_pk s" "fields s" 0] by auto
  then have "snd (compile_loop (fields s) 0 {} {} 0 0 o') \<noteq> None" for o'
    using assms compile_loop_distinct [of "fields s" 0 "{}" "{}" 0 0 o'] by (auto simp: compilable_def)
  then show ?thesis by (simp add: Compile_def Some Let_def split: prod.splits option.splits)
       (metis not_None_eq snd_conv)
qed (simp add: Compile_def Let_def)

lemma compilable_length:
  assumes "compilable pk fs"
  shows "length fs \<le> 65536"
proof -
  have "length fs = card (fd_field_id ` set fs)"
    using assms by (metis compilable_def distinct_card length_map set_map)
  also have "\<dots> \<le> card (UNIV :: u16 set)" by (rule card_mono) simp_all
  also have "\<dots> = 65536" by (simp add: card_word)
  finally show ?thesis .
qed

section \<open>Properties\<close>

lemma n_before_mono:
  "i \<le> j \<Longrightarrow> n_fixed_before fs i \<le> n_fixed_before fs j"
  "i \<le> j \<Longrightarrow> n_var_before fs i \<le> n_var_before fs j"
  by (auto simp: n_fixed_before_def n_var_before_def take_add dest!: le_Suc_ex)

lemma n_fixed_before_step:
  "i < j \<Longrightarrow> i < length fs \<Longrightarrow> fixed_field (fs ! i) \<Longrightarrow> n_fixed_before fs i < n_fixed_before fs j"
  using n_before_mono(1) [of "Suc i" j fs] by (simp add: n_fixed_before_def take_Suc_conv_app_nth)

lemma n_var_before_step:
  "i < j \<Longrightarrow> i < length fs \<Longrightarrow> \<not> fixed_field (fs ! i) \<Longrightarrow> n_var_before fs i < n_var_before fs j"
  using n_before_mono(2) [of "Suc i" j fs] by (simp add: n_var_before_def take_Suc_conv_app_nth)

lemma n_before_sum: "n_fixed_before fs i + n_var_before fs i = min i (length fs)"
  by (simp add: n_fixed_before_def n_var_before_def sum_length_filter_compl min.commute)

lemma n_before_le: "n_fixed_before fs i \<le> length fs" "n_var_before fs i \<le> length fs"
  using n_before_sum [of fs i] by linarith+

lemma unat_u32_of_nat: "n < 2 ^ 32 \<Longrightarrow> unat (of_nat n :: u32) = n"
  by (simp add: unat_of_nat take_bit_nat_eq_self)

lemma unat_mult8: "n \<le> 65536 \<Longrightarrow> unat (of_nat n * 8 :: u32) = 8 * n"
  using unat_u32_of_nat [of "n * 8"] by (simp add: mult.commute)

lemma unat_div8: "unat (w div 8 :: u32) = unat w div 8" "unat (w mod 8 :: u32) = unat w mod 8"
  by (simp_all add: unat_div unat_mod)

lemma of_nat_mod8: "n < 2 ^ 32 \<Longrightarrow> (of_nat n mod 8 :: u32) = of_nat (n mod 8)"
proof -
  assume n: "n < 2 ^ 32"
  then have "n mod 8 < 2 ^ 32" by (rule le_less_trans [OF mod_less_eq_dividend])
  then have "unat (of_nat n mod 8 :: u32) = unat (of_nat (n mod 8) :: u32)"
    using n by (simp only: unat_div8 unat_u32_of_nat)
  then show ?thesis by (simp only: word_unat_eq_iff)
qed

lemma unat_chunk_off: "n \<le> 65536 \<Longrightarrow> unat ((of_nat n mod 8) * 8 :: u32) = 8 * (n mod 8)"
  using unat_mult8 [of "n mod 8"] mod_less_divisor [of 8 n] by (simp add: of_nat_mod8)

text \<open>
  What a layout has to give its users: one entry per field, a primary-key position that names
  the key, for every fixed scalar an 8-byte slot inside the fixed payload that the arena
  chunk coordinates (chunks of 64 bytes) address as well, and no two slots overlapping.
\<close>

definition slot_ok :: "CompiledSchema \<Rightarrow> FieldLayout \<Rightarrow> bool" where
  "slot_ok c fl \<longleftrightarrow>
     unat (fl_file_fixed_off fl) + 8 \<le> unat (cs_fixed_payload_bytes c)
     \<and> unat (fl_mem_chunk_idx fl) < unat (cs_mem_n_fixed_chunks c)
     \<and> 64 * unat (fl_mem_chunk_idx fl) + unat (fl_mem_chunk_off fl) = unat (fl_file_fixed_off fl)"

definition layout_sound :: "string \<Rightarrow> FieldDef list \<Rightarrow> CompiledSchema \<Rightarrow> bool" where
  "layout_sound pk fs c \<longleftrightarrow>
     length (cs_layouts c) = length fs
     \<and> unat (cs_n_fixed c) + unat (cs_n_var c) = length fs
     \<and> unat (cs_fixed_payload_bytes c) = 8 * unat (cs_n_fixed c)
     \<and> unat (cs_pk_field_id c) < length fs \<and> fd_name (fs ! unat (cs_pk_field_id c)) = pk
     \<and> (\<forall>i < length fs. fl_is_fixed_scalar (cs_layouts c ! i) = fixed_field (fs ! i)
           \<and> unat (fl_field_id (cs_layouts c ! i)) = unat (fd_field_id (fs ! i)))
     \<and> (\<forall>i < length fs. fixed_field (fs ! i) \<longrightarrow> slot_ok c (cs_layouts c ! i))
     \<and> (\<forall>j < length fs. \<forall>i < j. fixed_field (fs ! i) \<longrightarrow> fixed_field (fs ! j) \<longrightarrow>
           unat (fl_file_fixed_off (cs_layouts c ! i)) + 8
             \<le> unat (fl_file_fixed_off (cs_layouts c ! j)))
     \<and> (\<forall>j < length fs. \<forall>i < j. \<not> fixed_field (fs ! i) \<longrightarrow> \<not> fixed_field (fs ! j) \<longrightarrow>
           unat (fl_file_var_idx (cs_layouts c ! i)) < unat (fl_file_var_idx (cs_layouts c ! j))
           \<and> unat (fl_file_var_idx (cs_layouts c ! j)) < unat (cs_mem_n_var_slots c))"

lemma field_layout_fixed:
  assumes "fixed_field f" "n \<le> 65536"
  shows "unat (fl_file_fixed_off (field_layout f (of_nat n) b fl)) = 8 * n"
    and "unat (fl_mem_chunk_idx (field_layout f (of_nat n) b fl)) = n div 8"
    and "unat (fl_mem_chunk_off (field_layout f (of_nat n) b fl)) = 8 * (n mod 8)"
  using assms by (simp_all add: field_layout_def fixed_field_def Let_def unat_mult8 unat_div8
      unat_chunk_off unat_u32_of_nat)

lemma field_layout_var:
  assumes "\<not> fixed_field f" "n \<le> 65536"
  shows "unat (fl_file_var_idx (field_layout f a (of_nat n) fl)) = n"
  using assms by (auto simp: field_layout_def fixed_field_def Let_def unat_u32_of_nat)

lemma unat_field_layout_id: "unat (fl_field_id (field_layout f a b fl)) = unat (fd_field_id f)"
  by (simp add: field_layout_def Let_def unsigned_ucast_eq take_bit_nat_eq_self
      order_less_trans [OF unsigned_less])

lemma unat_chunks:
  assumes "n \<le> 65536"
  shows "unat (if of_nat n \<noteq> (0 :: u32) then (of_nat n + 7) div 8 else 0 :: u32) = (n + 7) div 8"
proof -
  have "unat (of_nat (n + 7) :: u32) = n + 7" using assms by (intro unat_u32_of_nat) simp
  moreover have "of_nat n = (0 :: u32) \<longleftrightarrow> n = 0"
    using unat_u32_of_nat [of n] assms by (auto simp: unat_eq_0 [symmetric])
  ultimately show ?thesis using unat_div8(1) [of "of_nat (n + 7)"] by simp
qed

lemma compiled_sound:
  assumes "compilable (sc_pk s) (fields s)"
  shows "layout_sound (sc_pk s) (fields s) (compiled s)"
proof -
  let ?fs = "fields s"
  let ?n = "length ?fs"
  have len: "?n \<le> 65536" using assms by (rule compilable_length)
  have bnd: "n_fixed_before ?fs i \<le> 65536" "n_var_before ?fs i \<le> 65536" for i
    using len n_before_le [of ?fs i] by simp_all
  have nth: "cs_layouts (compiled s) ! i = field_layout (?fs ! i) (of_nat (n_fixed_before ?fs i))
      (of_nat (n_var_before ?fs i)) default_FieldLayout" if "i < ?n" for i
    using that by (simp add: compiled_def Let_def nth_layouts_from)
  have nf: "unat (cs_n_fixed (compiled s)) = n_fixed_before ?fs ?n"
    and nv: "unat (cs_n_var (compiled s)) = n_var_before ?fs ?n"
    "unat (cs_mem_n_var_slots (compiled s)) = n_var_before ?fs ?n"
    and pay: "unat (cs_fixed_payload_bytes (compiled s)) = 8 * n_fixed_before ?fs ?n"
    and ch: "unat (cs_mem_n_fixed_chunks (compiled s)) = (n_fixed_before ?fs ?n + 7) div 8"
    using bnd [of ?n] unat_chunks [of "n_fixed_before ?fs ?n"]
    by (simp_all add: compiled_def Let_def unat_u32_of_nat unat_mult8)
  obtain k where k: "find_pk (sc_pk s) ?fs 0 = Some k"
    using assms find_pk_None [of "sc_pk s" ?fs 0] by (auto simp: compilable_def)
  have k': "k < ?n" "fd_name (?fs ! k) = sc_pk s" using find_pk_Some [OF k] by auto
  have pk: "unat (cs_pk_field_id (compiled s)) = k"
    using k k'(1) len by (simp add: compiled_def Let_def unat_u32_of_nat)
  have slot: "slot_ok (compiled s) (cs_layouts (compiled s) ! i)"
    if "i < ?n" "fixed_field (?fs ! i)" for i
  proof -
    have lt: "n_fixed_before ?fs i < n_fixed_before ?fs ?n"
      using that by (simp add: n_fixed_before_step)
    then have "n_fixed_before ?fs i div 8 < (n_fixed_before ?fs ?n + 7) div 8" by linarith
    moreover have "64 * (n_fixed_before ?fs i div 8) + 8 * (n_fixed_before ?fs i mod 8)
        = 8 * n_fixed_before ?fs i"
      using mult_div_mod_eq [of 8 "n_fixed_before ?fs i"] by linarith
    ultimately show ?thesis
      using lt bnd by (simp add: slot_ok_def nth that field_layout_fixed pay ch)
  qed
  have gap: "8 * n_fixed_before ?fs i + 8 \<le> 8 * n_fixed_before ?fs j"
    if "i < j" "j < ?n" "fixed_field (?fs ! i)" for i j
    using n_fixed_before_step [of i j ?fs] that by simp
  have len_c: "length (cs_layouts (compiled s)) = ?n" by (simp add: compiled_def Let_def)
  show ?thesis
    unfolding layout_sound_def
    using n_before_sum [of ?fs ?n] k' slot bnd
    by (auto simp: nf nv pay pk nth unat_field_layout_id field_layout_fixed field_layout_var
        len_c intro: gap n_var_before_step)
qed

text \<open>
  (C30) The layout of a compiled schema is sound.  \<^verbatim>\<open>Compile\<close> succeeds exactly when the primary
  key names a field and neither names nor identifiers repeat; then there is one layout entry
  per field, every fixed scalar has an 8-byte slot of its own inside the fixed payload (no
  two overlap and none of the 32-bit products wraps), the chunk coordinates used by the
  arena documents address the same slot, and the variable-size fields have distinct slots.
\<close>

theorem Compile_layout:
  assumes "Compile s out = (c, r)"
  shows "(r = None \<longleftrightarrow> compilable (sc_pk s) (fields s))
         \<and> (r = None \<longrightarrow> layout_sound (sc_pk s) (fields s) c)"
proof (cases "compilable (sc_pk s) (fields s)")
  case True
  then show ?thesis using assms Compile_accepts [OF True, of out] compiled_sound [OF True] by simp
next
  case False
  then show ?thesis using assms Compile_rejects [OF False, of out] by auto
qed

definition sample_fields :: "FieldDef list" where
  "sample_fields =
     [default_FieldDef\<lparr>fd_name := ''id'', fd_type := DInt64, fd_is_pk := True, fd_field_id := 1\<rparr>,
      default_FieldDef\<lparr>fd_name := ''tags'', fd_type := DString, fd_is_array := True,
        fd_field_id := 2, fd_is_index := True, fd_index_type := IInverted\<rparr>,
      default_FieldDef\<lparr>fd_name := ''score'', fd_type := DFloat32, fd_field_id := 7\<rparr>]"

definition sample_schema :: Schema where
  "sample_schema = new_Schema\<lparr>sc_table_name := ''t'', sc_version := 3, sc_pk := ''id'',
     sc_fields := zip [0..<3] sample_fields, sc_fresh := 3\<rparr>"

lemma fields_sample [simp]: "fields sample_schema = sample_fields"
  by (simp add: fields_def sample_schema_def sample_fields_def)

lemma sc_pk_sample [simp]: "sc_pk sample_schema = ''id''"
  by (simp add: sample_schema_def)

lemma compilable_sample: "compilable ''id'' sample_fields"
  by (simp add: compilable_def sample_fields_def default_FieldDef_def)

theorem Compile_layout_witness:
  "layout_sound ''id'' sample_fields (fst (Compile sample_schema default_CompiledSchema))"
  using Compile_layout [of sample_schema default_CompiledSchema, OF prod.collapse [symmetric]]
    compilable_sample by simp

end
