(* ===== verification/SchemaJson.thy ===== *)
theory SchemaJson
  imports Schema
begin

text \<open>
  Reading and writing schemas as JSON (\<^verbatim>\<open>src/libs/yikv/schema/schema.cc\<close>, from the scanner on).

  The scanner's state \<^verbatim>\<open>p .. end\<close> is the rest of the input.  A scanner operation returns the
  rest after it or a failure: the message the scanner stored in \<^verbatim>\<open>err\<close>, or \<open>Overflow\<close> where the
  C++ code would overflow a signed 64-bit integer (undefined behaviour).  The string reader
  clears and fills its output even when it fails, so it returns the output next to the
  outcome, and the loading functions return the object next to the outcome: what a failed
  load leaves behind is part of the model.

  All loops are total functions: every successful scanner operation consumes input.
  Recursion depth is not bounded by the model (the C++ recursion of \<^verbatim>\<open>skip_value\<close> uses the
  machine stack), and \<^verbatim>\<open>std::isdigit\<close> is that of the C locale.
\<close>

datatype json_fail = Err string | Overflow

type_synonym 'a scan = "json_fail + 'a"

fun bind_res :: "'a scan \<Rightarrow> ('a \<Rightarrow> 'b scan) \<Rightarrow> 'b scan" where
  "bind_res (Inl e) g = Inl e"
| "bind_res (Inr x) g = g x"

lemma bind_res_cong [fundef_cong]:
  "m = m' \<Longrightarrow> (\<And>x. m' = Inr x \<Longrightarrow> g x = g' x) \<Longrightarrow> bind_res m g = bind_res m' g'"
  by (cases m') simp_all

lemma bind_res_Inr [simp]: "bind_res m g = Inr y \<longleftrightarrow> (\<exists>x. m = Inr x \<and> g x = Inr y)"
  by (cases m) simp_all

abbreviation quot :: char where "quot \<equiv> CHR 0x22"
abbreviation backslash :: char where "backslash \<equiv> CHR 0x5C"
abbreviation newline :: char where "newline \<equiv> CHR 0x0A"

definition starts :: "char \<Rightarrow> string \<Rightarrow> bool" where
  "starts c p \<longleftrightarrow> p \<noteq> [] \<and> hd p = c"

lemma starts_simps [simp]: "\<not> starts c []" "starts c (d # p) \<longleftrightarrow> d = c"
  by (auto simp: starts_def)

section \<open>The scanner\<close>

definition is_ws :: "char \<Rightarrow> bool" where
  "is_ws c \<longleftrightarrow> c = CHR 0x20 \<or> c = CHR 0x09 \<or> c = newline \<or> c = CHR 0x0D"

function skip_ws :: "string \<Rightarrow> string" where
  "skip_ws [] = []"
| "skip_ws (c # cs) =
     (if is_ws c then skip_ws cs
      else if c = CHR ''/'' \<and> starts (CHR ''/'') cs
      then skip_ws (dropWhile (\<lambda>d. d \<noteq> newline) (c # cs))
      else c # cs)"
  by pat_completeness auto
termination
  by (relation "measure length") (auto intro: le_imp_less_Suc length_dropWhile_le)

definition expect :: "char \<Rightarrow> string \<Rightarrow> string scan" where
  "expect c p = (let p1 = skip_ws p in
     if starts c p1 then Inr (tl p1) else Inl (Err (''expected '' @ squote [c])))"

definition unescape :: "char \<Rightarrow> char" where
  "unescape nc = (if nc = CHR ''n'' then newline
     else if nc = CHR ''t'' then CHR 0x09
     else if nc = CHR ''r'' then CHR 0x0D
     else nc)"

fun string_body :: "string \<Rightarrow> string \<Rightarrow> string \<times> string scan" where
  "string_body [] out = (out, Inl (Err ''unterminated string''))"
| "string_body (c # cs) out =
     (if c = quot then (out, Inr cs)
      else case cs of
          [] \<Rightarrow> string_body cs (out @ [c])
        | nc # cs' \<Rightarrow> if c = backslash then string_body cs' (out @ [unescape nc])
                     else string_body cs (out @ [c]))"

definition parse_string :: "string \<Rightarrow> string \<Rightarrow> string \<times> string scan" where
  "parse_string p out = (let p1 = skip_ws p in
     if starts quot p1 then string_body (tl p1) [] else (out, Inl (Err ''expected string'')))"

definition parse_bool :: "string \<Rightarrow> (bool \<times> string) scan" where
  "parse_bool p = (let p1 = skip_ws p in
     if take 4 p1 = ''true'' then Inr (True, drop 4 p1)
     else if take 5 p1 = ''false'' then Inr (False, drop 5 p1)
     else Inl (Err ''expected true/false''))"

definition isdigit :: "char \<Rightarrow> bool" where
  "isdigit c \<longleftrightarrow> 48 \<le> (of_char c :: nat) \<and> (of_char c :: nat) \<le> 57"

definition digit_val :: "char \<Rightarrow> int" where
  "digit_val c = int (of_char c) - 48"

fun int_body :: "string \<Rightarrow> int \<Rightarrow> (int \<times> string) scan" where
  "int_body [] acc = Inr (acc, [])"
| "int_body (c # cs) acc =
     (if isdigit c then
        let v = acc * 10 + digit_val c in
        if v < 2 ^ 63 then int_body cs v else Inl Overflow
      else Inr (acc, c # cs))"

definition parse_int64 :: "string \<Rightarrow> (int \<times> string) scan" where
  "parse_int64 p = (let p1 = skip_ws p in
     if p1 = [] then Inl (Err ''expected integer'')
     else
       let neg = starts (CHR ''-'') p1;
           p2 = (if neg then tl p1 else p1)
       in if p2 = [] \<or> \<not> isdigit (hd p2) then Inl (Err ''expected digit'')
          else bind_res (int_body p2 0) (\<lambda>(v, r). Inr (if neg then - v else v, r)))"

function skip_value :: "string \<Rightarrow> string scan"
  and skip_members :: "bool \<Rightarrow> string \<Rightarrow> string scan"
  and skip_elems :: "bool \<Rightarrow> string \<Rightarrow> string scan" where
  "skip_value p = (let p1 = skip_ws p in
     if p1 = [] then Inl (Err ''unexpected end'')
     else if hd p1 = quot then snd (parse_string p1 '''')
     else if hd p1 = CHR ''t'' \<or> hd p1 = CHR ''f''
     then bind_res (parse_bool p1) (\<lambda>(b, r). Inr r)
     else if hd p1 = CHR ''{'' then skip_members True (tl p1)
     else if hd p1 = CHR ''['' then skip_elems True (tl p1)
     else if hd p1 = CHR ''-'' \<or> isdigit (hd p1)
     then bind_res (parse_int64 p1) (\<lambda>(v, r). Inr r)
     else Inl (Err ''unexpected token''))"
| "skip_members first p = (let p1 = skip_ws p in
     if starts (CHR ''}'') p1 then Inr (tl p1)
     else bind_res (if first then Inr p1 else expect (CHR '','') p1) (\<lambda>p2.
          bind_res (snd (parse_string p2 '''')) (\<lambda>p3.
          bind_res (expect (CHR '':'') p3) (\<lambda>p4.
          bind_res (skip_value p4) (\<lambda>p5. skip_members False p5)))))"
| "skip_elems first p = (let p1 = skip_ws p in
     if starts (CHR '']'') p1 then Inr (tl p1)
     else bind_res (if first then Inr p1 else expect (CHR '','') p1) (\<lambda>p2.
          bind_res (skip_value p2) (\<lambda>p3. skip_elems False p3)))"
  by pat_completeness auto

text \<open>Every successful operation consumes input, which is why the loops end.\<close>

lemma length_skip_ws: "length (skip_ws p) \<le> length p"
proof (induction p rule: skip_ws.induct)
  case (2 c cs)
  then show ?case
    using length_dropWhile_le [of "\<lambda>d. d \<noteq> newline" cs] by auto
qed simp

lemma length_tl_starts: "starts c p \<Longrightarrow> length (tl p) < length p"
  by (cases p) simp_all

lemma expect_less: "expect c p = Inr r \<Longrightarrow> length r < length p"
  using length_skip_ws [of p] length_tl_starts [of c "skip_ws p"]
  by (auto simp: expect_def Let_def split: if_splits)

lemma string_body_less: "snd (string_body p out) = Inr r \<Longrightarrow> length r < length p"
proof (induction p out rule: string_body.induct)
  case (2 c cs out)
  consider "c = quot" | "c \<noteq> quot" "cs = []" | nc cs' where "c \<noteq> quot" "cs = nc # cs'"
    by (cases cs) auto
  then show ?case
  proof cases
    case 3
    then show ?thesis using 2 by (cases "c = backslash") fastforce+
  qed (use 2 in auto)
qed simp

lemma parse_string_less: "snd (parse_string p out) = Inr r \<Longrightarrow> length r < length p"
  using length_skip_ws [of p] length_tl_starts [of quot "skip_ws p"]
    string_body_less [of "tl (skip_ws p)" "[]" r]
  by (auto simp: parse_string_def Let_def split: if_splits)

lemma parse_bool_less: "parse_bool p = Inr (b, r) \<Longrightarrow> length r < length p"
  using length_skip_ws [of p]
  by (cases "skip_ws p") (auto simp: parse_bool_def Let_def split: if_splits)

lemma int_body_le: "int_body p acc = Inr (v, r) \<Longrightarrow> length r \<le> length p"
  by (induction p acc rule: int_body.induct) (fastforce simp: Let_def split: if_splits)+

lemma int_body_less: "isdigit (hd p) \<Longrightarrow> p \<noteq> [] \<Longrightarrow> int_body p acc = Inr (v, r) \<Longrightarrow> length r < length p"
  using int_body_le by (cases p) (fastforce simp: Let_def split: if_splits)+

lemma parse_int64_less: "parse_int64 p = Inr (v, r) \<Longrightarrow> length r < length p"
proof -
  assume *: "parse_int64 p = Inr (v, r)"
  define q where "q = (if starts (CHR ''-'') (skip_ws p) then tl (skip_ws p) else skip_ws p)"
  have "q \<noteq> []" "isdigit (hd q)" "\<exists>v'. int_body q 0 = Inr (v', r)"
    using * by (auto simp: parse_int64_def Let_def q_def split: if_splits)
  then have "length r < length q" using int_body_less by blast
  moreover have "length q \<le> length p" using length_skip_ws [of p] by (auto simp: q_def)
  ultimately show ?thesis by linarith
qed

lemma parse_string_less': "parse_string p out = (s, Inr r) \<Longrightarrow> length r < length p"
  using parse_string_less [of p out r] by simp

lemmas scan_less = expect_less parse_string_less' parse_bool_less parse_int64_less

lemma first_or_expect_le:
  "(if first then Inr p else expect c p) = Inr r \<Longrightarrow> length r \<le> length p"
  using expect_less [of c p r] by (cases first) auto

lemma skip_less_dom:
  "skip_value_skip_members_skip_elems_dom (Inl p) \<Longrightarrow>
     (\<forall>r. skip_value p = Inr r \<longrightarrow> length r < length p)"
  "skip_value_skip_members_skip_elems_dom (Inr (Inl (first, q))) \<Longrightarrow>
     (\<forall>r. skip_members first q = Inr r \<longrightarrow> length r < length q)"
  "skip_value_skip_members_skip_elems_dom (Inr (Inr (first', q'))) \<Longrightarrow>
     (\<forall>r. skip_elems first' q' = Inr r \<longrightarrow> length r < length q')"
proof (induction p and first q and first' q' rule: skip_value_skip_members_skip_elems.pinduct)
  case (1 p)
  let ?p = "skip_ws p"
  have le: "length ?p \<le> length p" by (rule length_skip_ws)
  show ?case
  proof (intro allI impI)
    fix r assume r: "skip_value p = Inr r"
    note [simp] = skip_value.psimps [OF 1(1)]
    have ne: "?p \<noteq> []" using r by (auto simp: Let_def)
    then have tl: "length (tl ?p) < length ?p" by simp
    consider "hd ?p = quot" | "hd ?p \<noteq> quot" "hd ?p = CHR ''t'' \<or> hd ?p = CHR ''f''"
      | "hd ?p = CHR ''{''" | "hd ?p = CHR ''[''"
      | "hd ?p \<notin> {quot, CHR ''t'', CHR ''f'', CHR ''{'', CHR ''[''}" by auto
    then have "length r < length ?p"
    proof cases
      case 1
      then show ?thesis using r ne parse_string_less [of ?p "[]" r] by (simp add: Let_def)
    next
      case 2
      then show ?thesis using r ne parse_bool_less [of ?p] by (auto simp: Let_def)
    next
      case 3
      then show ?thesis using "1.IH"(1) [OF refl ne] r ne tl by (fastforce simp: Let_def)
    next
      case 4
      then show ?thesis using "1.IH"(2) [OF refl ne] r ne tl by (fastforce simp: Let_def)
    next
      case 5
      then show ?thesis using r ne parse_int64_less [of ?p] by (auto simp: Let_def split: if_splits)
    qed
    then show "length r < length p" using le by linarith
  qed
next
  case (2 first q)
  let ?q = "skip_ws q"
  have le: "length ?q \<le> length q" by (rule length_skip_ws)
  show ?case
  proof (intro allI impI)
    fix r assume r: "skip_members first q = Inr r"
    note [simp] = skip_members.psimps [OF 2(1)]
    show "length r < length q"
    proof (cases "starts (CHR ''}'') ?q")
      case True
      then show ?thesis using r le length_tl_starts [OF True] by (simp add: Let_def)
    next
      case False
      then obtain p2 p3 p4 p5 where
        p2: "(if first then Inr ?q else expect (CHR '','') ?q) = Inr p2"
        and p3: "snd (parse_string p2 '''') = Inr p3" and p4: "expect (CHR '':'') p3 = Inr p4"
        and p5: "skip_value p4 = Inr p5" and last: "skip_members False p5 = Inr r"
        using r by (auto simp: Let_def)
      have "length p5 < length p4" "length r < length p5"
        using "2.IH"(1) [OF refl False p2 p3 p4] "2.IH"(2) [OF refl False p2 p3 p4 p5] p5 last by auto
      then show ?thesis
        using first_or_expect_le [OF p2] parse_string_less [OF p3] expect_less [OF p4] le by linarith
    qed
  qed
next
  case (3 first' q')
  let ?q = "skip_ws q'"
  have le: "length ?q \<le> length q'" by (rule length_skip_ws)
  show ?case
  proof (intro allI impI)
    fix r assume r: "skip_elems first' q' = Inr r"
    note [simp] = skip_elems.psimps [OF 3(1)]
    show "length r < length q'"
    proof (cases "starts (CHR '']'') ?q")
      case True
      then show ?thesis using r le length_tl_starts [OF True] by (simp add: Let_def)
    next
      case False
      then obtain p2 p3 where
        p2: "(if first' then Inr ?q else expect (CHR '','') ?q) = Inr p2"
        and p3: "skip_value p2 = Inr p3" and last: "skip_elems False p3 = Inr r"
        using r by (auto simp: Let_def)
      have "length p3 < length p2" "length r < length p3"
        using "3.IH"(1) [OF refl False p2] "3.IH"(2) [OF refl False p2 p3] p3 last by auto
      then show ?thesis using first_or_expect_le [OF p2] le by linarith
    qed
  qed
qed

lemma skip_total: "\<forall>x. skip_value_skip_members_skip_elems_dom x"
proof (rule "skip_value_skip_members_skip_elems.termination" [of "measure (\<lambda>x. case x of
      Inl p \<Rightarrow> 2 * length p
    | Inr (Inl (f, p)) \<Rightarrow> 2 * length p + 1 | Inr (Inr (f, p)) \<Rightarrow> 2 * length p + 1)"], goal_cases)
  case (2 p q)
  then have "length (tl q) < length q" by simp
  then show ?case using length_skip_ws [of p] 2(1) by (simp del: length_tl)
next
  case (3 p q)
  then have "length (tl q) < length q" by simp
  then show ?case using length_skip_ws [of p] 3(1) by (simp del: length_tl)
next
  case (4 first p q p2 p3 p4)
  then show ?case
    using length_skip_ws [of p] first_or_expect_le [OF 4(3)] parse_string_less [OF 4(4)]
      expect_less [OF 4(5)] by simp
next
  case (5 first p q p2 p3 p4 p5)
  then have "length p5 < length p4" using skip_less_dom(1) by blast
  then show ?case
    using length_skip_ws [of p] first_or_expect_le [OF 5(3)] parse_string_less [OF 5(4)]
      expect_less [OF 5(5)] 5(1) by simp
next
  case (6 first p q p2)
  then show ?case using length_skip_ws [of p] first_or_expect_le [OF 6(3)] by simp
next
  case (7 first p q p2 p3)
  then have "length p3 < length p2" using skip_less_dom(1) by blast
  then show ?case using length_skip_ws [of p] first_or_expect_le [OF 7(3)] 7(1) by simp
qed simp

termination skip_value
  by (rule skip_total)

declare skip_value.simps [simp del] skip_members.simps [simp del] skip_elems.simps [simp del]

lemma skip_value_less: "skip_value p = Inr r \<Longrightarrow> length r < length p"
  using skip_less_dom(1) [OF skip_total [rule_format]] by simp

section \<open>Loading\<close>

text \<open>
  \<open>fail msg\<close> is the lambda \<^verbatim>\<open>fail\<close> of \<^verbatim>\<open>LoadJson\<close>: it prefixes what the scanner stored.
\<close>

fun fail :: "string \<Rightarrow> 'a scan \<Rightarrow> 'a scan" where
  "fail msg (Inl (Err e)) = Inl (Err (''Schema::LoadJson: '' @ msg @ '': '' @ e))"
| "fail msg (Inl Overflow) = Inl Overflow"
| "fail msg (Inr x) = Inr x"

lemma fail_Inr [simp]: "fail msg m = Inr x \<longleftrightarrow> m = Inr x"
proof (cases m)
  case (Inl e)
  then show ?thesis by (cases e) auto
qed simp

definition unknown :: "string \<Rightarrow> string \<Rightarrow> 'a scan" where
  "unknown what nm = Inl (Err (''Schema::LoadJson: unknown '' @ what @ '' '' @ squote nm))"

text \<open>
  One member of a field object: the value after \<^verbatim>\<open>"fkey":\<close> at the front of \<open>p\<close>.  The state is the
  field being read and the schema's primary key, which \<^verbatim>\<open>"is_pk": true\<close> overwrites.
\<close>

type_synonym member_state = "FieldDef \<times> string"

definition load_bool :: "string \<Rightarrow> (bool \<Rightarrow> FieldDef \<Rightarrow> FieldDef) \<Rightarrow> string \<Rightarrow> member_state
    \<Rightarrow> member_state \<times> string scan" where
  "load_bool msg upd p st = (case parse_bool p of
       Inl e \<Rightarrow> (st, fail msg (Inl e))
     | Inr (b, q) \<Rightarrow> ((upd b (fst st), snd st), Inr q))"

definition load_int :: "string \<Rightarrow> (int \<Rightarrow> FieldDef \<Rightarrow> FieldDef) \<Rightarrow> string \<Rightarrow> member_state
    \<Rightarrow> member_state \<times> string scan" where
  "load_int msg upd p st = (case parse_int64 p of
       Inl e \<Rightarrow> (st, fail msg (Inl e))
     | Inr (v, q) \<Rightarrow> ((upd v (fst st), snd st), Inr q))"

definition load_enum :: "string \<Rightarrow> (string \<Rightarrow> 'e option) \<Rightarrow> ('e \<Rightarrow> FieldDef \<Rightarrow> FieldDef) \<Rightarrow> string
    \<Rightarrow> member_state \<Rightarrow> member_state \<times> string scan" where
  "load_enum what parse upd p st = (case parse_string p '''' of
       (ts, Inl e) \<Rightarrow> (st, fail what (Inl e))
     | (ts, Inr q) \<Rightarrow> (case parse ts of
           None \<Rightarrow> (st, unknown what ts)
         | Some t \<Rightarrow> ((upd t (fst st), snd st), Inr q)))"

definition load_value :: "string \<Rightarrow> string \<Rightarrow> member_state \<Rightarrow> member_state \<times> string scan" where
  "load_value fkey p st =
     (if fkey = ''name'' then
        (case parse_string p (fd_name (fst st)) of
           (nm, r) \<Rightarrow> (((fst st)\<lparr>fd_name := nm\<rparr>, snd st), fail ''name'' r))
      else if fkey = ''data_type'' \<or> fkey = ''type''
      then load_enum ''data_type'' ParseDataType (\<lambda>t. fd_type_update (\<lambda>_. t)) p st
      else if fkey = ''is_array'' \<or> fkey = ''repeated''
      then load_bool ''is_array'' (\<lambda>b. fd_is_array_update (\<lambda>_. b)) p st
      else if fkey = ''nullable''
      then load_bool ''nullable'' (\<lambda>b. fd_nullable_update (\<lambda>_. b)) p st
      else if fkey = ''is_pk'' then
        (case load_bool ''is_pk'' (\<lambda>b. fd_is_pk_update (\<lambda>_. b)) p st of
           ((fd, pk), Inl e) \<Rightarrow> ((fd, pk), Inl e)
         | ((fd, pk), Inr q) \<Rightarrow> ((fd, if fd_is_pk fd then fd_name fd else pk), Inr q))
      else if fkey = ''is_index''
      then load_bool ''is_index'' (\<lambda>b. fd_is_index_update (\<lambda>_. b)) p st
      else if fkey = ''field_id''
      then load_int ''field_id'' (\<lambda>v. fd_field_id_update (\<lambda>_. word_of_int v)) p st
      else if fkey = ''field_offset'' \<or> fkey = ''fixed_off''
      then load_int ''fixed_off'' (\<lambda>v. fd_fixed_off_update (\<lambda>_. word_of_int v)) p st
      else if fkey = ''index_type''
      then load_enum ''index_type'' ParseIndexType (\<lambda>t. fd_index_type_update (\<lambda>_. t)) p st
      else (st, fail ''unknown field member value'' (skip_value p)))"

definition load_member :: "string \<Rightarrow> member_state \<Rightarrow> member_state \<times> string scan" where
  "load_member p st = (case parse_string p '''' of
       (fkey, Inl e) \<Rightarrow> (st, fail ''field member key'' (Inl e))
     | (fkey, Inr q) \<Rightarrow> (case expect (CHR '':'') q of
           Inl e \<Rightarrow> (st, fail ''field member colon'' (Inl e))
         | Inr q' \<Rightarrow> load_value fkey q' st))"

lemma load_bool_less: "load_bool msg upd p st = (st', Inr r) \<Longrightarrow> length r < length p"
  by (auto simp: load_bool_def split: sum.splits prod.splits dest: parse_bool_less)

lemma load_int_less: "load_int msg upd p st = (st', Inr r) \<Longrightarrow> length r < length p"
  by (auto simp: load_int_def split: sum.splits prod.splits dest: parse_int64_less)

lemma load_enum_less: "load_enum what parse upd p st = (st', Inr r) \<Longrightarrow> length r < length p"
  by (auto simp: load_enum_def unknown_def split: sum.splits prod.splits option.splits
      dest: parse_string_less')

lemma if_eqE: "(if c then a else b) = x \<Longrightarrow> (a = x \<Longrightarrow> R) \<Longrightarrow> (b = x \<Longrightarrow> R) \<Longrightarrow> R"
  by (auto split: if_splits)

lemma load_value_less: "load_value fkey p st = (st', Inr r) \<Longrightarrow> length r < length p"
  unfolding load_value_def
  by (elim if_eqE) (auto split: sum.splits prod.splits
      dest: load_bool_less load_int_less load_enum_less parse_string_less' skip_value_less)

lemma load_member_less: "load_member p st = (st', Inr r) \<Longrightarrow> length r < length p"
  by (auto simp: load_member_def split: sum.splits prod.splits
      dest!: parse_string_less' expect_less load_value_less)

lemma loop_head_le:
  "(if first then Inr (skip_ws p) else fail msg (expect c (skip_ws p))) = Inr r \<Longrightarrow>
     length r \<le> length p"
  using expect_less [of c "skip_ws p" r] length_skip_ws [of p] by (auto split: if_splits)

function load_members :: "bool \<Rightarrow> string \<Rightarrow> member_state \<Rightarrow> member_state \<times> string scan" where
  "load_members first p st = (let p1 = skip_ws p in
     if starts (CHR ''}'') p1 then (st, Inr (tl p1))
     else case (if first then Inr p1 else fail ''field member comma'' (expect (CHR '','') p1)) of
         Inl e \<Rightarrow> (st, Inl e)
       | Inr p2 \<Rightarrow> (case load_member p2 st of
             (st', Inl e) \<Rightarrow> (st', Inl e)
           | (st', Inr p3) \<Rightarrow> load_members False p3 st'))"
  by pat_completeness auto
termination
  by (relation "measure (\<lambda>(first, p, st). length p)")
    (auto dest!: loop_head_le load_member_less [OF sym])

declare load_members.simps [simp del]

lemma load_members_less: "load_members first p st = (st', Inr r) \<Longrightarrow> length r < length p"
proof (induction first p st rule: load_members.induct)
  case (1 first p st)
  show ?case
  proof (cases "starts (CHR ''}'') (skip_ws p)")
    case True
    then show ?thesis
      using 1(2) length_tl_starts [OF True] length_skip_ws [of p]
      by (simp add: load_members.simps [of first p] Let_def del: length_tl)
  next
    case False
    then obtain p2 st'' p3 where
      p2: "(if first then Inr (skip_ws p)
            else fail ''field member comma'' (expect (CHR '','') (skip_ws p))) = Inr p2"
      and p3: "load_member p2 st = (st'', Inr p3)" and rec: "load_members False p3 st'' = (st', Inr r)"
      using 1(2) by (subst (asm) load_members.simps) (auto simp: Let_def split: sum.splits prod.splits)
    show ?thesis
      using 1(1) [OF refl False p2 p3 [symmetric] refl rec] load_member_less [OF p3] loop_head_le [OF p2]
      by linarith
  qed
qed

text \<open>
  The end of a field object: an absent (zero) identifier is replaced by the successor of the
  largest seen, except for the first field; the object is appended.
\<close>

definition push_field :: "FieldPtr \<Rightarrow> FieldDef \<Rightarrow> Schema \<Rightarrow> Schema" where
  "push_field ptr fd s =
     (let fd1 = (if fd_field_id fd = 0 \<and> sc_fields s \<noteq> []
                 then fd\<lparr>fd_field_id := sc_max_field_id s + 1\<rparr> else fd);
          s1 = (if sc_max_field_id s < fd_field_id fd1
                then s\<lparr>sc_max_field_id := fd_field_id fd1\<rparr> else s)
      in s1\<lparr>sc_fields := sc_fields s1 @ [(ptr, fd1)]\<rparr>)"

definition load_field :: "string \<Rightarrow> Schema \<Rightarrow> Schema \<times> string scan" where
  "load_field p s = (case fail ''field object open'' (expect (CHR ''{'') p) of
       Inl e \<Rightarrow> (s, Inl e)
     | Inr q \<Rightarrow>
         let ptr = sc_fresh s; s1 = s\<lparr>sc_fresh := Suc ptr\<rparr> in
         (case load_members True q (default_FieldDef, sc_pk s1) of
            ((fd, pk), Inl e) \<Rightarrow> (s1\<lparr>sc_pk := pk\<rparr>, Inl e)
          | ((fd, pk), Inr r) \<Rightarrow> (push_field ptr fd (s1\<lparr>sc_pk := pk\<rparr>), Inr r)))"

lemma load_field_less: "load_field p s = (s', Inr r) \<Longrightarrow> length r < length p"
  by (auto simp: load_field_def Let_def split: sum.splits prod.splits
      dest!: load_members_less expect_less)

function load_fields :: "bool \<Rightarrow> string \<Rightarrow> Schema \<Rightarrow> Schema \<times> string scan" where
  "load_fields first p s = (let p1 = skip_ws p in
     if starts (CHR '']'') p1 then (s, Inr (tl p1))
     else case (if first then Inr p1 else fail ''field comma'' (expect (CHR '','') p1)) of
         Inl e \<Rightarrow> (s, Inl e)
       | Inr p2 \<Rightarrow> (case load_field p2 s of
             (s', Inl e) \<Rightarrow> (s', Inl e)
           | (s', Inr p3) \<Rightarrow> load_fields False p3 s'))"
  by pat_completeness auto
termination
  by (relation "measure (\<lambda>(first, p, s). length p)")
    (auto dest!: loop_head_le load_field_less [OF sym])

declare load_fields.simps [simp del]

lemma load_fields_less: "load_fields first p s = (s', Inr r) \<Longrightarrow> length r < length p"
proof (induction first p s rule: load_fields.induct)
  case (1 first p s)
  show ?case
  proof (cases "starts (CHR '']'') (skip_ws p)")
    case True
    then show ?thesis
      using 1(2) length_tl_starts [OF True] length_skip_ws [of p]
      by (simp add: load_fields.simps [of first p] Let_def del: length_tl)
  next
    case False
    then obtain p2 s'' p3 where
      p2: "(if first then Inr (skip_ws p)
            else fail ''field comma'' (expect (CHR '','') (skip_ws p))) = Inr p2"
      and p3: "load_field p2 s = (s'', Inr p3)" and rec: "load_fields False p3 s'' = (s', Inr r)"
      using 1(2) by (subst (asm) load_fields.simps) (auto simp: Let_def split: sum.splits prod.splits)
    show ?thesis
      using 1(1) [OF refl False p2 p3 [symmetric] refl rec] load_field_less [OF p3] loop_head_le [OF p2]
      by linarith
  qed
qed

definition load_entry_value :: "string \<Rightarrow> string \<Rightarrow> Schema \<Rightarrow> Schema \<times> string scan" where
  "load_entry_value key p s =
     (if key = ''table_name'' then
        (case parse_string p (sc_table_name s) of
           (nm, r) \<Rightarrow> (s\<lparr>sc_table_name := nm\<rparr>, fail ''table_name'' r))
      else if key = ''schema_version'' \<or> key = ''version'' then
        (case parse_int64 p of
           Inl e \<Rightarrow> (s, fail ''schema_version'' (Inl e))
         | Inr (v, q) \<Rightarrow> (s\<lparr>sc_version := v\<rparr>, Inr q))
      else if key = ''table_format'' then
        (case parse_string p '''' of
           (fmt, Inl e) \<Rightarrow> (s, fail ''table_format'' (Inl e))
         | (fmt, Inr q) \<Rightarrow> (case ParseTableFormat fmt of
               None \<Rightarrow> (s, unknown ''table_format'' fmt)
             | Some t \<Rightarrow> (s\<lparr>sc_format := t\<rparr>, Inr q)))
      else if key = ''pk'' then
        (case parse_string p (sc_pk s) of (nm, r) \<Rightarrow> (s\<lparr>sc_pk := nm\<rparr>, fail ''pk'' r))
      else if key = ''fields'' then
        (case fail ''fields array open'' (expect (CHR ''['') p) of
           Inl e \<Rightarrow> (s, Inl e)
         | Inr q \<Rightarrow> load_fields True q s)
      else (s, fail ''unknown top-level value'' (skip_value p)))"

definition load_entry :: "string \<Rightarrow> Schema \<Rightarrow> Schema \<times> string scan" where
  "load_entry p s = (case parse_string p '''' of
       (key, Inl e) \<Rightarrow> (s, fail ''key'' (Inl e))
     | (key, Inr q) \<Rightarrow> (case expect (CHR '':'') q of
           Inl e \<Rightarrow> (s, fail ''colon'' (Inl e))
         | Inr q' \<Rightarrow> load_entry_value key q' s))"

lemma load_entry_value_less: "load_entry_value key p s = (s', Inr r) \<Longrightarrow> length r < length p"
  unfolding load_entry_value_def
  by (elim if_eqE) (auto simp: unknown_def split: sum.splits prod.splits option.splits
      dest!: load_fields_less scan_less skip_value_less)

lemma load_entry_less: "load_entry p s = (s', Inr r) \<Longrightarrow> length r < length p"
  by (auto simp: load_entry_def split: sum.splits prod.splits
      dest!: parse_string_less' expect_less load_entry_value_less)

function load_entries :: "bool \<Rightarrow> string \<Rightarrow> Schema \<Rightarrow> Schema \<times> string scan" where
  "load_entries first p s = (let p1 = skip_ws p in
     if starts (CHR ''}'') p1 then (s, Inr (tl p1))
     else case (if first then Inr p1 else fail ''comma'' (expect (CHR '','') p1)) of
         Inl e \<Rightarrow> (s, Inl e)
       | Inr p2 \<Rightarrow> (case load_entry p2 s of
             (s', Inl e) \<Rightarrow> (s', Inl e)
           | (s', Inr p3) \<Rightarrow> load_entries False p3 s'))"
  by pat_completeness auto
termination
  by (relation "measure (\<lambda>(first, p, s). length p)")
    (auto dest!: loop_head_le load_entry_less [OF sym])

declare load_entries.simps [simp del]

definition LoadJson :: "string \<Rightarrow> Schema \<Rightarrow> Schema \<times> json_fail option" where
  "LoadJson json s = (case fail ''opening brace'' (expect (CHR ''{'') json) of
       Inl e \<Rightarrow> (s, Some e)
     | Inr p \<Rightarrow>
         let s1 = s\<lparr>sc_table_name := '''', sc_version := 0, sc_format := FSparseRowBinary,
                    sc_pk := '''', sc_fields := []\<rparr>
         in case load_entries True p s1 of
              (s2, Inl e) \<Rightarrow> (s2, Some e)
            | (s2, Inr r) \<Rightarrow>
                if sc_pk s2 = ''''
                then (s2, Some (Err (''Schema::LoadJson: '' @ squote ''pk'' @ '' is required'')))
                else (RebuildMaps s2, None))"

section \<open>Printing\<close>

definition quoted :: "string \<Rightarrow> string" where
  "quoted s = quot # s @ [quot]"

definition key :: "string \<Rightarrow> string" where
  "key k = quoted k @ '':''"

definition print_int :: "int \<Rightarrow> string" where
  "print_int v = (if v < 0 then ''-'' @ print_nat (nat (- v)) else print_nat (nat v))"

definition print_bool :: "bool \<Rightarrow> string" where
  "print_bool b = (if b then ''true'' else ''false'')"

definition print_field :: "FieldDef \<Rightarrow> string" where
  "print_field f =
     ''{'' @ key ''name'' @ quoted (fd_name f) @ '',''
     @ key ''data_type'' @ quoted (DataTypeName (fd_type f)) @ '',''
     @ key ''is_array'' @ print_bool (fd_is_array f) @ '',''
     @ key ''nullable'' @ print_bool (fd_nullable f) @ '',''
     @ key ''is_pk'' @ print_bool (fd_is_pk f) @ '',''
     @ key ''is_index'' @ print_bool (fd_is_index f) @ '',''
     @ key ''field_id'' @ print_nat (unat (fd_field_id f)) @ '',''
     @ key ''fixed_off'' @ print_nat (unat (fd_fixed_off f)) @ '',''
     @ key ''index_type'' @ quoted (IndexTypeName (fd_index_type f))
     @ ''}''"

fun print_fields :: "bool \<Rightarrow> FieldDef list \<Rightarrow> string" where
  "print_fields first [] = []"
| "print_fields first (f # fs) =
     (if first then [] else '','') @ print_field f @ print_fields False fs"

definition ToJson :: "Schema \<Rightarrow> string" where
  "ToJson s =
     ''{'' @ key ''table_name'' @ quoted (sc_table_name s) @ '',''
     @ key ''schema_version'' @ print_int (sc_version s) @ '',''
     @ key ''table_format'' @ quoted (TableFormatName (sc_format s)) @ '',''
     @ key ''pk'' @ quoted (sc_pk s) @ '',''
     @ key ''fields'' @ ''['' @ print_fields True (fields s) @ '']}''"

section \<open>What is printed is read back\<close>

text \<open>
  \<^verbatim>\<open>ToJson\<close> does not escape, so the round trip needs strings without quotes and backslashes.
\<close>

definition plain :: "string \<Rightarrow> bool" where
  "plain s \<longleftrightarrow> quot \<notin> set s \<and> backslash \<notin> set s"

lemma plain_Cons [simp]: "plain (c # s) \<longleftrightarrow> c \<noteq> quot \<and> c \<noteq> backslash \<and> plain s"
  by (auto simp: plain_def)

lemma plain_Nil [simp]: "plain []"
  by (simp add: plain_def)

lemma string_body_plain: "plain s \<Longrightarrow> string_body (s @ quot # r) out = (out @ s, Inr r)"
proof (induction s arbitrary: out)
  case (Cons c s)
  obtain d t where dt: "s @ quot # r = d # t" by (cases "s @ quot # r") auto
  have "string_body ((c # s) @ quot # r) out = string_body (s @ quot # r) (out @ [c])"
    using Cons.prems by (simp add: dt)
  then show ?case using Cons by simp
qed simp

lemma skip_ws_stop: "\<not> is_ws c \<Longrightarrow> c \<noteq> CHR ''/'' \<Longrightarrow> skip_ws (c # r) = c # r"
  by simp

lemma expect_front: "\<not> is_ws c \<Longrightarrow> c \<noteq> CHR ''/'' \<Longrightarrow> expect c (c # r) = Inr r"
  by (simp add: expect_def skip_ws_stop)

lemma ws_chars [simp]:
  "\<not> is_ws quot" "\<not> is_ws (CHR '','')" "\<not> is_ws (CHR '':'')" "\<not> is_ws (CHR ''{'')"
  "\<not> is_ws (CHR ''}'')" "\<not> is_ws (CHR ''['')" "\<not> is_ws (CHR '']'')" "\<not> is_ws (CHR ''t'')"
  "\<not> is_ws (CHR ''f'')" "\<not> is_ws (CHR ''-'')"
  by (simp_all add: is_ws_def)

lemma parse_string_quoted: "plain s \<Longrightarrow> parse_string (quoted s @ r) out = (s, Inr r)"
  using string_body_plain [of s r "[]"] by (simp add: parse_string_def quoted_def)

lemma parse_bool_print: "parse_bool (print_bool b @ r) = Inr (b, r)"
  by (cases b) (simp_all add: parse_bool_def print_bool_def)

lemma digit_char:
  assumes "d < 10"
  shows "isdigit (char_of (48 + d))" "digit_val (char_of (48 + d)) = int d"
    "of_char (char_of (48 + d) :: char) = (48 + d :: nat)"
proof -
  show *: "of_char (char_of (48 + d) :: char) = (48 + d :: nat)"
    using assms by simp
  then show "isdigit (char_of (48 + d))" using assms by (simp add: isdigit_def)
  from * show "digit_val (char_of (48 + d)) = int d" by (simp add: digit_val_def *)
qed

lemma int_body_print_nat: "n < 2 ^ 63 \<Longrightarrow> int_body (print_nat n @ r) 0 = int_body r (int n)"
proof (induction n arbitrary: r rule: print_nat.induct)
  case (1 n)
  show ?case
  proof (cases "n < 10")
    case True
    then show ?thesis using digit_char [OF True] by (simp add: print_nat.simps [of n])
  next
    case False
    have d: "n mod 10 < 10" by simp
    have "n div 10 < 2 ^ 63" using 1(2) by (rule le_less_trans [OF div_le_dividend])
    then have IH: "int_body (print_nat (n div 10) @ r') 0 = int_body r' (int (n div 10))" for r'
      using 1(1) [OF False] by simp
    have v: "int (n div 10) * 10 + int (n mod 10) = int n"
      by (metis div_mult_mod_eq of_nat_add of_nat_mult of_nat_numeral)
    have "int n < 2 ^ 63" using 1(2) by (metis of_nat_less_iff of_nat_numeral of_nat_power)
    then show ?thesis
      using False digit_char [OF d] v by (simp add: print_nat.simps [of n] IH)
  qed
qed

lemma print_nat_front: "\<exists>d cs. print_nat n = d # cs \<and> isdigit d"
proof (induction n rule: print_nat.induct)
  case (1 n)
  then show ?case using digit_char(1) [of n]
    by (cases "n < 10") (auto simp: print_nat.simps [of n])
qed

lemma print_nat_digits: "c \<in> set (print_nat n) \<Longrightarrow> isdigit c"
proof (induction n rule: print_nat.induct)
  case (1 n)
  then show ?case using digit_char(1) [of "n mod 10"] digit_char(1) [of n]
    by (cases "n < 10") (auto simp: print_nat.simps [of n])
qed

definition no_digit :: "string \<Rightarrow> bool" where
  "no_digit r \<longleftrightarrow> r = [] \<or> \<not> isdigit (hd r)"

lemma int_body_stop: "no_digit r \<Longrightarrow> int_body r v = Inr (v, r)"
  by (cases r) (simp_all add: no_digit_def)

lemma isdigit_not_ws: "isdigit d \<Longrightarrow> \<not> is_ws d \<and> d \<noteq> CHR ''/'' \<and> d \<noteq> CHR ''-''"
  by (auto simp: isdigit_def is_ws_def)

lemma parse_int64_print:
  assumes "- (2 ^ 63) < v" "v < 2 ^ 63" "no_digit r"
  shows "parse_int64 (print_int v @ r) = Inr (v, r)"
proof -
  define n where "n = nat (abs v)"
  have "n < 2 ^ 63" using assms(1,2) by (simp add: n_def)
  then have body: "int_body (print_nat n @ r) 0 = Inr (int n, r)"
    using int_body_print_nat int_body_stop [OF assms(3)] by simp
  obtain d cs where d: "print_nat n = d # cs" "isdigit d" using print_nat_front by blast
  show ?thesis
  proof (cases "v < 0")
    case True
    then have "print_int v = CHR ''-'' # print_nat n" "v = - int n"
      by (simp_all add: print_int_def n_def)
    then show ?thesis using body d by (simp add: parse_int64_def Let_def)
  next
    case False
    then have "print_int v = print_nat n" "v = int n" by (simp_all add: print_int_def n_def)
    then show ?thesis using body d isdigit_not_ws [OF d(2)] by (simp add: parse_int64_def Let_def)
  qed
qed

lemma parse_int64_print_nat:
  assumes "n < 2 ^ 63" "no_digit r"
  shows "parse_int64 (print_nat n @ r) = Inr (int n, r)"
proof -
  have "int n < 2 ^ 63" using assms(1) by (metis of_nat_less_iff of_nat_numeral of_nat_power)
  then show ?thesis using parse_int64_print [of "int n" r] assms(2) by (simp add: print_int_def)
qed

lemmas scan_print = parse_string_quoted parse_bool_print parse_int64_print parse_int64_print_nat

lemma no_digit_punct [simp]: "no_digit (CHR '','' # r)" "no_digit (CHR ''}'' # r)"
  by (simp_all add: no_digit_def isdigit_def)

text \<open>A key and its colon are read off, and the value is loaded under that key.\<close>

lemma parse_key:
  assumes "plain k"
  shows "parse_string (key k @ r) out = (k, Inr (CHR '':'' # r))"
  using parse_string_quoted [OF assms, of "CHR '':'' # r"] by (simp add: key_def)

lemma load_member_key: "plain k \<Longrightarrow> load_member (key k @ r) st = load_value k r st"
  by (simp add: load_member_def parse_key expect_front)

lemma load_entry_key: "plain k \<Longrightarrow> load_entry (key k @ r) s = load_entry_value k r s"
  by (simp add: load_entry_def parse_key expect_front)

lemma skip_ws_key: "skip_ws (key k @ r) = key k @ r" "\<not> starts (CHR ''}'') (key k @ r)"
  by (simp_all add: key_def quoted_def)

text \<open>One round of the two object loops when the next member is printed.\<close>

lemma load_members_first:
  assumes "plain k" "load_value k r st = (st', Inr r')"
  shows "load_members True (key k @ r) st = load_members False r' st'"
  by (subst load_members.simps) (simp add: skip_ws_key load_member_key assms)

lemma load_members_next:
  assumes "plain k" "load_value k r st = (st', Inr r')"
  shows "load_members False (CHR '','' # key k @ r) st = load_members False r' st'"
  by (subst load_members.simps) (simp add: expect_front load_member_key assms)

lemma load_members_end: "load_members first (CHR ''}'' # r) st = (st, Inr r)"
  by (subst load_members.simps) simp

lemma load_entries_first:
  assumes "plain k" "load_entry_value k r s = (s', Inr r')"
  shows "load_entries True (key k @ r) s = load_entries False r' s'"
  by (subst load_entries.simps) (simp add: skip_ws_key load_entry_key assms)

lemma load_entries_next:
  assumes "plain k" "load_entry_value k r s = (s', Inr r')"
  shows "load_entries False (CHR '','' # key k @ r) s = load_entries False r' s'"
  by (subst load_entries.simps) (simp add: expect_front load_entry_key assms)

lemma load_entries_end: "load_entries first (CHR ''}'' # r) s = (s, Inr r)"
  by (subst load_entries.simps) simp

lemma plain_DataTypeName [simp]: "plain (DataTypeName t)"
  by (cases t) simp_all

lemma plain_IndexTypeName [simp]: "plain (IndexTypeName it)"
  by (cases it) simp_all

lemma plain_TableFormatName [simp]: "plain (TableFormatName tf)"
  by (cases tf) simp_all

lemma unat_small [simp]: "unat (i::u16) < 9223372036854775808" "unat (w::u32) < 9223372036854775808"
proof -
  have "unat i < 2 ^ LENGTH(16)" "unat w < 2 ^ LENGTH(32)" by (rule unsigned_less)+
  then show "unat i < 9223372036854775808" "unat w < 9223372036854775808" by simp_all
qed

text \<open>The values of a field object.\<close>

lemma load_values:
  "plain nm \<Longrightarrow> load_value ''name'' (quoted nm @ r) (fd, pk) = ((fd\<lparr>fd_name := nm\<rparr>, pk), Inr r)"
  "load_value ''data_type'' (quoted (DataTypeName t) @ r) (fd, pk) =
     ((fd\<lparr>fd_type := t\<rparr>, pk), Inr r)"
  "load_value ''is_array'' (print_bool b @ r) (fd, pk) = ((fd\<lparr>fd_is_array := b\<rparr>, pk), Inr r)"
  "load_value ''nullable'' (print_bool b @ r) (fd, pk) = ((fd\<lparr>fd_nullable := b\<rparr>, pk), Inr r)"
  "load_value ''is_pk'' (print_bool b @ r) (fd, pk) =
     ((fd\<lparr>fd_is_pk := b\<rparr>, if b then fd_name fd else pk), Inr r)"
  "load_value ''is_index'' (print_bool b @ r) (fd, pk) = ((fd\<lparr>fd_is_index := b\<rparr>, pk), Inr r)"
  "no_digit r \<Longrightarrow> load_value ''field_id'' (print_nat (unat i) @ r) (fd, pk) =
     ((fd\<lparr>fd_field_id := i\<rparr>, pk), Inr r)"
  "no_digit r \<Longrightarrow> load_value ''fixed_off'' (print_nat (unat w) @ r) (fd, pk) =
     ((fd\<lparr>fd_fixed_off := w\<rparr>, pk), Inr r)"
  "load_value ''index_type'' (quoted (IndexTypeName it) @ r) (fd, pk) =
     ((fd\<lparr>fd_index_type := it\<rparr>, pk), Inr r)"
  by (simp_all add: load_value_def load_bool_def load_int_def load_enum_def scan_print)

lemma load_members_print_field:
  assumes "plain (fd_name f)"
  shows "load_members True (tl (print_field f) @ r) (default_FieldDef, pk) =
     ((f, if fd_is_pk f then fd_name f else pk), Inr r)"
  by (simp add: print_field_def assms load_members_first [OF _ load_values(1)]
      load_members_next [OF _ load_values(2)] load_members_next [OF _ load_values(3)]
      load_members_next [OF _ load_values(4)] load_members_next [OF _ load_values(5)]
      load_members_next [OF _ load_values(6)] load_members_next [OF _ load_values(7)]
      load_members_next [OF _ load_values(8)] load_members_next [OF _ load_values(9)]
      load_members_end)

text \<open>
  A schema that can be written and read back: plain strings, a version in the range the
  reader accepts, identifiers that the reader does not replace, and a primary key that agrees
  with the fields marked as such.
\<close>

definition printable :: "Schema \<Rightarrow> bool" where
  "printable s \<longleftrightarrow> plain (sc_table_name s) \<and> plain (sc_pk s) \<and> sc_pk s \<noteq> ''''
     \<and> - (2 ^ 63) < sc_version s \<and> sc_version s < 2 ^ 63
     \<and> (\<forall>f \<in> set (fields s). plain (fd_name f) \<and> (fd_is_pk f \<longrightarrow> fd_name f = sc_pk s))
     \<and> (\<forall>f \<in> set (tl (fields s)). fd_field_id f \<noteq> 0)"

definition push_ok :: "FieldDef \<Rightarrow> Schema \<Rightarrow> bool" where
  "push_ok f s \<longleftrightarrow> plain (fd_name f) \<and> (fd_is_pk f \<longrightarrow> fd_name f = sc_pk s)
     \<and> (fd_field_id f \<noteq> 0 \<or> sc_fields s = [])"

definition pushed :: "FieldDef \<Rightarrow> Schema \<Rightarrow> Schema" where
  "pushed f s = s\<lparr>sc_fields := sc_fields s @ [(sc_fresh s, f)], sc_fresh := Suc (sc_fresh s),
     sc_max_field_id := max (sc_max_field_id s) (fd_field_id f)\<rparr>"

lemma load_field_print:
  assumes "push_ok f s"
  shows "load_field (print_field f @ r) s = (pushed f s, Inr r)"
proof -
  have front: "print_field f = CHR ''{'' # tl (print_field f)" by (simp add: print_field_def)
  have members: "load_members True (tl (print_field f) @ r) (default_FieldDef, sc_pk s) =
      ((f, sc_pk s), Inr r)"
    using assms by (simp add: load_members_print_field push_ok_def)
  have push: "push_field (sc_fresh s) f (s\<lparr>sc_fresh := Suc (sc_fresh s)\<rparr>) = pushed f s"
    using assms by (auto simp: push_field_def pushed_def push_ok_def Let_def max_def)
  show ?thesis
    by (subst front) (simp add: load_field_def expect_front members Let_def push)
qed

lemma pushed_simps [simp]:
  "sc_pk (pushed f s) = sc_pk s" "sc_table_name (pushed f s) = sc_table_name s"
  "sc_version (pushed f s) = sc_version s" "sc_format (pushed f s) = sc_format s"
  "fields (pushed f s) = fields s @ [f]" "sc_fields (pushed f s) \<noteq> []"
  by (simp_all add: pushed_def fields_def)

lemma load_fields_print:
  assumes "\<forall>f \<in> set fs. plain (fd_name f) \<and> (fd_is_pk f \<longrightarrow> fd_name f = sc_pk s)"
    and "\<forall>f \<in> set (if first then tl fs else fs). fd_field_id f \<noteq> 0"
    and "first \<longleftrightarrow> sc_fields s = []"
  shows "load_fields first (print_fields first fs @ CHR '']'' # r) s = (fold pushed fs s, Inr r)"
  using assms
proof (induction fs arbitrary: first s)
  case Nil
  then show ?case by (subst load_fields.simps) simp
next
  case (Cons f fs)
  have ok: "push_ok f s" using Cons.prems by (auto simp: push_ok_def)
  have head: "skip_ws (print_field f @ r') = print_field f @ r'"
      "\<not> starts (CHR '']'') (print_field f @ r')" for r'
    by (simp_all add: print_field_def)
  have "load_fields first (print_fields first (f # fs) @ CHR '']'' # r) s =
      load_fields False (print_fields False fs @ CHR '']'' # r) (pushed f s)"
    by (subst load_fields.simps) (simp add: head expect_front load_field_print [OF ok])
  also have "\<dots> = (fold pushed fs (pushed f s), Inr r)"
    by (rule Cons.IH) (use Cons.prems in \<open>auto split: if_splits\<close>)
  finally show ?case by simp
qed

lemma fold_pushed_simps [simp]:
  "sc_pk (fold pushed fs s) = sc_pk s" "sc_table_name (fold pushed fs s) = sc_table_name s"
  "sc_version (fold pushed fs s) = sc_version s" "sc_format (fold pushed fs s) = sc_format s"
  "fields (fold pushed fs s) = fields s @ fs"
  by (induction fs arbitrary: s) simp_all

lemma load_entry_values:
  "plain nm \<Longrightarrow> load_entry_value ''table_name'' (quoted nm @ r) s = (s\<lparr>sc_table_name := nm\<rparr>, Inr r)"
  "- (2 ^ 63) < v \<Longrightarrow> v < 2 ^ 63 \<Longrightarrow> no_digit r \<Longrightarrow>
     load_entry_value ''schema_version'' (print_int v @ r) s = (s\<lparr>sc_version := v\<rparr>, Inr r)"
  "load_entry_value ''table_format'' (quoted (TableFormatName tf) @ r) s = (s\<lparr>sc_format := tf\<rparr>, Inr r)"
  "plain nm \<Longrightarrow> load_entry_value ''pk'' (quoted nm @ r) s = (s\<lparr>sc_pk := nm\<rparr>, Inr r)"
  "load_entry_value ''fields'' (CHR ''['' # r) s = load_fields True r s"
  by (simp_all add: load_entry_value_def scan_print expect_front)

lemma LoadJson_ToJson:
  assumes "printable s"
  shows "\<exists>s'. LoadJson (ToJson s) s0 = (s', None) \<and> sc_table_name s' = sc_table_name s
     \<and> sc_version s' = sc_version s \<and> sc_format s' = sc_format s \<and> sc_pk s' = sc_pk s
     \<and> fields s' = fields s"
proof -
  let ?s1 = "s0\<lparr>sc_fields := [], sc_table_name := sc_table_name s, sc_version := sc_version s,
      sc_format := sc_format s, sc_pk := sc_pk s\<rparr>"
  have flds: "load_fields True (print_fields True (fields s) @ CHR '']'' # ''}'') ?s1 =
      (fold pushed (fields s) ?s1, Inr ''}'')"
    by (rule load_fields_print) (use assms in \<open>auto simp: printable_def\<close>)
  have "load_entries True (tl (ToJson s)) (s0\<lparr>sc_table_name := '''', sc_version := 0,
        sc_format := FSparseRowBinary, sc_pk := '''', sc_fields := []\<rparr>) =
      (fold pushed (fields s) ?s1, Inr '''')"
    using assms load_entries_next [OF _ trans [OF load_entry_values(5) flds]]
    by (simp add: ToJson_def printable_def load_entries_first [OF _ load_entry_values(1)]
        load_entries_next [OF _ load_entry_values(2)] load_entries_next [OF _ load_entry_values(3)]
        load_entries_next [OF _ load_entry_values(4)] load_entries_end)
  moreover have "expect (CHR ''{'') (ToJson s) = Inr (tl (ToJson s))"
    by (simp add: ToJson_def expect_front)
  moreover have "fields ?s1 = []" by (simp add: fields_def)
  ultimately show ?thesis using assms by (simp add: LoadJson_def Let_def printable_def)
qed

text \<open>
  (C29) A schema that \<^verbatim>\<open>ToJson\<close> writes is read back by \<^verbatim>\<open>LoadJson\<close>, whatever the object it is
  loaded into held before: the load succeeds and table name, version, format, primary key and
  all fields are those of the schema written.
\<close>

theorem schema_json_roundtrip:
  assumes "printable s"
  shows "\<exists>s'. LoadJson (ToJson s) s0 = (s', None) \<and> sc_table_name s' = sc_table_name s
     \<and> sc_version s' = sc_version s \<and> sc_format s' = sc_format s \<and> sc_pk s' = sc_pk s
     \<and> fields s' = fields s"
  by (rule LoadJson_ToJson [OF assms])

lemma printable_sample: "printable sample_schema"
proof -
  have "sc_version sample_schema = 3" "sc_table_name sample_schema = ''t''"
    by (simp_all add: sample_schema_def)
  then show ?thesis by (simp add: printable_def sample_fields_def default_FieldDef_def)
qed

theorem schema_json_roundtrip_witness:
  "\<exists>s'. LoadJson (ToJson sample_schema) new_Schema = (s', None) \<and> fields s' = sample_fields"
  using schema_json_roundtrip [OF printable_sample, of new_Schema] by auto

text \<open>
  What loading keeps until the maps are rebuilt: the owned pointers are distinct and below the
  allocation counter, none is older than \<open>n\<close>, and the name map is still \<open>m\<close>.
\<close>

definition loading :: "FieldPtr \<Rightarrow> (string \<Rightarrow> FieldPtr option) \<Rightarrow> Schema \<Rightarrow> bool" where
  "loading n m s \<longleftrightarrow> wf_ptrs s \<and> n \<le> sc_fresh s \<and> (\<forall>p \<in> set (map fst (sc_fields s)). n \<le> p)
     \<and> sc_field_map s = m"

lemma loading_frame [simp]:
  "loading n m (s\<lparr>sc_pk := x\<rparr>) = loading n m s"
  "loading n m (s\<lparr>sc_table_name := x\<rparr>) = loading n m s"
  "loading n m (s\<lparr>sc_version := v\<rparr>) = loading n m s"
  "loading n m (s\<lparr>sc_format := f\<rparr>) = loading n m s"
  by (simp_all add: loading_def wf_ptrs_def)

lemma loading_start: "sc_fields s = [] \<Longrightarrow> loading (sc_fresh s) (sc_field_map s) s"
  by (simp add: loading_def wf_ptrs_def)

lemma loading_push:
  "loading n m s \<Longrightarrow>
     loading n m (push_field (sc_fresh s) fd (s\<lparr>sc_fresh := Suc (sc_fresh s), sc_pk := pk\<rparr>))"
  by (auto simp: loading_def wf_ptrs_def push_field_def Let_def)

lemma loading_fresh: "loading n m s \<Longrightarrow> loading n m (s\<lparr>sc_fresh := Suc (sc_fresh s)\<rparr>)"
  by (auto simp: loading_def wf_ptrs_def)

lemma load_field_loading: "load_field p s = (s', r) \<Longrightarrow> loading n m s \<Longrightarrow> loading n m s'"
  by (auto simp: load_field_def Let_def loading_push loading_fresh split: sum.splits prod.splits)

lemma load_fields_loading: "load_fields first p s = (s', r) \<Longrightarrow> loading n m s \<Longrightarrow> loading n m s'"
proof (induction first p s rule: load_fields.induct)
  case (1 first p s)
  show ?case
  proof (cases "starts (CHR '']'') (skip_ws p)")
    case True
    then show ?thesis using 1(2,3) by (simp add: load_fields.simps [of first p])
  next
    case False
    show ?thesis
      using 1(2,3) 1(1) [OF refl False _ _ refl] False load_field_loading
      by (subst (asm) load_fields.simps)
        (simp add: Let_def split: sum.splits prod.splits; metis (no_types))
  qed
qed

lemma load_entry_value_loading:
  "load_entry_value k p s = (s', r) \<Longrightarrow> loading n m s \<Longrightarrow> loading n m s'"
  unfolding load_entry_value_def
  by (elim if_eqE) (auto split: sum.splits prod.splits option.splits dest: load_fields_loading)

lemma load_entry_loading: "load_entry p s = (s', r) \<Longrightarrow> loading n m s \<Longrightarrow> loading n m s'"
  by (auto simp: load_entry_def split: sum.splits prod.splits dest: load_entry_value_loading)

lemma load_entries_loading: "load_entries first p s = (s', r) \<Longrightarrow> loading n m s \<Longrightarrow> loading n m s'"
proof (induction first p s rule: load_entries.induct)
  case (1 first p s)
  show ?case
  proof (cases "starts (CHR ''}'') (skip_ws p)")
    case True
    then show ?thesis using 1(2,3) by (simp add: load_entries.simps [of first p])
  next
    case False
    show ?thesis
      using 1(2,3) 1(1) [OF refl False _ _ refl] False load_entry_loading
      by (subst (asm) load_entries.simps)
        (simp add: Let_def split: sum.splits prod.splits; metis (no_types))
  qed
qed

text \<open>Once the opening brace is read, the old fields are gone and the rest is loading.\<close>

lemma LoadJson_cases:
  assumes "expect (CHR ''{'') json = Inr q"
  obtains s2 where "loading (sc_fresh s) (sc_field_map s) s2"
    "(\<exists>e. LoadJson json s = (s2, Some e)) \<or> (LoadJson json s = (RebuildMaps s2, None) \<and> sc_pk s2 \<noteq> '''')"
proof -
  let ?s1 = "s\<lparr>sc_table_name := '''', sc_version := 0, sc_format := FSparseRowBinary,
      sc_pk := '''', sc_fields := []\<rparr>"
  obtain s2 r where s2: "load_entries True q ?s1 = (s2, r)" by fastforce
  have "loading (sc_fresh s) (sc_field_map s) s2"
    using load_entries_loading [OF s2] loading_start [of ?s1] by simp
  moreover have "(\<exists>e. LoadJson json s = (s2, Some e))
      \<or> (LoadJson json s = (RebuildMaps s2, None) \<and> sc_pk s2 \<noteq> '''')"
    using s2 assms by (cases r) (auto simp: LoadJson_def Let_def)
  ultimately show ?thesis using that by blast
qed




lemma live_ptr_owned: "live_ptr s p \<longleftrightarrow> p \<in> fst ` set (sc_fields s)"
  by (simp add: live_ptr_def deref_def map_of_eq_None_iff)

text \<open>
  A failed load leaves dangling look-up entries.  When loading into a schema object that
  was loaded before fails after the opening brace, the old fields are destroyed but the maps
  still answer with pointers to them: every name that was found before is still found, and
  what is found is no longer an object of the schema.
\<close>

theorem failed_load_dangles:
  assumes "wf_ptrs s" "maps_live s" "expect (CHR ''{'') json = Inr q"
    and "LoadJson json s = (s', Some e)" and "FindField s nm = Some p"
  shows "FindField s' nm = Some p \<and> \<not> live_ptr s' p"
proof -
  have "loading (sc_fresh s) (sc_field_map s) s'"
    by (rule LoadJson_cases [OF assms(3), of s]) (use assms(4) in auto)
  moreover have "p < sc_fresh s"
    using assms(1,2,5) by (fastforce simp: maps_live_def wf_ptrs_def live_ptr_owned)
  ultimately show ?thesis
    using assms(5) by (auto simp: loading_def FindField_def live_ptr_owned)
qed

theorem failed_load_dangles_witness:
  "\<exists>s p. FindField s ''id'' = Some p \<and> live_ptr s p
     \<and> FindField (fst (LoadJson ''{'' s)) ''id'' = Some p \<and> \<not> live_ptr (fst (LoadJson ''{'' s)) p"
proof -
  let ?s = "RebuildMaps sample_schema"
  have wf: "wf_ptrs sample_schema" by (simp add: wf_ptrs_def sample_schema_def sample_fields_def)
  have live: "maps_live ?s" by (rule RebuildMaps_live [OF wf])
  have "''id'' \<in> fd_name ` set (fields sample_schema)" by (simp add: sample_fields_def)
  then obtain p where p: "FindField ?s ''id'' = Some p" using RebuildMaps_FindField(2) [OF wf] by blast
  have open_brace: "expect (CHR ''{'') ''{'' = Inr ''''" by (simp add: expect_front)
  obtain s' r where s': "LoadJson ''{'' ?s = (s', r)" by fastforce
  have "r \<noteq> None"
    using s' by (auto simp: LoadJson_def open_brace load_entries.simps load_entry_def parse_string_def)
  then obtain e where e: "LoadJson ''{'' ?s = (s', Some e)" using s' by auto
  show ?thesis
    using failed_load_dangles [OF _ live open_brace e p] p live wf e
    by (intro exI [of _ ?s] exI [of _ p]) (auto simp: maps_live_def wf_ptrs_def)
qed

section \<open>Skipping values\<close>

text \<open>
  The values \<^verbatim>\<open>skip_value\<close> is meant to step over, with their compact rendering.
\<close>

datatype json = JStr string | JBool bool | JInt int | JArr "json list" | JObj "(string \<times> json) list"

fun render :: "json \<Rightarrow> string"
  and render_elems :: "bool \<Rightarrow> json list \<Rightarrow> string"
  and render_members :: "bool \<Rightarrow> (string \<times> json) list \<Rightarrow> string" where
  "render (JStr s) = quoted s"
| "render (JBool b) = print_bool b"
| "render (JInt v) = print_int v"
| "render (JArr js) = ''['' @ render_elems True js @ '']''"
| "render (JObj ms) = ''{'' @ render_members True ms @ ''}''"
| "render_elems first [] = []"
| "render_elems first (j # js) = (if first then [] else '','') @ render j @ render_elems False js"
| "render_members first [] = []"
| "render_members first ((k, j) # ms) =
     (if first then [] else '','') @ key k @ render j @ render_members False ms"

fun wf_json :: "json \<Rightarrow> bool" where
  "wf_json (JStr s) = plain s"
| "wf_json (JBool b) = True"
| "wf_json (JInt v) = (- (2 ^ 63) < v \<and> v < 2 ^ 63)"
| "wf_json (JArr js) = (\<forall>j \<in> set js. wf_json j)"
| "wf_json (JObj ms) = (\<forall>(k, j) \<in> set ms. plain k \<and> wf_json j)"

text \<open>A rendered value begins with a character that ends neither list nor object.\<close>

lemma render_front:
  "\<exists>c cs. render j = c # cs \<and> \<not> is_ws c \<and> c \<noteq> CHR ''/'' \<and> c \<noteq> CHR '']'' \<and> c \<noteq> CHR ''}''"
proof (cases j)
  case (JInt v)
  show ?thesis
  proof (cases "v < 0")
    case False
    obtain d cs where d: "print_nat (nat v) = d # cs" "isdigit d" using print_nat_front by blast
    have "d \<noteq> CHR '']''" "d \<noteq> CHR ''}''" using d(2) by (auto simp: isdigit_def)
    then show ?thesis using d isdigit_not_ws [OF d(2)] False JInt by (simp add: print_int_def)
  qed (simp add: JInt print_int_def)
qed (simp_all add: quoted_def print_bool_def)

lemma skip_value_number:
  assumes "- (2 ^ 63) < v" "v < 2 ^ 63" "no_digit r"
  shows "skip_value (print_int v @ r) = Inr r"
proof -
  obtain c cs where c: "print_int v = c # cs" "\<not> is_ws c" "c \<noteq> CHR ''/''"
    using render_front [of "JInt v"] by auto
  have "c = CHR ''-'' \<or> isdigit c"
    using print_nat_front [of "nat v"] c(1) by (auto simp: print_int_def split: if_splits)
  moreover from this have "c \<notin> {quot, CHR ''t'', CHR ''f'', CHR ''{'', CHR ''[''}"
    by (auto simp: isdigit_def)
  ultimately show ?thesis
    using parse_int64_print [OF assms] c by (simp add: skip_value.simps Let_def)
qed

lemma no_digit_render_elems: "no_digit (render_elems False js @ CHR '']'' # r)"
  by (cases js) (simp_all add: no_digit_def isdigit_def)

lemma no_digit_render_members: "no_digit (render_members False ms @ CHR ''}'' # r)"
  by (cases ms rule: list.exhaust) (auto simp: no_digit_def isdigit_def)

lemma skip_render:
  "wf_json j \<Longrightarrow> no_digit r \<Longrightarrow> skip_value (render j @ r) = Inr r"
  "(\<forall>j \<in> set js. wf_json j) \<Longrightarrow> skip_elems first (render_elems first js @ CHR '']'' # r) = Inr r"
  "(\<forall>(k, j) \<in> set ms. plain k \<and> wf_json j) \<Longrightarrow>
     skip_members first (render_members first ms @ CHR ''}'' # r) = Inr r"
proof (induction j and first js and first ms arbitrary: r and r and r
    rule: render_render_elems_render_members.induct)
  case (1 s)
  then show ?case using parse_string_quoted [of s r "[]"]
    by (simp add: skip_value.simps quoted_def)
next
  case (2 b)
  then show ?case using parse_bool_print [of b r]
    by (cases b) (simp_all add: skip_value.simps print_bool_def)
next
  case (3 v)
  then show ?case by (simp add: skip_value_number)
next
  case (4 js)
  then show ?case by (simp add: skip_value.simps)
next
  case (5 ms)
  then show ?case by (simp add: skip_value.simps)
next
  case (6 first)
  then show ?case by (simp add: skip_elems.simps)
next
  case (7 first j js)
  obtain c cs where c: "render j = c # cs" "\<not> is_ws c" "c \<noteq> CHR ''/''" "c \<noteq> CHR '']''"
    using render_front [of j] by blast
  have "skip_value (c # cs @ render_elems False js @ CHR '']'' # r) =
      Inr (render_elems False js @ CHR '']'' # r)"
    using 7 no_digit_render_elems by (simp add: c(1))
  then show ?case using 7 c by (subst skip_elems.simps) (simp add: Let_def expect_front)
next
  case (8 first)
  then show ?case by (simp add: skip_members.simps)
next
  case (9 first k j ms)
  have "skip_value (render j @ render_members False ms @ CHR ''}'' # r) =
      Inr (render_members False ms @ CHR ''}'' # r)"
    using 9 no_digit_render_members by simp
  then show ?case
    using 9 by (subst skip_members.simps) (simp add: Let_def skip_ws_key expect_front parse_key)
qed

text \<open>
  Members the schema reader does not know are skipped exactly: on the rendering of any JSON
  value built from strings, booleans, integers, arrays and objects, \<^verbatim>\<open>skip_value\<close> succeeds and
  stops right after the value, whatever follows it (a following digit would belong to an
  integer).
\<close>

theorem skip_value_exact:
  assumes "wf_json j" "no_digit r"
  shows "skip_value (render j @ r) = Inr r"
  by (rule skip_render(1) [OF assms])

theorem skip_value_exact_witness:
  "skip_value (render (JObj [(''a'', JArr [JInt (-3), JBool True]), (''b'', JStr ''x'')]) @ '', 1'')
     = Inr '', 1''"
  by (rule skip_value_exact) simp_all

text \<open>
  The limits of the scanner: \<^verbatim>\<open>null\<close> and fractional numbers, which are JSON values, are refused.
\<close>

lemma skip_value_null: "skip_value ''null'' = Inl (Err ''unexpected token'')"
  by (simp add: skip_value.simps is_ws_def isdigit_def)

lemma skip_value_fraction: "skip_value ''1.5'' = Inr ''.5''"
  by (simp add: skip_value.simps parse_int64_def is_ws_def isdigit_def digit_val_def Let_def)

text \<open>
  Strings are written without escapes: a table name with a quote in it gives text that is
  refused (unless what follows the quote happens to continue the object).
\<close>

lemma ToJson_unescaped:
  assumes "sc_table_name s = u @ quot # c # v" "plain u"
    and "\<not> is_ws c" "c \<noteq> CHR ''/''" "c \<noteq> CHR '',''" "c \<noteq> CHR ''}''"
  shows "snd (LoadJson (ToJson s) s0) = Some (Err (''Schema::LoadJson: comma: expected '' @ squote '',''))"
proof -
  have str: "parse_string (quoted (sc_table_name s) @ r) out = (u, Inr (c # v @ quot # r))" for r out
    using string_body_plain [OF assms(2), of "c # v @ quot # r" "[]"]
    by (simp add: assms(1) parse_string_def quoted_def)
  have "load_entries False (c # w) s1 =
      (s1, Inl (Err (''Schema::LoadJson: comma: expected '' @ squote '','')))" for w s1
    by (subst load_entries.simps) (use assms(3-6) in \<open>simp add: expect_def\<close>)
  then show ?thesis
    by (simp add: LoadJson_def ToJson_def expect_front Let_def load_entry_value_def str
        load_entries.simps [of True] skip_ws_key load_entry_key)
qed

end
