(* ===== verification/ConcMap.thy ===== *)
theory ConcMap
  imports Prelude
begin

text \<open>
  The arena-backed hash map with striped locks, src/libs/yikv/container/concurrent_hashmap.h (with
  the entry and block layout of hashmap.h): the table of chains, \<^verbatim>\<open>get\<close>, \<^verbatim>\<open>put\<close>, \<^verbatim>\<open>erase\<close>, the rehash and
  the counters. An operation of the sources runs under the lock of its stripe, or with all stripes
  locked for the rehash, so here it is one step on the table; the locking protocol itself is the
  subject of the theory of the sequence lock.

  A chain is a list of blocks and a block the list of its live entries, at most \<^verbatim>\<open>kBlockCap\<close> of them.
  The hash function is a parameter. Entries hold keys and values themselves: the codecs only move
  them into arena blocks and back. The model covers tables of up to \<open>2 ^ 31\<close> buckets; beyond that the
  sources shift a 32-bit one by more than 31, which C++ leaves undefined and the model reports as an
  error.
\<close>

section \<open>Entries, blocks and chains\<close>

definition kBlockCap :: nat where "kBlockCap = 4"
definition kLoadFactor :: nat where "kLoadFactor = 2"

record ('k, 'v) entry =
  en_hash :: u64
  en_key :: 'k
  en_val :: 'v

type_synonym ('k, 'v) chain = "('k, 'v) entry list list"

definition entry_matches :: "u64 \<Rightarrow> 'k \<Rightarrow> ('k, 'v) entry \<Rightarrow> bool" where
  "entry_matches h k e \<longleftrightarrow> en_hash e = h \<and> en_key e = k"

definition make_entry :: "u64 \<Rightarrow> 'k \<Rightarrow> 'v \<Rightarrow> ('k, 'v) entry" where
  "make_entry h k v = \<lparr>en_hash = h, en_key = k, en_val = v\<rparr>"

fun block_get :: "u64 \<Rightarrow> 'k \<Rightarrow> ('k, 'v) entry list \<Rightarrow> 'v option" where
  "block_get h k [] = None"
| "block_get h k (e # es) = (if entry_matches h k e then Some (en_val e) else block_get h k es)"

fun chain_get :: "u64 \<Rightarrow> 'k \<Rightarrow> ('k, 'v) chain \<Rightarrow> 'v option" where
  "chain_get h k [] = None"
| "chain_get h k (b # bs) = (case block_get h k b of Some v \<Rightarrow> Some v | None \<Rightarrow> chain_get h k bs)"

text \<open>Updating the first match in place; \<open>None\<close> when there is no match.\<close>

fun block_update :: "u64 \<Rightarrow> 'k \<Rightarrow> 'v \<Rightarrow> ('k, 'v) entry list \<Rightarrow> ('k, 'v) entry list option" where
  "block_update h k v [] = None"
| "block_update h k v (e # es) =
     (if entry_matches h k e then Some (make_entry h k v # es)
      else map_option (\<lambda>es'. e # es') (block_update h k v es))"

fun chain_update :: "u64 \<Rightarrow> 'k \<Rightarrow> 'v \<Rightarrow> ('k, 'v) chain \<Rightarrow> ('k, 'v) chain option" where
  "chain_update h k v [] = None"
| "chain_update h k v (b # bs) =
     (case block_update h k v b of
        Some b' \<Rightarrow> Some (b' # bs)
      | None \<Rightarrow> map_option (\<lambda>bs'. b # bs') (chain_update h k v bs))"

text \<open>A new entry goes into the last block of the chain, or into a new block behind it.\<close>

definition append_entry :: "('k, 'v) entry \<Rightarrow> ('k, 'v) chain \<Rightarrow> ('k, 'v) chain" where
  "append_entry e c =
     (if c = [] then [[e]]
      else if length (last c) < kBlockCap then butlast c @ [last c @ [e]]
      else c @ [[e]])"

text \<open>Erasing shifts the rest of the block down, or unlinks the block with its last entry.\<close>

fun block_erase :: "u64 \<Rightarrow> 'k \<Rightarrow> ('k, 'v) entry list \<Rightarrow> ('k, 'v) entry list option" where
  "block_erase h k [] = None"
| "block_erase h k (e # es) =
     (if entry_matches h k e then Some es else map_option (\<lambda>es'. e # es') (block_erase h k es))"

fun chain_erase :: "u64 \<Rightarrow> 'k \<Rightarrow> ('k, 'v) chain \<Rightarrow> ('k, 'v) chain option" where
  "chain_erase h k [] = None"
| "chain_erase h k (b # bs) =
     (case block_erase h k b of
        Some b' \<Rightarrow> Some (if 1 < length b then b' # bs else bs)
      | None \<Rightarrow> map_option (\<lambda>bs'. b # bs') (chain_erase h k bs))"

text \<open>Reinsertion during a rehash fills the first block with room.\<close>

fun reinsert :: "('k, 'v) entry \<Rightarrow> ('k, 'v) chain \<Rightarrow> ('k, 'v) chain" where
  "reinsert e [] = [[e]]"
| "reinsert e (b # bs) = (if length b < kBlockCap then (b @ [e]) # bs else b # reinsert e bs)"

section \<open>The map\<close>

datatype map_error = MapLogicError string | MapInvalidArgument string | MapRuntimeError string | UndefinedShift

record ('k, 'v) cmap =
  cm_bits :: nat
  cm_heads :: "('k, 'v) chain list"
  cm_entry_count :: nat
  cm_counts :: "int list"
  cm_lock_free :: bool

definition bucket_index :: "nat \<Rightarrow> u64 \<Rightarrow> nat" where
  "bucket_index bits h = unat (h AND (word_of_nat (2 ^ bits) - 1))"

definition stripe_index :: "('k, 'v) cmap \<Rightarrow> nat \<Rightarrow> nat" where
  "stripe_index m bidx = bidx mod length (cm_counts m)"

definition add_count :: "nat \<Rightarrow> int \<Rightarrow> ('k, 'v) cmap \<Rightarrow> ('k, 'v) cmap" where
  "add_count si d m = m\<lparr>cm_counts := (cm_counts m)[si := cm_counts m ! si + d]\<rparr>"

definition needs_rehash :: "('k, 'v) cmap \<Rightarrow> bool" where
  "needs_rehash m \<longleftrightarrow> int (2 ^ cm_bits m * kLoadFactor) \<le> sum_list (cm_counts m)"

definition cm_size :: "('k, 'v) cmap \<Rightarrow> nat" where
  "cm_size m = (let s = sum_list (cm_counts m) in if 0 < s then nat s else 0)"

definition cm_create :: "nat \<Rightarrow> nat \<Rightarrow> map_error + ('k, 'v) cmap" where
  "cm_create bucket_bits stripe_shift =
     (if 16 < stripe_shift then Inl (MapInvalidArgument ''ConcurrentHashMap: stripe_shift'')
      else if bucket_bits = 0 \<or> 62 < bucket_bits then Inl (MapInvalidArgument ''ConcurrentHashMap: bucket_bits'')
      else if 31 < bucket_bits then Inl UndefinedShift
      else Inr \<lparr>cm_bits = bucket_bits, cm_heads = replicate (2 ^ bucket_bits) [], cm_entry_count = 0,
                cm_counts = replicate (2 ^ stripe_shift) 0, cm_lock_free = False\<rparr>)"

text \<open>Recovery from the persisted preamble and head table.\<close>

definition signed_count :: "nat \<Rightarrow> int" where
  "signed_count n = (if n < 2 ^ 63 then int n else int n - 2 ^ 64)"

definition cm_recover ::
  "bool \<Rightarrow> bool \<Rightarrow> nat \<Rightarrow> nat \<Rightarrow> nat \<Rightarrow> ('k, 'v) chain list \<Rightarrow> nat \<Rightarrow> map_error + ('k, 'v) cmap" where
  "cm_recover magic_ok version_ok pre_shift pre_bits pre_count heads stripe_shift =
     (let existing = signed_count pre_count in
      if 16 < stripe_shift then Inl (MapInvalidArgument ''ConcurrentHashMap: stripe_shift'')
      else if \<not> magic_ok then Inl (MapRuntimeError ''ConcurrentHashMap: bad magic'')
      else if \<not> version_ok then Inl (MapRuntimeError ''ConcurrentHashMap: unsupported version'')
      else if 16 < pre_shift then Inl (MapRuntimeError ''ConcurrentHashMap: stripe_shift too large'')
      else if pre_bits = 0 \<or> 62 < pre_bits then Inl (MapRuntimeError ''ConcurrentHashMap: invalid bucket_bits'')
      else if 31 < pre_bits then Inl UndefinedShift
      else if pre_shift \<noteq> stripe_shift then Inl (MapRuntimeError ''ConcurrentHashMap: stripe_shift mismatch on recovery'')
      else Inr \<lparr>cm_bits = pre_bits, cm_heads = heads, cm_entry_count = pre_count,
                cm_counts = (if 0 < existing then (replicate (2 ^ stripe_shift) 0)[0 := existing]
                             else replicate (2 ^ stripe_shift) 0), cm_lock_free = False\<rparr>)"

definition enable_lock_free_reads :: "('k, 'v) cmap \<Rightarrow> ('k, 'v) cmap" where
  "enable_lock_free_reads m = m\<lparr>cm_lock_free := True\<rparr>"

definition disable_lock_free_reads :: "('k, 'v) cmap \<Rightarrow> ('k, 'v) cmap" where
  "disable_lock_free_reads m = m\<lparr>cm_lock_free := False\<rparr>"

definition rehash_locked :: "('k, 'v) cmap \<Rightarrow> map_error + ('k, 'v) cmap" where
  "rehash_locked m =
     (let new_bits = cm_bits m + 1;
          snapshot = cm_entry_count m;
          flat = concat (concat (cm_heads m));
          place = (\<lambda>e hs. let b = bucket_index new_bits (en_hash e) in hs[b := reinsert e (hs ! b)])
      in if 31 < new_bits then Inl UndefinedShift
         else Inr (m\<lparr>cm_bits := new_bits,
                     cm_heads := fold place flat (replicate (2 ^ new_bits) []),
                     cm_entry_count := snapshot,
                     cm_counts := (if 0 < snapshot then (replicate (length (cm_counts m)) 0)[0 := int snapshot]
                                   else replicate (length (cm_counts m)) 0)\<rparr>))"

definition trigger_rehash :: "('k, 'v) cmap \<Rightarrow> map_error + ('k, 'v) cmap" where
  "trigger_rehash m = (if \<not> needs_rehash m then Inr m else rehash_locked m)"

definition cm_get :: "('k \<Rightarrow> u64) \<Rightarrow> 'k \<Rightarrow> ('k, 'v) cmap \<Rightarrow> 'v option" where
  "cm_get hash k m = chain_get (hash k) k (cm_heads m ! bucket_index (cm_bits m) (hash k))"

text \<open>The critical section of \<^verbatim>\<open>put\<close>.\<close>

definition put_locked :: "('k \<Rightarrow> u64) \<Rightarrow> 'k \<Rightarrow> 'v \<Rightarrow> ('k, 'v) cmap \<Rightarrow> ('k, 'v) cmap" where
  "put_locked hash k v m =
     (let h = hash k;
          bidx = bucket_index (cm_bits m) h;
          c = cm_heads m ! bidx
      in case chain_update h k v c of
           Some c' \<Rightarrow> m\<lparr>cm_heads := (cm_heads m)[bidx := c']\<rparr>
         | None \<Rightarrow> (add_count (stripe_index m bidx) 1 m)
                     \<lparr>cm_heads := (cm_heads m)[bidx := append_entry (make_entry h k v) c],
                      cm_entry_count := cm_entry_count m + 1\<rparr>)"

text \<open>\<^verbatim>\<open>put\<close> with its thread-local counter. After a rehash the loop starts again and counts once more;
  the new count is 1 modulo 64, so the second round goes straight to the critical section.\<close>

definition cm_put :: "('k \<Rightarrow> u64) \<Rightarrow> 'k \<Rightarrow> 'v \<Rightarrow> u32 \<times> ('k, 'v) cmap \<Rightarrow> map_error + (u32 \<times> ('k, 'v) cmap)" where
  "cm_put hash k v = (\<lambda>(tl_put_count, m).
     if cm_lock_free m then Inl (MapLogicError ''ConcurrentHashMap: put while lock-free reads enabled'')
     else
       let c1 = tl_put_count + 1 in
       if c1 AND 63 = 0 \<and> needs_rehash m then
         case trigger_rehash m of
           Inl err \<Rightarrow> Inl err
         | Inr m' \<Rightarrow> Inr (c1 + 1, put_locked hash k v m')
       else Inr (c1, put_locked hash k v m))"

definition cm_erase :: "('k \<Rightarrow> u64) \<Rightarrow> 'k \<Rightarrow> ('k, 'v) cmap \<Rightarrow> map_error + (bool \<times> ('k, 'v) cmap)" where
  "cm_erase hash k m =
     (if cm_lock_free m then Inl (MapLogicError ''ConcurrentHashMap: erase while lock-free reads enabled'')
      else
        let h = hash k;
            bidx = bucket_index (cm_bits m) h
        in case chain_erase h k (cm_heads m ! bidx) of
             None \<Rightarrow> Inr (False, m)
           | Some c' \<Rightarrow> Inr (True, (add_count (stripe_index m bidx) (- 1) m)
                               \<lparr>cm_heads := (cm_heads m)[bidx := c'], cm_entry_count := cm_entry_count m - 1\<rparr>))"

section \<open>Chains as association lists\<close>

abbreviation kv :: "('k, 'v) entry \<Rightarrow> 'k \<times> 'v" where
  "kv e \<equiv> (en_key e, en_val e)"

definition hashed :: "('k \<Rightarrow> u64) \<Rightarrow> ('k, 'v) entry list \<Rightarrow> bool" where
  "hashed hash es \<longleftrightarrow> (\<forall>e \<in> set es. en_hash e = hash (en_key e))"

definition chain_ok :: "('k, 'v) chain \<Rightarrow> bool" where
  "chain_ok c \<longleftrightarrow> (\<forall>b \<in> set c. b \<noteq> [] \<and> length b \<le> kBlockCap)"

lemma matches_key: "en_hash e = hash (en_key e) \<Longrightarrow> entry_matches (hash k) k e \<longleftrightarrow> en_key e = k"
  by (auto simp: entry_matches_def)

lemma block_get_map_of: "hashed hash es \<Longrightarrow> block_get (hash k) k es = map_of (map kv es) k"
  by (induction es) (auto simp: hashed_def matches_key)

lemma chain_get_map_of: "hashed hash (concat c) \<Longrightarrow> chain_get (hash k) k c = map_of (map kv (concat c)) k"
proof (induction c)
  case (Cons b bs)
  have "hashed hash b" "hashed hash (concat bs)" using Cons.prems by (auto simp: hashed_def)
  then show ?case using Cons.IH block_get_map_of [of hash b k] by (auto simp: map_add_def split: option.splits)
qed simp

text \<open>Replacing the first entry with key \<open>k\<close> in a list of entries.\<close>

fun upd_first :: "'k \<Rightarrow> ('k, 'v) entry \<Rightarrow> ('k, 'v) entry list \<Rightarrow> ('k, 'v) entry list" where
  "upd_first k e' [] = []"
| "upd_first k e' (e # es) = (if en_key e = k then e' # es else e # upd_first k e' es)"

lemma upd_first_append:
  "upd_first k e' (xs @ ys) = (if k \<in> en_key ` set xs then upd_first k e' xs @ ys else xs @ upd_first k e' ys)"
  by (induction xs) auto

lemma upd_first_keys: "en_key e' = k \<Longrightarrow> map en_key (upd_first k e' es) = map en_key es"
  by (induction es) auto

lemma upd_first_map_of:
  "en_key e' = k \<Longrightarrow> k \<in> en_key ` set es \<Longrightarrow> map_of (map kv (upd_first k e' es)) = (map_of (map kv es))(k \<mapsto> en_val e')"
  by (induction es) (auto simp: fun_upd_twist)

lemma set_upd_first: "set (upd_first k e' es) \<subseteq> insert e' (set es)"
  by (induction es) auto

lemma length_upd_first [simp]: "length (upd_first k e' es) = length es"
  by (induction es) auto

lemma block_update_spec:
  assumes "hashed hash es"
  shows "block_update (hash k) k v es =
    (if k \<in> en_key ` set es then Some (upd_first k (make_entry (hash k) k v) es) else None)"
  using assms by (induction es) (auto simp: hashed_def matches_key)

lemma chain_update_spec:
  assumes "hashed hash (concat c)"
  shows "case chain_update (hash k) k v c of
      None \<Rightarrow> k \<notin> en_key ` set (concat c)
    | Some c' \<Rightarrow> k \<in> en_key ` set (concat c) \<and> concat c' = upd_first k (make_entry (hash k) k v) (concat c) \<and>
        map length c' = map length c"
  using assms
proof (induction c)
  case (Cons b bs)
  have h: "hashed hash b" "hashed hash (concat bs)" using Cons.prems by (auto simp: hashed_def)
  note ih = Cons.IH [OF h(2)]
  show ?case
  proof (cases "k \<in> en_key ` set b")
    case True
    then show ?thesis using block_update_spec [OF h(1), of k v] by (auto simp: upd_first_append)
  next
    case False
    then have n: "block_update (hash k) k v b = None" using block_update_spec [OF h(1), of k v] by simp
    show ?thesis using ih False n by (cases "chain_update (hash k) k v bs") (auto simp: upd_first_append)
  qed
qed simp

lemma chain_ok_lengths: "map length c' = map length c \<Longrightarrow> chain_ok c \<Longrightarrow> chain_ok c'"
proof -
  assume m: "map length c' = map length c" and ok: "chain_ok c"
  have "b \<noteq> [] \<and> length b \<le> kBlockCap" if "b \<in> set c'" for b
  proof -
    have "length b \<in> set (map length c)" using that m by (metis image_eqI list.set_map)
    then show ?thesis using ok by (auto simp: chain_ok_def)
  qed
  then show ?thesis by (simp add: chain_ok_def)
qed

lemma append_entry_spec:
  assumes "chain_ok c"
  shows "concat (append_entry e c) = concat c @ [e]" "chain_ok (append_entry e c)"
proof -
  have bl: "c \<noteq> [] \<Longrightarrow> c = butlast c @ [last c]" by simp
  show "concat (append_entry e c) = concat c @ [e]"
    by (cases "c = []") (auto simp: append_entry_def, metis bl append_assoc concat.simps concat_append append_Nil2)
  show "chain_ok (append_entry e c)"
    using assms by (auto simp: append_entry_def chain_ok_def kBlockCap_def dest: in_set_butlastD)
qed

lemma filter_other: "k \<notin> en_key ` set es \<Longrightarrow> filter (\<lambda>e. en_key e \<noteq> k) es = es"
  by (intro filter_True) force

lemma length_filter_key:
  "distinct (map en_key es) \<Longrightarrow> k \<in> en_key ` set es \<Longrightarrow> length (filter (\<lambda>e. en_key e \<noteq> k) es) = length es - 1"
proof (induction es)
  case (Cons x xs)
  show ?case
  proof (cases "en_key x = k")
    case True
    then have "filter (\<lambda>e. en_key e \<noteq> k) xs = xs" using Cons.prems(1) by (intro filter_other) auto
    then show ?thesis using True by simp
  next
    case False
    then have "k \<in> en_key ` set xs" using Cons.prems(2) by auto
    then show ?thesis using Cons False by (cases xs) auto
  qed
qed simp

lemma block_erase_spec:
  assumes "hashed hash es" "distinct (map en_key es)"
  shows "block_erase (hash k) k es =
    (if k \<in> en_key ` set es then Some (filter (\<lambda>e. en_key e \<noteq> k) es) else None)"
  using assms
proof (induction es)
  case (Cons e es)
  show ?case
  proof (cases "en_key e = k")
    case True
    then have "filter (\<lambda>e. en_key e \<noteq> k) es = es" using Cons.prems(2) by (intro filter_other) auto
    then show ?thesis using True Cons.prems(1) by (simp add: hashed_def entry_matches_def)
  next
    case False
    then show ?thesis using Cons by (auto simp: hashed_def entry_matches_def)
  qed
qed simp

lemma chain_erase_spec:
  assumes "hashed hash (concat c)" "distinct (map en_key (concat c))" "chain_ok c"
  shows "case chain_erase (hash k) k c of
      None \<Rightarrow> k \<notin> en_key ` set (concat c)
    | Some c' \<Rightarrow> k \<in> en_key ` set (concat c) \<and> concat c' = filter (\<lambda>e. en_key e \<noteq> k) (concat c) \<and> chain_ok c'"
  using assms
proof (induction c)
  case (Cons b bs)
  have h: "hashed hash b" "hashed hash (concat bs)" "distinct (map en_key b)" "distinct (map en_key (concat bs))" "chain_ok bs"
    "b \<noteq> []" "length b \<le> kBlockCap"
    using Cons.prems by (auto simp: hashed_def chain_ok_def)
  show ?case
  proof (cases "k \<in> en_key ` set b")
    case True
    then have "k \<notin> en_key ` set (concat bs)" using Cons.prems(2) by auto
    then have f: "filter (\<lambda>e. en_key e \<noteq> k) (concat bs) = concat bs" by (rule filter_other)
    have be: "block_erase (hash k) k b = Some (filter (\<lambda>e. en_key e \<noteq> k) b)" using block_erase_spec [OF h(1,3), of k] True by simp
    have len: "length (filter (\<lambda>e. en_key e \<noteq> k) b) = length b - 1"
      by (rule length_filter_key [OF h(3) True])
    show ?thesis
    proof (cases "1 < length b")
      case True
      then have "filter (\<lambda>e. en_key e \<noteq> k) b \<noteq> []" using len by auto
      then show ?thesis using be f len h(5,7) True \<open>k \<in> en_key ` set b\<close> by (auto simp: chain_ok_def)
    next
      case False
      then have "filter (\<lambda>e. en_key e \<noteq> k) b = []" using len h(6) by (cases b) auto
      then show ?thesis using be f h(5) False \<open>k \<in> en_key ` set b\<close> by auto
    qed
  next
    case False
    then have "block_erase (hash k) k b = None" using block_erase_spec [OF h(1,3), of k] by simp
    moreover have "filter (\<lambda>e. en_key e \<noteq> k) b = b" using False by (rule filter_other)
    ultimately show ?thesis using Cons.IH [OF h(2,4,5)] False h(5-7)
      by (cases "chain_erase (hash k) k bs") (auto simp: chain_ok_def)
  qed
qed simp

lemma reinsert_spec:
  "set (concat (reinsert e c)) = insert e (set (concat c))" "length (concat (reinsert e c)) = Suc (length (concat c))"
  "distinct (map en_key (concat c)) \<Longrightarrow> en_key e \<notin> en_key ` set (concat c) \<Longrightarrow> distinct (map en_key (concat (reinsert e c)))"
  "chain_ok c \<Longrightarrow> chain_ok (reinsert e c)"
proof -
  show s: "set (concat (reinsert e c)) = insert e (set (concat c))" for c :: "('a, 'b) chain" by (induction c) auto
  show "length (concat (reinsert e c)) = Suc (length (concat c))" by (induction c) auto
  show "distinct (map en_key (concat (reinsert e c)))"
    if "distinct (map en_key (concat c))" "en_key e \<notin> en_key ` set (concat c)"
    using that
  proof (induction c)
    case (Cons b bs)
    show ?case
    proof (cases "length b < kBlockCap")
      case True
      then show ?thesis using Cons.prems by auto
    next
      case False
      then show ?thesis using Cons s [of bs] by auto
    qed
  qed simp
  show "chain_ok (reinsert e c)" if "chain_ok c" using that
  proof (induction c)
    case Nil
    show ?case by (simp add: chain_ok_def kBlockCap_def)
  next
    case (Cons b bs)
    have bs: "chain_ok bs" and b: "b \<noteq> [] \<and> length b \<le> kBlockCap" using Cons.prems by (simp_all add: chain_ok_def)
    show ?case
    proof (cases "length b < kBlockCap")
      case True
      then show ?thesis using bs by (simp add: chain_ok_def)
    next
      case False
      then show ?thesis using Cons.IH [OF bs] b by (simp add: chain_ok_def)
    qed
  qed
qed

section \<open>Buckets and the table\<close>

lemma bucket_index_mod: "bits \<le> 31 \<Longrightarrow> bucket_index bits h = unat h mod 2 ^ bits"
proof -
  assume b: "bits \<le> 31"
  have "word_of_nat (2 ^ bits) - 1 = (mask bits :: u64)" by (simp add: mask_eq_exp_minus_1)
  then have eq: "h AND (word_of_nat (2 ^ bits) - 1) = take_bit bits h" by (simp add: take_bit_eq_mask)
  have u: "unat (take_bit bits h) = take_bit bits (unat h)" by (rule unsigned_take_bit_eq)
  show ?thesis unfolding bucket_index_def eq u by (rule take_bit_eq_mod)
qed

lemma bucket_index_less: "bits \<le> 31 \<Longrightarrow> bucket_index bits h < 2 ^ bits"
  by (simp add: bucket_index_mod)

text \<open>The entries of a table, and the finite map it denotes.\<close>

definition entries :: "('k, 'v) chain list \<Rightarrow> ('k, 'v) entry list" where
  "entries hs = concat (map concat hs)"

definition cm_map :: "('k, 'v) cmap \<Rightarrow> 'k \<rightharpoonup> 'v" where
  "cm_map m = map_of (map kv (entries (cm_heads m)))"

definition bucket_ok :: "('k \<Rightarrow> u64) \<Rightarrow> nat \<Rightarrow> nat \<Rightarrow> ('k, 'v) chain \<Rightarrow> bool" where
  "bucket_ok hash bits i c \<longleftrightarrow> chain_ok c \<and> hashed hash (concat c) \<and> distinct (map en_key (concat c)) \<and>
     (\<forall>e \<in> set (concat c). bucket_index bits (hash (en_key e)) = i)"

definition table_ok :: "('k \<Rightarrow> u64) \<Rightarrow> nat \<Rightarrow> ('k, 'v) chain list \<Rightarrow> bool" where
  "table_ok hash bits hs \<longleftrightarrow> bits \<le> 31 \<and> length hs = 2 ^ bits \<and> (\<forall>i < length hs. bucket_ok hash bits i (hs ! i))"

definition cm_inv :: "('k \<Rightarrow> u64) \<Rightarrow> ('k, 'v) cmap \<Rightarrow> bool" where
  "cm_inv hash m \<longleftrightarrow> table_ok hash (cm_bits m) (cm_heads m) \<and> cm_entry_count m = length (entries (cm_heads m)) \<and>
     sum_list (cm_counts m) = int (cm_entry_count m) \<and> cm_counts m \<noteq> []"

lemma entries_nth: "e \<in> set (entries hs) \<longleftrightarrow> (\<exists>i < length hs. e \<in> set (concat (hs ! i)))"
  by (auto simp: entries_def in_set_conv_nth [of _ hs] Bex_def)

lemma distinct_concat_buckets:
  assumes "\<And>i. i < length xs \<Longrightarrow> distinct (map f (xs ! i))"
    "\<And>i j x y. i < length xs \<Longrightarrow> j < length xs \<Longrightarrow> x \<in> set (xs ! i) \<Longrightarrow> y \<in> set (xs ! j) \<Longrightarrow> f x = f y \<Longrightarrow> i = j"
  shows "distinct (map f (concat xs))"
  using assms
proof (induction xs)
  case (Cons x xs)
  have "distinct (map f (concat xs))"
  proof (rule Cons.IH)
    show "distinct (map f (xs ! i))" if "i < length xs" for i using Cons.prems(1) [of "Suc i"] that by simp
    show "i = j" if "i < length xs" "j < length xs" "a \<in> set (xs ! i)" "b \<in> set (xs ! j)" "f a = f b" for i j a b
      using Cons.prems(2) [of "Suc i" "Suc j" a b] that by simp
  qed
  moreover have "f a \<noteq> f b" if "a \<in> set x" "b \<in> set (concat xs)" for a b
  proof -
    from that(2) obtain j where "j < length xs" "b \<in> set (xs ! j)" by (auto simp: in_set_conv_nth [of _ xs])
    then show ?thesis using Cons.prems(2) [of 0 "Suc j" a b] that(1) by auto
  qed
  ultimately show ?case using Cons.prems(1) [of 0] by fastforce
qed simp

lemma table_distinct:
  assumes "table_ok hash bits hs"
  shows "distinct (map en_key (entries hs))"
  unfolding entries_def
proof (rule distinct_concat_buckets)
  show "distinct (map en_key (map concat hs ! i))" if "i < length (map concat hs)" for i
    using assms that by (simp add: table_ok_def bucket_ok_def)
  show "i = j" if "i < length (map concat hs)" "j < length (map concat hs)" "x \<in> set (map concat hs ! i)"
    "y \<in> set (map concat hs ! j)" "en_key x = en_key y" for i j x y
  proof -
    have "bucket_index bits (hash (en_key e)) = l" if "l < length hs" "e \<in> set (concat (hs ! l))" for e l
      using assms that unfolding table_ok_def bucket_ok_def by blast
    from this [of i x] this [of j y] show ?thesis using that by simp
  qed
qed

lemma map_of_distinct_iff:
  "distinct (map en_key es) \<Longrightarrow> map_of (map kv es) k = Some v \<longleftrightarrow> (\<exists>e \<in> set es. en_key e = k \<and> en_val e = v)"
  by (subst map_of_eq_Some_iff) (auto simp: comp_def)

lemma option_eqI: "(\<And>v. x = Some v \<longleftrightarrow> y = Some v) \<Longrightarrow> x = y"
  by (cases x; cases y) auto

lemma table_lookup:
  assumes "table_ok hash bits hs"
  shows "map_of (map kv (entries hs)) k = map_of (map kv (concat (hs ! bucket_index bits (hash k)))) k"
proof -
  let ?b = "bucket_index bits (hash k)"
  have b: "?b < length hs" using assms bucket_index_less by (auto simp: table_ok_def)
  have bk: "bucket_ok hash bits i (hs ! i)" if "i < length hs" for i using assms that by (simp add: table_ok_def)
  have "(\<exists>e \<in> set (entries hs). en_key e = k \<and> en_val e = v) \<longleftrightarrow> (\<exists>e \<in> set (concat (hs ! ?b)). en_key e = k \<and> en_val e = v)" for v
  proof
    assume "\<exists>e \<in> set (entries hs). en_key e = k \<and> en_val e = v"
    then obtain e i where e: "i < length hs" "e \<in> set (concat (hs ! i))" "en_key e = k" "en_val e = v"
      unfolding Bex_def entries_nth by blast
    then have "i = ?b" using bk [of i] unfolding bucket_ok_def by metis
    then show "\<exists>e \<in> set (concat (hs ! ?b)). en_key e = k \<and> en_val e = v" using e by blast
  next
    assume "\<exists>e \<in> set (concat (hs ! ?b)). en_key e = k \<and> en_val e = v"
    then show "\<exists>e \<in> set (entries hs). en_key e = k \<and> en_val e = v" using b unfolding Bex_def entries_nth by blast
  qed
  then have "map_of (map kv (entries hs)) k = Some v \<longleftrightarrow> map_of (map kv (concat (hs ! ?b))) k = Some v" for v
    using map_of_distinct_iff [OF table_distinct [OF assms]] map_of_distinct_iff [of "concat (hs ! ?b)" k v] bk [OF b]
    by (simp add: bucket_ok_def)
  then show ?thesis by (rule option_eqI)
qed

lemma table_update_map:
  assumes "table_ok hash bits hs" "bucket_ok hash bits b c" "b < length hs"
  shows "table_ok hash bits (hs[b := c])"
    "map_of (map kv (entries (hs[b := c]))) k =
       (if bucket_index bits (hash k) = b then map_of (map kv (concat c)) k else map_of (map kv (entries hs)) k)"
proof -
  show t: "table_ok hash bits (hs[b := c])" using assms by (auto simp: table_ok_def nth_list_update)
  show "map_of (map kv (entries (hs[b := c]))) k =
       (if bucket_index bits (hash k) = b then map_of (map kv (concat c)) k else map_of (map kv (entries hs)) k)"
    using table_lookup [OF t, of k] table_lookup [OF assms(1), of k] assms(3) by simp
qed

lemma length_entries_update:
  "b < length hs \<Longrightarrow> length (entries (hs[b := c])) + length (concat (hs ! b)) = length (entries hs) + length (concat c)"
proof (induction hs arbitrary: b)
  case (Cons h hs)
  then show ?case by (cases b) (auto simp: entries_def)
qed simp

lemma cm_map_dom: "table_ok hash (cm_bits m) (cm_heads m) \<Longrightarrow> card (dom (cm_map m)) = length (entries (cm_heads m))"
proof -
  assume t: "table_ok hash (cm_bits m) (cm_heads m)"
  have "dom (cm_map m) = set (map en_key (entries (cm_heads m)))" by (simp add: cm_map_def dom_map_of_conv_image_fst image_image)
  then show ?thesis using distinct_card [OF table_distinct [OF t]] by simp
qed

section \<open>Operations\<close>

lemma cm_get_map: "cm_inv hash m \<Longrightarrow> cm_get hash k m = cm_map m k"
proof -
  assume inv: "cm_inv hash m"
  then have t: "table_ok hash (cm_bits m) (cm_heads m)" by (simp add: cm_inv_def)
  have "bucket_index (cm_bits m) (hash k) < length (cm_heads m)" using t bucket_index_less by (auto simp: table_ok_def)
  then have "hashed hash (concat (cm_heads m ! bucket_index (cm_bits m) (hash k)))" using t by (simp add: table_ok_def bucket_ok_def)
  then show ?thesis using table_lookup [OF t, of k] chain_get_map_of by (simp add: cm_get_def cm_map_def)
qed

lemma sum_list_add_at: "i < length xs \<Longrightarrow> sum_list (xs[i := xs ! i + d]) = sum_list xs + (d :: int)"
  by (induction xs arbitrary: i) (auto split: nat.splits)

lemma add_count_fields [simp]:
  "cm_bits (add_count si d m) = cm_bits m" "cm_heads (add_count si d m) = cm_heads m"
  "cm_entry_count (add_count si d m) = cm_entry_count m" "cm_lock_free (add_count si d m) = cm_lock_free m"
  by (simp_all add: add_count_def)

lemma add_count_sum: "cm_counts m \<noteq> [] \<Longrightarrow> sum_list (cm_counts (add_count (stripe_index m b) d m)) = sum_list (cm_counts m) + d"
  by (simp add: add_count_def stripe_index_def sum_list_add_at)

lemma map_of_snoc: "k \<notin> fst ` set xs \<Longrightarrow> map_of (xs @ [(k, v)]) = (map_of xs)(k \<mapsto> v)"
  by (induction xs) (auto simp: fun_upd_twist)

lemma put_locked_spec:
  assumes "cm_inv hash m"
  shows "cm_inv hash (put_locked hash k v m) \<and> cm_map (put_locked hash k v m) = (cm_map m)(k \<mapsto> v) \<and>
    cm_bits (put_locked hash k v m) = cm_bits m \<and> cm_lock_free (put_locked hash k v m) = cm_lock_free m"
proof -
  let ?b = "bucket_index (cm_bits m) (hash k)" and ?e = "make_entry (hash k) k v"
  let ?c = "cm_heads m ! ?b"
  have t: "table_ok hash (cm_bits m) (cm_heads m)" using assms by (simp add: cm_inv_def)
  have b: "?b < length (cm_heads m)" using t bucket_index_less by (auto simp: table_ok_def)
  have bk: "bucket_ok hash (cm_bits m) ?b ?c" using t b by (simp add: table_ok_def)
  have e: "en_key ?e = k" "en_hash ?e = hash k" "en_val ?e = v" by (simp_all add: make_entry_def)
  have upd: "table_ok hash (cm_bits m) ((cm_heads m)[?b := c']) \<and>
      map_of (map kv (entries ((cm_heads m)[?b := c']))) = (map_of (map kv (entries (cm_heads m))))(k \<mapsto> v)"
    if "bucket_ok hash (cm_bits m) ?b c'" "map_of (map kv (concat c')) = (map_of (map kv (concat ?c)))(k \<mapsto> v)" for c'
    using table_update_map [OF t that(1) b] that(2) table_lookup [OF t] by (auto simp: fun_eq_iff)
  show ?thesis
  proof (cases "chain_update (hash k) k v ?c")
    case (Some c')
    have s: "k \<in> en_key ` set (concat ?c)" "concat c' = upd_first k ?e (concat ?c)" "map length c' = map length ?c"
      using chain_update_spec [of hash ?c k v] bk Some by (auto simp: bucket_ok_def)
    have "bucket_ok hash (cm_bits m) ?b c'"
      using bk s(2) upd_first_keys [OF e(1)] set_upd_first [of k ?e "concat ?c"] chain_ok_lengths [OF s(3)] e
      by (auto simp: bucket_ok_def hashed_def)
    moreover have "map_of (map kv (concat c')) = (map_of (map kv (concat ?c)))(k \<mapsto> v)"
      unfolding s(2) using upd_first_map_of [OF e(1) s(1)] e(3) by simp
    moreover have "length (entries ((cm_heads m)[?b := c'])) = length (entries (cm_heads m))"
      using length_entries_update [OF b, of c'] s(2) by simp
    ultimately show ?thesis using upd assms Some by (simp add: put_locked_def Let_def cm_inv_def cm_map_def)
  next
    case None
    have n: "k \<notin> en_key ` set (concat ?c)" using chain_update_spec [of hash ?c k v] bk None by (auto simp: bucket_ok_def)
    have ap: "concat (append_entry ?e ?c) = concat ?c @ [?e]" "chain_ok (append_entry ?e ?c)"
      using append_entry_spec bk by (auto simp: bucket_ok_def)
    have "bucket_ok hash (cm_bits m) ?b (append_entry ?e ?c)" using bk ap n e by (auto simp: bucket_ok_def hashed_def)
    moreover have "map_of (map kv (concat (append_entry ?e ?c))) = (map_of (map kv (concat ?c)))(k \<mapsto> v)"
      unfolding ap(1) using n e map_of_snoc [of k "map kv (concat ?c)" v] by (simp add: image_image)
    moreover have "length (entries ((cm_heads m)[?b := append_entry ?e ?c])) = length (entries (cm_heads m)) + 1"
      using length_entries_update [OF b, of "append_entry ?e ?c"] ap(1) by simp
    ultimately show ?thesis using upd assms None add_count_sum [of m ?b 1]
      by (simp add: put_locked_def Let_def cm_inv_def cm_map_def) (simp add: add_count_def)
  qed
qed

lemma map_of_filter_key: "map_of (map kv (filter (\<lambda>e. en_key e \<noteq> k) es)) x = (if x = k then None else map_of (map kv es) x)"
  by (induction es) auto

lemma cm_erase_spec:
  assumes "cm_inv hash m" "cm_erase hash k m = Inr (r, m')"
  shows "cm_inv hash m' \<and> cm_map m' = (cm_map m)(k := None) \<and> (r \<longleftrightarrow> k \<in> dom (cm_map m)) \<and>
    cm_bits m' = cm_bits m \<and> cm_lock_free m' = cm_lock_free m"
proof -
  let ?b = "bucket_index (cm_bits m) (hash k)"
  let ?c = "cm_heads m ! ?b"
  have t: "table_ok hash (cm_bits m) (cm_heads m)" using assms(1) by (simp add: cm_inv_def)
  have b: "?b < length (cm_heads m)" using t bucket_index_less by (auto simp: table_ok_def)
  have bk: "bucket_ok hash (cm_bits m) ?b ?c" using t b by (simp add: table_ok_def)
  have h: "hashed hash (concat ?c)" "distinct (map en_key (concat ?c))" "chain_ok ?c" using bk by (simp_all add: bucket_ok_def)
  have lk: "cm_map m k = map_of (map kv (concat ?c)) k" using table_lookup [OF t] by (simp add: cm_map_def)
  have dom: "k \<in> dom (cm_map m) \<longleftrightarrow> k \<in> en_key ` set (concat ?c)"
    using lk by (simp add: domIff map_of_eq_None_iff image_image)
  show ?thesis
  proof (cases "chain_erase (hash k) k ?c")
    case None
    then have "k \<notin> dom (cm_map m)" using chain_erase_spec [OF h, of k] dom by simp
    moreover have "m' = m" "\<not> r" using assms(2) None by (auto simp: cm_erase_def Let_def split: if_splits)
    ultimately show ?thesis using assms(1) by (auto simp: fun_eq_iff domIff)
  next
    case (Some c')
    have s: "k \<in> en_key ` set (concat ?c)" "concat c' = filter (\<lambda>e. en_key e \<noteq> k) (concat ?c)" "chain_ok c'"
      using chain_erase_spec [OF h, of k] Some by auto
    have m': "m' = (add_count (stripe_index m ?b) (- 1) m)\<lparr>cm_heads := (cm_heads m)[?b := c'], cm_entry_count := cm_entry_count m - 1\<rparr>" and r: r
      using assms(2) Some by (auto simp: cm_erase_def Let_def split: if_splits)
    have bk': "bucket_ok hash (cm_bits m) ?b c'"
      using bk s(2,3) by (auto simp: bucket_ok_def hashed_def distinct_map_filter)
    note up = table_update_map [OF t bk' b]
    have "map_of (map kv (concat c')) x = (if x = k then None else map_of (map kv (concat ?c)) x)" for x
      unfolding s(2) by (rule map_of_filter_key)
    then have mp: "cm_map m' = (cm_map m)(k := None)"
      using up(2) table_lookup [OF t] by (auto simp: m' cm_map_def fun_eq_iff)
    have "length (concat c') = length (concat ?c) - 1" using length_filter_key [OF h(2) s(1)] s(2) by simp
    moreover have pos: "0 < length (concat ?c)" using s(1) by (cases "concat ?c") auto
    ultimately have le: "length (entries ((cm_heads m)[?b := c'])) = length (entries (cm_heads m)) - 1"
      "0 < length (entries (cm_heads m))"
      using length_entries_update [OF b, of c'] by linarith+
    then have "cm_inv hash m'" using assms(1) up(1) add_count_sum [of m ?b "- 1"]
      by (simp add: m' cm_inv_def of_nat_diff Suc_leI) (simp add: add_count_def)
    then show ?thesis using mp r dom s(1) by (simp add: m')
  qed
qed

text \<open>The rehash moves every entry into the table of twice the size.\<close>

definition place :: "nat \<Rightarrow> ('k, 'v) entry \<Rightarrow> ('k, 'v) chain list \<Rightarrow> ('k, 'v) chain list" where
  "place bits e hs = (let b = bucket_index bits (en_hash e) in hs[b := reinsert e (hs ! b)])"

lemma place_spec:
  assumes "table_ok hash bits hs" "en_hash e = hash (en_key e)" "en_key e \<notin> en_key ` set (entries hs)"
  shows "table_ok hash bits (place bits e hs) \<and> set (entries (place bits e hs)) = insert e (set (entries hs)) \<and>
    length (entries (place bits e hs)) = Suc (length (entries hs))"
proof -
  let ?b = "bucket_index bits (en_hash e)"
  have b: "?b < length hs" using assms(1) bucket_index_less by (auto simp: table_ok_def)
  have bk: "bucket_ok hash bits ?b (hs ! ?b)" using assms(1) b by (simp add: table_ok_def)
  have "set (concat (hs ! ?b)) \<subseteq> set (entries hs)" using b unfolding subset_iff entries_nth by blast
  then have n: "en_key e \<notin> en_key ` set (concat (hs ! ?b))" using assms(3) by blast
  have bk': "bucket_ok hash bits ?b (reinsert e (hs ! ?b))"
    using bk reinsert_spec [where e = e and c = "hs ! ?b"] n assms(2) by (auto simp: bucket_ok_def hashed_def)
  have "set (entries (hs[?b := reinsert e (hs ! ?b)])) = insert e (set (entries hs))"
  proof (intro set_eqI iffI)
    fix x assume "x \<in> set (entries (hs[?b := reinsert e (hs ! ?b)]))"
    then show "x \<in> insert e (set (entries hs))"
      using reinsert_spec(1) [where e = e and c = "hs ! ?b"] b unfolding entries_nth by (auto simp: nth_list_update entries_nth split: if_splits)
  next
    fix x assume "x \<in> insert e (set (entries hs))"
    then consider "x = e" | i where "i < length hs" "x \<in> set (concat (hs ! i))" by (auto simp: entries_nth)
    then show "x \<in> set (entries (hs[?b := reinsert e (hs ! ?b)]))"
    proof cases
      case 1
      then show ?thesis using reinsert_spec(1) [where e = e and c = "hs ! ?b"] b unfolding entries_nth
        by (intro exI [of _ ?b]) simp
    next
      case 2
      then show ?thesis using reinsert_spec(1) [where e = e and c = "hs ! ?b"] b unfolding entries_nth
        by (intro exI [of _ i]) (auto simp: nth_list_update)
    qed
  qed
  moreover have "length (entries (hs[?b := reinsert e (hs ! ?b)])) = Suc (length (entries hs))"
    using length_entries_update [OF b, of "reinsert e (hs ! ?b)"] reinsert_spec(2) [where e = e and c = "hs ! ?b"] by simp
  ultimately show ?thesis using table_update_map(1) [OF assms(1) bk' b] by (simp add: place_def Let_def)
qed

lemma place_all:
  assumes "table_ok hash bits hs" "hashed hash es" "distinct (map en_key es)" "en_key ` set es \<inter> en_key ` set (entries hs) = {}"
  shows "table_ok hash bits (fold (place bits) es hs) \<and> set (entries (fold (place bits) es hs)) = set es \<union> set (entries hs) \<and>
    length (entries (fold (place bits) es hs)) = length es + length (entries hs)"
  using assms
proof (induction es arbitrary: hs)
  case (Cons e es)
  have "en_hash e = hash (en_key e)" "en_key e \<notin> en_key ` set (entries hs)" using Cons.prems by (auto simp: hashed_def)
  note p = place_spec [OF Cons.prems(1) this]
  have "en_key ` set es \<inter> en_key ` set (entries (place bits e hs)) = {}" using p Cons.prems(3,4) by auto
  then show ?case using Cons.IH [of "place bits e hs"] p Cons.prems(2,3) by (auto simp: hashed_def)
qed simp

lemma empty_table: "bits \<le> 31 \<Longrightarrow> table_ok hash bits (replicate (2 ^ bits) [])" "entries (replicate n []) = []"
  by (auto simp: table_ok_def bucket_ok_def chain_ok_def hashed_def entries_def)

lemma entries_concat: "concat (concat hs) = entries hs"
  by (induction hs) (auto simp: entries_def)

lemma map_of_same_set:
  assumes "distinct (map en_key xs)" "distinct (map en_key ys)" "set xs = set ys"
  shows "map_of (map kv xs) = map_of (map kv ys)"
proof
  fix k show "map_of (map kv xs) k = map_of (map kv ys) k"
    by (rule option_eqI) (simp add: map_of_distinct_iff [OF assms(1)] map_of_distinct_iff [OF assms(2)] assms(3))
qed

lemma sum_list_first: "0 < n \<Longrightarrow> sum_list ((replicate n 0)[0 := x]) = (x :: int)"
  by (cases n) (simp_all add: sum_list_replicate)

lemma rehash_locked_spec:
  assumes "cm_inv hash m" "rehash_locked m = Inr m'"
  shows "cm_inv hash m' \<and> cm_map m' = cm_map m \<and> cm_bits m' = cm_bits m + 1 \<and> cm_lock_free m' = cm_lock_free m"
proof -
  let ?n = "cm_bits m + 1" and ?es = "entries (cm_heads m)"
  let ?hs = "fold (place ?n) ?es (replicate (2 ^ ?n) [])"
  have t: "table_ok hash (cm_bits m) (cm_heads m)" using assms(1) by (simp add: cm_inv_def)
  have n: "?n \<le> 31" using assms(2) by (auto simp: rehash_locked_def Let_def split: if_splits)
  have pl: "(\<lambda>e hs. hs[bucket_index ?n (en_hash e) := reinsert e (hs ! bucket_index ?n (en_hash e))]) = (place ?n :: ('a, 'b) entry \<Rightarrow> _)"
    by (simp add: place_def Let_def fun_eq_iff)
  have m': "m' = m\<lparr>cm_bits := ?n, cm_heads := ?hs, cm_entry_count := cm_entry_count m,
      cm_counts := (if 0 < cm_entry_count m then (replicate (length (cm_counts m)) 0)[0 := int (cm_entry_count m)]
                    else replicate (length (cm_counts m)) 0)\<rparr>"
    using assms(2) n unfolding rehash_locked_def Let_def pl entries_concat by (simp split: if_splits)
  have h: "hashed hash ?es" using t by (auto simp: hashed_def entries_nth table_ok_def bucket_ok_def)
  have p: "table_ok hash ?n ?hs" "set (entries ?hs) = set ?es" "length (entries ?hs) = length ?es"
    using place_all [OF empty_table(1) [OF n] h table_distinct [OF t]] by (simp_all add: empty_table(2))
  have "cm_map m' = cm_map m" unfolding cm_map_def m'
    using map_of_same_set [OF table_distinct [OF p(1)] table_distinct [OF t] p(2)] by simp
  moreover have "cm_inv hash m'" using assms(1) p(1,3) by (auto simp: m' cm_inv_def sum_list_first sum_list_replicate)
  ultimately show ?thesis by (simp add: m')
qed

lemma cm_put_spec:
  assumes "cm_inv hash m" "cm_put hash k v (c, m) = Inr (c', m')"
  shows "cm_inv hash m' \<and> cm_map m' = (cm_map m)(k \<mapsto> v) \<and> cm_lock_free m' = cm_lock_free m \<and> cm_bits m \<le> cm_bits m'"
proof (cases "(c + 1) AND 63 = 0 \<and> needs_rehash m")
  case False
  then have "m' = put_locked hash k v m" using assms(2) by (auto simp: cm_put_def Let_def split: if_splits)
  then show ?thesis using put_locked_spec [OF assms(1), of k v] by simp
next
  case True
  then obtain m1 where m1: "rehash_locked m = Inr m1" "m' = put_locked hash k v m1"
    using assms(2) by (auto simp: cm_put_def Let_def trigger_rehash_def split: if_splits sum.splits)
  show ?thesis using put_locked_spec [of hash m1 k v] rehash_locked_spec [OF assms(1) m1(1)] m1(2) by simp
qed

lemma cm_size_card: "cm_inv hash m \<Longrightarrow> cm_size m = card (dom (cm_map m))"
  using cm_map_dom [of hash m] by (simp add: cm_size_def cm_inv_def Let_def)

lemma cm_create_spec:
  assumes "cm_create bits shift = Inr m"
  shows "cm_inv hash m \<and> cm_map m = Map.empty \<and> \<not> cm_lock_free m"
  using assms empty_table(1) [of bits hash] empty_table(2) [of "2 ^ bits"]
  by (auto simp: cm_create_def cm_inv_def cm_map_def sum_list_replicate split: if_splits)


lemma cm_erase_ok:
  assumes "\<not> cm_lock_free m"
  obtains r m' where "cm_erase hash k m = Inr (r, m')"
  using assms that by (cases "chain_erase (hash k) k (cm_heads m ! bucket_index (cm_bits m) (hash k))") (auto simp: cm_erase_def Let_def)

section \<open>The contract of a key-value store\<close>

text \<open>
  What the indexes rely on: reads see the abstract map, writes update it at one key, and an
  operation that reports an error has no successor state.
\<close>

locale kv_store =
  fixes get :: "'k \<Rightarrow> 's \<Rightarrow> 'v option"
    and put :: "'k \<Rightarrow> 'v \<Rightarrow> 's \<Rightarrow> 'e + 's"
    and erase :: "'k \<Rightarrow> 's \<Rightarrow> 'e + (bool \<times> 's)"
    and count :: "'s \<Rightarrow> nat"
    and inv :: "'s \<Rightarrow> bool"
    and abs_map :: "'s \<Rightarrow> 'k \<rightharpoonup> 'v"
  assumes get_map: "inv s \<Longrightarrow> get k s = abs_map s k"
    and put_map: "inv s \<Longrightarrow> put k v s = Inr s' \<Longrightarrow> inv s' \<and> abs_map s' = (abs_map s)(k \<mapsto> v)"
    and erase_map: "inv s \<Longrightarrow> erase k s = Inr (r, s') \<Longrightarrow>
      inv s' \<and> abs_map s' = (abs_map s)(k := None) \<and> (r \<longleftrightarrow> k \<in> dom (abs_map s))"
    and count_map: "inv s \<Longrightarrow> finite (dom (abs_map s)) \<and> count s = card (dom (abs_map s))"
begin

lemma get_put: "inv s \<Longrightarrow> put k v s = Inr s' \<Longrightarrow> inv s' \<and> get x s' = (if x = k then Some v else get x s)"
  using put_map [of s k v s'] get_map [of s] get_map [of s'] by simp

lemma get_erase:
  "inv s \<Longrightarrow> erase k s = Inr (r, s') \<Longrightarrow>
     inv s' \<and> get x s' = (if x = k then None else get x s) \<and> (r \<longleftrightarrow> get k s \<noteq> None)"
  using erase_map [of s k r s'] get_map [of s] get_map [of s'] by auto

lemma count_put:
  "inv s \<Longrightarrow> put k v s = Inr s' \<Longrightarrow> count s' = (if get k s = None then count s + 1 else count s)"
proof -
  assume s: "inv s" "put k v s = Inr s'"
  note p = put_map [OF s]
  have f: "finite (dom (abs_map s))" using count_map [OF s(1)] by simp
  have "card (insert k (dom (abs_map s))) = (if k \<in> dom (abs_map s) then card (dom (abs_map s)) else card (dom (abs_map s)) + 1)"
    using f by (simp add: insert_absorb)
  then show ?thesis using p count_map [of s] count_map [of s'] get_map [OF s(1), of k] s(1) by (simp add: domIff)
qed

lemma count_erase:
  "inv s \<Longrightarrow> erase k s = Inr (r, s') \<Longrightarrow> count s = count s' + (if r then 1 else 0)"
proof -
  assume s: "inv s" "erase k s = Inr (r, s')"
  note p = erase_map [OF s]
  have f: "finite (dom (abs_map s))" using count_map [OF s(1)] by simp
  have "k \<in> dom (abs_map s) \<Longrightarrow> 0 < card (dom (abs_map s))" using f by (auto simp: card_gt_0_iff)
  then have "card (dom (abs_map s)) = card (dom (abs_map s) - {k}) + (if k \<in> dom (abs_map s) then 1 else 0)"
    using f by (simp add: card_Diff_singleton)
  then show ?thesis using p count_map [of s] count_map [of s'] s(1) by (simp add: dom_fun_upd)
qed

end

text \<open>The store a thread works on is the table with the thread's own put counter.\<close>

type_synonym ('k, 'v) cm_thread = "u32 \<times> ('k, 'v) cmap"

definition thread_erase :: "('k \<Rightarrow> u64) \<Rightarrow> 'k \<Rightarrow> ('k, 'v) cm_thread \<Rightarrow> map_error + (bool \<times> ('k, 'v) cm_thread)" where
  "thread_erase hash k = (\<lambda>(c, m). map_sum id (\<lambda>(r, m'). (r, (c, m'))) (cm_erase hash k m))"

interpretation concurrent_map: kv_store "\<lambda>k (c, m). cm_get hash k m" "cm_put hash" "thread_erase hash"
    "\<lambda>(c, m). cm_size m" "\<lambda>(c, m). cm_inv hash m" "\<lambda>(c, m). cm_map m"
  for hash :: "'k \<Rightarrow> u64"
proof (unfold_locales, goal_cases)
  case (1 s k)
  then show ?case by (auto simp: cm_get_map)
next
  case (2 s k v s')
  obtain c m c' m' where [simp]: "s = (c, m)" "s' = (c', m')" by (cases s; cases s')
  show ?case using cm_put_spec [of hash m k v c c' m'] 2 by simp
next
  case (3 s k r s')
  obtain c m c' m' where [simp]: "s = (c, m)" "s' = (c', m')" by (cases s; cases s')
  have "cm_erase hash k m = Inr (r, m')"
    using 3(2) by (cases "cm_erase hash k m") (auto simp: thread_erase_def)
  then show ?case using cm_erase_spec [of hash m k r m'] 3(1) by simp
next
  case (4 s)
  then show ?case by (auto simp: cm_size_card) (simp add: cm_map_def finite_dom_map_of)
qed

section \<open>Properties\<close>


definition tiny_map :: "(u64, nat) cmap" where
  "tiny_map = \<lparr>cm_bits = 1, cm_heads = [[], []], cm_entry_count = 0, cm_counts = [0], cm_lock_free = False\<rparr>"

lemma tiny_map_created: "cm_create 1 0 = Inr tiny_map"
  by (simp add: cm_create_def tiny_map_def numeral_2_eq_2)

lemma tiny_map_inv: "cm_inv (\<lambda>k. k) tiny_map" "\<not> cm_lock_free tiny_map" "cm_bits tiny_map = 1"
  using cm_create_spec [OF tiny_map_created] by (simp_all add: tiny_map_def)


text \<open>(C16) Map semantics of erase. On a consistent table whose lock-free flag is clear, erase returns, keeps the
  table consistent, reports whether the key was there, removes exactly that key, and the size
  shrinks by one exactly if it was there.\<close>

theorem erase_then_get:
  assumes "cm_inv hash m" "\<not> cm_lock_free m"
  shows "\<exists>r m'. cm_erase hash k m = Inr (r, m') \<and> cm_inv hash m' \<and> (r \<longleftrightarrow> cm_get hash k m \<noteq> None) \<and>
    (\<forall>x. cm_get hash x m' = (if x = k then None else cm_get hash x m)) \<and>
    cm_size m = cm_size m' + (if r then 1 else 0)"
proof -
  from assms(2) obtain r m' where e: "cm_erase hash k m = Inr (r, m')" by (rule cm_erase_ok)
  then have t: "thread_erase hash k (0, m) = Inr (r, (0, m'))" by (simp add: thread_erase_def)
  show ?thesis
    using concurrent_map.get_erase [of hash "(0, m)" k r "(0, m')"] concurrent_map.count_erase [of hash "(0, m)" k r "(0, m')"]
      assms(1) e t by auto
qed

theorem erase_then_get_witness:
  "\<exists>r m'. cm_erase (\<lambda>k. k) 3 tiny_map = Inr (r, m') \<and> r = (cm_get (\<lambda>k. k) 3 tiny_map \<noteq> None) \<and> cm_get (\<lambda>k. k) 3 m' = None"
  using erase_then_get [of "\<lambda>k. k" tiny_map 3] tiny_map_inv by auto

text \<open>The rehash. Doubling a consistent table of fewer than \<open>2 ^ 31\<close> buckets succeeds and gives a
  consistent table with one more bucket bit in which every lookup and the size are unchanged.\<close>

theorem rehash_preserves_map:
  assumes "cm_inv hash m" "cm_bits m < 31"
  shows "\<exists>m'. rehash_locked m = Inr m' \<and> cm_inv hash m' \<and> cm_bits m' = cm_bits m + 1 \<and>
    (\<forall>k. cm_get hash k m' = cm_get hash k m) \<and> cm_size m' = cm_size m"
proof -
  obtain m' where r: "rehash_locked m = Inr m'" using assms(2) by (auto simp: rehash_locked_def Let_def)
  note rehash_locked_spec [OF assms(1) r]
  then show ?thesis using r cm_get_map [OF assms(1)] cm_get_map [of hash m'] cm_size_card [OF assms(1)] cm_size_card [of hash m']
    by simp
qed

theorem rehash_preserves_map_witness:
  "\<exists>m'. rehash_locked tiny_map = Inr m' \<and> cm_bits m' = 2 \<and> (\<forall>k. cm_get (\<lambda>k. k) k m' = cm_get (\<lambda>k. k) k tiny_map)"
  using rehash_preserves_map [of "\<lambda>k. k" tiny_map] tiny_map_inv by auto

text \<open>Writes are refused while lock-free reads are enabled: put and erase report the logic error for
  every table and key, until the flag is cleared again.\<close>

theorem writes_refused_when_lock_free:
  "cm_put hash k v (c, enable_lock_free_reads m) = Inl (MapLogicError ''ConcurrentHashMap: put while lock-free reads enabled'') \<and>
   cm_erase hash k (enable_lock_free_reads m) = Inl (MapLogicError ''ConcurrentHashMap: erase while lock-free reads enabled'') \<and>
   cm_get hash k (enable_lock_free_reads m) = cm_get hash k m \<and>
   \<not> cm_lock_free (disable_lock_free_reads (enable_lock_free_reads m))"
  by (simp add: cm_put_def cm_erase_def cm_get_def enable_lock_free_reads_def disable_lock_free_reads_def)

text \<open>The constructor's range check does not cover the width of the shift. The arguments 32 to 62 pass
  the check on the number of bucket bits and reach the undefined shift of a 32-bit one; so does the
  rehash of a table with 31 bits.\<close>

theorem bucket_bits_check_too_wide:
  assumes "31 < bits" "bits \<le> 62" "shift \<le> 16" "cm_bits m = 31"
  shows "(cm_create bits shift :: map_error + ('k, 'v) cmap) = Inl UndefinedShift \<and>
    rehash_locked (m :: ('k, 'v) cmap) = Inl UndefinedShift"
  using assms by (simp add: cm_create_def rehash_locked_def)

theorem bucket_bits_check_too_wide_witness: "(cm_create 32 6 :: map_error + (u64, nat) cmap) = Inl UndefinedShift"
  using bucket_bits_check_too_wide [of 32 6 "tiny_map\<lparr>cm_bits := 31\<rparr>"] by simp

end
