(* ===== verification/Roaring.thy ===== *)
theory Roaring
  imports Prelude
begin

text \<open>
  The roaring bitmap of src/libs/yikv/container/bitmap.h and bitmap.cc: a set of 32-bit values kept
  as a sorted index of chunks, one per high half-word, each an ascending array of low half-words or
  a bit vector of 1024 words.

  A chunk's payload is the content of the arena block it owns: the live slots of an array (the
  first \<^verbatim>\<open>cardinality\<close> ones) or the words of a bit vector; \<open>ck_len\<close> is the allocated size in bytes,
  so that the writes of the sources stay inside the block exactly when the payload fits it. Values
  are natural numbers below \<open>2 ^ 32\<close>; \<^verbatim>\<open>value >> 16\<close> and \<^verbatim>\<open>value & 0xFFFF\<close> are division and remainder by
  65536. Blocks obtained from and returned to the allocator do not appear; \<^verbatim>\<open>PublishFence\<close> orders the
  writes for other threads and changes no state.
\<close>

definition kBitmapWords :: nat where "kBitmapWords = 1024"
definition kArrayToBitmapThreshold :: nat where "kArrayToBitmapThreshold = 4096"
definition kBitmapToArrayThreshold :: nat where "kBitmapToArrayThreshold = 2048"
definition kIndexInitCap :: nat where "kIndexInitCap = 8"
definition kArrayInitCap :: nat where "kArrayInitCap = 16"

lemmas bm_consts = kBitmapWords_def kArrayToBitmapThreshold_def kBitmapToArrayThreshold_def
  kIndexInitCap_def kArrayInitCap_def

datatype payload = ArrayPayload "nat list" | BitmapPayload "u64 list"

record chunk =
  ck_hi :: nat
  ck_card :: nat
  ck_payload :: payload
  ck_len :: nat

record bitmap =
  bm_card :: nat
  bm_cap :: nat
  bm_chunks :: "chunk list"

definition bm_new :: bitmap where
  "bm_new = \<lparr>bm_card = 0, bm_cap = 0, bm_chunks = []\<rparr>"

section \<open>The chunk index\<close>

text \<open>The binary search of \<^verbatim>\<open>chunk_pos\<close>.\<close>

function chunk_search :: "chunk list \<Rightarrow> nat \<Rightarrow> nat \<Rightarrow> nat \<Rightarrow> nat" where
  "chunk_search entries hi lo rh =
     (if lo < rh then
        let mid = (lo + rh) div 2 in
        if ck_hi (entries ! mid) < hi then chunk_search entries hi (mid + 1) rh
        else chunk_search entries hi lo mid
      else lo)"
  by pat_completeness auto
termination by (relation "measure (\<lambda>(_, _, lo, rh). rh - lo)") auto

declare chunk_search.simps [simp del]

definition chunk_pos :: "nat \<Rightarrow> bitmap \<Rightarrow> nat" where
  "chunk_pos hi b = chunk_search (bm_chunks b) hi 0 (length (bm_chunks b))"

definition find_chunk :: "nat \<Rightarrow> bitmap \<Rightarrow> chunk option" where
  "find_chunk hi b =
     (if bm_chunks b = [] then None
      else let pos = chunk_pos hi b in
        if pos < length (bm_chunks b) \<and> ck_hi (bm_chunks b ! pos) = hi
        then Some (bm_chunks b ! pos) else None)"

definition ensure_index_cap :: "nat \<Rightarrow> bitmap \<Rightarrow> bitmap" where
  "ensure_index_cap needed b =
     (if needed \<le> bm_cap b then b
      else b\<lparr>bm_cap := max (bm_cap b * 2) (max needed kIndexInitCap)\<rparr>)"

text \<open>The position of the chunk is returned in place of its address.\<close>

definition get_or_create :: "nat \<Rightarrow> bitmap \<Rightarrow> nat \<times> bitmap" where
  "get_or_create hi b0 =
     (let b = ensure_index_cap (length (bm_chunks b0) + 1) b0;
          cs = bm_chunks b;
          pos = chunk_pos hi b
      in if pos < length cs \<and> ck_hi (cs ! pos) = hi then (pos, b)
         else (pos, b\<lparr>bm_chunks := take pos cs @
                 \<lparr>ck_hi = hi, ck_card = 0, ck_payload = ArrayPayload [], ck_len = kArrayInitCap * 2\<rparr>
                 # drop pos cs\<rparr>))"

definition erase_chunk :: "nat \<Rightarrow> bitmap \<Rightarrow> bitmap" where
  "erase_chunk pos b = b\<lparr>bm_chunks := take pos (bm_chunks b) @ drop (pos + 1) (bm_chunks b)\<rparr>"

definition put_chunk :: "nat \<Rightarrow> chunk \<Rightarrow> bitmap \<Rightarrow> bitmap" where
  "put_chunk pos e b = b\<lparr>bm_chunks := (bm_chunks b)[pos := e]\<rparr>"

section \<open>Payloads\<close>

definition words_or :: "nat \<Rightarrow> u64 list \<Rightarrow> u64 list" where
  "words_or lo w = w[lo div 64 := w ! (lo div 64) OR push_bit (lo mod 64) 1]"

definition words_clear :: "nat \<Rightarrow> u64 list \<Rightarrow> u64 list" where
  "words_clear lo w = w[lo div 64 := w ! (lo div 64) AND NOT (push_bit (lo mod 64) 1)]"

definition words_hit :: "nat \<Rightarrow> u64 list \<Rightarrow> bool" where
  "words_hit lo w \<longleftrightarrow> w ! (lo div 64) AND push_bit (lo mod 64) 1 \<noteq> 0"

definition array_words :: "nat list \<Rightarrow> u64 list" where
  "array_words a = fold words_or a (replicate kBitmapWords 0)"

definition grow_array :: "nat \<Rightarrow> chunk \<Rightarrow> chunk" where
  "grow_array new_cap_elements e = e\<lparr>ck_len := new_cap_elements * 2\<rparr>"

definition to_bitmap :: "chunk \<Rightarrow> chunk" where
  "to_bitmap e = (case ck_payload e of
     BitmapPayload _ \<Rightarrow> e
   | ArrayPayload a \<Rightarrow> e\<lparr>ck_payload := BitmapPayload (array_words a), ck_len := kBitmapWords * 8\<rparr>)"

definition to_array :: "chunk \<Rightarrow> chunk" where
  "to_array e = (case ck_payload e of
     ArrayPayload _ \<Rightarrow> e
   | BitmapPayload w \<Rightarrow> e\<lparr>ck_payload := ArrayPayload (words_list w), ck_len := ck_card e * 2\<rparr>)"

definition chunk_to_words :: "chunk \<Rightarrow> u64 list" where
  "chunk_to_words e = (case ck_payload e of BitmapPayload w \<Rightarrow> w | ArrayPayload a \<Rightarrow> array_words a)"

definition popcount_words :: "u64 list \<Rightarrow> nat" where
  "popcount_words w = sum_list (map popcount w)"

definition is_array :: "chunk \<Rightarrow> bool" where
  "is_array e \<longleftrightarrow> (case ck_payload e of ArrayPayload _ \<Rightarrow> True | BitmapPayload _ \<Rightarrow> False)"

definition build_from_words :: "u64 list \<Rightarrow> nat \<Rightarrow> chunk \<Rightarrow> chunk" where
  "build_from_words w crd e =
     (if kArrayToBitmapThreshold < crd
      then e\<lparr>ck_payload := BitmapPayload w,
             ck_len := (if is_array e \<or> ck_len e < kBitmapWords * 8 then kBitmapWords * 8 else ck_len e),
             ck_card := crd\<rparr>
      else e\<lparr>ck_payload := ArrayPayload (words_list w),
             ck_len := (if ck_len e < crd * 2 then crd * 2 else ck_len e),
             ck_card := crd\<rparr>)"

definition copy_append_chunk :: "nat \<Rightarrow> chunk \<Rightarrow> bitmap \<Rightarrow> bitmap" where
  "copy_append_chunk hi src b =
     (let bytes = (if is_array src then ck_card src * 2 else kBitmapWords * 8);
          (pos, b1) = get_or_create hi b;
          te = bm_chunks b1 ! pos;
          b2 = put_chunk pos (te\<lparr>ck_payload := ck_payload src, ck_len := bytes, ck_card := ck_card src\<rparr>) b1
      in b2\<lparr>bm_card := bm_card b2 + ck_card src\<rparr>)"

section \<open>Point operations\<close>

text \<open>The binary search of \<^verbatim>\<open>Contains\<close> in an array chunk, and \<^verbatim>\<open>std::lower_bound\<close>.\<close>

function array_search :: "nat list \<Rightarrow> nat \<Rightarrow> nat \<Rightarrow> nat \<Rightarrow> bool" where
  "array_search a lo l r =
     (if l < r then
        let mid = (l + r) div 2 in
        if a ! mid = lo then True
        else if a ! mid < lo then array_search a lo (mid + 1) r
        else array_search a lo l mid
      else False)"
  by pat_completeness auto
termination by (relation "measure (\<lambda>(_, _, l, r). r - l)") auto

declare array_search.simps [simp del]

definition lower_bound :: "nat list \<Rightarrow> nat \<Rightarrow> nat" where
  "lower_bound a lo = length (takeWhile (\<lambda>x. x < lo) a)"

definition Contains :: "nat \<Rightarrow> bitmap \<Rightarrow> bool" where
  "Contains value b =
     (let hi = value div 65536; lo = value mod 65536 in
      case find_chunk hi b of
        None \<Rightarrow> False
      | Some e \<Rightarrow> (case ck_payload e of
          BitmapPayload w \<Rightarrow> drop_bit (lo mod 64) (w ! (lo div 64)) AND 1 \<noteq> 0
        | ArrayPayload a \<Rightarrow> array_search a lo 0 (ck_card e)))"

definition Cardinality :: "bitmap \<Rightarrow> nat" where "Cardinality b = bm_card b"

definition IsEmpty :: "bitmap \<Rightarrow> bool" where "IsEmpty b \<longleftrightarrow> bm_card b = 0"

definition Add :: "nat \<Rightarrow> bitmap \<Rightarrow> bitmap" where
  "Add value b0 =
     (let hi = value div 65536; lo = value mod 65536;
          (pos, b) = get_or_create hi b0;
          e = bm_chunks b ! pos
      in case ck_payload e of
           BitmapPayload w \<Rightarrow>
             if words_hit lo w then b
             else (put_chunk pos (e\<lparr>ck_payload := BitmapPayload (words_or lo w), ck_card := ck_card e + 1\<rparr>) b)
                    \<lparr>bm_card := bm_card b + 1\<rparr>
         | ArrayPayload a \<Rightarrow>
             let n = ck_card e; p = lower_bound a lo in
             if p < n \<and> a ! p = lo then b
             else
               let cur_cap = ck_len e div 2;
                   e1 = (if cur_cap \<le> n then grow_array (max (cur_cap * 2) kArrayInitCap) e else e);
                   e2 = e1\<lparr>ck_payload := ArrayPayload (take p a @ lo # drop p a), ck_card := n + 1\<rparr>;
                   e3 = (if kArrayToBitmapThreshold \<le> ck_card e2 then to_bitmap e2 else e2)
               in (put_chunk pos e3 b)\<lparr>bm_card := bm_card b + 1\<rparr>)"

definition Remove :: "nat \<Rightarrow> bitmap \<Rightarrow> bitmap" where
  "Remove value b =
     (let hi = value div 65536; lo = value mod 65536; pos = chunk_pos hi b in
      if bm_chunks b = [] then b
      else if length (bm_chunks b) \<le> pos \<or> ck_hi (bm_chunks b ! pos) \<noteq> hi then b
      else
        let e = bm_chunks b ! pos;
            finish = (\<lambda>e'. let b' = (put_chunk pos e' b)\<lparr>bm_card := bm_card b - 1\<rparr>
                           in if ck_card e' = 0 then erase_chunk pos b' else b')
        in case ck_payload e of
             BitmapPayload w \<Rightarrow>
               if \<not> words_hit lo w then b
               else let e1 = e\<lparr>ck_payload := BitmapPayload (words_clear lo w), ck_card := ck_card e - 1\<rparr>
                    in finish (if ck_card e1 < kBitmapToArrayThreshold then to_array e1 else e1)
           | ArrayPayload a \<Rightarrow>
               let n = ck_card e; epos = lower_bound a lo in
               if n \<le> epos \<or> a ! epos \<noteq> lo then b
               else finish (e\<lparr>ck_payload := ArrayPayload (take epos a @ drop (epos + 1) a), ck_card := n - 1\<rparr>))"

section \<open>Bulk insertion\<close>

text \<open>The three ways a run of values with the same high half enters its chunk.\<close>

fun or_run :: "nat list \<Rightarrow> u64 list \<Rightarrow> nat \<Rightarrow> u64 list \<times> nat" where
  "or_run [] w added = (w, added)"
| "or_run (lo # los) w added =
     (if words_hit lo w then or_run los w added else or_run los (words_or lo w) (added + 1))"

fun fill_run :: "nat option \<Rightarrow> nat list \<Rightarrow> nat list" where
  "fill_run prev [] = []"
| "fill_run prev (lo # los) = (if prev = None \<or> prev \<noteq> Some lo then lo # fill_run (Some lo) los else fill_run prev los)"

fun merge_run :: "nat list \<Rightarrow> nat list \<Rightarrow> nat list \<times> nat list \<times> nat list" where
  "merge_run (av # old) (nv # new) =
     (if av < nv then (case merge_run old (nv # new) of (m, r, s) \<Rightarrow> (av # m, r, s))
      else if nv < av then (case merge_run (av # old) new of (m, r, s) \<Rightarrow> (nv # m, r, s))
      else (case merge_run old new of (m, r, s) \<Rightarrow> (av # m, r, s)))"
| "merge_run old new = ([], old, new)"

fun push_rest :: "nat list \<Rightarrow> nat list \<Rightarrow> nat list" where
  "push_rest merged [] = merged"
| "push_rest merged (nv # new) =
     push_rest (if merged = [] \<or> last merged \<noteq> nv then merged @ [nv] else merged) new"

definition merge_arrays :: "nat list \<Rightarrow> nat list \<Rightarrow> nat list" where
  "merge_arrays old new = (case merge_run old new of (m, r, s) \<Rightarrow> push_rest (m @ r) s)"

definition bulk_chunk :: "nat list \<Rightarrow> chunk \<Rightarrow> chunk \<times> nat" where
  "bulk_chunk los e =
     (let n = length los in
      case ck_payload e of
        BitmapPayload w \<Rightarrow>
          (case or_run los w 0 of (w', added) \<Rightarrow>
             (e\<lparr>ck_payload := BitmapPayload w', ck_card := ck_card e + added\<rparr>, added))
      | ArrayPayload a \<Rightarrow>
          if ck_card e = 0 then
            let e' = (if ck_len e div 2 < n then grow_array (max n kArrayInitCap) e else e);
                filled = fill_run None los
            in (e'\<lparr>ck_payload := ArrayPayload filled, ck_card := length filled\<rparr>, length filled)
          else
            let merged = merge_arrays a los in
            (e\<lparr>ck_payload := ArrayPayload merged, ck_len := (ck_card e + n) * 2, ck_card := length merged\<rparr>,
             length merged - ck_card e))"

definition bulk_run :: "nat \<Rightarrow> nat list \<Rightarrow> bitmap \<Rightarrow> bitmap" where
  "bulk_run hi los b0 =
     (let (pos, b) = get_or_create hi b0;
          (e1, added) = bulk_chunk los (bm_chunks b ! pos);
          e2 = (if is_array e1 \<and> kArrayToBitmapThreshold \<le> ck_card e1 then to_bitmap e1 else e1)
      in (put_chunk pos e2 b)\<lparr>bm_card := bm_card b + added\<rparr>)"

function BulkAdd :: "nat list \<Rightarrow> bitmap \<Rightarrow> bitmap" where
  "BulkAdd [] b = b"
| "BulkAdd (v # vs) b =
     (let hi = v div 65536;
          run = takeWhile (\<lambda>x. x div 65536 = hi) (v # vs);
          rest = dropWhile (\<lambda>x. x div 65536 = hi) (v # vs)
      in BulkAdd rest (bulk_run hi (map (\<lambda>x. x mod 65536) run) b))"
  by pat_completeness auto
termination
  by (relation "measure (\<lambda>(vs, b). length vs)") (auto simp: length_dropWhile_le le_imp_less_Suc)

section \<open>Set algebra\<close>

fun or_arrays :: "nat list \<Rightarrow> nat list \<Rightarrow> nat list" where
  "or_arrays (x # xs) (y # ys) =
     (if x < y then x # or_arrays xs (y # ys)
      else if y < x then y # or_arrays (x # xs) ys
      else x # or_arrays xs ys)"
| "or_arrays xs [] = xs"
| "or_arrays [] ys = ys"

fun and_arrays :: "nat list \<Rightarrow> nat list \<Rightarrow> nat list" where
  "and_arrays (x # xs) (y # ys) =
     (if x = y then x # and_arrays xs ys
      else if x < y then and_arrays xs (y # ys)
      else and_arrays (x # xs) ys)"
| "and_arrays _ _ = []"

fun andnot_arrays :: "nat list \<Rightarrow> nat list \<Rightarrow> nat list" where
  "andnot_arrays (x # xs) (y # ys) =
     (if x < y then x # andnot_arrays xs (y # ys)
      else if y < x then andnot_arrays (x # xs) ys
      else andnot_arrays xs ys)"
| "andnot_arrays xs _ = xs"

definition or_step :: "chunk \<Rightarrow> bitmap \<Rightarrow> bitmap" where
  "or_step oe b0 =
     (let (pos, b) = get_or_create (ck_hi oe) b0;
          te = bm_chunks b ! pos
      in if ck_card te = 0 then copy_append_chunk (ck_hi oe) oe b
         else case (ck_payload te, ck_payload oe) of
           (ArrayPayload ta, ArrayPayload oa) \<Rightarrow>
             let mg = or_arrays ta oa;
                 te1 = te\<lparr>ck_payload := ArrayPayload mg, ck_len := (ck_card te + ck_card oe) * 2, ck_card := length mg\<rparr>;
                 te2 = (if kArrayToBitmapThreshold \<le> ck_card te1 then to_bitmap te1 else te1)
             in (put_chunk pos te2 b)\<lparr>bm_card := bm_card b + (length mg - ck_card te)\<rparr>
         | _ \<Rightarrow>
             let tw = map2 (OR) (chunk_to_words te) (chunk_to_words oe);
                 new_card = popcount_words tw
             in (put_chunk pos (build_from_words tw new_card te) b)\<lparr>bm_card := bm_card b + (new_card - ck_card te)\<rparr>)"

text \<open>\<open>same\<close> is the test \<^verbatim>\<open>this == &o\<close> of the sources.\<close>

definition OrWith :: "bool \<Rightarrow> bitmap \<Rightarrow> bitmap \<Rightarrow> bitmap" where
  "OrWith same o2 b = (if same then b else fold or_step (bm_chunks o2) b)"

text \<open>The loops of \<^verbatim>\<open>AndWith\<close>, \<^verbatim>\<open>xor_with\<close> and \<^verbatim>\<open>and_not_with\<close> walk the index, replacing or erasing each
  chunk; \<open>f\<close> is the loop body on one chunk (\<open>None\<close>: erase) and \<open>adj\<close> how it adjusts the total.\<close>

function chunk_loop ::
  "(nat \<Rightarrow> nat \<Rightarrow> nat \<Rightarrow> nat) \<Rightarrow> (chunk \<Rightarrow> chunk option) \<Rightarrow> nat \<Rightarrow> bitmap \<Rightarrow> bitmap" where
  "chunk_loop adj f ci b =
     (if ci < length (bm_chunks b) then
        let te = bm_chunks b ! ci in
        case f te of
          None \<Rightarrow> chunk_loop adj f ci ((erase_chunk ci b)\<lparr>bm_card := adj (ck_card te) 0 (bm_card b)\<rparr>)
        | Some te' \<Rightarrow> chunk_loop adj f (ci + 1)
            ((put_chunk ci te' b)\<lparr>bm_card := adj (ck_card te) (ck_card te') (bm_card b)\<rparr>)
      else b)"
  by pat_completeness auto
termination
  by (relation "measure (\<lambda>(adj, f, ci, b). length (bm_chunks b) - ci)")
    (auto simp: erase_chunk_def put_chunk_def)

declare chunk_loop.simps [simp del]

definition sub_card :: "nat \<Rightarrow> nat \<Rightarrow> nat \<Rightarrow> nat" where
  "sub_card old_card new_card total_card = total_card - (old_card - new_card)"

definition add_sub_card :: "nat \<Rightarrow> nat \<Rightarrow> nat \<Rightarrow> nat" where
  "add_sub_card old_card new_card total_card = total_card + new_card - old_card"

definition words_chunk :: "(u64 \<Rightarrow> u64 \<Rightarrow> u64) \<Rightarrow> chunk \<Rightarrow> chunk \<Rightarrow> chunk option" where
  "words_chunk f te oe =
     (let tw = map2 f (chunk_to_words te) (chunk_to_words oe);
          new_card = popcount_words tw
      in if new_card = 0 then None else Some (build_from_words tw new_card te))"

definition and_chunk :: "bitmap \<Rightarrow> chunk \<Rightarrow> chunk option" where
  "and_chunk o2 te = (case find_chunk (ck_hi te) o2 of
     None \<Rightarrow> None
   | Some oe \<Rightarrow> (case (ck_payload te, ck_payload oe) of
       (ArrayPayload ta, ArrayPayload oa) \<Rightarrow>
         let is = and_arrays ta oa in
         if is = [] then None
         else Some (te\<lparr>ck_payload := ArrayPayload is, ck_len := min (ck_card te) (ck_card oe) * 2, ck_card := length is\<rparr>)
     | _ \<Rightarrow> words_chunk (AND) te oe))"

definition AndWith :: "bool \<Rightarrow> bitmap \<Rightarrow> bitmap \<Rightarrow> bitmap" where
  "AndWith same o2 b = (if same then b else chunk_loop sub_card (and_chunk o2) 0 b)"

definition xor_chunk :: "bitmap \<Rightarrow> chunk \<Rightarrow> chunk option" where
  "xor_chunk o2 te = (case find_chunk (ck_hi te) o2 of
     None \<Rightarrow> Some te
   | Some oe \<Rightarrow> words_chunk (XOR) te oe)"

definition xor_with :: "bool \<Rightarrow> bitmap \<Rightarrow> bitmap \<Rightarrow> bitmap" where
  "xor_with same o2 b =
     (if same then bm_new
      else
        let orig_his = map ck_hi (bm_chunks b);
            b1 = chunk_loop add_sub_card (xor_chunk o2) 0 b
        in fold (\<lambda>oe b. if ck_hi oe \<in> set orig_his then b else copy_append_chunk (ck_hi oe) oe b) (bm_chunks o2) b1)"

definition and_not_chunk :: "bitmap \<Rightarrow> chunk \<Rightarrow> chunk option" where
  "and_not_chunk o2 te = (case find_chunk (ck_hi te) o2 of
     None \<Rightarrow> Some te
   | Some oe \<Rightarrow> (case (ck_payload te, ck_payload oe) of
       (ArrayPayload ta, ArrayPayload oa) \<Rightarrow>
         let df = andnot_arrays ta oa in
         if df = [] then None
         else Some (te\<lparr>ck_payload := ArrayPayload df, ck_len := ck_card te * 2, ck_card := length df\<rparr>)
     | _ \<Rightarrow> words_chunk (\<lambda>x y. x AND NOT y) te oe))"

definition and_not_with :: "bool \<Rightarrow> bitmap \<Rightarrow> bitmap \<Rightarrow> bitmap" where
  "and_not_with same o2 b = (if same then bm_new else chunk_loop sub_card (and_not_chunk o2) 0 b)"

definition Or :: "bitmap \<Rightarrow> bitmap \<Rightarrow> bitmap" where
  "Or b o2 = OrWith False o2 (OrWith False b bm_new)"

definition And :: "bitmap \<Rightarrow> bitmap \<Rightarrow> bitmap" where
  "And b o2 = AndWith False o2 (OrWith False b bm_new)"

definition AndNot :: "bitmap \<Rightarrow> bitmap \<Rightarrow> bitmap" where
  "AndNot b o2 = and_not_with False o2 (OrWith False b bm_new)"

definition Xor :: "bitmap \<Rightarrow> bitmap \<Rightarrow> bitmap" where
  "Xor b o2 = xor_with False o2 (OrWith False b bm_new)"

definition copy_bitmap :: "bitmap \<Rightarrow> bitmap" where
  "copy_bitmap other = OrWith False other bm_new"

definition assign_bitmap :: "bool \<Rightarrow> bitmap \<Rightarrow> bitmap \<Rightarrow> bitmap" where
  "assign_bitmap same other b = (if same then b else OrWith False other bm_new)"

section \<open>Iteration and size\<close>

definition chunk_list :: "chunk \<Rightarrow> nat list" where
  "chunk_list e = (case ck_payload e of ArrayPayload a \<Rightarrow> a | BitmapPayload w \<Rightarrow> words_list w)"

text \<open>The values \<^verbatim>\<open>ForEach\<close> passes to its callback, in order.\<close>

definition ForEach :: "bitmap \<Rightarrow> nat list" where
  "ForEach b = concat (map (\<lambda>e. map (\<lambda>lo. ck_hi e * 65536 + lo) (chunk_list e)) (bm_chunks b))"

definition EstimatedBytes :: "bitmap \<Rightarrow> nat" where
  "EstimatedBytes b = 32 + 32 + bm_cap b * 24 + sum_list (map ck_len (bm_chunks b))"

end
