(* ===== verification/RoaringCorrect.thy ===== *)
theory RoaringCorrect
  imports Roaring
begin

text \<open>
  Correctness of the roaring bitmap: the representation invariant, the set a bitmap stands for, and
  that every operation implements its set operation and keeps the invariant. The invariant includes
  that the payload of every chunk fits the block allocated for it.
\<close>

section \<open>Invariant and abstraction\<close>

definition chunk_ok :: "chunk \<Rightarrow> bool" where
  "chunk_ok e \<longleftrightarrow> ck_hi e < 65536 \<and>
     (case ck_payload e of
        ArrayPayload a \<Rightarrow> sorted_wrt (<) a \<and> (\<forall>x \<in> set a. x < 65536) \<and> ck_card e = length a \<and> 2 * length a \<le> ck_len e
      | BitmapPayload w \<Rightarrow> length w = kBitmapWords \<and> ck_card e = popcount_words w \<and> kBitmapWords * 8 \<le> ck_len e)"

definition chunk_set :: "chunk \<Rightarrow> nat set" where
  "chunk_set e = set (chunk_list e)"

definition los :: "chunk list \<Rightarrow> nat \<Rightarrow> nat set" where
  "los cs h = {x. \<exists>i < length cs. ck_hi (cs ! i) = h \<and> x \<in> chunk_set (cs ! i)}"

definition bm_ok :: "bitmap \<Rightarrow> bool" where
  "bm_ok b \<longleftrightarrow> sorted_wrt (<) (map ck_hi (bm_chunks b)) \<and> (\<forall>e \<in> set (bm_chunks b). chunk_ok e) \<and>
     bm_card b = sum_list (map ck_card (bm_chunks b)) \<and> length (bm_chunks b) \<le> bm_cap b"

definition bm_inv :: "bitmap \<Rightarrow> bool" where
  "bm_inv b \<longleftrightarrow> bm_ok b \<and> (\<forall>e \<in> set (bm_chunks b). 0 < ck_card e)"

definition bm_set :: "bitmap \<Rightarrow> nat set" where
  "bm_set b = {v. v mod 65536 \<in> los (bm_chunks b) (v div 65536)}"

lemma chunk_list_ok:
  assumes "chunk_ok e"
  shows "sorted_wrt (<) (chunk_list e)" "length (chunk_list e) = ck_card e" "\<forall>x \<in> set (chunk_list e). x < 65536"
  using assms
  by (auto simp: chunk_ok_def chunk_list_def sorted_words_list length_words_list popcount_words_def
      set_words_list bm_consts split: payload.splits)

lemma chunk_set_ok: "chunk_ok e \<Longrightarrow> x \<in> chunk_set e \<Longrightarrow> x < 65536"
  using chunk_list_ok(3) by (auto simp: chunk_set_def)

lemma card_chunk_set: "chunk_ok e \<Longrightarrow> card (chunk_set e) = ck_card e"
  using chunk_list_ok(1,2) [of e] distinct_sorted_wrt_less distinct_card by (fastforce simp: chunk_set_def)

section \<open>The sorted index\<close>

abbreviation his_sorted :: "chunk list \<Rightarrow> bool" where
  "his_sorted cs \<equiv> sorted_wrt (<) (map ck_hi cs)"

lemma his_nth: "his_sorted cs \<Longrightarrow> i < j \<Longrightarrow> j < length cs \<Longrightarrow> ck_hi (cs ! i) < ck_hi (cs ! j)"
  using sorted_wrt_nth [of "(<)" "map ck_hi cs" i j] by simp

lemma his_inj: "his_sorted cs \<Longrightarrow> i < length cs \<Longrightarrow> j < length cs \<Longrightarrow> ck_hi (cs ! i) = ck_hi (cs ! j) \<Longrightarrow> i = j"
  using his_nth [of cs i j] his_nth [of cs j i] by (cases i j rule: linorder_cases) auto

lemma his_sortedI:
  "(\<And>i j. i < j \<Longrightarrow> j < length cs \<Longrightarrow> ck_hi (cs ! i) < ck_hi (cs ! j)) \<Longrightarrow> his_sorted cs"
  by (simp add: sorted_wrt_iff_nth_less)

lemma los_at: "his_sorted cs \<Longrightarrow> i < length cs \<Longrightarrow> los cs (ck_hi (cs ! i)) = chunk_set (cs ! i)"
  by (auto simp: los_def dest: his_inj)

lemma los_Nil [simp]: "los [] = (\<lambda>h. {})"
  by (simp add: los_def fun_eq_iff)

lemma los_none: "(\<And>i. i < length cs \<Longrightarrow> ck_hi (cs ! i) \<noteq> h) \<Longrightarrow> los cs h = {}"
  by (auto simp: los_def)

lemma chunk_search_spec:
  assumes "his_sorted cs" "lo \<le> rh" "rh \<le> length cs"
    and "\<forall>i < lo. ck_hi (cs ! i) < hi" "\<forall>i < length cs. rh \<le> i \<longrightarrow> hi \<le> ck_hi (cs ! i)"
  shows "chunk_search cs hi lo rh \<le> length cs \<and> (\<forall>i < chunk_search cs hi lo rh. ck_hi (cs ! i) < hi) \<and>
    (\<forall>i < length cs. chunk_search cs hi lo rh \<le> i \<longrightarrow> hi \<le> ck_hi (cs ! i))"
  using assms
proof (induction cs hi lo rh rule: chunk_search.induct)
  case (1 cs hi lo rh)
  show ?case
  proof (cases "lo < rh")
    case True
    let ?mid = "(lo + rh) div 2"
    have mid: "lo \<le> ?mid" "?mid < rh" using True by auto
    have le: "ck_hi (cs ! i) \<le> ck_hi (cs ! j)" if "i \<le> j" "j < length cs" for i j
      using his_nth [OF "1.prems"(1), of i j] that by (cases "i = j") auto
    show ?thesis
    proof (cases "ck_hi (cs ! ?mid) < hi")
      case less: True
      have "\<forall>i < ?mid + 1. ck_hi (cs ! i) < hi"
      proof (intro allI impI)
        fix i assume "i < ?mid + 1"
        then show "ck_hi (cs ! i) < hi" using le [of i ?mid] less mid "1.prems"(3) by simp
      qed
      moreover have eq: "chunk_search cs hi lo rh = chunk_search cs hi (?mid + 1) rh"
        using True less by (subst chunk_search.simps) (simp add: Let_def)
      ultimately show ?thesis unfolding eq
        by (intro "1.IH"(1) [OF True refl less "1.prems"(1)]) (use "1.prems" mid in auto)
    next
      case geq: False
      have "\<forall>i < length cs. ?mid \<le> i \<longrightarrow> hi \<le> ck_hi (cs ! i)"
        using le geq by (meson leI order_trans)
      moreover have eq: "chunk_search cs hi lo rh = chunk_search cs hi lo ?mid"
        using True geq by (subst chunk_search.simps) (simp add: Let_def)
      moreover have "?mid \<le> length cs" using mid(2) "1.prems"(3) by linarith
      ultimately show ?thesis unfolding eq
        by (intro "1.IH"(2) [OF True refl geq "1.prems"(1) mid(1) _ "1.prems"(4)])
    qed
  next
    case False
    then have "chunk_search cs hi lo rh = lo" by (simp add: chunk_search.simps)
    then show ?thesis using False "1.prems" by simp
  qed
qed

lemma chunk_pos_spec:
  assumes "his_sorted (bm_chunks b)"
  shows "chunk_pos hi b \<le> length (bm_chunks b)" "i < chunk_pos hi b \<Longrightarrow> ck_hi (bm_chunks b ! i) < hi"
    "i < length (bm_chunks b) \<Longrightarrow> chunk_pos hi b \<le> i \<Longrightarrow> hi \<le> ck_hi (bm_chunks b ! i)"
  using chunk_search_spec [OF assms, of 0 "length (bm_chunks b)" hi] by (auto simp: chunk_pos_def)

lemma chunk_pos_hit:
  assumes "his_sorted (bm_chunks b)" "i < length (bm_chunks b)" "ck_hi (bm_chunks b ! i) = hi"
  shows "chunk_pos hi b = i"
proof -
  have "\<not> chunk_pos hi b < i"
    using chunk_pos_spec(3) [OF assms(1), of "chunk_pos hi b" hi] his_nth [OF assms(1) _ assms(2), of "chunk_pos hi b"]
      assms(2,3) by auto
  moreover have "\<not> i < chunk_pos hi b"
    using chunk_pos_spec(2) [OF assms(1), of i hi] assms(3) by auto
  ultimately show ?thesis by simp
qed

lemma chunk_pos_miss:
  assumes "his_sorted (bm_chunks b)"
    and "\<not> (chunk_pos hi b < length (bm_chunks b) \<and> ck_hi (bm_chunks b ! chunk_pos hi b) = hi)"
  shows "i < length (bm_chunks b) \<Longrightarrow> ck_hi (bm_chunks b ! i) \<noteq> hi"
  using chunk_pos_hit [OF assms(1), of i hi] assms(2) by auto

lemma find_chunk_Some:
  assumes "his_sorted (bm_chunks b)" "find_chunk hi b = Some e"
  shows "\<exists>i < length (bm_chunks b). e = bm_chunks b ! i \<and> ck_hi e = hi"
  using assms by (auto simp: find_chunk_def Let_def split: if_splits)

lemma find_chunk_None:
  assumes "his_sorted (bm_chunks b)" "find_chunk hi b = None" "i < length (bm_chunks b)"
  shows "ck_hi (bm_chunks b ! i) \<noteq> hi"
  using chunk_pos_miss [OF assms(1) _ assms(3), of hi] assms(2,3)
  by (auto simp: find_chunk_def Let_def split: if_splits)

lemma find_chunk_los:
  assumes "his_sorted (bm_chunks b)"
  shows "los (bm_chunks b) hi = (case find_chunk hi b of None \<Rightarrow> {} | Some e \<Rightarrow> chunk_set e)"
proof (cases "find_chunk hi b")
  case None
  then show ?thesis using los_none find_chunk_None [OF assms None] by auto
next
  case (Some e)
  from find_chunk_Some [OF assms this] show ?thesis using los_at [OF assms] Some by auto
qed

lemma find_chunk_ok: "bm_ok b \<Longrightarrow> find_chunk hi b = Some e \<Longrightarrow> chunk_ok e \<and> ck_hi e = hi \<and> e \<in> set (bm_chunks b)"
  using find_chunk_Some [of b hi e] by (auto simp: bm_ok_def)

section \<open>Updating the index\<close>

lemma los_update:
  assumes "his_sorted cs" "pos < length cs" "ck_hi e = ck_hi (cs ! pos)"
  shows "los (cs[pos := e]) = (los cs)(ck_hi e := chunk_set e)"
proof
  fix h
  show "los (cs[pos := e]) h = ((los cs)(ck_hi e := chunk_set e)) h"
  proof (cases "h = ck_hi e")
    case True
    then show ?thesis using assms his_inj [OF assms(1)] by (auto simp: los_def nth_list_update)
  next
    case False
    then show ?thesis using assms by (auto simp: los_def nth_list_update)
  qed
qed

lemma sum_list_update:
  "pos < length xs \<Longrightarrow> sum_list (xs[pos := x]) + xs ! pos = sum_list xs + (x :: nat)"
  by (induction xs arbitrary: pos) (auto split: nat.splits)

lemma put_chunk_ok:
  assumes "bm_ok b" "pos < length (bm_chunks b)" "chunk_ok e" "ck_hi e = ck_hi (bm_chunks b ! pos)"
    and "c + ck_card (bm_chunks b ! pos) = bm_card b + ck_card e"
  shows "bm_ok ((put_chunk pos e b)\<lparr>bm_card := c\<rparr>)"
    and "los (bm_chunks (put_chunk pos e b)) = (los (bm_chunks b))(ck_hi e := chunk_set e)"
proof -
  have s: "his_sorted (bm_chunks b)" using assms(1) by (simp add: bm_ok_def)
  show "los (bm_chunks (put_chunk pos e b)) = (los (bm_chunks b))(ck_hi e := chunk_set e)"
    using los_update [OF s assms(2,4)] by (simp add: put_chunk_def)
  have "map ck_hi ((bm_chunks b)[pos := e]) = map ck_hi (bm_chunks b)"
    using assms(2,4) by (metis list_update_id map_update nth_map)
  moreover have "c = sum_list (map ck_card ((bm_chunks b)[pos := e]))"
    using sum_list_update [of pos "map ck_card (bm_chunks b)" "ck_card e"] assms by (simp add: map_update bm_ok_def)
  ultimately show "bm_ok ((put_chunk pos e b)\<lparr>bm_card := c\<rparr>)"
    using assms(1,3) s by (auto simp: bm_ok_def put_chunk_def dest: subsetD [OF set_update_subset_insert])
qed

lemma set_insert_at: "set (take p cs @ e # drop p cs) = insert e (set cs)"
  by (metis append_take_drop_id list.simps(15) set_append Un_insert_right)

lemma sum_insert_at: "sum_list (map f (take p cs @ e # drop p cs)) = f e + (sum_list (map f cs) :: nat)"
proof -
  have "sum_list (map f cs) = sum_list (map f (take p cs)) + sum_list (map f (drop p cs))"
    by (metis append_take_drop_id map_append sum_list_append)
  then show ?thesis by simp
qed

lemma los_set: "los cs h = {x. \<exists>e \<in> set cs. ck_hi e = h \<and> x \<in> chunk_set e}"
  unfolding los_def set_conv_nth by blast

lemma his_sorted_insert:
  assumes "his_sorted cs" "p \<le> length cs" "\<And>i. i < p \<Longrightarrow> ck_hi (cs ! i) < ck_hi e"
    and "\<And>i. i < length cs \<Longrightarrow> p \<le> i \<Longrightarrow> ck_hi e < ck_hi (cs ! i)"
  shows "his_sorted (take p cs @ e # drop p cs)"
proof -
  have "his_sorted (take p cs @ drop p cs)" using assms(1) by simp
  moreover have "\<forall>x \<in> set (take p cs). ck_hi x < ck_hi e"
    using assms(2,3) by (auto simp: in_set_conv_nth)
  moreover have "\<forall>x \<in> set (drop p cs). ck_hi e < ck_hi x"
    using assms(2,4) by (auto simp: in_set_conv_nth)
  ultimately show ?thesis by (auto simp: sorted_wrt_append simp del: append_take_drop_id)
qed

lemma ensure_index_cap_fields [simp]:
  "bm_chunks (ensure_index_cap n b) = bm_chunks b" "bm_card (ensure_index_cap n b) = bm_card b"
  "chunk_pos hi (ensure_index_cap n b) = chunk_pos hi b"
proof -
  show c: "bm_chunks (ensure_index_cap n b) = bm_chunks b" "bm_card (ensure_index_cap n b) = bm_card b"
    by (simp_all add: ensure_index_cap_def)
  show "chunk_pos hi (ensure_index_cap n b) = chunk_pos hi b" by (simp only: chunk_pos_def c)
qed

lemma ensure_index_cap_le: "n \<le> bm_cap (ensure_index_cap n b)" "bm_cap b \<le> bm_cap (ensure_index_cap n b)"
  by (auto simp: ensure_index_cap_def)

text \<open>\<open>get_or_create\<close> keeps the set; the chunk it returns has the requested high half, and all the
  others were there before.\<close>

lemma get_or_create_ok:
  assumes "bm_ok b" "hi < 65536" "get_or_create hi b = (pos, b')"
  shows "bm_ok b'" "pos < length (bm_chunks b')" "ck_hi (bm_chunks b' ! pos) = hi"
    "los (bm_chunks b') = los (bm_chunks b)" "bm_card b' = bm_card b" "chunk_ok (bm_chunks b' ! pos)"
    "\<And>i. i < length (bm_chunks b') \<Longrightarrow> i \<noteq> pos \<Longrightarrow> bm_chunks b' ! i \<in> set (bm_chunks b)"
proof -
  let ?b = "ensure_index_cap (length (bm_chunks b) + 1) b"
  let ?e = "\<lparr>ck_hi = hi, ck_card = 0, ck_payload = ArrayPayload [], ck_len = kArrayInitCap * 2\<rparr>"
  have cap: "Suc (length (bm_chunks b)) \<le> bm_cap ?b" using ensure_index_cap_le(1) by simp
  have s: "his_sorted (bm_chunks b)" using assms(1) by (simp add: bm_ok_def)
  note ps = chunk_pos_spec [OF s]
  have eok: "chunk_ok ?e" "chunk_set ?e = {}" using assms(2) by (simp_all add: chunk_ok_def chunk_set_def chunk_list_def)
  have "bm_ok b' \<and> pos < length (bm_chunks b') \<and> ck_hi (bm_chunks b' ! pos) = hi \<and>
    los (bm_chunks b') = los (bm_chunks b) \<and> bm_card b' = bm_card b \<and> chunk_ok (bm_chunks b' ! pos) \<and>
    (\<forall>i < length (bm_chunks b'). i \<noteq> pos \<longrightarrow> bm_chunks b' ! i \<in> set (bm_chunks b))"
  proof (cases "chunk_pos hi b < length (bm_chunks b) \<and> ck_hi (bm_chunks b ! chunk_pos hi b) = hi")
    case True
    then have "b' = ?b" "pos = chunk_pos hi b"
      using assms(3) by (simp_all add: get_or_create_def Let_def)
    then show ?thesis using True assms(1) cap by (simp add: bm_ok_def)
  next
    case False
    note miss = chunk_pos_miss [OF s False]
    let ?p = "chunk_pos hi b" and ?cs = "bm_chunks b"
    have p: "pos = ?p" and b': "b' = ?b\<lparr>bm_chunks := take ?p ?cs @ ?e # drop ?p ?cs\<rparr>"
      using False assms(3) by (auto simp: get_or_create_def Let_def ensure_index_cap_fields)
    have nth: "(take ?p ?cs @ ?e # drop ?p ?cs) ! ?p = ?e" using ps(1) [of hi] by (simp add: nth_append)
    have lt: "hi < ck_hi (?cs ! i)" if "i < length ?cs" "?p \<le> i" for i
      using ps(3) [OF that] miss [OF that(1)] by simp
    have "his_sorted (take ?p ?cs @ ?e # drop ?p ?cs)"
      by (rule his_sorted_insert [OF s ps(1)]) (auto simp: ps(2) lt)
    then have "bm_ok b'"
      using assms(1) eok(1) cap unfolding b' bm_ok_def 
      by (auto simp: sum_insert_at ps(1) simp del: map_append dest: in_set_takeD in_set_dropD)
    moreover have "los (take ?p ?cs @ ?e # drop ?p ?cs) = los ?cs"
      unfolding los_set set_insert_at using eok(2) by auto
    moreover have "(take ?p ?cs @ ?e # drop ?p ?cs) ! i \<in> set ?cs"
      if "i < Suc (length ?cs)" "i \<noteq> ?p" for i
      using that ps(1) [of hi] by (cases "i < ?p") (auto simp: nth_append nth_Cons split: nat.splits)
    ultimately show ?thesis using eok(1) nth p b' ps(1) [of hi] by simp
  qed
  then show "bm_ok b'" "pos < length (bm_chunks b')" "ck_hi (bm_chunks b' ! pos) = hi"
    "los (bm_chunks b') = los (bm_chunks b)" "bm_card b' = bm_card b" "chunk_ok (bm_chunks b' ! pos)"
    "\<And>i. i < length (bm_chunks b') \<Longrightarrow> i \<noteq> pos \<Longrightarrow> bm_chunks b' ! i \<in> set (bm_chunks b)"
    by blast+
qed

section \<open>Payload conversions\<close>

lemma length_words_upd [simp]: "length (words_or lo w) = length w" "length (words_clear lo w) = length w"
  by (simp_all add: words_or_def words_clear_def)

lemma wbit_words_upd:
  assumes "length w = 1024" "lo < 65536" "q < 65536"
  shows "wbit (words_or lo w) q \<longleftrightarrow> wbit w q \<or> q = lo" "wbit (words_clear lo w) q \<longleftrightarrow> wbit w q \<and> q \<noteq> lo"
  using wbit_set [of lo w q] wbit_clear [of lo w q] assms by (simp_all add: words_or_def words_clear_def)

lemma words_hit_wbit: "words_hit lo w \<longleftrightarrow> wbit w lo"
proof
  assume "words_hit lo w"
  then obtain n where "bit (w ! (lo div 64) AND push_bit (lo mod 64) 1) n"
    unfolding words_hit_def using ctz_bit by blast
  then show "wbit w lo" using bit_push_one [of "lo mod 64" n] by (simp add: bit_and_iff wbit_def)
next
  assume "wbit w lo"
  then have "bit (w ! (lo div 64) AND push_bit (lo mod 64) 1) (lo mod 64)"
    using bit_push_one [of "lo mod 64" "lo mod 64"] by (simp add: bit_and_iff wbit_def)
  then show "words_hit lo w" unfolding words_hit_def by (rule bit_nonzero)
qed

lemma set_words_1024: "length w = 1024 \<Longrightarrow> set (words_list w) = {q. q < 65536 \<and> wbit w q}"
  by (simp add: set_words_list)

lemma fold_words_or:
  assumes "\<forall>x \<in> set a. x < 65536" "length w = 1024"
  shows "length (fold words_or a w) = 1024 \<and> (\<forall>q < 65536. wbit (fold words_or a w) q \<longleftrightarrow> wbit w q \<or> q \<in> set a)"
  using assms by (induction a arbitrary: w) (auto simp: wbit_words_upd)

lemma array_words_ok:
  assumes "\<forall>x \<in> set a. x < 65536"
  shows "length (array_words a) = 1024" "set (words_list (array_words a)) = set a"
    "sorted_wrt (<) a \<Longrightarrow> words_list (array_words a) = a"
proof -
  have z: "\<not> wbit (replicate kBitmapWords 0) q" if "q < 65536" for q
    using that div64_less [of q 1024] by (simp add: wbit_def bm_consts)
  note f = fold_words_or [OF assms, of "replicate kBitmapWords 0"]
  show l: "length (array_words a) = 1024" using f by (simp add: array_words_def bm_consts)
  show s: "set (words_list (array_words a)) = set a"
    using f z assms unfolding set_words_1024 [OF l] by (auto simp: array_words_def bm_consts)
  show "words_list (array_words a) = a" if "sorted_wrt (<) a"
    by (rule sorted_wrt_less_unique) (auto simp: that s sorted_words_list)
qed

lemma popcount_words_length: "popcount_words w = length (words_list w)"
  by (simp add: popcount_words_def length_words_list)

lemma to_bitmap_ok:
  assumes "chunk_ok e"
  shows "chunk_ok (to_bitmap e)" "chunk_list (to_bitmap e) = chunk_list e"
    "ck_hi (to_bitmap e) = ck_hi e" "ck_card (to_bitmap e) = ck_card e"
  using assms
  by (auto simp: to_bitmap_def chunk_ok_def chunk_list_def array_words_ok popcount_words_length bm_consts
      split: payload.splits)

lemma to_array_ok:
  assumes "chunk_ok e"
  shows "chunk_ok (to_array e)" "chunk_list (to_array e) = chunk_list e"
    "ck_hi (to_array e) = ck_hi e" "ck_card (to_array e) = ck_card e"
  using assms
  by (auto simp: to_array_def chunk_ok_def chunk_list_def popcount_words_length bm_consts sorted_words_list
      set_words_1024 split: payload.splits)

lemma chunk_to_words_ok:
  assumes "chunk_ok e"
  shows "length (chunk_to_words e) = 1024" "words_list (chunk_to_words e) = chunk_list e"
  using assms by (auto simp: chunk_to_words_def chunk_ok_def chunk_list_def array_words_ok bm_consts split: payload.splits)

lemma build_from_words_ok:
  assumes "length w = 1024" "ck_hi e < 65536" "c = popcount_words w"
  shows "chunk_ok (build_from_words w c e)" "chunk_list (build_from_words w c e) = words_list w"
    "ck_hi (build_from_words w c e) = ck_hi e" "ck_card (build_from_words w c e) = c"
  using assms
  by (auto simp: build_from_words_def chunk_ok_def chunk_list_def popcount_words_length bm_consts sorted_words_list set_words_1024)

lemma words_list_map2:
  assumes "length v = 1024" "length w = 1024" "\<And>x y n. n < 64 \<Longrightarrow> bit (f x y :: u64) n \<longleftrightarrow> F (bit x n) (bit y n)"
  shows "set (words_list (map2 f v w)) = {q. q < 65536 \<and> F (q \<in> set (words_list v)) (q \<in> set (words_list w))}"
proof -
  have l: "length (map2 f v w) = 1024" using assms(1,2) by simp
  have "wbit (map2 f v w) q \<longleftrightarrow> F (wbit v q) (wbit w q)" if "q < 65536" for q
    using that div64_less [of q 1024] assms by (simp add: wbit_def)
  then show ?thesis unfolding set_words_1024 [OF l] using assms(1,2) by (auto simp: set_words_1024)
qed

lemma words_list_ops:
  assumes "length v = 1024" "length w = 1024"
  shows "set (words_list (map2 (OR) v w)) = set (words_list v) \<union> set (words_list w)"
    "set (words_list (map2 (AND) v w)) = set (words_list v) \<inter> set (words_list w)"
    "set (words_list (map2 (XOR) v w)) = (set (words_list v) - set (words_list w)) \<union> (set (words_list w) - set (words_list v))"
    "set (words_list (map2 (\<lambda>x y. x AND NOT y) v w)) = set (words_list v) - set (words_list w)"
  using words_list_map2 [OF assms, of "(OR)" "(\<or>)"] words_list_map2 [OF assms, of "(AND)" "(\<and>)"]
    words_list_map2 [OF assms, of "(XOR)" "(\<noteq>)"] words_list_map2 [OF assms, of "\<lambda>x y. x AND NOT y" "\<lambda>x y. x \<and> \<not> y"]
    set_words_1024 [OF assms(1)] set_words_1024 [OF assms(2)]
  by (auto simp: bit_simps)

section \<open>Point operations\<close>

lemma skip_low:
  "(\<And>i. i \<le> m \<Longrightarrow> \<not> P i) \<Longrightarrow> l \<le> m \<Longrightarrow> (\<exists>i. m + 1 \<le> i \<and> i < r \<and> P i) \<longleftrightarrow> (\<exists>i. l \<le> i \<and> i < r \<and> P i)"
  for m :: nat by (metis Suc_eq_plus1 Suc_leD le_trans not_less_eq_eq)

lemma skip_high:
  "(\<And>i. m \<le> i \<Longrightarrow> i < r \<Longrightarrow> \<not> P i) \<Longrightarrow> m < r \<Longrightarrow> (\<exists>i. l \<le> i \<and> i < m \<and> P i) \<longleftrightarrow> (\<exists>i. l \<le> i \<and> i < r \<and> P i)"
  for m :: nat by (meson leI less_trans)

lemma array_search_spec:
  assumes "sorted_wrt (<) a" "l \<le> r" "r \<le> length a"
  shows "array_search a lo l r \<longleftrightarrow> (\<exists>i. l \<le> i \<and> i < r \<and> a ! i = lo)"
  using assms
proof (induction a lo l r rule: array_search.induct)
  case (1 a lo l r)
  show ?case
  proof (cases "l < r")
    case False
    then show ?thesis by (simp add: array_search.simps)
  next
    case True
    let ?mid = "(l + r) div 2"
    have mid: "l \<le> ?mid" "?mid < r" using True by auto
    have le: "a ! i \<le> a ! j" if "i \<le> j" "j < r" for i j
      using sorted_wrt_nth [OF "1.prems"(1), of i j] that "1.prems"(3) by (cases "i = j") auto
    consider "a ! ?mid = lo" | "a ! ?mid < lo" | "lo < a ! ?mid" by linarith
    then show ?thesis
    proof cases
      case 1
      then show ?thesis using True mid by (subst array_search.simps) (auto simp: Let_def)
    next
      case 2
      have eq: "array_search a lo l r = array_search a lo (?mid + 1) r"
        using True 2 by (subst array_search.simps) (simp add: Let_def)
      have "array_search a lo (?mid + 1) r \<longleftrightarrow> (\<exists>i. ?mid + 1 \<le> i \<and> i < r \<and> a ! i = lo)"
        by (rule "1.IH"(1) [OF True refl]) (use 2 mid "1.prems" in auto)
      moreover have "a ! i \<noteq> lo" if "i \<le> ?mid" for i using le [OF that mid(2)] 2 by simp
      ultimately show ?thesis unfolding eq using skip_low [of ?mid "\<lambda>i. a ! i = lo", OF _ mid(1)] by simp
    next
      case 3
      have eq: "array_search a lo l r = array_search a lo l ?mid"
        using True 3 by (subst array_search.simps) (simp add: Let_def)
      have "array_search a lo l ?mid \<longleftrightarrow> (\<exists>i. l \<le> i \<and> i < ?mid \<and> a ! i = lo)"
        by (rule "1.IH"(2) [OF True refl]) (use 3 mid "1.prems" in auto)
      moreover have "a ! i \<noteq> lo" if "?mid \<le> i" "i < r" for i using le [OF that] 3 by simp
      ultimately show ?thesis unfolding eq using skip_high [of ?mid r "\<lambda>i. a ! i = lo", OF _ mid(2)] by simp
    qed
  qed
qed

lemma mem_bm_set: "v \<in> bm_set b \<longleftrightarrow> v mod 65536 \<in> los (bm_chunks b) (v div 65536)"
  by (simp add: bm_set_def)

lemma Contains_set:
  assumes "bm_ok b"
  shows "Contains v b \<longleftrightarrow> v \<in> bm_set b"
proof (cases "find_chunk (v div 65536) b")
  case None
  then show ?thesis using find_chunk_los [of b "v div 65536"] assms
    by (simp add: Contains_def Let_def mem_bm_set bm_ok_def)
next
  case (Some e)
  have e: "chunk_ok e" using find_chunk_ok [OF assms Some] by simp
  have "v \<in> bm_set b \<longleftrightarrow> v mod 65536 \<in> set (chunk_list e)"
    using find_chunk_los [of b "v div 65536"] assms Some by (simp add: mem_bm_set bm_ok_def chunk_set_def)
  also have "\<dots> \<longleftrightarrow> Contains v b"
  proof (cases "ck_payload e")
    case (ArrayPayload a)
    then show ?thesis using e Some array_search_spec [of a 0 "length a" "v mod 65536"]
      by (auto simp: Contains_def Let_def chunk_list_def chunk_ok_def in_set_conv_nth)
  next
    case (BitmapPayload w)
    have "drop_bit (v mod 65536 mod 64) (w ! (v mod 65536 div 64)) AND 1 \<noteq> 0 \<longleftrightarrow> wbit w (v mod 65536)"
      by (simp add: wbit_def bit_iff_odd_drop_bit and_one_eq odd_iff_mod_2_eq_one)
    then show ?thesis using e Some BitmapPayload
      by (simp add: Contains_def Let_def chunk_list_def chunk_ok_def set_words_1024 bm_consts)
  qed
  finally show ?thesis by simp
qed

lemma lower_bound_simps [simp]:
  "lower_bound [] lo = 0" "lower_bound (x # xs) lo = (if x < lo then Suc (lower_bound xs lo) else 0)"
  by (simp_all add: lower_bound_def)

lemma lower_bound_hit:
  "sorted_wrt (<) a \<Longrightarrow> (lower_bound a lo < length a \<and> a ! lower_bound a lo = lo) \<longleftrightarrow> lo \<in> set a"
  by (induction a) auto

lemma insert_sorted:
  assumes "sorted_wrt (<) a" "lo \<notin> set a"
  shows "sorted_wrt (<) (take (lower_bound a lo) a @ lo # drop (lower_bound a lo) a) \<and>
    set (take (lower_bound a lo) a @ lo # drop (lower_bound a lo) a) = insert lo (set a) \<and>
    length (take (lower_bound a lo) a @ lo # drop (lower_bound a lo) a) = Suc (length a)"
  using assms by (induction a) (auto split: if_splits)

lemma remove_sorted:
  assumes "sorted_wrt (<) a" "lo \<in> set a"
  shows "sorted_wrt (<) (take (lower_bound a lo) a @ drop (Suc (lower_bound a lo)) a) \<and>
    set (take (lower_bound a lo) a @ drop (Suc (lower_bound a lo)) a) = set a - {lo} \<and>
    length (take (lower_bound a lo) a @ drop (Suc (lower_bound a lo)) a) = length a - 1"
  using assms
proof (induction a)
  case (Cons x xs)
  show ?case
  proof (cases "x < lo")
    case True
    then have "lo \<in> set xs" using Cons.prems by auto
    then show ?thesis using Cons True by (cases xs) auto
  next
    case False
    then have "x = lo" using Cons.prems by auto
    then show ?thesis using Cons.prems by auto
  qed
qed simp

lemma put_created:
  assumes "bm_ok b0" "hi < 65536" "get_or_create hi b0 = (pos, b)" "chunk_ok e" "ck_hi e = hi"
    and "c + ck_card (bm_chunks b ! pos) = bm_card b + ck_card e"
  defines "b' \<equiv> (put_chunk pos e b)\<lparr>bm_card := c\<rparr>"
  shows "bm_ok b'" "los (bm_chunks b') = (los (bm_chunks b0))(hi := chunk_set e)"
    "\<forall>x \<in> set (bm_chunks b0). ck_hi x \<noteq> hi \<longrightarrow> 0 < ck_card x \<Longrightarrow> 0 < ck_card e \<Longrightarrow> bm_inv b'"
proof -
  note g = get_or_create_ok [OF assms(1-3)]
  show ok: "bm_ok b'" unfolding b'_def
    by (rule put_chunk_ok(1) [OF g(1,2) assms(4)]) (simp_all add: assms g)
  show "los (bm_chunks b') = (los (bm_chunks b0))(hi := chunk_set e)"
    using put_chunk_ok(2) [OF g(1,2) assms(4) _ assms(6)] g(3,4) assms(5) by (simp add: b'_def)
  assume inv: "\<forall>x \<in> set (bm_chunks b0). ck_hi x \<noteq> hi \<longrightarrow> 0 < ck_card x" and pos: "0 < ck_card e"
  have "0 < ck_card x" if "x \<in> set (bm_chunks b')" for x
  proof -
    from that obtain i where i: "i < length (bm_chunks b)" "x = (bm_chunks b)[pos := e] ! i"
      by (auto simp: b'_def put_chunk_def in_set_conv_nth)
    show ?thesis
    proof (cases "i = pos")
      case False
      have "ck_hi (bm_chunks b ! i) \<noteq> hi" using his_inj [OF _ i(1) g(2)] g(1,3) False by (auto simp: bm_ok_def)
      then show ?thesis using i False g(7) [OF i(1) False] inv by simp
    qed (use i pos in simp)
  qed
  then show "bm_inv b'" using ok by (simp add: bm_inv_def)
qed

lemma created_inv:
  assumes "bm_inv b0" "hi < 65536" "get_or_create hi b0 = (pos, b)" "0 < ck_card (bm_chunks b ! pos)"
  shows "bm_inv b"
proof -
  have ok: "bm_ok b0" using assms(1) by (simp add: bm_inv_def)
  note g = get_or_create_ok [OF ok assms(2,3)]
  have "0 < ck_card (bm_chunks b ! i)" if "i < length (bm_chunks b)" for i
    using g(7) [OF that] assms(1,4) by (cases "i = pos") (auto simp: bm_inv_def)
  then show ?thesis using g(1) by (auto simp: bm_inv_def in_set_conv_nth)
qed

lemma created_set:
  assumes "bm_ok b0" "hi < 65536" "get_or_create hi b0 = (pos, b)"
  shows "los (bm_chunks b0) hi = chunk_set (bm_chunks b ! pos)"
  using get_or_create_ok [OF assms] los_at [of "bm_chunks b" pos] by (simp add: bm_ok_def)

lemma bm_set_upd:
  assumes "los (bm_chunks b') = (los (bm_chunks b))(hi := S)"
  shows "bm_set b' = {v. if v div 65536 = hi then v mod 65536 \<in> S else v \<in> bm_set b}"
  by (auto simp: bm_set_def assms)

lemma split_value: "(v::nat) div 65536 = w div 65536 \<Longrightarrow> v mod 65536 = w mod 65536 \<Longrightarrow> v = w"
  by (metis div_mult_mod_eq)

lemma bm_set_insert:
  assumes "los (bm_chunks b') = (los (bm_chunks b))(v div 65536 := insert (v mod 65536) (los (bm_chunks b) (v div 65536)))"
  shows "bm_set b' = insert v (bm_set b)"
  unfolding bm_set_upd [OF assms] by (auto simp: mem_bm_set dest: split_value)

lemma bm_set_remove:
  assumes "los (bm_chunks b') = (los (bm_chunks b))(v div 65536 := los (bm_chunks b) (v div 65536) - {v mod 65536})"
  shows "bm_set b' = bm_set b - {v}"
  unfolding bm_set_upd [OF assms] by (auto simp: mem_bm_set dest: split_value)

text \<open>The new content of the chunk \<^verbatim>\<open>Add\<close> changes.\<close>

lemma add_array_ok:
  assumes "chunk_ok e" "ck_payload e = ArrayPayload a" "lo < 65536" "lo \<notin> set a"
  defines "e1 \<equiv> if ck_len e div 2 \<le> ck_card e then grow_array (max (ck_len e div 2 * 2) kArrayInitCap) e else e"
  defines "e2 \<equiv> e1\<lparr>ck_payload := ArrayPayload (take (lower_bound a lo) a @ lo # drop (lower_bound a lo) a), ck_card := ck_card e + 1\<rparr>"
  shows "chunk_ok e2 \<and> chunk_set e2 = insert lo (chunk_set e) \<and> ck_hi e2 = ck_hi e \<and> ck_card e2 = ck_card e + 1"
proof -
  have a: "sorted_wrt (<) a" "\<forall>x \<in> set a. x < 65536" "ck_card e = length a" "2 * length a \<le> ck_len e" "ck_hi e < 65536"
    using assms(1,2) by (auto simp: chunk_ok_def)
  note i = insert_sorted [OF a(1) assms(4)]
  have f: "ck_hi e2 = ck_hi e" "ck_card e2 = ck_card e + 1"
    "ck_payload e2 = ArrayPayload (take (lower_bound a lo) a @ lo # drop (lower_bound a lo) a)"
    by (simp_all add: e2_def e1_def grow_array_def)
  have "2 * Suc (length a) \<le> ck_len e2"
    using a(3,4) by (auto simp: e2_def e1_def grow_array_def bm_consts)
  then show ?thesis using f i a assms(2,3) by (auto simp: chunk_ok_def chunk_set_def chunk_list_def)
qed

lemma popcount_words_or:
  assumes "length w = 1024" "lo < 65536" "\<not> wbit w lo"
  shows "popcount_words (words_or lo w) = popcount_words w + 1"
    "set (words_list (words_or lo w)) = insert lo (set (words_list w))"
proof -
  show s: "set (words_list (words_or lo w)) = insert lo (set (words_list w))"
    using assms(1,2) wbit_words_upd(1) [OF assms(1,2)] by (auto simp: set_words_1024)
  have n: "lo \<notin> set (words_list w)" using assms(1,3) by (simp add: set_words_1024)
  have "length (words_list (words_or lo w)) = card (insert lo (set (words_list w)))"
    using s distinct_card [OF distinct_sorted_wrt_less [OF sorted_words_list]] by metis
  also have "\<dots> = Suc (length (words_list w))"
    using n distinct_card [OF distinct_sorted_wrt_less [OF sorted_words_list]] by simp
  finally show "popcount_words (words_or lo w) = popcount_words w + 1" by (simp add: popcount_words_length)
qed

lemma add_words_ok:
  assumes "chunk_ok e" "ck_payload e = BitmapPayload w" "lo < 65536" "\<not> wbit w lo"
  defines "e2 \<equiv> e\<lparr>ck_payload := BitmapPayload (words_or lo w), ck_card := ck_card e + 1\<rparr>"
  shows "chunk_ok e2 \<and> chunk_set e2 = insert lo (chunk_set e) \<and> ck_hi e2 = ck_hi e \<and> ck_card e2 = ck_card e + 1"
proof -
  have w: "length w = 1024" "ck_card e = popcount_words w" using assms(1,2) by (auto simp: chunk_ok_def bm_consts)
  from popcount_words_or [OF w(1) assms(3,4)] show ?thesis
    using assms(1,2) w by (simp add: e2_def chunk_ok_def chunk_set_def chunk_list_def)
qed

lemma Add_los:
  assumes "bm_inv b" "v < 2 ^ 32"
  shows "bm_inv (Add v b) \<and> los (bm_chunks (Add v b)) =
    (los (bm_chunks b))(v div 65536 := insert (v mod 65536) (los (bm_chunks b) (v div 65536)))"
proof -
  let ?hi = "v div 65536" and ?lo = "v mod 65536"
  have hi: "?hi < 65536" and lo: "?lo < 65536" using assms(2) by auto
  have ok: "bm_ok b" using assms(1) by (simp add: bm_inv_def)
  obtain pos b1 where g: "get_or_create ?hi b = (pos, b1)" by fastforce
  let ?e = "bm_chunks b1 ! pos"
  note go = get_or_create_ok [OF ok hi g] and cs = created_set [OF ok hi g]
  have same: "bm_inv b1 \<and> los (bm_chunks b1) = (los (bm_chunks b))(?hi := insert ?lo (los (bm_chunks b) ?hi))"
    if "?lo \<in> chunk_set ?e"
  proof -
    have "0 < ck_card ?e" using that card_chunk_set [OF go(6)] by (metis card_gt_0_iff empty_iff finite_set chunk_set_def)
    then show ?thesis using created_inv [OF assms(1) hi g] go(4) cs that
      by (auto simp: insert_absorb fun_upd_idem)
  qed
  have new: "bm_inv b' \<and> los (bm_chunks b') = (los (bm_chunks b))(?hi := insert ?lo (los (bm_chunks b) ?hi))"
    if "b' = (put_chunk pos e2 b1)\<lparr>bm_card := bm_card b1 + 1\<rparr>"
      "chunk_ok e2 \<and> chunk_set e2 = insert ?lo (chunk_set ?e) \<and> ck_hi e2 = ck_hi ?e \<and> ck_card e2 = ck_card ?e + 1" for b' e2
    using put_created [OF ok hi g, of e2 "bm_card b1 + 1"] that assms(1) go(3) cs by (auto simp: bm_inv_def)
  show ?thesis
  proof (cases "ck_payload ?e")
    case (ArrayPayload a)
    have sa: "sorted_wrt (<) a" and n: "ck_card ?e = length a" using go(6) ArrayPayload by (auto simp: chunk_ok_def)
    have cse: "chunk_set ?e = set a" by (simp add: chunk_set_def chunk_list_def ArrayPayload)
    show ?thesis
    proof (cases "?lo \<in> set a")
      case True
      then have "Add v b = b1" using g lower_bound_hit [OF sa] ArrayPayload n by (simp add: Add_def Let_def)
      then show ?thesis using same True cse by simp
    next
      case False
      define e2 where "e2 = (if ck_len ?e div 2 \<le> ck_card ?e then grow_array (max (ck_len ?e div 2 * 2) kArrayInitCap) ?e else ?e)
        \<lparr>ck_payload := ArrayPayload (take (lower_bound a ?lo) a @ ?lo # drop (lower_bound a ?lo) a), ck_card := ck_card ?e + 1\<rparr>"
      have e2: "chunk_ok e2 \<and> chunk_set e2 = insert ?lo (chunk_set ?e) \<and> ck_hi e2 = ck_hi ?e \<and> ck_card e2 = ck_card ?e + 1"
        using add_array_ok [OF go(6) ArrayPayload lo False] by (simp only: e2_def)
      define e3 where "e3 = (if kArrayToBitmapThreshold \<le> ck_card e2 then to_bitmap e2 else e2)"
      have e3: "chunk_ok e3 \<and> chunk_set e3 = insert ?lo (chunk_set ?e) \<and> ck_hi e3 = ck_hi ?e \<and> ck_card e3 = ck_card ?e + 1"
        using e2 to_bitmap_ok [of e2] by (auto simp: e3_def chunk_set_def)
      have "Add v b = (put_chunk pos e3 b1)\<lparr>bm_card := bm_card b1 + 1\<rparr>"
        unfolding Add_def Let_def g prod.case ArrayPayload payload.case e3_def e2_def
        using lower_bound_hit [OF sa, of ?lo] False n by (simp only: if_False simp_thms)
      then show ?thesis using e3 by (rule new)
    qed
  next
    case (BitmapPayload w)
    have w: "length w = 1024" using go(6) BitmapPayload by (simp add: chunk_ok_def bm_consts)
    have cse: "?lo \<in> chunk_set ?e \<longleftrightarrow> wbit w ?lo"
      by (simp add: chunk_set_def chunk_list_def BitmapPayload set_words_1024 [OF w])
    show ?thesis
    proof (cases "wbit w ?lo")
      case True
      then have "Add v b = b1" using g BitmapPayload by (simp add: Add_def Let_def words_hit_wbit)
      then show ?thesis using same True cse by simp
    next
      case False
      then have "Add v b = (put_chunk pos (?e\<lparr>ck_payload := BitmapPayload (words_or ?lo w), ck_card := ck_card ?e + 1\<rparr>) b1)
        \<lparr>bm_card := bm_card b1 + 1\<rparr>" using g BitmapPayload by (simp add: Add_def Let_def words_hit_wbit)
      then show ?thesis using add_words_ok [OF go(6) BitmapPayload lo False] by (rule new)
    qed
  qed
qed

lemma set_erase_at: "his_sorted cs \<Longrightarrow> pos < length cs \<Longrightarrow> set (take pos cs @ drop (Suc pos) cs) = set cs - {cs ! pos}"
proof -
  assume s: "his_sorted cs" and p: "pos < length cs"
  have "distinct (map ck_hi cs)" using s by (rule distinct_sorted_wrt_less)
  then have d: "distinct cs" by (simp add: distinct_map)
  have eq: "cs = take pos cs @ cs ! pos # drop (Suc pos) cs" by (rule id_take_nth_drop [OF p])
  then have "distinct (take pos cs @ cs ! pos # drop (Suc pos) cs)" using d by simp
  moreover have "set cs = set (take pos cs) \<union> insert (cs ! pos) (set (drop (Suc pos) cs))"
    by (metis eq set_append list.simps(15))
  ultimately show ?thesis by auto
qed

lemma sum_erase_at: "pos < length cs \<Longrightarrow> sum_list (map f (take pos cs @ drop (Suc pos) cs)) + f (cs ! pos) = (sum_list (map f cs) :: nat)"
proof -
  assume p: "pos < length cs"
  have "sum_list (map f cs) = sum_list (map f (take pos cs @ cs ! pos # drop (Suc pos) cs))"
    using id_take_nth_drop [OF p] by simp
  then show ?thesis by simp
qed

lemma his_sorted_erase: "his_sorted cs \<Longrightarrow> his_sorted (take pos cs @ drop (Suc pos) cs)"
proof -
  assume s: "his_sorted cs"
  have "his_sorted (take pos cs @ drop pos cs)" using s by simp
  then show ?thesis
    by (auto simp: sorted_wrt_append sorted_wrt_map simp del: append_take_drop_id
        dest: set_drop_subset_set_drop [of pos "Suc pos" cs, simplified, THEN subsetD])
      (metis drop_Suc sorted_wrt_drop drop_drop plus_1_eq_Suc)
qed

text \<open>Erasing a chunk removes its part of the set and its share of the total.\<close>

lemma erase_chunk_ok:
  assumes "bm_ok b" "pos < length (bm_chunks b)" "c + ck_card (bm_chunks b ! pos) = bm_card b"
  shows "bm_ok ((erase_chunk pos b)\<lparr>bm_card := c\<rparr>)"
    "los (bm_chunks (erase_chunk pos b)) = (los (bm_chunks b))(ck_hi (bm_chunks b ! pos) := {})"
    "set (bm_chunks (erase_chunk pos b)) = set (bm_chunks b) - {bm_chunks b ! pos}"
proof -
  let ?cs = "bm_chunks b"
  have s: "his_sorted ?cs" using assms(1) by (simp add: bm_ok_def)
  have set: "set (take pos ?cs @ drop (Suc pos) ?cs) = set ?cs - {?cs ! pos}" by (rule set_erase_at [OF s assms(2)])
  then show st: "set (bm_chunks (erase_chunk pos b)) = set ?cs - {?cs ! pos}" by (simp add: erase_chunk_def)
  have "x = ?cs ! pos" if "x \<in> set ?cs" "ck_hi x = ck_hi (?cs ! pos)" for x
    using that his_inj [OF s _ assms(2)] by (auto simp: in_set_conv_nth)
  then show "los (bm_chunks (erase_chunk pos b)) = (los ?cs)(ck_hi (?cs ! pos) := {})"
    by (intro ext) (auto simp: los_set st)
  show "bm_ok ((erase_chunk pos b)\<lparr>bm_card := c\<rparr>)"
    using assms s set his_sorted_erase [OF s, of pos] sum_erase_at [OF assms(2), of ck_card]
    by (auto simp: bm_ok_def erase_chunk_def simp del: map_append)
qed

lemma remove_finish:
  assumes "bm_inv b" "pos < length (bm_chunks b)" "chunk_ok e'" "ck_hi e' = ck_hi (bm_chunks b ! pos)"
    and "ck_card e' = ck_card (bm_chunks b ! pos) - 1"
  defines "b' \<equiv> (put_chunk pos e' b)\<lparr>bm_card := bm_card b - 1\<rparr>"
  defines "b'' \<equiv> if ck_card e' = 0 then erase_chunk pos b' else b'"
  shows "bm_inv b'' \<and> los (bm_chunks b'') = (los (bm_chunks b))(ck_hi e' := chunk_set e')"
proof -
  have ok: "bm_ok b" and pos: "0 < ck_card (bm_chunks b ! pos)" using assms(1,2) by (auto simp: bm_inv_def)
  have "bm_chunks b ! pos \<in> set (bm_chunks b)" using assms(2) by simp
  then have "ck_card (bm_chunks b ! pos) \<le> bm_card b"
    using ok member_le_sum_list [of "ck_card (bm_chunks b ! pos)" "map ck_card (bm_chunks b)"] by (simp add: bm_ok_def)
  then have tot: "bm_card b - 1 + ck_card (bm_chunks b ! pos) = bm_card b + ck_card e'" using assms(5) pos by simp
  note p = put_chunk_ok [OF ok assms(2,3,4) tot]
  have len: "pos < length (bm_chunks b')" "bm_chunks b' ! pos = e'" "set (bm_chunks b') \<subseteq> insert e' (set (bm_chunks b))"
    using assms(2) by (auto simp: b'_def put_chunk_def dest: subsetD [OF set_update_subset_insert])
  have l: "los (bm_chunks b') = (los (bm_chunks b))(ck_hi e' := chunk_set e')" and ok': "bm_ok b'" using p by (auto simp: b'_def)
  show ?thesis
  proof (cases "ck_card e' = 0")
    case True
    have b'': "b'' = (erase_chunk pos b')\<lparr>bm_card := bm_card b'\<rparr>" using True by (simp add: b''_def erase_chunk_def)
    have "chunk_set e' = {}" using card_chunk_set [OF assms(3)] True by (simp add: chunk_set_def)
    moreover note er = erase_chunk_ok [OF ok' len(1), of "bm_card b'"]
    moreover have "0 < ck_card x" if "x \<in> set (bm_chunks b'')" for x
      using that er(3) len True assms(1) by (auto simp: b'' bm_inv_def)
    ultimately show ?thesis using len l True by (auto simp: b'' bm_inv_def)
  next
    case False
    then show ?thesis using l ok' len(3) assms(1) by (auto simp: b''_def bm_inv_def)
  qed
qed

lemma remove_words_ok:
  assumes "chunk_ok e" "ck_payload e = BitmapPayload w" "lo < 65536" "wbit w lo"
  defines "e2 \<equiv> e\<lparr>ck_payload := BitmapPayload (words_clear lo w), ck_card := ck_card e - 1\<rparr>"
  shows "chunk_ok e2 \<and> chunk_set e2 = chunk_set e - {lo} \<and> ck_hi e2 = ck_hi e \<and> ck_card e2 = ck_card e - 1"
proof -
  have w: "length w = 1024" "ck_card e = popcount_words w" using assms(1,2) by (auto simp: chunk_ok_def bm_consts)
  have s: "set (words_list (words_clear lo w)) = set (words_list w) - {lo}"
    using w(1) assms(3) wbit_words_upd(2) [OF w(1) assms(3)] by (auto simp: set_words_1024)
  have n: "lo \<in> set (words_list w)" using assms(3,4) w(1) by (simp add: set_words_1024)
  have "length (words_list (words_clear lo w)) = card (set (words_list w) - {lo})"
    using s distinct_card [OF distinct_sorted_wrt_less [OF sorted_words_list]] by metis
  also have "\<dots> = length (words_list w) - 1"
    using n distinct_card [OF distinct_sorted_wrt_less [OF sorted_words_list]] by simp
  finally have "popcount_words (words_clear lo w) = ck_card e - 1" using w(2) by (simp add: popcount_words_length)
  then show ?thesis using assms(1,2) w s by (simp add: e2_def chunk_ok_def chunk_set_def chunk_list_def)
qed

lemma remove_array_ok:
  assumes "chunk_ok e" "ck_payload e = ArrayPayload a" "lo \<in> set a"
  defines "e2 \<equiv> e\<lparr>ck_payload := ArrayPayload (take (lower_bound a lo) a @ drop (lower_bound a lo + 1) a), ck_card := ck_card e - 1\<rparr>"
  shows "chunk_ok e2 \<and> chunk_set e2 = chunk_set e - {lo} \<and> ck_hi e2 = ck_hi e \<and> ck_card e2 = ck_card e - 1"
proof -
  have a: "sorted_wrt (<) a" "\<forall>x \<in> set a. x < 65536" "ck_card e = length a" "2 * length a \<le> ck_len e" "ck_hi e < 65536"
    using assms(1,2) by (auto simp: chunk_ok_def)
  note i = remove_sorted [OF a(1) assms(3)]
  have "\<forall>x \<in> set (take (lower_bound a lo) a @ drop (Suc (lower_bound a lo)) a). x < 65536" using i a(2) by blast
  then show ?thesis using i a assms(2)
    by (simp add: e2_def chunk_ok_def chunk_set_def chunk_list_def del: set_append length_append)
qed

lemma Remove_los:
  assumes "bm_inv b"
  shows "bm_inv (Remove v b) \<and> los (bm_chunks (Remove v b)) =
    (los (bm_chunks b))(v div 65536 := los (bm_chunks b) (v div 65536) - {v mod 65536})"
proof -
  let ?hi = "v div 65536" and ?lo = "v mod 65536" and ?pos = "chunk_pos (v div 65536) b"
  let ?e = "bm_chunks b ! ?pos"
  have s: "his_sorted (bm_chunks b)" and ok: "bm_ok b" using assms by (auto simp: bm_inv_def bm_ok_def)
  have lo: "?lo < 65536" by simp
  show ?thesis
  proof (cases "?pos < length (bm_chunks b) \<and> ck_hi ?e = ?hi")
    case False
    then have "Remove v b = b" by (auto simp: Remove_def Let_def not_less)
    moreover have "los (bm_chunks b) ?hi = {}" using los_none chunk_pos_miss [OF s False] by blast
    ultimately show ?thesis using assms by (auto simp: fun_upd_idem)
  next
    case True
    then have at: "los (bm_chunks b) ?hi = chunk_set ?e" using los_at [OF s, of ?pos] by simp
    have e: "chunk_ok ?e" using ok True by (auto simp: bm_ok_def)
    have ne: "bm_chunks b \<noteq> []" and np: "\<not> length (bm_chunks b) \<le> ?pos" using True by auto
    have keep: ?thesis if "Remove v b = b" "?lo \<notin> chunk_set ?e" using that assms at by (auto simp: fun_upd_idem)
    have fin: ?thesis if "Remove v b = (let b' = (put_chunk ?pos e' b)\<lparr>bm_card := bm_card b - 1\<rparr>
        in if ck_card e' = 0 then erase_chunk ?pos b' else b')"
      and "chunk_ok e' \<and> chunk_set e' = chunk_set ?e - {?lo} \<and> ck_hi e' = ck_hi ?e \<and> ck_card e' = ck_card ?e - 1" for e'
    proof -
      have h: "?pos < length (bm_chunks b)" "chunk_ok e'" "ck_hi e' = ck_hi ?e" "ck_card e' = ck_card ?e - 1"
        "ck_hi e' = ?hi" "chunk_set e' = los (bm_chunks b) ?hi - {?lo}" using that(2) True at by simp_all
      show ?thesis unfolding that(1) Let_def using remove_finish [OF assms h(1-4)] by (simp only: h(5,6))
    qed
    show ?thesis
    proof (cases "ck_payload ?e")
      case (ArrayPayload a)
      have sa: "sorted_wrt (<) a" and n: "ck_card ?e = length a" using e ArrayPayload by (auto simp: chunk_ok_def)
      have cse: "chunk_set ?e = set a" by (simp add: chunk_set_def chunk_list_def ArrayPayload)
      show ?thesis
      proof (cases "?lo \<in> set a")
        case False
        then have "Remove v b = b"
          using lower_bound_hit [OF sa, of ?lo] ArrayPayload n True ne by (auto simp: Remove_def Let_def not_less)
        then show ?thesis using keep False cse by simp
      next
        case inn: True
        have "Remove v b = (let b' = (put_chunk ?pos (?e\<lparr>ck_payload := ArrayPayload (take (lower_bound a ?lo) a @ drop (lower_bound a ?lo + 1) a), ck_card := ck_card ?e - 1\<rparr>) b)\<lparr>bm_card := bm_card b - 1\<rparr>
          in if ck_card (?e\<lparr>ck_payload := ArrayPayload (take (lower_bound a ?lo) a @ drop (lower_bound a ?lo + 1) a), ck_card := ck_card ?e - 1\<rparr>) = 0 then erase_chunk ?pos b' else b')"
          unfolding Remove_def Let_def ArrayPayload payload.case
          using lower_bound_hit [OF sa, of ?lo] inn n True ne np by (simp only: not_le [symmetric] simp_thms if_False)
        then show ?thesis by (rule fin) (rule remove_array_ok [OF e ArrayPayload inn])
      qed
    next
      case (BitmapPayload w)
      have w: "length w = 1024" using e BitmapPayload by (simp add: chunk_ok_def bm_consts)
      have cse: "?lo \<in> chunk_set ?e \<longleftrightarrow> wbit w ?lo"
        by (simp add: chunk_set_def chunk_list_def BitmapPayload set_words_1024 [OF w])
      show ?thesis
      proof (cases "wbit w ?lo")
        case False
        then have "Remove v b = b" using BitmapPayload True ne by (auto simp: Remove_def Let_def words_hit_wbit)
        then show ?thesis using keep False cse by simp
      next
        case hit: True
        define e1 where "e1 = ?e\<lparr>ck_payload := BitmapPayload (words_clear ?lo w), ck_card := ck_card ?e - 1\<rparr>"
        have e1: "chunk_ok e1 \<and> chunk_set e1 = chunk_set ?e - {?lo} \<and> ck_hi e1 = ck_hi ?e \<and> ck_card e1 = ck_card ?e - 1"
          unfolding e1_def by (rule remove_words_ok [OF e BitmapPayload lo hit])
        define e2 where "e2 = (if ck_card e1 < kBitmapToArrayThreshold then to_array e1 else e1)"
        have e2: "chunk_ok e2 \<and> chunk_set e2 = chunk_set ?e - {?lo} \<and> ck_hi e2 = ck_hi ?e \<and> ck_card e2 = ck_card ?e - 1"
          using e1 to_array_ok [of e1] by (auto simp: e2_def chunk_set_def)
        have "Remove v b = (let b' = (put_chunk ?pos e2 b)\<lparr>bm_card := bm_card b - 1\<rparr>
          in if ck_card e2 = 0 then erase_chunk ?pos b' else b')"
          unfolding Remove_def Let_def BitmapPayload payload.case e2_def e1_def
          using hit True ne np by (simp only: simp_thms if_False words_hit_wbit)
        then show ?thesis using e2 by (rule fin)
      qed
    qed
  qed
qed

section \<open>Bulk insertion\<close>

lemma or_run_spec:
  assumes "or_run ls w k = (w', k')" "length w = 1024" "\<forall>x \<in> set ls. x < 65536"
  shows "length w' = 1024 \<and> popcount_words w' + k = popcount_words w + k' \<and>
    set (words_list w') = set (words_list w) \<union> set ls"
  using assms
proof (induction ls w k rule: or_run.induct)
  case (2 lo ls w k)
  show ?case
  proof (cases "wbit w lo")
    case True
    have "lo \<in> set (words_list w)" using True "2.prems" by (simp add: set_words_1024)
    then show ?thesis using "2.IH"(1) True "2.prems" by (auto simp: words_hit_wbit)
  next
    case False
    have lo: "lo < 65536" using "2.prems" by simp
    note p = popcount_words_or [OF "2.prems"(2) lo False]
    show ?thesis using "2.IH"(2) False "2.prems" p by (auto simp: words_hit_wbit)
  qed
qed simp

lemma fill_run_sorted: "sorted_wrt (<) ls \<Longrightarrow> (\<forall>p. prev = Some p \<longrightarrow> p \<notin> set ls) \<Longrightarrow> fill_run prev ls = ls"
  by (induction ls arbitrary: prev) auto

lemma push_rest_sorted: "sorted_wrt (<) (m @ s) \<Longrightarrow> push_rest m s = m @ s"
proof (induction s arbitrary: m)
  case (Cons x s)
  have "m = [] \<or> last m \<noteq> x" using Cons.prems by (cases m rule: rev_cases) (auto simp: sorted_wrt_append)
  then show ?case using Cons.IH [of "m @ [x]"] Cons.prems by auto
qed simp

lemma merge_run_spec:
  assumes "merge_run old new = (m, r, s)" "sorted_wrt (<) old" "sorted_wrt (<) new"
  shows "sorted_wrt (<) (m @ r @ s) \<and> set (m @ r @ s) = set old \<union> set new \<and>
    length (m @ r @ s) \<le> length old + length new"
  using assms
proof (induction old new arbitrary: m rule: merge_run.induct)
  case (1 av old nv new)
  consider "av < nv" | "nv < av" | "av = nv" by linarith
  then show ?case
  proof cases
    case 1
    obtain m' where m': "merge_run old (nv # new) = (m', r, s)" "m = av # m'"
      using "1.prems"(1) 1 by (auto split: prod.splits)
    show ?thesis using "1.IH"(1) [OF 1 m'(1)] "1.prems"(2,3) 1 m'(2) by auto
  next
    case 2
    then have n: "\<not> av < nv" by simp
    obtain m' where m': "merge_run (av # old) new = (m', r, s)" "m = nv # m'"
      using "1.prems"(1) 2 by (auto split: prod.splits)
    show ?thesis using "1.IH"(2) [OF n 2 m'(1)] "1.prems"(2,3) 2 m'(2) by auto
  next
    case 3
    then have n: "\<not> av < nv" "\<not> nv < av" by simp_all
    obtain m' where m': "merge_run old new = (m', r, s)" "m = av # m'"
      using "1.prems"(1) 3 by (auto split: prod.splits)
    show ?thesis using "1.IH"(3) [OF n m'(1)] "1.prems"(2,3) 3 m'(2) by auto
  qed
qed auto

lemma merge_arrays_spec:
  assumes "sorted_wrt (<) old" "sorted_wrt (<) new"
  shows "sorted_wrt (<) (merge_arrays old new) \<and> set (merge_arrays old new) = set old \<union> set new \<and>
    length (merge_arrays old new) \<le> length old + length new"
proof -
  obtain m r s where m: "merge_run old new = (m, r, s)" by (cases "merge_run old new") auto
  note spec = merge_run_spec [OF m assms]
  have "merge_arrays old new = m @ r @ s" using push_rest_sorted [of "m @ r" s] spec m by (simp add: merge_arrays_def)
  then show ?thesis using spec by metis
qed

lemma length_mono_set:
  assumes "sorted_wrt (<) xs" "sorted_wrt (<) ys" "set xs \<subseteq> set ys"
  shows "length xs \<le> length (ys :: nat list)"
  using card_mono [OF finite_set assms(3)] distinct_card [OF distinct_sorted_wrt_less [OF assms(1)]]
    distinct_card [OF distinct_sorted_wrt_less [OF assms(2)]] by simp

lemma array_chunk_ok:
  assumes "ck_hi e < 65536" "sorted_wrt (<) a" "\<forall>x \<in> set a. x < 65536" "2 * length a \<le> l"
  shows "chunk_ok (e\<lparr>ck_payload := ArrayPayload a, ck_len := l, ck_card := length a\<rparr>)"
    "chunk_set (e\<lparr>ck_payload := ArrayPayload a, ck_len := l, ck_card := length a\<rparr>) = set a"
  using assms by (auto simp: chunk_ok_def chunk_set_def chunk_list_def)

text \<open>The chunk after a run: its set is joined with the run.\<close>

lemma bulk_chunk_ok:
  assumes "chunk_ok e" "sorted_wrt (<) ls" "\<forall>x \<in> set ls. x < 65536"
    and "bulk_chunk ls e = (e1, added)"
  shows "chunk_ok e1 \<and> chunk_set e1 = chunk_set e \<union> set ls \<and> ck_hi e1 = ck_hi e \<and> ck_card e1 = ck_card e + added"
proof (cases "ck_payload e")
  case (BitmapPayload w)
  obtain w' where o: "or_run ls w 0 = (w', added)" "e1 = e\<lparr>ck_payload := BitmapPayload w', ck_card := ck_card e + added\<rparr>"
    using assms(4) BitmapPayload by (auto simp: bulk_chunk_def split: prod.splits)
  have w: "length w = 1024" using assms(1) BitmapPayload by (simp add: chunk_ok_def bm_consts)
  show ?thesis using or_run_spec [OF o(1) w assms(3)] assms(1) BitmapPayload o(2)
    by (simp add: chunk_ok_def chunk_set_def chunk_list_def bm_consts)
next
  case (ArrayPayload a)
  have a: "sorted_wrt (<) a" "\<forall>x \<in> set a. x < 65536" "ck_card e = length a" "2 * length a \<le> ck_len e" "ck_hi e < 65536"
    using assms(1) ArrayPayload by (auto simp: chunk_ok_def)
  have cs: "chunk_set e = set a" by (simp add: chunk_set_def chunk_list_def ArrayPayload)
  show ?thesis
  proof (cases "ck_card e = 0")
    case True
    have "fill_run None ls = ls" using assms(2) by (simp add: fill_run_sorted)
    then show ?thesis using assms(2-4) True ArrayPayload a cs
      by (auto simp: bulk_chunk_def Let_def grow_array_def chunk_ok_def chunk_set_def chunk_list_def)
  next
    case False
    note m = merge_arrays_spec [OF a(1) assms(2)]
    have e1: "e1 = e\<lparr>ck_payload := ArrayPayload (merge_arrays a ls), ck_len := (ck_card e + length ls) * 2, ck_card := length (merge_arrays a ls)\<rparr>"
      "added = length (merge_arrays a ls) - ck_card e"
      using assms(4) ArrayPayload False by (auto simp: bulk_chunk_def Let_def)
    have "length a \<le> length (merge_arrays a ls)" using length_mono_set [OF a(1)] m by auto
    then show ?thesis
      using array_chunk_ok [of e "merge_arrays a ls" "(ck_card e + length ls) * 2"] a m assms(3) cs e1 by auto
  qed
qed

lemma bulk_run_los:
  assumes "bm_inv b" "hi < 65536" "sorted_wrt (<) ls" "\<forall>x \<in> set ls. x < 65536" "ls \<noteq> []"
  shows "bm_inv (bulk_run hi ls b) \<and>
    los (bm_chunks (bulk_run hi ls b)) = (los (bm_chunks b))(hi := los (bm_chunks b) hi \<union> set ls)"
proof -
  have ok: "bm_ok b" using assms(1) by (simp add: bm_inv_def)
  obtain pos b1 where g: "get_or_create hi b = (pos, b1)" by fastforce
  let ?e = "bm_chunks b1 ! pos"
  note go = get_or_create_ok [OF ok assms(2) g] and cs = created_set [OF ok assms(2) g]
  obtain e1 added where e1: "bulk_chunk ls ?e = (e1, added)" by fastforce
  note c = bulk_chunk_ok [OF go(6) assms(3,4) e1]
  define e2 where "e2 = (if is_array e1 \<and> kArrayToBitmapThreshold \<le> ck_card e1 then to_bitmap e1 else e1)"
  have e2: "chunk_ok e2" "chunk_set e2 = chunk_set ?e \<union> set ls" "ck_hi e2 = hi" "ck_card e2 = ck_card ?e + added"
    using c to_bitmap_ok [of e1] go(3) by (auto simp: e2_def chunk_set_def)
  have eq: "bulk_run hi ls b = (put_chunk pos e2 b1)\<lparr>bm_card := bm_card b1 + added\<rparr>"
    unfolding bulk_run_def Let_def g prod.case e1 e2_def ..
  have "chunk_set e2 \<noteq> {}" using assms(5) e2(2) by simp
  then have pos: "0 < ck_card e2" using card_chunk_set [OF e2(1)] by (metis card_gt_0_iff finite_set chunk_set_def)
  have tot: "bm_card b1 + added + ck_card ?e = bm_card b1 + ck_card e2" using e2(4) by simp
  show ?thesis unfolding eq
    using put_created [OF ok assms(2) g e2(1,3) tot] pos assms(1) e2(2) cs by (simp add: bm_inv_def)
qed

lemma sorted_mod_run:
  assumes "sorted_wrt (<) (vs :: nat list)" "\<forall>x \<in> set vs. x div 65536 = h"
  shows "sorted_wrt (<) (map (\<lambda>x. x mod 65536) vs)"
proof -
  have "x mod 65536 < y mod 65536" if "x \<in> set vs" "y \<in> set vs" "x < y" for x y
  proof -
    have "x div 65536 = h" "y div 65536 = h" using that assms(2) by auto
    then show ?thesis using that(3) div_mult_mod_eq [of x 65536] div_mult_mod_eq [of y 65536] by linarith
  qed
  then show ?thesis unfolding sorted_wrt_map by (rule sorted_wrt_mono_rel [OF _ assms(1)])
qed

lemma bm_set_run:
  assumes "\<forall>x \<in> set run. x div 65536 = hi"
    and "los (bm_chunks b') = (los (bm_chunks b))(hi := los (bm_chunks b) hi \<union> (\<lambda>x. x mod 65536) ` set run)"
  shows "bm_set b' = bm_set b \<union> set run"
proof -
  have key: "v mod 65536 \<in> (\<lambda>x. x mod 65536) ` set run \<longleftrightarrow> v \<in> set run" if "v div 65536 = hi" for v
  proof
    assume "v mod 65536 \<in> (\<lambda>x. x mod 65536) ` set run"
    then obtain x where x: "x \<in> set run" "v mod 65536 = x mod 65536" by blast
    have "v div 65536 = x div 65536" using assms(1) that x(1) by metis
    then have "v = x" by (rule split_value [OF _ x(2)])
    then show "v \<in> set run" using x by simp
  qed blast
  show ?thesis unfolding bm_set_upd [OF assms(2)]
  proof (rule set_eqI)
    fix v
    show "v \<in> {v. if v div 65536 = hi then v mod 65536 \<in> los (bm_chunks b) hi \<union> (\<lambda>x. x mod 65536) ` set run else v \<in> bm_set b}
      \<longleftrightarrow> v \<in> bm_set b \<union> set run"
    proof (cases "v div 65536 = hi")
      case True
      then show ?thesis using key [OF True] by (simp only: mem_Collect_eq mem_bm_set Un_iff if_True simp_thms)
    next
      case False
      then have "v \<notin> set run" using assms(1) by blast
      then show ?thesis using False by simp
    qed
  qed
qed

lemma BulkAdd_set:
  "bm_inv b \<Longrightarrow> sorted_wrt (<) vs \<Longrightarrow> \<forall>x \<in> set vs. x < 2 ^ 32 \<Longrightarrow>
   bm_inv (BulkAdd vs b) \<and> bm_set (BulkAdd vs b) = bm_set b \<union> set vs"
proof (induction vs b rule: BulkAdd.induct)
  case (2 v vs b)
  define hi where "hi = v div 65536"
  define run where "run = takeWhile (\<lambda>x. x div 65536 = hi) (v # vs)"
  define rest where "rest = dropWhile (\<lambda>x. x div 65536 = hi) (v # vs)"
  define ls where "ls = map (\<lambda>x. x mod 65536) run"
  have split: "v # vs = run @ rest" by (simp add: run_def rest_def)
  have run: "\<forall>x \<in> set run. x div 65536 = hi" unfolding run_def using set_takeWhileD by fastforce
  have sr: "sorted_wrt (<) run" "sorted_wrt (<) rest" "set (v # vs) = set run \<union> set rest"
    using "2.prems"(2) unfolding split by (simp_all add: sorted_wrt_append)
  have hi: "hi < 65536" using "2.prems"(3) by (auto simp: hi_def)
  have ls: "sorted_wrt (<) ls" "\<forall>x \<in> set ls. x < 65536" "ls \<noteq> []"
    using sorted_mod_run [OF sr(1) run] by (auto simp: ls_def run_def hi_def)
  note br = bulk_run_los [OF "2.prems"(1) hi ls]
  have eq: "BulkAdd (v # vs) b = BulkAdd rest (bulk_run hi ls b)"
    by (simp only: BulkAdd.simps Let_def hi_def run_def rest_def ls_def)
  have "bm_set (bulk_run hi ls b) = bm_set b \<union> set run"
    by (rule bm_set_run [OF run]) (use br in \<open>simp add: ls_def\<close>)
  moreover have "bm_inv (BulkAdd rest (bulk_run hi ls b)) \<and>
    bm_set (BulkAdd rest (bulk_run hi ls b)) = bm_set (bulk_run hi ls b) \<union> set rest"
    unfolding ls_def rest_def run_def
    by (rule "2.IH" [OF hi_def refl refl]) (use br sr "2.prems"(3) in \<open>auto simp: ls_def rest_def run_def\<close>)
  ultimately show ?case unfolding eq sr(3) by blast
qed simp

section \<open>Set algebra\<close>

lemma or_arrays_spec:
  "sorted_wrt (<) xs \<Longrightarrow> sorted_wrt (<) ys \<Longrightarrow>
   sorted_wrt (<) (or_arrays xs ys) \<and> set (or_arrays xs ys) = set xs \<union> set ys \<and>
   length (or_arrays xs ys) \<le> length xs + length ys"
proof (induction xs ys rule: or_arrays.induct)
  case (1 x xs y ys)
  consider "x < y" | "y < x" | "x = y" by linarith
  then show ?case
  proof cases
    case 1
    then show ?thesis using "1.IH"(1) [OF 1] "1.prems" by auto
  next
    case 2
    then show ?thesis using "1.IH"(2) "1.prems" by auto
  next
    case 3
    then show ?thesis using "1.IH"(3) "1.prems" by auto
  qed
qed auto

lemma and_arrays_spec:
  "sorted_wrt (<) xs \<Longrightarrow> sorted_wrt (<) ys \<Longrightarrow>
   sorted_wrt (<) (and_arrays xs ys) \<and> set (and_arrays xs ys) = set xs \<inter> set ys"
proof (induction xs ys rule: and_arrays.induct)
  case (1 x xs y ys)
  consider "x < y" | "y < x" | "x = y" by linarith
  then show ?case
  proof cases
    case 1
    then show ?thesis using "1.IH"(2) "1.prems" by auto
  next
    case 2
    then show ?thesis using "1.IH"(3) "1.prems" by auto
  next
    case 3
    then show ?thesis using "1.IH"(1) [OF 3] "1.prems" by auto
  qed
qed auto

lemma andnot_arrays_spec:
  "sorted_wrt (<) xs \<Longrightarrow> sorted_wrt (<) ys \<Longrightarrow>
   sorted_wrt (<) (andnot_arrays xs ys) \<and> set (andnot_arrays xs ys) = set xs - set ys"
proof (induction xs ys rule: andnot_arrays.induct)
  case (1 x xs y ys)
  consider "x < y" | "y < x" | "x = y" by linarith
  then show ?case
  proof cases
    case 1
    then show ?thesis using "1.IH"(1) [OF 1] "1.prems" by auto
  next
    case 2
    then show ?thesis using "1.IH"(2) "1.prems" by auto
  next
    case 3
    then show ?thesis using "1.IH"(3) "1.prems" by auto
  qed
qed auto

lemma card_pos: "chunk_ok e \<Longrightarrow> 0 < ck_card e \<longleftrightarrow> chunk_set e \<noteq> {}"
  using card_chunk_set [of e] by (metis card_gt_0_iff finite_set chunk_set_def)

lemma card_le: "chunk_ok e \<Longrightarrow> chunk_ok e' \<Longrightarrow> chunk_set e \<subseteq> chunk_set e' \<Longrightarrow> ck_card e \<le> ck_card e'"
  using card_chunk_set [of e] card_chunk_set [of e'] card_mono [of "chunk_set e'" "chunk_set e"]
  by (simp add: chunk_set_def)

lemma copy_append_chunk_los:
  assumes "bm_ok b" "chunk_ok src" "los (bm_chunks b) (ck_hi src) = {}" "0 < ck_card src"
    and "\<forall>x \<in> set (bm_chunks b). ck_hi x \<noteq> ck_hi src \<longrightarrow> 0 < ck_card x"
  shows "bm_inv (copy_append_chunk (ck_hi src) src b) \<and>
    los (bm_chunks (copy_append_chunk (ck_hi src) src b)) = (los (bm_chunks b))(ck_hi src := chunk_set src)"
proof -
  have hi: "ck_hi src < 65536" using assms(2) by (simp add: chunk_ok_def)
  obtain pos b1 where g: "get_or_create (ck_hi src) b = (pos, b1)" by fastforce
  let ?te = "bm_chunks b1 ! pos"
  note go = get_or_create_ok [OF assms(1) hi g]
  have z: "ck_card ?te = 0" using created_set [OF assms(1) hi g] card_pos [OF go(6)] assms(3) by auto
  define e where "e = ?te\<lparr>ck_payload := ck_payload src,
    ck_len := (if is_array src then ck_card src * 2 else kBitmapWords * 8), ck_card := ck_card src\<rparr>"
  have e: "chunk_ok e" "ck_hi e = ck_hi src" "chunk_set e = chunk_set src" "0 < ck_card e"
    using assms(2,4) go(3)
    by (auto simp: e_def chunk_ok_def chunk_set_def chunk_list_def is_array_def split: payload.splits)
  have eq: "copy_append_chunk (ck_hi src) src b = (put_chunk pos e b1)\<lparr>bm_card := bm_card b1 + ck_card src\<rparr>"
    by (simp add: copy_append_chunk_def Let_def g e_def put_chunk_def)
  have tot: "bm_card b1 + ck_card src + ck_card ?te = bm_card b1 + ck_card e" using z by (simp add: e_def)
  show ?thesis unfolding eq using put_created [OF assms(1) hi g e(1,2) tot] assms(5) e(3,4) by simp
qed

lemma or_step_los:
  assumes "bm_inv b" "chunk_ok oe" "0 < ck_card oe"
  shows "bm_inv (or_step oe b) \<and>
    los (bm_chunks (or_step oe b)) = (los (bm_chunks b))(ck_hi oe := los (bm_chunks b) (ck_hi oe) \<union> chunk_set oe)"
proof -
  have hi: "ck_hi oe < 65536" using assms(2) by (simp add: chunk_ok_def)
  have ok: "bm_ok b" using assms(1) by (simp add: bm_inv_def)
  obtain pos b1 where g: "get_or_create (ck_hi oe) b = (pos, b1)" by fastforce
  let ?te = "bm_chunks b1 ! pos"
  note go = get_or_create_ok [OF ok hi g] and cs = created_set [OF ok hi g]
  have others: "\<forall>x \<in> set (bm_chunks b1). ck_hi x \<noteq> ck_hi oe \<longrightarrow> 0 < ck_card x"
    using go(3,7) assms(1) by (fastforce simp: in_set_conv_nth bm_inv_def)
  have new: "bm_inv b' \<and> los (bm_chunks b') = (los (bm_chunks b))(ck_hi oe := los (bm_chunks b) (ck_hi oe) \<union> chunk_set oe)"
    if "b' = (put_chunk pos e2 b1)\<lparr>bm_card := bm_card b1 + (ck_card e2 - ck_card ?te)\<rparr>"
      "chunk_ok e2" "chunk_set e2 = chunk_set ?te \<union> chunk_set oe" "ck_hi e2 = ck_hi oe" for b' e2
  proof -
    have le: "ck_card ?te \<le> ck_card e2" using card_le [OF go(6) that(2)] that(3) by auto
    then have tot: "bm_card b1 + (ck_card e2 - ck_card ?te) + ck_card ?te = bm_card b1 + ck_card e2" by simp
    have p: "0 < ck_card e2" using card_pos [OF that(2)] card_pos [OF assms(2)] that(3) assms(3) by auto
    show ?thesis unfolding that(1)
      using put_created [OF ok hi g that(2,4) tot] assms(1) p that(3) cs by (simp add: bm_inv_def)
  qed
  show ?thesis
  proof (cases "ck_card ?te = 0")
    case True
    then have "los (bm_chunks b) (ck_hi oe) = {}" using card_pos [OF go(6)] cs by auto
    then show ?thesis
      using copy_append_chunk_los [OF go(1) assms(2) _ assms(3) others] True go(4) by (simp add: or_step_def g)
  next
    case False
    show ?thesis
    proof (cases "\<exists>ta oa. ck_payload ?te = ArrayPayload ta \<and> ck_payload oe = ArrayPayload oa")
      case True
      then obtain ta oa where p: "ck_payload ?te = ArrayPayload ta" "ck_payload oe = ArrayPayload oa" by blast
      have a: "sorted_wrt (<) ta" "sorted_wrt (<) oa" "\<forall>x \<in> set ta. x < 65536" "\<forall>x \<in> set oa. x < 65536"
        "ck_card ?te = length ta" "ck_card oe = length oa" "ck_hi ?te < 65536"
        using go(6) assms(2) p by (auto simp: chunk_ok_def)
      note m = or_arrays_spec [OF a(1,2)]
      define te1 where "te1 = ?te\<lparr>ck_payload := ArrayPayload (or_arrays ta oa),
        ck_len := (ck_card ?te + ck_card oe) * 2, ck_card := length (or_arrays ta oa)\<rparr>"
      have te1: "chunk_ok te1" "chunk_set te1 = chunk_set ?te \<union> chunk_set oe" "ck_hi te1 = ck_hi oe"
        using array_chunk_ok [of ?te "or_arrays ta oa" "(ck_card ?te + ck_card oe) * 2"] m a go(3) p
        by (auto simp: te1_def chunk_set_def [of "_ ! _"] chunk_set_def [of oe] chunk_list_def)
      define te2 where "te2 = (if kArrayToBitmapThreshold \<le> ck_card te1 then to_bitmap te1 else te1)"
      have te2: "chunk_ok te2" "chunk_set te2 = chunk_set ?te \<union> chunk_set oe" "ck_hi te2 = ck_hi oe"
        "ck_card te2 = length (or_arrays ta oa)"
        using te1 to_bitmap_ok [OF te1(1)] by (auto simp: te2_def chunk_set_def te1_def)
      have "or_step oe b = (put_chunk pos te2 b1)\<lparr>bm_card := bm_card b1 + (length (or_arrays ta oa) - ck_card ?te)\<rparr>"
        unfolding or_step_def Let_def g prod.case p payload.case te2_def te1_def using False by simp
      then show ?thesis unfolding te2(4) [symmetric] using te2(1-3) by (rule new)
    next
      case mixed: False
      let ?tw = "map2 (OR) (chunk_to_words ?te) (chunk_to_words oe)"
      note tl = chunk_to_words_ok [OF go(6)] and ol = chunk_to_words_ok [OF assms(2)]
      have l: "length ?tw = 1024" using tl ol by simp
      have hi': "ck_hi ?te < 65536" using go(6) by (simp add: chunk_ok_def)
      note bf = build_from_words_ok [OF l hi' refl]
      have st: "chunk_set (build_from_words ?tw (popcount_words ?tw) ?te) = chunk_set ?te \<union> chunk_set oe"
        using words_list_ops(1) [OF tl(1) ol(1)] tl(2) ol(2) bf(2) by (simp add: chunk_set_def)
      have "or_step oe b = (put_chunk pos (build_from_words ?tw (popcount_words ?tw) ?te) b1)
        \<lparr>bm_card := bm_card b1 + (ck_card (build_from_words ?tw (popcount_words ?tw) ?te) - ck_card ?te)\<rparr>"
        unfolding or_step_def Let_def g prod.case bf(4) using False mixed by (auto split: payload.splits)
      then show ?thesis using bf(1) st by (rule new) (simp add: bf(3) go(3))
    qed
  qed
qed

lemma fold_or_step_los:
  assumes "bm_inv b" "\<forall>oe \<in> set cs. chunk_ok oe \<and> 0 < ck_card oe"
  shows "bm_inv (fold or_step cs b) \<and> los (bm_chunks (fold or_step cs b)) = (\<lambda>h. los (bm_chunks b) h \<union> los cs h)"
  using assms
proof (induction cs arbitrary: b)
  case (Cons oe cs)
  have oe: "chunk_ok oe" "0 < ck_card oe" using Cons.prems by auto
  note s = or_step_los [OF Cons.prems(1) oe]
  have "los (oe # cs) h = (if h = ck_hi oe then chunk_set oe else {}) \<union> los cs h" for h by (auto simp: los_set)
  then show ?case using Cons.IH [of "or_step oe b"] s Cons.prems(2) by (auto simp: fun_eq_iff)
qed simp

lemma OrWith_set:
  assumes "bm_inv b" "bm_inv o2" "same \<Longrightarrow> o2 = b"
  shows "bm_inv (OrWith same o2 b) \<and> bm_set (OrWith same o2 b) = bm_set b \<union> bm_set o2"
proof (cases same)
  case False
  then show ?thesis using fold_or_step_los [OF assms(1), of "bm_chunks o2"] assms(2)
    by (auto simp: OrWith_def bm_inv_def bm_ok_def bm_set_def)
qed (use assms in \<open>auto simp: OrWith_def\<close>)

lemma bm_new_ok: "bm_inv bm_new" "bm_set bm_new = {}"
  by (auto simp: bm_new_def bm_inv_def bm_ok_def bm_set_def los_def)

text \<open>What one iteration of an index walk must do for the walk to compute \<open>T\<close> chunk by chunk.\<close>

definition body_ok :: "(nat \<Rightarrow> nat \<Rightarrow> nat \<Rightarrow> nat) \<Rightarrow> (chunk \<Rightarrow> chunk option) \<Rightarrow> (nat \<Rightarrow> nat set) \<Rightarrow> chunk \<Rightarrow> bool" where
  "body_ok adj f T c \<longleftrightarrow>
     (case f c of
        None \<Rightarrow> T (ck_hi c) = {}
      | Some c' \<Rightarrow> chunk_ok c' \<and> ck_hi c' = ck_hi c \<and> 0 < ck_card c' \<and> chunk_set c' = T (ck_hi c)) \<and>
     (\<forall>t. ck_card c \<le> t \<longrightarrow>
        adj (ck_card c) (case f c of None \<Rightarrow> 0 | Some c' \<Rightarrow> ck_card c') t + ck_card c =
        t + (case f c of None \<Rightarrow> 0 | Some c' \<Rightarrow> ck_card c'))"

lemma card_le_total: "bm_ok b \<Longrightarrow> i < length (bm_chunks b) \<Longrightarrow> ck_card (bm_chunks b ! i) \<le> bm_card b"
  using member_le_sum_list [of "ck_card (bm_chunks b ! i)" "map ck_card (bm_chunks b)"] by (simp add: bm_ok_def)

lemma put_chunk_inv:
  assumes "bm_inv b" "i < length (bm_chunks b)" "chunk_ok e" "ck_hi e = ck_hi (bm_chunks b ! i)" "0 < ck_card e"
    and "c + ck_card (bm_chunks b ! i) = bm_card b + ck_card e"
  shows "bm_inv ((put_chunk i e b)\<lparr>bm_card := c\<rparr>)"
  using put_chunk_ok(1) [OF _ assms(2-4,6)] assms(1,5)
  by (auto simp: bm_inv_def put_chunk_def dest!: subsetD [OF set_update_subset_insert])

lemma his_drop:
  assumes "his_sorted cs" "ci < length cs"
  shows "ck_hi ` set (drop ci cs) = insert (ck_hi (cs ! ci)) (ck_hi ` set (drop (Suc ci) cs))"
    "ck_hi (cs ! ci) \<notin> ck_hi ` set (drop (Suc ci) cs)"
proof -
  have d: "drop ci cs = cs ! ci # drop (Suc ci) cs" using assms(2) by (simp add: Cons_nth_drop_Suc)
  then show "ck_hi ` set (drop ci cs) = insert (ck_hi (cs ! ci)) (ck_hi ` set (drop (Suc ci) cs))" by simp
  have "his_sorted (drop ci cs)" using assms(1) by (simp add: drop_map [symmetric] sorted_wrt_drop)
  then show "ck_hi (cs ! ci) \<notin> ck_hi ` set (drop (Suc ci) cs)" unfolding d by auto
qed

lemma chunk_loop_los:
  assumes "bm_inv b" "\<forall>c \<in> set (drop ci (bm_chunks b)). body_ok adj f T c"
  shows "bm_inv (chunk_loop adj f ci b) \<and> los (bm_chunks (chunk_loop adj f ci b)) =
    (\<lambda>h. if h \<in> ck_hi ` set (drop ci (bm_chunks b)) then T h else los (bm_chunks b) h)"
  using assms
proof (induction adj f ci b rule: chunk_loop.induct)
  case (1 adj f ci b)
  show ?case
  proof (cases "ci < length (bm_chunks b)")
    case False
    then show ?thesis using "1.prems" by (simp add: chunk_loop.simps)
  next
    case True
    let ?cs = "bm_chunks b" and ?te = "bm_chunks b ! ci"
    have ok: "bm_ok b" and s: "his_sorted ?cs" using "1.prems"(1) by (auto simp: bm_inv_def bm_ok_def)
    have d: "drop ci ?cs = ?te # drop (Suc ci) ?cs" using True by (simp add: Cons_nth_drop_Suc)
    have bd: "body_ok adj f T ?te" using "1.prems"(2) by (simp add: d)
    note le = card_le_total [OF ok True] and hd = his_drop [OF s True]
    show ?thesis
    proof (cases "f ?te")
      case None
      define b1 where "b1 = (erase_chunk ci b)\<lparr>bm_card := adj (ck_card ?te) 0 (bm_card b)\<rparr>"
      have tot: "adj (ck_card ?te) 0 (bm_card b) + ck_card ?te = bm_card b" and T: "T (ck_hi ?te) = {}"
        using bd None le by (simp_all add: body_ok_def)
      note e = erase_chunk_ok [OF ok True tot]
      have inv: "bm_inv b1" using e "1.prems"(1) by (auto simp: b1_def bm_inv_def)
      have dr: "drop ci (bm_chunks b1) = drop (Suc ci) ?cs"
        using True by (simp add: b1_def erase_chunk_def min_def)
      have eq: "chunk_loop adj f ci b = chunk_loop adj f ci b1"
        using True None by (subst chunk_loop.simps) (simp add: Let_def b1_def)
      have "bm_inv (chunk_loop adj f ci b1) \<and> los (bm_chunks (chunk_loop adj f ci b1)) =
        (\<lambda>h. if h \<in> ck_hi ` set (drop ci (bm_chunks b1)) then T h else los (bm_chunks b1) h)"
        unfolding b1_def by (rule "1.IH"(1) [OF True refl None])
          (use inv "1.prems"(2) dr d in \<open>auto simp: b1_def\<close>)
      then show ?thesis unfolding eq dr using e(2) T hd by (auto simp: b1_def fun_eq_iff)
    next
      case (Some c')
      define b1 where "b1 = (put_chunk ci c' b)\<lparr>bm_card := adj (ck_card ?te) (ck_card c') (bm_card b)\<rparr>"
      have tot: "adj (ck_card ?te) (ck_card c') (bm_card b) + ck_card ?te = bm_card b + ck_card c'"
        and c': "chunk_ok c'" "ck_hi c' = ck_hi ?te" "0 < ck_card c'" "chunk_set c' = T (ck_hi ?te)"
        using bd Some le by (simp_all add: body_ok_def)
      have inv: "bm_inv b1" unfolding b1_def by (rule put_chunk_inv [OF "1.prems"(1) True c'(1-3) tot])
      note p = put_chunk_ok(2) [OF ok True c'(1,2) tot]
      have dr: "drop (ci + 1) (bm_chunks b1) = drop (Suc ci) ?cs" by (simp add: b1_def put_chunk_def)
      have eq: "chunk_loop adj f ci b = chunk_loop adj f (ci + 1) b1"
        using True Some by (subst chunk_loop.simps) (simp add: Let_def b1_def)
      have "bm_inv (chunk_loop adj f (ci + 1) b1) \<and> los (bm_chunks (chunk_loop adj f (ci + 1) b1)) =
        (\<lambda>h. if h \<in> ck_hi ` set (drop (ci + 1) (bm_chunks b1)) then T h else los (bm_chunks b1) h)"
        unfolding b1_def by (rule "1.IH"(2) [OF True refl Some])
          (use inv "1.prems"(2) dr d in \<open>auto simp: b1_def\<close>)
      then show ?thesis unfolding eq dr using p c' hd by (auto simp: b1_def fun_eq_iff)
    qed
  qed
qed

lemma chunk_loop_all:
  assumes "bm_inv b" "\<forall>c \<in> set (bm_chunks b). body_ok adj f T c" "\<And>h. los (bm_chunks b) h = {} \<Longrightarrow> T h = {}"
  shows "bm_inv (chunk_loop adj f 0 b) \<and> los (bm_chunks (chunk_loop adj f 0 b)) = T"
proof -
  have "los (bm_chunks b) h = {}" if "h \<notin> ck_hi ` set (bm_chunks b)" for h using that by (auto simp: los_set)
  then show ?thesis using chunk_loop_los [OF assms(1), of 0 adj f T] assms(2,3) by (auto simp: fun_eq_iff)
qed

lemma sub_card_adj: "old \<le> t \<Longrightarrow> new \<le> old \<Longrightarrow> sub_card old new t + old = t + new"
  by (simp add: sub_card_def)

lemma words_chunk_ok:
  assumes "chunk_ok te" "chunk_ok oe" "length (map2 f (chunk_to_words te) (chunk_to_words oe)) = 1024"
    and "set (words_list (map2 f (chunk_to_words te) (chunk_to_words oe))) = S"
  shows "case words_chunk f te oe of
      None \<Rightarrow> S = {}
    | Some c' \<Rightarrow> chunk_ok c' \<and> ck_hi c' = ck_hi te \<and> 0 < ck_card c' \<and> chunk_set c' = S"
proof -
  let ?tw = "map2 f (chunk_to_words te) (chunk_to_words oe)"
  have hi: "ck_hi te < 65536" using assms(1) by (simp add: chunk_ok_def)
  note b = build_from_words_ok [OF assms(3) hi refl]
  show ?thesis using b assms(4) by (auto simp: words_chunk_def Let_def chunk_set_def popcount_words_length)
qed

lemma find_other:
  assumes "bm_inv o2" "find_chunk h o2 = Some oe"
  shows "chunk_ok oe" "los (bm_chunks o2) h = chunk_set oe"
  using find_chunk_ok [of o2 h oe] find_chunk_los [of o2 h] assms by (auto simp: bm_inv_def bm_ok_def)

lemma find_other_None: "bm_inv o2 \<Longrightarrow> find_chunk h o2 = None \<Longrightarrow> los (bm_chunks o2) h = {}"
  using find_chunk_los [of o2 h] by (auto simp: bm_inv_def bm_ok_def)

lemma own_los: "bm_inv b \<Longrightarrow> c \<in> set (bm_chunks b) \<Longrightarrow> los (bm_chunks b) (ck_hi c) = chunk_set c \<and> chunk_ok c \<and> 0 < ck_card c"
  using los_at [of "bm_chunks b"] by (auto simp: bm_inv_def bm_ok_def in_set_conv_nth)

lemma array_result_ok:
  assumes "chunk_ok te" "sorted_wrt (<) a" "set a = S" "S \<subseteq> chunk_set te" "2 * length a \<le> l"
  shows "case (if a = [] then None else Some (te\<lparr>ck_payload := ArrayPayload a, ck_len := l, ck_card := length a\<rparr>)) of
      None \<Rightarrow> S = {}
    | Some c' \<Rightarrow> chunk_ok c' \<and> ck_hi c' = ck_hi te \<and> 0 < ck_card c' \<and> chunk_set c' = S"
proof -
  have "\<forall>x \<in> set a. x < 65536" using assms(3,4) chunk_set_ok [OF assms(1)] by blast
  then show ?thesis using array_chunk_ok [of te a l] assms by (auto simp: chunk_ok_def [of te])
qed

text \<open>A body whose result is a subset of the chunk satisfies the contract with \<open>sub_card\<close>.\<close>

lemma body_ok_sub:
  assumes "chunk_ok c" "T (ck_hi c) \<subseteq> chunk_set c"
    and "case f c of None \<Rightarrow> T (ck_hi c) = {}
      | Some c' \<Rightarrow> chunk_ok c' \<and> ck_hi c' = ck_hi c \<and> 0 < ck_card c' \<and> chunk_set c' = T (ck_hi c)"
  shows "body_ok sub_card f T c"
proof (cases "f c")
  case None
  then show ?thesis using assms(3) by (auto simp: body_ok_def sub_card_def)
next
  case (Some c')
  then have "ck_card c' \<le> ck_card c" using assms card_le [of c' c] by auto
  then show ?thesis using assms(3) Some by (auto simp: body_ok_def intro: sub_card_adj)
qed

lemma and_chunk_ok:
  assumes "bm_inv b" "bm_inv o2" "c \<in> set (bm_chunks b)"
  shows "body_ok sub_card (and_chunk o2) (\<lambda>h. los (bm_chunks b) h \<inter> los (bm_chunks o2) h) c"
proof (rule body_ok_sub)
  have c: "chunk_ok c" "los (bm_chunks b) (ck_hi c) = chunk_set c" using own_los [OF assms(1,3)] by auto
  then show "chunk_ok c" "los (bm_chunks b) (ck_hi c) \<inter> los (bm_chunks o2) (ck_hi c) \<subseteq> chunk_set c" by auto
  show "case and_chunk o2 c of None \<Rightarrow> los (bm_chunks b) (ck_hi c) \<inter> los (bm_chunks o2) (ck_hi c) = {}
      | Some c' \<Rightarrow> chunk_ok c' \<and> ck_hi c' = ck_hi c \<and> 0 < ck_card c' \<and>
          chunk_set c' = los (bm_chunks b) (ck_hi c) \<inter> los (bm_chunks o2) (ck_hi c)"
  proof (cases "find_chunk (ck_hi c) o2")
    case None
    then show ?thesis using find_other_None [OF assms(2) None] by (simp add: and_chunk_def)
  next
    case (Some oe)
    note oe = find_other [OF assms(2) Some]
    show ?thesis
    proof (cases "\<exists>ta oa. ck_payload c = ArrayPayload ta \<and> ck_payload oe = ArrayPayload oa")
      case True
      then obtain ta oa where p: "ck_payload c = ArrayPayload ta" "ck_payload oe = ArrayPayload oa" by blast
      have a: "sorted_wrt (<) ta" "sorted_wrt (<) oa" "chunk_set c = set ta" "chunk_set oe = set oa"
        "ck_card c = length ta" "ck_card oe = length oa"
        using c(1) oe(1) p by (auto simp: chunk_ok_def chunk_set_def chunk_list_def)
      note m = and_arrays_spec [OF a(1,2)]
      have "length (and_arrays ta oa) \<le> min (length ta) (length oa)"
        using length_mono_set [OF conjunct1 [OF m] a(1)] length_mono_set [OF conjunct1 [OF m] a(2)] m by auto
      then show ?thesis
        using array_result_ok [OF c(1), of "and_arrays ta oa" "set ta \<inter> set oa" "min (ck_card c) (ck_card oe) * 2"]
          m Some c(2) oe(2) a(3-6) p by (auto simp: and_chunk_def Let_def)
    next
      case False
      note cw = chunk_to_words_ok [OF c(1)] and ow = chunk_to_words_ok [OF oe(1)]
      have st: "set (words_list (map2 (AND) (chunk_to_words c) (chunk_to_words oe))) =
        los (bm_chunks b) (ck_hi c) \<inter> los (bm_chunks o2) (ck_hi c)"
        using words_list_ops(2) [OF cw(1) ow(1)] cw(2) ow(2) c(2) oe(2) by (simp add: chunk_set_def)
      have "and_chunk o2 c = words_chunk (AND) c oe" using False Some by (auto simp: and_chunk_def split: payload.splits)
      then show ?thesis using words_chunk_ok [OF c(1) oe(1) _ st] cw(1) ow(1) by simp
    qed
  qed
qed

lemma and_not_chunk_ok:
  assumes "bm_inv b" "bm_inv o2" "c \<in> set (bm_chunks b)"
  shows "body_ok sub_card (and_not_chunk o2) (\<lambda>h. los (bm_chunks b) h - los (bm_chunks o2) h) c"
proof (rule body_ok_sub)
  have c: "chunk_ok c" "los (bm_chunks b) (ck_hi c) = chunk_set c" "0 < ck_card c" using own_los [OF assms(1,3)] by auto
  then show "chunk_ok c" "los (bm_chunks b) (ck_hi c) - los (bm_chunks o2) (ck_hi c) \<subseteq> chunk_set c" by auto
  show "case and_not_chunk o2 c of None \<Rightarrow> los (bm_chunks b) (ck_hi c) - los (bm_chunks o2) (ck_hi c) = {}
      | Some c' \<Rightarrow> chunk_ok c' \<and> ck_hi c' = ck_hi c \<and> 0 < ck_card c' \<and>
          chunk_set c' = los (bm_chunks b) (ck_hi c) - los (bm_chunks o2) (ck_hi c)"
  proof (cases "find_chunk (ck_hi c) o2")
    case None
    then show ?thesis using find_other_None [OF assms(2) None] c by (simp add: and_not_chunk_def)
  next
    case (Some oe)
    note oe = find_other [OF assms(2) Some]
    show ?thesis
    proof (cases "\<exists>ta oa. ck_payload c = ArrayPayload ta \<and> ck_payload oe = ArrayPayload oa")
      case True
      then obtain ta oa where p: "ck_payload c = ArrayPayload ta" "ck_payload oe = ArrayPayload oa" by blast
      have a: "sorted_wrt (<) ta" "sorted_wrt (<) oa" "chunk_set c = set ta" "chunk_set oe = set oa" "ck_card c = length ta"
        using c(1) oe(1) p by (auto simp: chunk_ok_def chunk_set_def chunk_list_def)
      note m = andnot_arrays_spec [OF a(1,2)]
      have "length (andnot_arrays ta oa) \<le> length ta" using length_mono_set [OF conjunct1 [OF m] a(1)] m by auto
      then show ?thesis
        using array_result_ok [OF c(1), of "andnot_arrays ta oa" "set ta - set oa" "ck_card c * 2"]
          m Some c(2) oe(2) a(3-5) p by (auto simp: and_not_chunk_def Let_def)
    next
      case False
      note cw = chunk_to_words_ok [OF c(1)] and ow = chunk_to_words_ok [OF oe(1)]
      have st: "set (words_list (map2 (\<lambda>x y. x AND NOT y) (chunk_to_words c) (chunk_to_words oe))) =
        los (bm_chunks b) (ck_hi c) - los (bm_chunks o2) (ck_hi c)"
        using words_list_ops(4) [OF cw(1) ow(1)] cw(2) ow(2) c(2) oe(2) by (simp add: chunk_set_def)
      have "and_not_chunk o2 c = words_chunk (\<lambda>x y. x AND NOT y) c oe"
        using False Some by (auto simp: and_not_chunk_def split: payload.splits)
      then show ?thesis using words_chunk_ok [OF c(1) oe(1) _ st] cw(1) ow(1) by simp
    qed
  qed
qed

lemma AndWith_set:
  assumes "bm_inv b" "bm_inv o2" "same \<Longrightarrow> o2 = b"
  shows "bm_inv (AndWith same o2 b) \<and> bm_set (AndWith same o2 b) = bm_set b \<inter> bm_set o2"
proof (cases same)
  case False
  then show ?thesis
    using chunk_loop_all [OF assms(1), of sub_card "and_chunk o2" "\<lambda>h. los (bm_chunks b) h \<inter> los (bm_chunks o2) h"]
      and_chunk_ok [OF assms(1,2)] by (auto simp: AndWith_def bm_set_def)
qed (use assms in \<open>auto simp: AndWith_def\<close>)

lemma and_not_with_set:
  assumes "bm_inv b" "bm_inv o2" "same \<Longrightarrow> o2 = b"
  shows "bm_inv (and_not_with same o2 b) \<and> bm_set (and_not_with same o2 b) = bm_set b - bm_set o2"
proof (cases same)
  case False
  then show ?thesis
    using chunk_loop_all [OF assms(1), of sub_card "and_not_chunk o2" "\<lambda>h. los (bm_chunks b) h - los (bm_chunks o2) h"]
      and_not_chunk_ok [OF assms(1,2)] by (auto simp: and_not_with_def bm_set_def)
qed (use assms bm_new_ok in \<open>auto simp: and_not_with_def\<close>)

lemma xor_chunk_ok:
  assumes "bm_inv b" "bm_inv o2" "c \<in> set (bm_chunks b)"
  shows "body_ok add_sub_card (xor_chunk o2)
    (\<lambda>h. if los (bm_chunks b) h = {} then {} else
       (los (bm_chunks b) h - los (bm_chunks o2) h) \<union> (los (bm_chunks o2) h - los (bm_chunks b) h)) c"
proof -
  have c: "chunk_ok c" "los (bm_chunks b) (ck_hi c) = chunk_set c" "0 < ck_card c" "chunk_set c \<noteq> {}"
    using own_los [OF assms(1,3)] card_pos [of c] by auto
  show ?thesis
  proof (cases "find_chunk (ck_hi c) o2")
    case None
    then show ?thesis using find_other_None [OF assms(2) None] c by (simp add: body_ok_def xor_chunk_def add_sub_card_def)
  next
    case (Some oe)
    note oe = find_other [OF assms(2) Some]
    note cw = chunk_to_words_ok [OF c(1)] and ow = chunk_to_words_ok [OF oe(1)]
    have st: "set (words_list (map2 (XOR) (chunk_to_words c) (chunk_to_words oe))) =
      (chunk_set c - chunk_set oe) \<union> (chunk_set oe - chunk_set c)"
      using words_list_ops(3) [OF cw(1) ow(1)] cw(2) ow(2) by (simp add: chunk_set_def)
    have "xor_chunk o2 c = words_chunk (XOR) c oe" using Some by (simp add: xor_chunk_def)
    then show ?thesis using words_chunk_ok [OF c(1) oe(1) _ st] cw(1) ow(1) c(2,4) oe(2)
      by (auto simp: body_ok_def add_sub_card_def split: option.splits)
  qed
qed

lemma copy_missing_los:
  assumes "bm_inv b" "his_sorted cs" "\<forall>e \<in> set cs. chunk_ok e \<and> 0 < ck_card e"
    and "\<forall>e \<in> set cs. ck_hi e \<notin> X \<longrightarrow> los (bm_chunks b) (ck_hi e) = {}"
  shows "bm_inv (fold (\<lambda>oe b. if ck_hi oe \<in> X then b else copy_append_chunk (ck_hi oe) oe b) cs b) \<and>
    los (bm_chunks (fold (\<lambda>oe b. if ck_hi oe \<in> X then b else copy_append_chunk (ck_hi oe) oe b) cs b)) =
      (\<lambda>h. if h \<notin> X \<and> los cs h \<noteq> {} then los cs h else los (bm_chunks b) h)"
  using assms
proof (induction cs arbitrary: b)
  case (Cons e cs)
  have e: "chunk_ok e" "0 < ck_card e" "chunk_set e \<noteq> {}" using Cons.prems(3) card_pos [of e] by auto
  have lo: "los (e # cs) h = (if h = ck_hi e then chunk_set e else {}) \<union> los cs h" for h by (auto simp: los_set)
  have ne: "los cs (ck_hi e) = {}" using Cons.prems(2) by (auto simp: los_set)
  have s: "his_sorted cs" using Cons.prems(2) by simp
  show ?case
  proof (cases "ck_hi e \<in> X")
    case True
    then show ?thesis using Cons.IH [OF Cons.prems(1) s] Cons.prems(3,4) ne lo by (auto simp: fun_eq_iff)
  next
    case False
    define b1 where "b1 = copy_append_chunk (ck_hi e) e b"
    have z: "los (bm_chunks b) (ck_hi e) = {}" using Cons.prems(4) False by simp
    have b1: "bm_inv b1" "los (bm_chunks b1) = (los (bm_chunks b))(ck_hi e := chunk_set e)"
      using copy_append_chunk_los [OF _ e(1) z e(2)] Cons.prems(1) by (auto simp: b1_def bm_inv_def)
    have "\<forall>x \<in> set cs. ck_hi x \<notin> X \<longrightarrow> los (bm_chunks b1) (ck_hi x) = {}"
      using Cons.prems(2,4) b1(2) by auto
    note ih = Cons.IH [OF b1(1) s _ this]
    have eq: "fold (\<lambda>oe b. if ck_hi oe \<in> X then b else copy_append_chunk (ck_hi oe) oe b) (e # cs) b =
      fold (\<lambda>oe b. if ck_hi oe \<in> X then b else copy_append_chunk (ck_hi oe) oe b) cs b1" using False by (simp add: b1_def)
    show ?thesis unfolding eq using ih Cons.prems(3) b1(2) ne lo e(3) False by (auto simp: fun_eq_iff)
  qed
qed simp

lemma xor_with_set:
  assumes "bm_inv b" "bm_inv o2" "same \<Longrightarrow> o2 = b"
  shows "bm_inv (xor_with same o2 b) \<and> bm_set (xor_with same o2 b) = (bm_set b - bm_set o2) \<union> (bm_set o2 - bm_set b)"
proof (cases same)
  case False
  let ?T = "\<lambda>h. if los (bm_chunks b) h = {} then {} else
       (los (bm_chunks b) h - los (bm_chunks o2) h) \<union> (los (bm_chunks o2) h - los (bm_chunks b) h)"
  let ?X = "set (map ck_hi (bm_chunks b))"
  define b1 where "b1 = chunk_loop add_sub_card (xor_chunk o2) 0 b"
  have b1: "bm_inv b1" "los (bm_chunks b1) = ?T"
    using chunk_loop_all [OF assms(1), of add_sub_card "xor_chunk o2" ?T] xor_chunk_ok [OF assms(1,2)] by (auto simp: b1_def)
  have X: "h \<in> ?X \<longleftrightarrow> los (bm_chunks b) h \<noteq> {}" for h
  proof
    assume "h \<in> ?X"
    then obtain c where c: "c \<in> set (bm_chunks b)" "h = ck_hi c" by auto
    then show "los (bm_chunks b) h \<noteq> {}" using own_los [OF assms(1) c(1)] card_pos [of c] by auto
  qed (auto simp: los_set)
  have "\<forall>e \<in> set (bm_chunks o2). ck_hi e \<notin> ?X \<longrightarrow> los (bm_chunks b1) (ck_hi e) = {}" using X b1(2) by simp
  moreover have "his_sorted (bm_chunks o2)" "\<forall>e \<in> set (bm_chunks o2). chunk_ok e \<and> 0 < ck_card e"
    using assms(2) by (auto simp: bm_inv_def bm_ok_def)
  ultimately have cm: "bm_inv (xor_with same o2 b) \<and> los (bm_chunks (xor_with same o2 b)) =
      (\<lambda>h. if h \<notin> ?X \<and> los (bm_chunks o2) h \<noteq> {} then los (bm_chunks o2) h else los (bm_chunks b1) h)"
    unfolding xor_with_def Let_def if_not_P [OF False] b1_def [symmetric] by (intro copy_missing_los [OF b1(1)])
  have "bm_inv (xor_with same o2 b) \<and> los (bm_chunks (xor_with same o2 b)) =
      (\<lambda>h. if h \<notin> ?X \<and> los (bm_chunks o2) h \<noteq> {} then los (bm_chunks o2) h else ?T h)"
    using cm unfolding b1(2) .
  then show ?thesis using X by (auto simp: bm_set_def split: if_splits)
qed (use assms bm_new_ok in \<open>auto simp: xor_with_def\<close>)

section \<open>Iteration and cardinality\<close>

lemma ForEach_spec:
  assumes "bm_ok b"
  shows "sorted_wrt (<) (ForEach b)" "set (ForEach b) = bm_set b" "length (ForEach b) = bm_card b"
proof -
  have gen: "sorted_wrt (<) (concat (map (\<lambda>e. map (\<lambda>lo. ck_hi e * 65536 + lo) (chunk_list e)) cs)) \<and>
    (\<forall>v \<in> set (concat (map (\<lambda>e. map (\<lambda>lo. ck_hi e * 65536 + lo) (chunk_list e)) cs)). \<exists>e \<in> set cs. v div 65536 = ck_hi e)"
    if "his_sorted cs" "\<forall>e \<in> set cs. chunk_ok e" for cs
    using that
  proof (induction cs)
    case (Cons e cs)
    have e: "sorted_wrt (<) (chunk_list e)" "\<forall>x \<in> set (chunk_list e). x < 65536" using chunk_list_ok [of e] Cons.prems by auto
    have "sorted_wrt (<) (map (\<lambda>lo. ck_hi e * 65536 + lo) (chunk_list e))" using e(1) by (simp add: sorted_wrt_map)
    moreover have "v < w" if "v \<in> set (map (\<lambda>lo. ck_hi e * 65536 + lo) (chunk_list e))"
        "w \<in> set (concat (map (\<lambda>e. map (\<lambda>lo. ck_hi e * 65536 + lo) (chunk_list e)) cs))" for v w
    proof -
      have "v div 65536 = ck_hi e" using that(1) e(2) by auto
      moreover have "ck_hi e < w div 65536" using that(2) Cons by auto
      ultimately show ?thesis by (metis div_le_mono leD leI)
    qed
    ultimately show ?case using Cons e(2) by (auto simp: sorted_wrt_append)
  qed simp
  show "sorted_wrt (<) (ForEach b)" using gen [of "bm_chunks b"] assms by (simp add: ForEach_def bm_ok_def)
  show "set (ForEach b) = bm_set b"
  proof (intro set_eqI iffI)
    fix v assume "v \<in> set (ForEach b)"
    then obtain e lo where "e \<in> set (bm_chunks b)" "lo \<in> set (chunk_list e)" "v = ck_hi e * 65536 + lo"
      by (auto simp: ForEach_def)
    moreover from this have "lo < 65536" using chunk_list_ok(3) [of e] assms by (auto simp: bm_ok_def)
    ultimately show "v \<in> bm_set b" by (auto simp: bm_set_def los_set chunk_set_def)
  next
    fix v assume "v \<in> bm_set b"
    then obtain e where "e \<in> set (bm_chunks b)" "ck_hi e = v div 65536" "v mod 65536 \<in> set (chunk_list e)"
      by (auto simp: bm_set_def los_set chunk_set_def)
    moreover have "v = v div 65536 * 65536 + v mod 65536" by (rule div_mult_mod_eq [symmetric])
    ultimately show "v \<in> set (ForEach b)" unfolding ForEach_def by force
  qed
  have "length (ForEach b) = sum_list (map (\<lambda>e. length (chunk_list e)) (bm_chunks b))"
    by (simp add: ForEach_def length_concat comp_def)
  also have "map (\<lambda>e. length (chunk_list e)) (bm_chunks b) = map ck_card (bm_chunks b)"
    using chunk_list_ok(2) assms by (auto simp: bm_ok_def)
  finally show "length (ForEach b) = bm_card b" using assms by (simp only: bm_ok_def)
qed

lemma bm_card_set: "bm_ok b \<Longrightarrow> bm_card b = card (bm_set b)"
  using ForEach_spec [of b] distinct_card [OF distinct_sorted_wrt_less] by metis

lemma bm_set_bound: "bm_ok b \<Longrightarrow> v \<in> bm_set b \<Longrightarrow> v < 2 ^ 32"
proof -
  assume "bm_ok b" "v \<in> bm_set b"
  then have "v div 65536 < 65536" by (auto simp: bm_set_def los_set bm_ok_def chunk_ok_def)
  then show "v < 2 ^ 32" by (simp add: div_less_iff_less_mult)
qed

end
