(* ===== verification/PostingSet.thy ===== *)
theory PostingSet
  imports RoaringCorrect
begin

text \<open>
  The interface the indexes use of the bitmap: a set of 32-bit identifiers with insertion, removal,
  membership and set algebra. The laws are the assumptions of the locales, the clients' lemmas are
  proved inside them, and the roaring bitmap is their interpretation. The properties of the bitmap
  itself follow.
\<close>

section \<open>Sets of identifiers\<close>

locale id_set =
  fixes empty :: 's
    and add :: "nat \<Rightarrow> 's \<Rightarrow> 's"
    and remove :: "nat \<Rightarrow> 's \<Rightarrow> 's"
    and member :: "nat \<Rightarrow> 's \<Rightarrow> bool"
    and count :: "'s \<Rightarrow> nat"
    and invar :: "'s \<Rightarrow> bool"
    and elems :: "'s \<Rightarrow> nat set"
  assumes invar_empty: "invar empty"
    and elems_empty: "elems empty = {}"
    and invar_add: "invar s \<Longrightarrow> v < 2 ^ 32 \<Longrightarrow> invar (add v s)"
    and elems_add: "invar s \<Longrightarrow> v < 2 ^ 32 \<Longrightarrow> elems (add v s) = insert v (elems s)"
    and invar_remove: "invar s \<Longrightarrow> invar (remove v s)"
    and elems_remove: "invar s \<Longrightarrow> elems (remove v s) = elems s - {v}"
    and member: "invar s \<Longrightarrow> member v s \<longleftrightarrow> v \<in> elems s"
    and count: "invar s \<Longrightarrow> count s = card (elems s)"
    and finite_elems: "invar s \<Longrightarrow> finite (elems s)"
    and elems_bound: "invar s \<Longrightarrow> v \<in> elems s \<Longrightarrow> v < 2 ^ 32"
begin

lemma fold_add:
  "invar s \<Longrightarrow> \<forall>v \<in> set vs. v < 2 ^ 32 \<Longrightarrow> invar (fold add vs s) \<and> elems (fold add vs s) = elems s \<union> set vs"
  by (induction vs arbitrary: s) (auto simp: invar_add elems_add)

lemma member_add: "invar s \<Longrightarrow> v < 2 ^ 32 \<Longrightarrow> member w (add v s) \<longleftrightarrow> w = v \<or> member w s"
  by (simp add: member invar_add elems_add)

lemma member_remove: "invar s \<Longrightarrow> member w (remove v s) \<longleftrightarrow> w \<noteq> v \<and> member w s"
  by (auto simp: member invar_remove elems_remove)

lemma count_add: "invar s \<Longrightarrow> v < 2 ^ 32 \<Longrightarrow> count (add v s) = count s + (if member v s then 0 else 1)"
  by (simp add: count invar_add elems_add member finite_elems card_insert_if)

lemma count_remove: "invar s \<Longrightarrow> count (remove v s) = count s - (if member v s then 1 else 0)"
  by (simp add: count invar_remove elems_remove member)

lemma remove_add: "invar s \<Longrightarrow> v < 2 ^ 32 \<Longrightarrow> \<not> member v s \<Longrightarrow> elems (remove v (add v s)) = elems s"
  by (simp add: member invar_add elems_add elems_remove)

lemma count_0: "invar s \<Longrightarrow> count s = 0 \<longleftrightarrow> elems s = {}"
  by (simp add: count finite_elems)

end

locale id_set_algebra = id_set empty add remove member count invar elems
  for empty :: 's and add remove member count invar elems +
  fixes union inter diff :: "'s \<Rightarrow> 's \<Rightarrow> 's"
  assumes invar_union: "invar s \<Longrightarrow> invar t \<Longrightarrow> invar (union s t)"
    and elems_union: "invar s \<Longrightarrow> invar t \<Longrightarrow> elems (union s t) = elems s \<union> elems t"
    and invar_inter: "invar s \<Longrightarrow> invar t \<Longrightarrow> invar (inter s t)"
    and elems_inter: "invar s \<Longrightarrow> invar t \<Longrightarrow> elems (inter s t) = elems s \<inter> elems t"
    and invar_diff: "invar s \<Longrightarrow> invar t \<Longrightarrow> invar (diff s t)"
    and elems_diff: "invar s \<Longrightarrow> invar t \<Longrightarrow> elems (diff s t) = elems s - elems t"
begin

text \<open>Folding a list of sets, as the multi-term queries do.\<close>

lemma fold_union:
  "invar s \<Longrightarrow> \<forall>t \<in> set ts. invar t \<Longrightarrow>
   invar (fold (\<lambda>t a. union a t) ts s) \<and> elems (fold (\<lambda>t a. union a t) ts s) = elems s \<union> (\<Union>t \<in> set ts. elems t)"
  by (induction ts arbitrary: s) (auto simp: invar_union elems_union)

lemma fold_inter:
  "invar s \<Longrightarrow> \<forall>t \<in> set ts. invar t \<Longrightarrow>
   invar (fold (\<lambda>t a. inter a t) ts s) \<and> elems (fold (\<lambda>t a. inter a t) ts s) = elems s \<inter> (\<Inter>t \<in> set ts. elems t)"
  by (induction ts arbitrary: s) (auto simp: invar_inter elems_inter)

lemma count_inclusion_exclusion:
  "invar s \<Longrightarrow> invar t \<Longrightarrow> count (union s t) + count (inter s t) = count s + count t"
  using card_Un_Int [of "elems s" "elems t"]
  by (simp add: count invar_union elems_union invar_inter elems_inter finite_elems)

end

section \<open>The roaring bitmap as a set of identifiers\<close>

lemma Or_set: "bm_inv b \<Longrightarrow> bm_inv c \<Longrightarrow> bm_inv (Or b c) \<and> bm_set (Or b c) = bm_set b \<union> bm_set c"
  using OrWith_set [OF bm_new_ok(1), of b False] OrWith_set [of "OrWith False b bm_new" c False] bm_new_ok(2)
  by (simp add: Or_def)

lemma And_set: "bm_inv b \<Longrightarrow> bm_inv c \<Longrightarrow> bm_inv (And b c) \<and> bm_set (And b c) = bm_set b \<inter> bm_set c"
  using OrWith_set [OF bm_new_ok(1), of b False] AndWith_set [of "OrWith False b bm_new" c False] bm_new_ok(2)
  by (simp add: And_def)

lemma AndNot_set: "bm_inv b \<Longrightarrow> bm_inv c \<Longrightarrow> bm_inv (AndNot b c) \<and> bm_set (AndNot b c) = bm_set b - bm_set c"
  using OrWith_set [OF bm_new_ok(1), of b False] and_not_with_set [of "OrWith False b bm_new" c False] bm_new_ok(2)
  by (simp add: AndNot_def)

lemma Xor_set: "bm_inv b \<Longrightarrow> bm_inv c \<Longrightarrow> bm_inv (Xor b c) \<and> bm_set (Xor b c) = (bm_set b - bm_set c) \<union> (bm_set c - bm_set b)"
  using OrWith_set [OF bm_new_ok(1), of b False] xor_with_set [of "OrWith False b bm_new" c False] bm_new_ok(2)
  by (simp add: Xor_def)

lemma Add_set: "bm_inv b \<Longrightarrow> v < 2 ^ 32 \<Longrightarrow> bm_inv (Add v b) \<and> bm_set (Add v b) = insert v (bm_set b)"
  using Add_los [of b v] bm_set_insert [of "Add v b" b v] by simp

lemma Remove_set: "bm_inv b \<Longrightarrow> bm_inv (Remove v b) \<and> bm_set (Remove v b) = bm_set b - {v}"
  using Remove_los [of b v] bm_set_remove [of "Remove v b" b v] by simp

lemma finite_bm_set: "bm_ok b \<Longrightarrow> finite (bm_set b)"
  using ForEach_spec(2) [of b] by (metis finite_set)

interpretation roaring: id_set_algebra bm_new Add Remove Contains Cardinality bm_inv bm_set Or And AndNot
proof unfold_locales
  show "finite (bm_set s)" "Cardinality s = card (bm_set s)" "v \<in> bm_set s \<Longrightarrow> v < 2 ^ 32"
    "Contains v s \<longleftrightarrow> v \<in> bm_set s" if "bm_inv s" for s v
    using that finite_bm_set bm_card_set bm_set_bound Contains_set by (auto simp: bm_inv_def Cardinality_def)
qed (simp_all add: bm_new_ok Add_set Remove_set Or_set And_set AndNot_set)

section \<open>Properties of the bitmap\<close>

text \<open>(C7) Point operations refine insertion into and removal from a set: they keep the representation
  invariant (sorted chunks, no empty chunk, array and bit vector payloads inside their blocks, exact
  cardinalities), membership afterwards is that of the changed set, and the stored cardinality moves by
  one exactly when membership of the value changes.\<close>

theorem bitmap_point_operations:
  assumes "bm_inv b" "v < 2 ^ 32"
  shows "bm_inv (Add v b) \<and> bm_inv (Remove v b) \<and>
    (Contains w (Add v b) \<longleftrightarrow> w = v \<or> Contains w b) \<and> (Contains w (Remove v b) \<longleftrightarrow> w \<noteq> v \<and> Contains w b) \<and>
    Cardinality (Add v b) = Cardinality b + (if Contains v b then 0 else 1) \<and>
    Cardinality (Remove v b) = Cardinality b - (if Contains v b then 1 else 0)"
  using assms Add_set Remove_set roaring.member_add roaring.member_remove roaring.count_add roaring.count_remove by simp

lemma small_bitmap: "bm_inv (Add 65541 (Add 7 bm_new))"
  using Add_set [OF bm_new_ok(1), of 7] Add_set [of "Add 7 bm_new" 65541] by simp

theorem bitmap_point_operations_witness:
  "Contains 9 (Add 9 (Add 65541 (Add 7 bm_new))) \<and> \<not> Contains 9 (Remove 9 (Add 65541 (Add 7 bm_new))) \<and>
   Cardinality (Add 9 (Add 65541 (Add 7 bm_new))) = Cardinality (Add 65541 (Add 7 bm_new)) + 1"
proof -
  have "\<not> Contains 9 (Add 65541 (Add 7 bm_new))" by code_simp
  then show ?thesis using bitmap_point_operations [OF small_bitmap, of 9 9] by simp
qed

text \<open>(C8) The set algebra is exact for every mix of array and bit vector chunks: union, intersection,
  difference and symmetric difference keep the invariant, denote the corresponding set, and the stored
  cardinalities obey inclusion and exclusion. The in-place forms agree with the set operations also
  when a bitmap is combined with itself.\<close>

theorem bitmap_set_algebra:
  assumes "bm_inv b" "bm_inv c"
  shows "bm_inv (Or b c) \<and> bm_set (Or b c) = bm_set b \<union> bm_set c \<and>
    bm_inv (And b c) \<and> bm_set (And b c) = bm_set b \<inter> bm_set c \<and>
    bm_inv (AndNot b c) \<and> bm_set (AndNot b c) = bm_set b - bm_set c \<and>
    bm_inv (Xor b c) \<and> bm_set (Xor b c) = (bm_set b - bm_set c) \<union> (bm_set c - bm_set b) \<and>
    Cardinality (Or b c) + Cardinality (And b c) = Cardinality b + Cardinality c \<and>
    bm_set (OrWith True b b) = bm_set b \<and> bm_set (AndWith True b b) = bm_set b \<and>
    bm_set (xor_with True b b) = {} \<and> bm_set (and_not_with True b b) = {}"
  using assms Or_set And_set AndNot_set Xor_set roaring.count_inclusion_exclusion
    OrWith_set [of b b True] AndWith_set [of b b True] xor_with_set [of b b True] and_not_with_set [of b b True] by simp

theorem bitmap_set_algebra_witness:
  "bm_inv (Add 65541 (Add 7 bm_new)) \<and> Cardinality (Or (Add 65541 (Add 7 bm_new)) (Add 65541 (Add 7 bm_new))) +
   Cardinality (And (Add 65541 (Add 7 bm_new)) (Add 65541 (Add 7 bm_new))) = 4"
proof -
  have "Cardinality (Add 65541 (Add 7 bm_new)) = 2" by code_simp
  then show ?thesis using bitmap_set_algebra [OF small_bitmap small_bitmap] small_bitmap by simp
qed

text \<open>Iteration visits every element exactly once, in ascending order, and the stored cardinality is
  the number of elements.\<close>

theorem bitmap_iteration:
  assumes "bm_inv b"
  shows "ForEach b = sorted_list_of_set (bm_set b) \<and> Cardinality b = card (bm_set b) \<and> (IsEmpty b \<longleftrightarrow> bm_set b = {})"
proof -
  have ok: "bm_ok b" using assms by (simp add: bm_inv_def)
  note f = ForEach_spec [OF ok]
  have "ForEach b = sorted_list_of_set (bm_set b)"
    by (rule sorted_wrt_less_unique) (use f finite_bm_set [OF ok] in \<open>simp_all add: strict_sorted_list_of_set\<close>)
  then show ?thesis using roaring.count [OF assms] roaring.count_0 [OF assms] by (auto simp: IsEmpty_def Cardinality_def)
qed

theorem bitmap_iteration_witness: "ForEach (Add 65541 (Add 7 bm_new)) = sorted_list_of_set (bm_set (Add 65541 (Add 7 bm_new)))"
  using bitmap_iteration [OF small_bitmap] by simp

text \<open>(C9) Bulk insertion of a strictly ascending sequence adds exactly its values, whichever of the three
  strategies (bit vector, fill, merge) each chunk takes.\<close>

theorem BulkAdd_adds:
  assumes "bm_inv b" "sorted_wrt (<) vs" "\<forall>x \<in> set vs. x < 2 ^ 32"
  shows "bm_inv (BulkAdd vs b) \<and> bm_set (BulkAdd vs b) = bm_set b \<union> set vs \<and> bm_set (BulkAdd vs b) = bm_set (fold Add vs b)"
  using BulkAdd_set [OF assms] roaring.fold_add [OF assms(1,3)] by simp

theorem BulkAdd_adds_witness: "bm_set (BulkAdd [3, 8, 70000] (Add 65541 (Add 7 bm_new))) = bm_set (Add 65541 (Add 7 bm_new)) \<union> {3, 8, 70000}"
  using BulkAdd_adds [OF small_bitmap, of "[3, 8, 70000]"] by simp

text \<open>A defect of bulk insertion: the header promises that duplicates in the input are ignored, but
  the merge with an existing array keeps them, so the chunk holds a value twice, the invariant is broken
  and the cardinality counts it twice.\<close>

theorem BulkAdd_duplicates:
  "ForEach (BulkAdd [3, 3] (BulkAdd [5] bm_new)) = [3, 3, 5] \<and> Cardinality (BulkAdd [3, 3] (BulkAdd [5] bm_new)) = 3 \<and>
   \<not> bm_inv (BulkAdd [3, 3] (BulkAdd [5] bm_new))"
proof -
  have f: "ForEach (BulkAdd [3, 3] (BulkAdd [5] bm_new)) = [3, 3, 5]" by code_simp
  moreover have "Cardinality (BulkAdd [3, 3] (BulkAdd [5] bm_new)) = 3" by code_simp
  moreover have "\<not> sorted_wrt (<) [3, 3, 5::nat]" by simp
  ultimately show ?thesis using ForEach_spec(1) by (metis bm_inv_def)
qed

end
