(* ===== verification/Index.thy ===== *)
theory Index
  imports Doc SchemaJson ConcMap PostingSet
begin

text \<open>
  The key-value index and the inverted index (\<^verbatim>\<open>src/libs/yikv/index/index.cc\<close>, \<^verbatim>\<open>kv_index.cc\<close>,
  \<^verbatim>\<open>inverted_index.cc\<close>) on top of documents, the concurrent map and the roaring bitmap.

  An index is a record: the heap its documents live in, the compiled schema, the block that holds
  the next document identifier, the map from primary keys to documents, and for the inverted
  index the map from posting keys to bitmaps with the bitmaps by their root block.  The
  allocator, the schema and the hash function of the maps are arguments, as they are pointers or
  template parameters in the code.  The roots of bitmaps are blocks of the same heap as the
  documents; the inner storage of maps and bitmaps is kept as values.  A call that locks is the
  whole critical section.
\<close>

section \<open>Calls that can fail\<close>

datatype index_error = DocError doc_error | MapError map_error | BitmapError string | DanglingField

type_synonym ('s, 'a) step = "'s \<Rightarrow> (index_error + 'a) \<times> 's"

definition iret :: "'a \<Rightarrow> ('s, 'a) step" where
  "iret x s = (Inr x, s)"

definition ithen :: "('s, 'a) step \<Rightarrow> ('a \<Rightarrow> ('s, 'b) step) \<Rightarrow> ('s, 'b) step" where
  "ithen m k s = (case m s of (Inl e, s') \<Rightarrow> (Inl e, s') | (Inr x, s') \<Rightarrow> k x s')"

record 'st kv_index =
  ix_heap :: "'st heap"
  ix_compiled :: CompiledSchema
  ix_hdr :: nat
  ix_docs :: "(string, nat) cm_thread"

record 'st inverted_index = "'st kv_index" +
  iv_postings :: "(string, nat) cm_thread"
  iv_bitmaps :: "nat \<Rightarrow> bitmap option"

definition on_heap :: "('st, 'a) act \<Rightarrow> (('st, 'x) kv_index_scheme, 'a) step" where
  "on_heap m s = (case m (ix_heap s) of
       (Inl e, h) \<Rightarrow> (Inl (DocError e), s\<lparr>ix_heap := h\<rparr>)
     | (Inr x, h) \<Rightarrow> (Inr x, s\<lparr>ix_heap := h\<rparr>))"

definition docs_get :: "(string \<Rightarrow> u64) \<Rightarrow> string \<Rightarrow> (('st, 'x) kv_index_scheme, nat option) step" where
  "docs_get hash k s = (Inr (cm_get hash k (snd (ix_docs s))), s)"

definition docs_put :: "(string \<Rightarrow> u64) \<Rightarrow> string \<Rightarrow> nat \<Rightarrow> (('st, 'x) kv_index_scheme, unit) step" where
  "docs_put hash k v s = (case cm_put hash k v (ix_docs s) of
       Inl e \<Rightarrow> (Inl (MapError e), s) | Inr m \<Rightarrow> (Inr (), s\<lparr>ix_docs := m\<rparr>))"

definition docs_erase :: "(string \<Rightarrow> u64) \<Rightarrow> string \<Rightarrow> (('st, 'x) kv_index_scheme, bool) step" where
  "docs_erase hash k s = (case thread_erase hash k (ix_docs s) of
       Inl e \<Rightarrow> (Inl (MapError e), s) | Inr (r, m) \<Rightarrow> (Inr r, s\<lparr>ix_docs := m\<rparr>))"

section \<open>The key-value index\<close>

text \<open>The two upkeep calls of the allocator interface that an index makes.\<close>

record 'st upkeep =
  up_flush :: "'st \<Rightarrow> 'st"
  up_reclaim :: "'st \<Rightarrow> (alloc_error + nat) \<times> 'st"

definition FlushTlc_call :: "'st upkeep \<Rightarrow> ('st, unit) act" where
  "FlushTlc_call U h = (Inr (), h\<lparr>hp_st := up_flush U (hp_st h)\<rparr>)"

definition ReclaimExpired_call :: "'st upkeep \<Rightarrow> ('st, unit) act" where
  "ReclaimExpired_call U h = (case up_reclaim U (hp_st h) of
       (Inl e, st) \<Rightarrow> (Inl (Thrown e), h\<lparr>hp_st := st\<rparr>) | (Inr _, st) \<Rightarrow> (Inr (), h\<lparr>hp_st := st\<rparr>))"

text \<open>The base class: the layout is compiled and the outcome of \<^verbatim>\<open>Compile\<close> is not looked at.\<close>

definition Index_compiled :: "Schema \<Rightarrow> CompiledSchema" where
  "Index_compiled sch = fst (Compile sch default_CompiledSchema)"

text \<open>
  The constructor.  \<open>docs\<close> is what the constructor of the map gives, a fresh table or the one
  recovered from \<^verbatim>\<open>docs_hdr_off\<close>.
\<close>

definition KVIndex :: "'st Allocator \<Rightarrow> Schema \<Rightarrow> nat \<Rightarrow> map_error + (string, nat) cm_thread \<Rightarrow> 'st heap
    \<Rightarrow> (index_error + 'st kv_index) \<times> 'st heap" where
  "KVIndex A sch index_hdr_off docs h =
     (let compiled = Index_compiled sch in
      case docs of
        Inl e \<Rightarrow> (Inl (MapError e), h)
      | Inr m \<Rightarrow>
          if index_hdr_off \<noteq> 0
          then (Inr \<lparr>ix_heap = h, ix_compiled = compiled, ix_hdr = index_hdr_off, ix_docs = m\<rparr>, h)
          else case hthen (hmalloc A 8) (\<lambda>hdr.
                    hthen (store_nat 4 hdr 0 1) (\<lambda>_.
                    hthen (store_nat 4 hdr 4 0) (\<lambda>_. hret hdr))) h of
                 (Inl e, h') \<Rightarrow> (Inl (DocError e), h')
               | (Inr hdr, h') \<Rightarrow>
                   (Inr \<lparr>ix_heap = h', ix_compiled = compiled, ix_hdr = hdr, ix_docs = m\<rparr>, h'))"

definition NextDocId :: "(('st, 'x) kv_index_scheme, nat) step" where
  "NextDocId s = on_heap (hthen (load_nat 4 (ix_hdr s) 0) (\<lambda>i.
     hthen (store_nat 4 (ix_hdr s) 0 ((i + 1) mod 2 ^ 32)) (\<lambda>_. hret i))) s"

definition NewDoc :: "'st Allocator \<Rightarrow> Schema \<Rightarrow> (('st, 'x) kv_index_scheme, nat) step" where
  "NewDoc A sch = ithen NextDocId (\<lambda>i. on_heap (Doc_new A (unat (sc_max_field_id sch) + 1) i))"

definition as_string :: "bytes \<Rightarrow> string" where
  "as_string bs = map (\<lambda>b. char_of (unat b)) bs"

definition to_string32 :: "u32 \<Rightarrow> string" where
  "to_string32 w = print_int (sint w)"

definition to_string64 :: "u64 \<Rightarrow> string" where
  "to_string64 w = print_int (sint w)"

definition ExtractPk :: "Schema \<Rightarrow> nat \<Rightarrow> (('st, 'x) kv_index_scheme, string) step" where
  "ExtractPk sch d =
     (case FindField sch (sc_pk sch) of None \<Rightarrow> iret [] | Some ptr \<Rightarrow>
      case deref sch ptr of None \<Rightarrow> (\<lambda>s. (Inl DanglingField, s)) | Some pk \<Rightarrow>
        let fid = unat (fd_field_id pk) in
        case fd_type pk of
          DInt32 \<Rightarrow> on_heap (hthen (get_int32 d fid) (\<lambda>v. hret (to_string32 v)))
        | DInt64 \<Rightarrow> on_heap (hthen (get_int64 d fid) (\<lambda>v. hret (to_string64 v)))
        | DString \<Rightarrow> on_heap (hthen (get_string d fid) (\<lambda>v. hret (as_string v)))
        | _ \<Rightarrow> iret [])"

definition Put :: "(string \<Rightarrow> u64) \<Rightarrow> Schema \<Rightarrow> nat \<Rightarrow> (('st, 'x) kv_index_scheme, unit) step" where
  "Put hash sch d = ithen (ExtractPk sch d) (\<lambda>pk. docs_put hash pk d)"

definition Publish :: "'st upkeep \<Rightarrow> (('st, 'x) kv_index_scheme, unit) step" where
  "Publish U = ithen (on_heap (FlushTlc_call U)) (\<lambda>_. on_heap (ReclaimExpired_call U))"

definition kFlushEvery :: nat where "kFlushEvery = 50000"

fun batch_put_loop :: "(string \<Rightarrow> u64) \<Rightarrow> 'st upkeep \<Rightarrow> Schema \<Rightarrow> nat \<Rightarrow> nat list
    \<Rightarrow> (('st, 'x) kv_index_scheme, unit) step" where
  "batch_put_loop hash U sch i [] = iret ()"
| "batch_put_loop hash U sch i (d # ds) =
     ithen (Put hash sch d) (\<lambda>_.
     ithen (if (i + 1) mod kFlushEvery = 0 then Publish U else iret ()) (\<lambda>_.
     batch_put_loop hash U sch (Suc i) ds))"

definition BatchPut :: "(string \<Rightarrow> u64) \<Rightarrow> 'st upkeep \<Rightarrow> Schema \<Rightarrow> nat list
    \<Rightarrow> (('st, 'x) kv_index_scheme, unit) step" where
  "BatchPut hash U sch ds = ithen (batch_put_loop hash U sch 0 ds) (\<lambda>_. Publish U)"

text \<open>The critical section of \<^verbatim>\<open>Upsert\<close>, which is also the loop body of \<^verbatim>\<open>BatchUpsert\<close>.\<close>

definition Upsert :: "(string \<Rightarrow> u64) \<Rightarrow> 'st Allocator \<Rightarrow> Schema \<Rightarrow> nat
    \<Rightarrow> (('st, 'x) kv_index_scheme, unit) step" where
  "Upsert hash A sch d =
     ithen (ExtractPk sch d) (\<lambda>pk.
     ithen (docs_get hash pk) (\<lambda>old.
     ithen (case old of Some old_off \<Rightarrow> on_heap (Retire A old_off) | None \<Rightarrow> iret ()) (\<lambda>_.
     docs_put hash pk d)))"

fun BatchUpsert :: "(string \<Rightarrow> u64) \<Rightarrow> 'st Allocator \<Rightarrow> Schema \<Rightarrow> nat list
    \<Rightarrow> (('st, 'x) kv_index_scheme, unit) step" where
  "BatchUpsert hash A sch [] = iret ()"
| "BatchUpsert hash A sch (d # ds) = ithen (Upsert hash A sch d) (\<lambda>_. BatchUpsert hash A sch ds)"

text \<open>\<^verbatim>\<open>Get\<close> with an output document; the result is the attached offset.\<close>

definition Get :: "(string \<Rightarrow> u64) \<Rightarrow> string \<Rightarrow> ('st, 'x) kv_index_scheme \<Rightarrow> nat option" where
  "Get hash pk s = cm_get hash pk (snd (ix_docs s))"

fun BatchGet :: "(string \<Rightarrow> u64) \<Rightarrow> string list \<Rightarrow> ('st, 'x) kv_index_scheme \<Rightarrow> nat list" where
  "BatchGet hash [] s = []"
| "BatchGet hash (pk # pks) s =
     (case Get hash pk s of Some off \<Rightarrow> off # BatchGet hash pks s | None \<Rightarrow> BatchGet hash pks s)"

definition Delete :: "(string \<Rightarrow> u64) \<Rightarrow> 'st Allocator \<Rightarrow> string
    \<Rightarrow> (('st, 'x) kv_index_scheme, bool) step" where
  "Delete hash A pk =
     ithen (docs_get hash pk) (\<lambda>old.
     ithen (case old of Some old_off \<Rightarrow> on_heap (Retire A old_off) | None \<Rightarrow> iret ()) (\<lambda>_.
     docs_erase hash pk))"

definition Size :: "('st, 'x) kv_index_scheme \<Rightarrow> nat" where
  "Size s = cm_size (snd (ix_docs s))"

section \<open>Terms\<close>

text \<open>\<^verbatim>\<open>std::tolower\<close> and \<^verbatim>\<open>std::isalnum\<close> of the C locale.\<close>

definition tolower :: "char \<Rightarrow> char" where
  "tolower c = (let n = (of_char c :: nat) in if 65 \<le> n \<and> n \<le> 90 then char_of (n + 32) else c)"

definition isalnum :: "char \<Rightarrow> bool" where
  "isalnum c \<longleftrightarrow> (let n = (of_char c :: nat) in
     (48 \<le> n \<and> n \<le> 57) \<or> (65 \<le> n \<and> n \<le> 90) \<or> (97 \<le> n \<and> n \<le> 122))"

definition Normalize :: "string \<Rightarrow> string" where
  "Normalize s = map tolower s"

function Tokenize :: "string \<Rightarrow> string list" where
  "Tokenize text =
     (let rest = dropWhile (\<lambda>c. \<not> isalnum c) text in
      if rest = [] then []
      else Normalize (takeWhile isalnum rest) # Tokenize (dropWhile isalnum rest))"
  by pat_completeness auto

lemma dropWhile_shorter:
  assumes "dropWhile (\<lambda>c. \<not> P c) xs \<noteq> []"
  shows "length (dropWhile P (dropWhile (\<lambda>c. \<not> P c) xs)) < length xs"
proof -
  let ?r = "dropWhile (\<lambda>c. \<not> P c) xs"
  obtain c cs where r: "?r = c # cs" using assms by (cases ?r) auto
  then have "P c" using hd_dropWhile [OF assms] by simp
  then have "length (dropWhile P ?r) \<le> length cs" using length_dropWhile_le [of P cs] r by simp
  also have "\<dots> < length ?r" using r by simp
  also have "\<dots> \<le> length xs" by (rule length_dropWhile_le)
  finally show ?thesis .
qed

termination Tokenize
  by (relation "measure length") (auto simp: dropWhile_shorter)

declare Tokenize.simps [simp del]

definition PostingKey :: "u16 \<Rightarrow> string \<Rightarrow> string" where
  "PostingKey field_id term = print_nat (unat field_id) @ ''#'' @ Normalize term"

section \<open>The inverted index\<close>

text \<open>\<^verbatim>\<open>sizeof(BmRoot)\<close>.\<close>

definition bm_root_size :: nat where "bm_root_size = 32"

definition postings_get :: "(string \<Rightarrow> u64) \<Rightarrow> string \<Rightarrow> 'st inverted_index \<Rightarrow> nat option" where
  "postings_get hash k s = cm_get hash k (snd (iv_postings s))"

definition postings_put :: "(string \<Rightarrow> u64) \<Rightarrow> string \<Rightarrow> nat \<Rightarrow> ('st inverted_index, unit) step" where
  "postings_put hash k v s = (case cm_put hash k v (iv_postings s) of
       Inl e \<Rightarrow> (Inl (MapError e), s) | Inr m \<Rightarrow> (Inr (), s\<lparr>iv_postings := m\<rparr>))"

definition postings_erase :: "(string \<Rightarrow> u64) \<Rightarrow> string \<Rightarrow> ('st inverted_index, bool) step" where
  "postings_erase hash k s = (case thread_erase hash k (iv_postings s) of
       Inl e \<Rightarrow> (Inl (MapError e), s) | Inr (r, m) \<Rightarrow> (Inr r, s\<lparr>iv_postings := m\<rparr>))"

text \<open>The constructors of a bitmap object: a new root block, or one that is attached to.\<close>

definition new_bitmap :: "'st Allocator \<Rightarrow> ('st inverted_index, nat) step" where
  "new_bitmap A = ithen (on_heap (hmalloc A bm_root_size)) (\<lambda>off s.
     (Inr off, s\<lparr>iv_bitmaps := (iv_bitmaps s)(off := Some bm_new)\<rparr>))"

definition attach_bitmap :: "nat \<Rightarrow> ('st inverted_index, bitmap) step" where
  "attach_bitmap off s = (case iv_bitmaps s off of
       None \<Rightarrow> (Inl (BitmapError ''Bitmap: bad magic on recovery''), s) | Some b \<Rightarrow> (Inr b, s))"

definition set_bitmap :: "nat \<Rightarrow> bitmap \<Rightarrow> ('st inverted_index, unit) step" where
  "set_bitmap off b s = (Inr (), s\<lparr>iv_bitmaps := (iv_bitmaps s)(off := Some b)\<rparr>)"

definition InvertedIndex :: "'st Allocator \<Rightarrow> Schema \<Rightarrow> nat \<Rightarrow> map_error + (string, nat) cm_thread
    \<Rightarrow> map_error + (string, nat) cm_thread \<Rightarrow> (nat \<Rightarrow> bitmap option) \<Rightarrow> 'st heap
    \<Rightarrow> (index_error + 'st inverted_index) \<times> 'st heap" where
  "InvertedIndex A sch index_hdr_off docs postings bitmaps h =
     (case KVIndex A sch index_hdr_off docs h of
        (Inl e, h') \<Rightarrow> (Inl e, h')
      | (Inr bs, h') \<Rightarrow> (case postings of
            Inl e \<Rightarrow> (Inl (MapError e), h')
          | Inr m \<Rightarrow> (Inr \<lparr>ix_heap = ix_heap bs, ix_compiled = ix_compiled bs, ix_hdr = ix_hdr bs,
                            ix_docs = ix_docs bs, iv_postings = m, iv_bitmaps = bitmaps\<rparr>, h')))"

definition AddToPosting :: "(string \<Rightarrow> u64) \<Rightarrow> 'st Allocator \<Rightarrow> u16 \<Rightarrow> string \<Rightarrow> nat
    \<Rightarrow> ('st inverted_index, unit) step" where
  "AddToPosting hash A field_id term doc_id s =
     (let pkey = PostingKey field_id term in
      case postings_get hash pkey s of
        Some off \<Rightarrow> ithen (attach_bitmap off) (\<lambda>bm. set_bitmap off (Add doc_id bm)) s
      | None \<Rightarrow>
          ithen (new_bitmap A) (\<lambda>off.
          ithen (set_bitmap off (Add doc_id bm_new)) (\<lambda>_.
          postings_put hash pkey off)) s)"

definition RemoveFromPosting :: "(string \<Rightarrow> u64) \<Rightarrow> u16 \<Rightarrow> string \<Rightarrow> nat
    \<Rightarrow> ('st inverted_index, unit) step" where
  "RemoveFromPosting hash field_id term doc_id s =
     (let pkey = PostingKey field_id term in
      case postings_get hash pkey s of
        None \<Rightarrow> (Inr (), s)
      | Some off \<Rightarrow>
          ithen (attach_bitmap off) (\<lambda>bm.
          ithen (set_bitmap off (Remove doc_id bm)) (\<lambda>_.
          if IsEmpty (Remove doc_id bm) then ithen (postings_erase hash pkey) (\<lambda>_. iret ()) else iret ())) s)"

text \<open>
  The loops of \<^verbatim>\<open>IndexDoc\<close> and \<^verbatim>\<open>DeindexDoc\<close> differ only in what they do with a term; \<open>post\<close> is
  that call.
\<close>

fun post_tokens :: "(string \<Rightarrow> ('st inverted_index, unit) step) \<Rightarrow> string list \<Rightarrow> ('st inverted_index, unit) step" where
  "post_tokens post [] = iret ()"
| "post_tokens post (tok # toks) = ithen (post tok) (\<lambda>_. post_tokens post toks)"

fun post_fields :: "(u16 \<Rightarrow> string \<Rightarrow> ('st inverted_index, unit) step) \<Rightarrow> nat \<Rightarrow> FieldDef list
    \<Rightarrow> ('st inverted_index, unit) step" where
  "post_fields post d [] = iret ()"
| "post_fields post d (f # fs) =
     (if \<not> fd_is_index f then post_fields post d fs
      else let fid = fd_field_id f in
        ithen (case fd_type f of
            DString \<Rightarrow> ithen (on_heap (get_string d (unat fid))) (\<lambda>v. post_tokens (post fid) (Tokenize (as_string v)))
          | DInt32 \<Rightarrow> ithen (on_heap (get_int32 d (unat fid))) (\<lambda>v. post fid (to_string32 v))
          | DInt64 \<Rightarrow> ithen (on_heap (get_int64 d (unat fid))) (\<lambda>v. post fid (to_string64 v))
          | _ \<Rightarrow> iret ()) (\<lambda>_.
        post_fields post d fs))"

definition IndexDoc :: "(string \<Rightarrow> u64) \<Rightarrow> 'st Allocator \<Rightarrow> Schema \<Rightarrow> nat \<Rightarrow> ('st inverted_index, unit) step" where
  "IndexDoc hash A sch d = ithen (on_heap (get_doc_id d)) (\<lambda>doc_id.
     post_fields (\<lambda>fid term. AddToPosting hash A fid term doc_id) d (Schema.fields sch))"

definition DeindexDoc :: "(string \<Rightarrow> u64) \<Rightarrow> Schema \<Rightarrow> nat \<Rightarrow> ('st inverted_index, unit) step" where
  "DeindexDoc hash sch d = ithen (on_heap (get_doc_id d)) (\<lambda>doc_id.
     post_fields (\<lambda>fid term. RemoveFromPosting hash fid term doc_id) d (Schema.fields sch))"

definition InvertedIndex_Put :: "(string \<Rightarrow> u64) \<Rightarrow> 'st Allocator \<Rightarrow> Schema \<Rightarrow> nat
    \<Rightarrow> ('st inverted_index, unit) step" where
  "InvertedIndex_Put hash A sch d =
     ithen (ExtractPk sch d) (\<lambda>pk.
     ithen (docs_get hash pk) (\<lambda>old.
     ithen (case old of Some old_doc \<Rightarrow> DeindexDoc hash sch old_doc | None \<Rightarrow> iret ()) (\<lambda>_.
     ithen (Upsert hash A sch d) (\<lambda>_.
     IndexDoc hash A sch d))))"

definition InvertedIndex_Delete :: "(string \<Rightarrow> u64) \<Rightarrow> 'st Allocator \<Rightarrow> Schema \<Rightarrow> string
    \<Rightarrow> ('st inverted_index, bool) step" where
  "InvertedIndex_Delete hash A sch pk =
     ithen (docs_get hash pk) (\<lambda>old.
     ithen (case old of Some old_doc \<Rightarrow> DeindexDoc hash sch old_doc | None \<Rightarrow> iret ()) (\<lambda>_.
     Delete hash A pk))"

section \<open>Queries\<close>

text \<open>\<^verbatim>\<open>Query\<close> with an output object: the root it is attached to and the bitmap found there.\<close>

definition Query :: "(string \<Rightarrow> u64) \<Rightarrow> u16 \<Rightarrow> string \<Rightarrow> ('st inverted_index, (nat \<times> bitmap) option) step" where
  "Query hash field_id term s =
     (case postings_get hash (PostingKey field_id term) s of
        None \<Rightarrow> (Inr None, s)
      | Some off \<Rightarrow> ithen (attach_bitmap off) (\<lambda>bm. iret (Some (off, bm))) s)"

text \<open>
  The result of the multi-term queries is the root of a bitmap in the arena.  The loop over the
  terms gives \<open>None\<close> when a term has no documents.  The order \<^verbatim>\<open>std::sort\<close> leaves elements of equal
  cardinality in is not specified; the model takes the stable one.
\<close>

fun gather :: "(string \<Rightarrow> u64) \<Rightarrow> 'st Allocator \<Rightarrow> u16 \<Rightarrow> string list
    \<Rightarrow> ('st inverted_index, bitmap list option) step" where
  "gather hash A field_id [] = iret (Some [])"
| "gather hash A field_id (term # terms) =
     ithen (new_bitmap A) (\<lambda>_.
     ithen (Query hash field_id term) (\<lambda>found.
     case found of
       None \<Rightarrow> iret None
     | Some (_, bm) \<Rightarrow>
         if IsEmpty bm then iret None
         else ithen (gather hash A field_id terms) (\<lambda>rest. iret (map_option ((#) bm) rest))))"

fun and_all :: "bitmap \<Rightarrow> bitmap list \<Rightarrow> bitmap" where
  "and_all result [] = result"
| "and_all result (b # bs) =
     (let result' = AndWith False b result in if IsEmpty result' then result' else and_all result' bs)"

definition QueryAnd :: "(string \<Rightarrow> u64) \<Rightarrow> 'st Allocator \<Rightarrow> u16 \<Rightarrow> string list
    \<Rightarrow> ('st inverted_index, nat) step" where
  "QueryAnd hash A field_id terms =
     (if terms = [] then new_bitmap A
      else ithen (gather hash A field_id terms) (\<lambda>found.
        case found of
          None \<Rightarrow> new_bitmap A
        | Some bs \<Rightarrow> (case sort_key Cardinality bs of
              [] \<Rightarrow> new_bitmap A
            | b # rest \<Rightarrow>
                ithen (new_bitmap A) (\<lambda>r.
                ithen (set_bitmap r (and_all (copy_bitmap b) rest)) (\<lambda>_. iret r)))))"

fun or_terms :: "(string \<Rightarrow> u64) \<Rightarrow> 'st Allocator \<Rightarrow> u16 \<Rightarrow> nat \<Rightarrow> string list
    \<Rightarrow> ('st inverted_index, unit) step" where
  "or_terms hash A field_id r [] = iret ()"
| "or_terms hash A field_id r (term # terms) =
     ithen (new_bitmap A) (\<lambda>_.
     ithen (Query hash field_id term) (\<lambda>found.
     ithen (case found of
         None \<Rightarrow> iret ()
       | Some (_, bm) \<Rightarrow> ithen (attach_bitmap r) (\<lambda>result. set_bitmap r (OrWith False bm result))) (\<lambda>_.
     or_terms hash A field_id r terms)))"

definition QueryOr :: "(string \<Rightarrow> u64) \<Rightarrow> 'st Allocator \<Rightarrow> u16 \<Rightarrow> string list
    \<Rightarrow> ('st inverted_index, nat) step" where
  "QueryOr hash A field_id terms =
     ithen (new_bitmap A) (\<lambda>result.
     ithen (or_terms hash A field_id result terms) (\<lambda>_. iret result))"

end
