(* ===== verification/DocCorrect.thy ===== *)
theory DocCorrect
  imports Doc
begin

text \<open>
  What documents guarantee, for every allocator that keeps the contract \<open>block_allocator\<close>:
  strings and arrays are read back as written, appending appends, every other field and every
  other block of the heap keeps its contents, and no access leaves its block.
\<close>

section \<open>Bytes of a block\<close>

lemma length_slice [simp]: "i + n \<le> length xs \<Longrightarrow> length (slice i n xs) = n"
  by (simp add: slice_def)

lemma length_splice_at [simp]: "i + length bs \<le> length xs \<Longrightarrow> length (splice_at i bs xs) = length xs"
  by (simp add: splice_at_def)

lemma nth_slice: "i + n \<le> length xs \<Longrightarrow> k < n \<Longrightarrow> slice i n xs ! k = xs ! (i + k)"
  by (simp add: slice_def)

lemma nth_splice_at:
  "i + length bs \<le> length xs \<Longrightarrow> k < length xs \<Longrightarrow>
     splice_at i bs xs ! k = (if i \<le> k \<and> k < i + length bs then bs ! (k - i) else xs ! k)"
  by (auto simp: splice_at_def nth_append)

lemma slice_splice_same [simp]:
  "i + length bs \<le> length xs \<Longrightarrow> slice i (length bs) (splice_at i bs xs) = bs"
  by (simp add: slice_def splice_at_def)

lemma slice_splice_other:
  assumes "i + length bs \<le> length xs" "j + n \<le> length xs" "j + n \<le> i \<or> i + length bs \<le> j"
  shows "slice j n (splice_at i bs xs) = slice j n xs"
  by (rule nth_equalityI) (use assms in \<open>auto simp: nth_slice nth_splice_at\<close>)

lemma slice_all: "slice 0 (length xs) xs = xs"
  by (simp add: slice_def)

lemma splice_all: "length bs = length xs \<Longrightarrow> splice_at 0 bs xs = bs"
  by (simp add: splice_at_def)

lemma slice_append_split: "slice i (m + n) xs = slice i m xs @ slice (i + m) n xs"
  by (simp add: slice_def take_add drop_drop add.commute)

lemma slice_slice: "j + n \<le> m \<Longrightarrow> slice j n (slice i m xs) = slice (i + j) n xs"
  by (simp add: slice_def drop_take take_take min_def add.commute)

section \<open>Actions that stay inside their block\<close>

lemma hthen_ret [simp]: "m h = (Inr x, h') \<Longrightarrow> hthen m k h = k x h'"
  "m h = (Inl e, h') \<Longrightarrow> hthen m k h = (Inl e, h')"
  by (simp_all add: hthen_def)

lemma hret_apply [simp]: "hret x h = (Inr x, h)"
  by (simp add: hret_def)

lemma load_ok: "i + n \<le> length (hp_mem h p) \<Longrightarrow> load p i n h = (Inr (slice i n (hp_mem h p)), h)"
  by (simp add: load_def)

lemma store_ok:
  "i + length bs \<le> length (hp_mem h p) \<Longrightarrow>
     store p i bs h = (Inr (), h\<lparr>hp_mem := (hp_mem h)(p := splice_at i bs (hp_mem h p))\<rparr>)"
  by (simp add: store_def)

lemma load_nat_ok:
  "i + k \<le> length (hp_mem h p) \<Longrightarrow> load_nat k p i h = (Inr (le_nat (slice i k (hp_mem h p))), h)"
  by (simp add: load_nat_def load_ok)

lemma store_nat_ok:
  "i + k \<le> length (hp_mem h p) \<Longrightarrow>
     store_nat k p i v h = (Inr (), h\<lparr>hp_mem := (hp_mem h)(p := splice_at i (le_bytes k v) (hp_mem h p))\<rparr>)"
  by (simp add: store_nat_def store_ok)

text \<open>The two words of a slot, read from the bytes of the root block.\<close>

definition sa :: "bytes \<Rightarrow> nat \<Rightarrow> nat" where
  "sa root fid = le_nat (slice (slot_pos fid) 8 root)"

definition sb :: "bytes \<Rightarrow> nat \<Rightarrow> nat" where
  "sb root fid = le_nat (slice (slot_pos fid + 8) 8 root)"

definition put_slot :: "nat \<Rightarrow> nat \<Rightarrow> nat \<Rightarrow> bytes \<Rightarrow> bytes" where
  "put_slot fid a b root =
     splice_at (slot_pos fid + 8) (le_bytes 8 b) (splice_at (slot_pos fid) (le_bytes 8 a) root)"

lemma slot_room: "fid < n \<Longrightarrow> slot_pos fid + 16 \<le> 8 + 16 * n"
  by (simp add: slot_pos_def)

lemma slot_apart: "f \<noteq> g \<Longrightarrow> slot_pos f + 16 \<le> slot_pos g \<or> slot_pos g + 16 \<le> slot_pos f"
  by (auto simp: slot_pos_def)

lemma slot_a_ok: "length (hp_mem h d) = 8 + 16 * n \<Longrightarrow> fid < n \<Longrightarrow> slot_a d fid h = (Inr (sa (hp_mem h d) fid), h)"
  using slot_room [of fid n] by (simp add: slot_a_def load_nat_ok sa_def)

lemma slot_b_ok: "length (hp_mem h d) = 8 + 16 * n \<Longrightarrow> fid < n \<Longrightarrow> slot_b d fid h = (Inr (sb (hp_mem h d) fid), h)"
  using slot_room [of fid n] by (simp add: slot_b_def load_nat_ok sb_def)

lemma length_put_slot [simp]: "fid < n \<Longrightarrow> length root = 8 + 16 * n \<Longrightarrow> length (put_slot fid a b root) = 8 + 16 * n"
  using slot_room [of fid n] by (simp add: put_slot_def)

lemma set_slot_ok:
  "length (hp_mem h d) = 8 + 16 * n \<Longrightarrow> fid < n \<Longrightarrow>
     set_slot d fid a b h = (Inr (), h\<lparr>hp_mem := (hp_mem h)(d := put_slot fid a b (hp_mem h d))\<rparr>)"
  using slot_room [of fid n]
  by (simp add: set_slot_def set_slot_a_def set_slot_b_def store_nat_ok put_slot_def)

lemma put_slot_reads:
  assumes "length root = 8 + 16 * n" "f < n"
  shows "sa (put_slot f a b root) f = a mod 2 ^ 64" "sb (put_slot f a b root) f = b mod 2 ^ 64"
    and "g < n \<Longrightarrow> g \<noteq> f \<Longrightarrow> sa (put_slot f a b root) g = sa root g"
    and "g < n \<Longrightarrow> g \<noteq> f \<Longrightarrow> sb (put_slot f a b root) g = sb root g"
    and "i + k \<le> 8 \<Longrightarrow> slice i k (put_slot f a b root) = slice i k root"
proof -
  note room = slot_room [OF assms(2)]
  let ?r = "splice_at (slot_pos f) (le_bytes 8 a) root"
  have len: "length ?r = 8 + 16 * n" using room assms(1) by simp
  have pos: "8 \<le> slot_pos f" by (simp add: slot_pos_def)
  have same: "slice (slot_pos f) 8 (splice_at (slot_pos f) (le_bytes 8 a) root) = le_bytes 8 a"
    "slice (slot_pos f + 8) 8 (splice_at (slot_pos f + 8) (le_bytes 8 b) ?r) = le_bytes 8 b"
    using slice_splice_same [of "slot_pos f" "le_bytes 8 a" root]
      slice_splice_same [of "slot_pos f + 8" "le_bytes 8 b" ?r] room assms(1) len by simp_all
  have p: "(256::nat) ^ 8 = 2 ^ 64" by simp
  show "sb (put_slot f a b root) f = b mod 2 ^ 64"
    by (simp add: put_slot_def sb_def same(2) le_nat_bytes p del: power_numeral)
  show "sa (put_slot f a b root) f = a mod 2 ^ 64"
    using room len assms(1) same(1)
    by (simp add: put_slot_def sa_def slice_splice_other le_nat_bytes)
  show "sa (put_slot f a b root) g = sa root g" "sb (put_slot f a b root) g = sb root g"
    if "g < n" "g \<noteq> f" for g
    using slot_apart [OF that(2)] slot_room [OF that(1)] room len assms(1)
    by (auto simp: put_slot_def sa_def sb_def slice_splice_other)
  show "slice i k (put_slot f a b root) = slice i k root" if "i + k \<le> 8"
    using room len assms(1) pos that by (simp add: put_slot_def slice_splice_other)
qed

lemma le_nat_less: "le_nat bs < 256 ^ length bs"
proof (induction bs)
  case (Cons b bs)
  have "unat b < 256" using unsigned_less [of b, where ?'a = nat] by simp
  then show ?case using Cons by simp
qed simp

lemma le_bytes_le_nat: "le_bytes (length bs) (le_nat bs) = bs"
proof (induction bs)
  case (Cons b bs)
  have "unat b < 256" using unsigned_less [of b, where ?'a = nat] by simp
  then have low: "unat b div 256 = 0" by simp
  have "(256 :: u8) = 0" by simp
  then have z: "(256 :: u8) * w = 0" for w by (metis mult_zero_left)
  have "word_of_nat (unat b + 256 * le_nat bs) = b"
    by (simp add: z)
  then show ?case using Cons low by (simp add: le_bytes_Suc)
qed (simp add: le_bytes_def)

lemma splice_slice_self: "i + n \<le> length xs \<Longrightarrow> splice_at i (slice i n xs) xs = xs"
  by (simp add: splice_at_def slice_def min_def) (metis append_take_drop_id drop_drop add.commute)

lemma slot_bounds: "length root = 8 + 16 * n \<Longrightarrow> f < n \<Longrightarrow> sa root f < 2 ^ 64 \<and> sb root f < 2 ^ 64"
  using le_nat_less [of "slice (slot_pos f) 8 root"] le_nat_less [of "slice (slot_pos f + 8) 8 root"]
    slot_room [of f n] by (simp add: sa_def sb_def)

lemma set_slot_a_ok:
  assumes "length (hp_mem h d) = 8 + 16 * n" "f < n"
  shows "set_slot_a d f a h =
    (Inr (), h\<lparr>hp_mem := (hp_mem h)(d := put_slot f a (sb (hp_mem h d) f) (hp_mem h d))\<rparr>)"
proof -
  let ?r = "hp_mem h d"
  let ?s = "splice_at (slot_pos f) (le_bytes 8 a) ?r"
  note room = slot_room [OF assms(2)]
  have len: "length ?s = 8 + 16 * n" using room assms(1) by simp
  have "le_bytes 8 (sb ?r f) = slice (slot_pos f + 8) 8 ?r"
    using le_bytes_le_nat [of "slice (slot_pos f + 8) 8 ?r"] room assms(1) by (simp add: sb_def)
  also have "\<dots> = slice (slot_pos f + 8) 8 ?s" using room assms(1) by (simp add: slice_splice_other)
  finally have "put_slot f a (sb ?r f) ?r = ?s"
    using room len by (simp add: put_slot_def splice_slice_self)
  then show ?thesis using room assms(1) by (simp add: set_slot_a_def store_nat_ok)
qed

section \<open>Well-formed documents\<close>

definition doc_wf :: "nat set \<Rightarrow> (nat \<Rightarrow> bytes) \<Rightarrow> nat \<Rightarrow> nat \<Rightarrow> bool" where
  "doc_wf L mem d n \<longleftrightarrow> d \<in> L \<and> length (mem d) = 8 + 16 * n \<and> le_nat (slice 4 4 (mem d)) = n
     \<and> (\<forall>f<n. sb (mem d) f \<noteq> 0 \<longrightarrow> sb (mem d) f \<in> L - {d})
     \<and> (\<forall>f<n. \<forall>g<n. f \<noteq> g \<longrightarrow> sb (mem d) f \<noteq> 0 \<longrightarrow> sb (mem d) f \<noteq> sb (mem d) g)"

text \<open>Everything except field \<open>f\<close> of document \<open>d\<close> keeps its contents.\<close>

definition kept :: "nat set \<Rightarrow> (nat \<Rightarrow> bytes) \<Rightarrow> nat set \<Rightarrow> (nat \<Rightarrow> bytes) \<Rightarrow> nat \<Rightarrow> nat \<Rightarrow> nat \<Rightarrow> bool" where
  "kept L mem L' mem' d n f \<longleftrightarrow>
     (\<forall>g<n. g \<noteq> f \<longrightarrow> sa (mem' d) g = sa (mem d) g \<and> sb (mem' d) g = sb (mem d) g)
     \<and> (\<forall>q\<in>L. q \<noteq> d \<longrightarrow> q \<noteq> sb (mem d) f \<longrightarrow> q \<in> L' \<and> mem' q = mem q)"

lemma doc_wf_length: "doc_wf L mem d n \<Longrightarrow> length (mem d) = 8 + 16 * n"
  by (simp add: doc_wf_def)

text \<open>
  The effect every update of a variable-length field has in the end: the slot refers to a
  block \<open>p\<close> that is new, or the old payload block updated in place.
\<close>

lemma field_replaced:
  assumes wf: "doc_wf L mem d n" and f: "f < n"
    and p: "p \<notin> L - {sb (mem d) f}" "0 < p" "p < 2 ^ 64" and a: "a < 2 ^ 64"
    and L': "L' = insert p (L - {sb (mem d) f})"
    and root: "mem' d = put_slot f a p (mem d)"
    and others: "\<forall>q\<in>L. q \<noteq> d \<longrightarrow> q \<noteq> sb (mem d) f \<longrightarrow> mem' q = mem q"
    and old: "sb (mem d) f = 0 \<Longrightarrow> 0 \<notin> L"
  shows "doc_wf L' mem' d n" "kept L mem L' mem' d n f" "sa (mem' d) f = a" "sb (mem' d) f = p" "p \<noteq> d"
proof -
  have len: "length (mem d) = 8 + 16 * n" by (rule doc_wf_length [OF wf])
  note reads = put_slot_reads [OF len f, where a = a and b = p]
  have dL: "d \<in> L" "d \<noteq> sb (mem d) f"
    using wf f old by (auto simp: doc_wf_def)
  then show pd: "p \<noteq> d" using p(1) by auto
  show "sa (mem' d) f = a" "sb (mem' d) f = p" using reads(1,2) p a root by simp_all
  show "kept L mem L' mem' d n f"
    using reads(3,4) others by (auto simp: kept_def root L')
  have sbs: "sb (mem' d) g = (if g = f then p else sb (mem d) g)" if "g < n" for g
    using reads(2,4) that p(3) by (simp add: root)
  have other: "sb (mem d) g \<in> L - {d, sb (mem d) f}" if "g < n" "g \<noteq> f" "sb (mem d) g \<noteq> 0" for g
    using wf that f by (auto simp: doc_wf_def)
  have "le_nat (slice 4 4 (mem' d)) = n" "length (mem' d) = 8 + 16 * n"
    using wf reads(5) [of 4 4] f by (simp_all add: root doc_wf_def)
  moreover have "sb (mem' d) g \<in> L' - {d}" if "g < n" "sb (mem' d) g \<noteq> 0" for g
    using that pd other [OF that(1)] by (cases "g = f") (simp_all add: sbs L')
  moreover have "sb (mem' d) g \<noteq> sb (mem' d) k" if "g < n" "k < n" "g \<noteq> k" "sb (mem' d) g \<noteq> 0" for g k
  proof (cases "g = f \<or> k = f")
    case True
    then show ?thesis
      using that other [of g] other [of k] p(1,2) by (cases "sb (mem d) k = 0") (auto simp: sbs)
  next
    case False
    then show ?thesis using that wf by (simp add: sbs doc_wf_def)
  qed
  ultimately show "doc_wf L' mem' d n"
    unfolding doc_wf_def using dL by (simp add: L')
qed

section \<open>The allocator contract and its clients\<close>

definition doc_ok :: "('st \<Rightarrow> bool) \<Rightarrow> ('st \<Rightarrow> nat set) \<Rightarrow> 'st heap \<Rightarrow> nat \<Rightarrow> nat \<Rightarrow> bool" where
  "doc_ok good live h d n \<longleftrightarrow> good (hp_st h) \<and> doc_wf (live (hp_st h)) (hp_mem h) d n"

definition field_kept :: "('st \<Rightarrow> nat set) \<Rightarrow> 'st heap \<Rightarrow> 'st heap \<Rightarrow> nat \<Rightarrow> nat \<Rightarrow> nat \<Rightarrow> bool" where
  "field_kept live h h' d n f \<longleftrightarrow>
     kept (live (hp_st h)) (hp_mem h) (live (hp_st h')) (hp_mem h') d n f"

text \<open>What a field denotes: the bytes of a string, the elements of an array of width \<open>w\<close>.\<close>

definition str_field :: "'st heap \<Rightarrow> nat \<Rightarrow> nat \<Rightarrow> bytes \<Rightarrow> bool" where
  "str_field h d f v \<longleftrightarrow> (let b = sb (hp_mem h d) f in
     if b = 0 then v = [] else sa (hp_mem h d) f = length v \<and> length v \<le> length (hp_mem h b)
       \<and> slice 0 (length v) (hp_mem h b) = v)"

definition array_block :: "nat \<Rightarrow> bytes list \<Rightarrow> bytes \<Rightarrow> bool" where
  "array_block w xs bs \<longleftrightarrow> (\<exists>cap. length xs \<le> cap \<and> cap < 2 ^ 56 \<and> length bs = 8 + cap * w
     \<and> le_nat (slice 0 8 bs) = cap \<and> slice 8 (length xs * w) bs = concat xs)
     \<and> (\<forall>x\<in>set xs. length x = w)"

definition array_field :: "nat \<Rightarrow> 'st heap \<Rightarrow> nat \<Rightarrow> nat \<Rightarrow> bytes list \<Rightarrow> bool" where
  "array_field w h d f xs \<longleftrightarrow> sa (hp_mem h d) f = length xs \<and>
     (if sb (hp_mem h d) f = 0 then xs = [] else array_block w xs (hp_mem h (sb (hp_mem h d) f)))"

locale block_allocator =
  fixes A :: "'st Allocator" and good :: "'st \<Rightarrow> bool" and live :: "'st \<Rightarrow> nat set"
  assumes malloc_ok: "good s \<Longrightarrow> n < 2 ^ 63 \<Longrightarrow> al_malloc A n s = (Inr p, s') \<Longrightarrow>
      good s' \<and> p \<notin> live s \<and> p < 2 ^ 64 \<and> live s' = insert p (live s)"
    and malloc_fail: "good s \<Longrightarrow> n < 2 ^ 63 \<Longrightarrow> al_malloc A n s = (Inl e, s') \<Longrightarrow>
      good s' \<and> live s' = live s"
    and free_ok: "good s \<Longrightarrow> p \<in> live s \<Longrightarrow>
      \<exists>s'. al_free A p s = (None, s') \<and> good s' \<and> live s' = live s - {p}"
    and not_null: "good s \<Longrightarrow> 0 \<notin> live s"
begin

lemma live_nz: "good s \<Longrightarrow> p \<in> live s \<Longrightarrow> p \<noteq> 0"
  using not_null by metis

lemma hfree_ok:
  assumes "good (hp_st h)" "p \<in> live (hp_st h)"
  shows "\<exists>s'. hfree A p h = (Inr (), h\<lparr>hp_st := s', hp_mem := (hp_mem h)(p := [])\<rparr>)
     \<and> good s' \<and> live s' = live (hp_st h) - {p}"
  using free_ok [OF assms] by (auto simp: hfree_def)

lemma hmalloc_cases:
  assumes "good (hp_st h)" "m < 2 ^ 63"
  obtains (thrown) e s' where "hmalloc A m h = (Inl (Thrown e), h\<lparr>hp_st := s'\<rparr>)" "good s'"
      "live s' = live (hp_st h)"
    | (block) p s' where
      "hmalloc A m h = (Inr p, h\<lparr>hp_st := s', hp_mem := (hp_mem h)(p := map (al_junk A p) [0..<m])\<rparr>)"
      "good s'" "p \<notin> live (hp_st h)" "0 < p" "p < 2 ^ 64" "live s' = insert p (live (hp_st h))"
proof (cases "al_malloc A m (hp_st h)")
  case (Pair r s')
  show ?thesis
  proof (cases r)
    case (Inl e)
    then show ?thesis using thrown [of e s'] malloc_fail [OF assms] Pair by (simp add: hmalloc_def)
  next
    case (Inr p)
    note ok = malloc_ok [OF assms, of p s']
    have "p \<in> live s'" "good s'" using ok Pair Inr by auto
    then have "0 < p" using not_null by (cases p) auto
    then show ?thesis using block [of p s'] ok Pair Inr by (simp add: hmalloc_def)
  qed
qed

lemma free_if_ok:
  assumes "doc_ok good live h d n" "f < n" "b = sb (hp_mem h d) f"
  shows "\<exists>h1. free_if A b h = (Inr (), h1) \<and> good (hp_st h1) \<and> live (hp_st h1) = live (hp_st h) - {b}
     \<and> (\<forall>q. q \<noteq> b \<longrightarrow> hp_mem h1 q = hp_mem h q)"
proof (cases "b = 0")
  case True
  then show ?thesis using assms(1) not_null by (simp add: free_if_def doc_ok_def)
next
  case False
  then have "b \<in> live (hp_st h)" using assms by (auto simp: doc_ok_def doc_wf_def)
  then show ?thesis using hfree_ok [of h b] assms(1) False by (auto simp: free_if_def doc_ok_def)
qed

lemma root_other:
  assumes "doc_ok good live h d n" "f < n"
  shows "d \<noteq> sb (hp_mem h d) f" "d \<in> live (hp_st h)" "length (hp_mem h d) = 8 + 16 * n"
    "slot_b d f h = (Inr (sb (hp_mem h d) f), h)" "slot_a d f h = (Inr (sa (hp_mem h d) f), h)"
    "sb (hp_mem h d) f < 2 ^ 64" "sb (hp_mem h d) f \<noteq> 0 \<Longrightarrow> sb (hp_mem h d) f \<in> live (hp_st h)"
proof -
  have wf: "doc_wf (live (hp_st h)) (hp_mem h) d n" and i: "good (hp_st h)"
    using assms(1) by (simp_all add: doc_ok_def)
  then show l: "length (hp_mem h d) = 8 + 16 * n" and "d \<in> live (hp_st h)"
    by (simp_all add: doc_wf_def)
  then show "d \<noteq> sb (hp_mem h d) f" using wf not_null [OF i] assms(2) by (auto simp: doc_wf_def)
  show "slot_b d f h = (Inr (sb (hp_mem h d) f), h)" "slot_a d f h = (Inr (sa (hp_mem h d) f), h)"
    using l assms(2) by (simp_all add: slot_b_ok slot_a_ok)
  show "sb (hp_mem h d) f < 2 ^ 64" using slot_bounds [OF l assms(2)] by simp
  show "sb (hp_mem h d) f \<in> live (hp_st h)" if "sb (hp_mem h d) f \<noteq> 0"
    using wf that assms(2) by (auto simp: doc_wf_def)
qed

text \<open>The last step of every update.\<close>

lemma install:
  assumes ok: "doc_ok good live h d n" and f: "f < n"
    and p: "p \<notin> live (hp_st h) - {sb (hp_mem h d) f}" "0 < p" "p < 2 ^ 64" and a: "a < 2 ^ 64"
    and st: "good (hp_st h3)" "live (hp_st h3) = insert p (live (hp_st h) - {sb (hp_mem h d) f})"
    and mem: "\<And>q. q \<noteq> p \<Longrightarrow> q \<noteq> sb (hp_mem h d) f \<Longrightarrow> hp_mem h3 q = hp_mem h q"
  shows "\<exists>h4. set_slot d f a p h3 = (Inr (), h4) \<and> doc_ok good live h4 d n \<and> field_kept live h h4 d n f
     \<and> sa (hp_mem h4 d) f = a \<and> sb (hp_mem h4 d) f = p \<and> hp_mem h4 p = hp_mem h3 p"
proof -
  note r = root_other [OF ok f]
  have pd: "p \<noteq> d" using p(1) r(1,2) by auto
  have root: "hp_mem h3 d = hp_mem h d" using mem [of d] pd r(1) by auto
  define h4 where "h4 = h3\<lparr>hp_mem := (hp_mem h3)(d := put_slot f a p (hp_mem h3 d))\<rparr>"
  have h4: "hp_st h4 = hp_st h3" "hp_mem h4 d = put_slot f a p (hp_mem h d)"
    "\<And>q. q \<noteq> d \<Longrightarrow> hp_mem h4 q = hp_mem h3 q"
    by (simp_all add: h4_def root)
  have set: "set_slot d f a p h3 = (Inr (), h4)"
    using set_slot_ok [of h3 d n f a p] r(3) f by (simp add: root h4_def)
  have wf: "doc_wf (live (hp_st h)) (hp_mem h) d n" and i: "good (hp_st h)"
    using ok by (simp_all add: doc_ok_def)
  have others: "\<forall>q\<in>live (hp_st h). q \<noteq> d \<longrightarrow> q \<noteq> sb (hp_mem h d) f \<longrightarrow> hp_mem h4 q = hp_mem h q"
  proof (intro ballI impI)
    fix q assume q: "q \<in> live (hp_st h)" "q \<noteq> d" "q \<noteq> sb (hp_mem h d) f"
    then have "q \<noteq> p" using p(1) by auto
    then show "hp_mem h4 q = hp_mem h q" using mem q h4(3) by simp
  qed
  have L': "live (hp_st h4) = insert p (live (hp_st h) - {sb (hp_mem h d) f})" using st(2) h4(1) by simp
  note rep = field_replaced [OF wf f p a L' h4(2) others not_null [OF i]]
  show ?thesis
    using set rep(1-4) st(1) h4(1) h4(3) [OF pd]
    by (intro exI [of _ h4]) (simp add: doc_ok_def field_kept_def)
qed

text \<open>
  What an update of field \<open>f\<close> guarantees: it succeeds, with the document well formed, the field in
  the state \<open>P\<close> asks for and everything else kept, or the allocator threw.
\<close>

lemma put_string_ok:
  assumes ok: "doc_ok good live h d n" and f: "f < n" and v: "length v < 2 ^ 63"
  obtains (stored) h' where "put_string A d f v h = (Inr (), h')" "doc_ok good live h' d n"
      "field_kept live h h' d n f" "str_field h' d f v"
    | (thrown) e h' where "put_string A d f v h = (Inl (Thrown e), h')"
proof -
  let ?b = "sb (hp_mem h d) f"
  let ?m = "if 0 < length v then length v else 1"
  note r = root_other [OF ok f]
  obtain h1 where h1: "free_if A ?b h = (Inr (), h1)" "good (hp_st h1)"
    "live (hp_st h1) = live (hp_st h) - {?b}" "\<And>q. q \<noteq> ?b \<Longrightarrow> hp_mem h1 q = hp_mem h q"
    using free_if_ok [OF ok f refl] by blast
  have m: "?m < 2 ^ 63" using v by simp
  show ?thesis
  proof (cases rule: hmalloc_cases [OF h1(2) m])
    case (1 e s')
    then show ?thesis using thrown [of e] by (simp add: put_string_def r(4) h1(1))
  next
    case (2 p s')
    let ?h2 = "h1\<lparr>hp_st := s', hp_mem := (hp_mem h1)(p := map (al_junk A p) [0..<?m])\<rparr>"
    let ?h3 = "if 0 < length v then ?h2\<lparr>hp_mem := (hp_mem ?h2)(p := v)\<rparr> else ?h2"
    have st: "(if 0 < length v then store p 0 v else hret ()) ?h2 = (Inr (), ?h3)"
      by (simp add: store_ok splice_all)
    have "\<exists>h4. set_slot d f (length v) p ?h3 = (Inr (), h4) \<and> doc_ok good live h4 d n
        \<and> field_kept live h h4 d n f \<and> sa (hp_mem h4 d) f = length v \<and> sb (hp_mem h4 d) f = p
        \<and> hp_mem h4 p = hp_mem ?h3 p"
      by (rule install [OF ok f]) (use 2 h1 v in auto)
    then obtain h4 where h4: "set_slot d f (length v) p ?h3 = (Inr (), h4)" "doc_ok good live h4 d n"
      "field_kept live h h4 d n f" "sa (hp_mem h4 d) f = length v" "sb (hp_mem h4 d) f = p"
      "hp_mem h4 p = hp_mem ?h3 p" by blast
    have "put_string A d f v h = (Inr (), h4)"
      using st h4(1) 2(1) by (simp add: put_string_def r(4) h1(1))
    moreover have "str_field h4 d f v"
      using h4(4-6) 2(4) by (auto simp: str_field_def slice_all slice_def)
    ultimately show ?thesis using stored h4(2,3) by blast
  qed
qed

end

lemma get_string_field:
  assumes "length (hp_mem h d) = 8 + 16 * n" "f < n" "str_field h d f v"
  shows "get_string d f h = (Inr v, h)"
  using assms by (auto simp: get_string_def slot_b_ok slot_a_ok str_field_def load_ok Let_def)

section \<open>Array blocks\<close>

lemma length_concat_w: "\<forall>x\<in>set xs. length x = w \<Longrightarrow> length (concat xs) = length xs * w"
  by (induction xs) auto

definition cap_block :: "nat \<Rightarrow> nat \<Rightarrow> bytes \<Rightarrow> bool" where
  "cap_block w cap bs \<longleftrightarrow> cap < 2 ^ 56 \<and> length bs = 8 + cap * w \<and> le_nat (slice 0 8 bs) = cap"

lemma array_block_cap:
  "array_block w xs bs \<longleftrightarrow> (\<exists>cap. cap_block w cap bs \<and> length xs \<le> cap
     \<and> slice 8 (length xs * w) bs = concat xs) \<and> (\<forall>x\<in>set xs. length x = w)"
  by (auto simp: array_block_def cap_block_def)

text \<open>Writing further elements behind those already there.\<close>

lemma array_block_extend:
  assumes cap: "cap_block w cap bs" and xs: "slice 8 (length xs * w) bs = concat xs"
    and le: "length xs + length ys \<le> cap" and w: "\<forall>x\<in>set xs \<union> set ys. length x = w"
  shows "cap_block w cap (splice_at (8 + length xs * w) (concat ys) bs)"
    and "slice 8 (length (xs @ ys) * w) (splice_at (8 + length xs * w) (concat ys) bs) = concat (xs @ ys)"
    and "8 + length xs * w + length (concat ys) \<le> length bs"
proof -
  have ly: "length (concat ys) = length ys * w" using w by (simp add: length_concat_w)
  have "(length xs + length ys) * w \<le> cap * w" using le by simp
  then show room: "8 + length xs * w + length (concat ys) \<le> length bs"
    using cap by (simp add: cap_block_def ly add_mult_distrib)
  show "cap_block w cap (splice_at (8 + length xs * w) (concat ys) bs)"
    using cap room by (simp add: cap_block_def slice_splice_other)
  have "slice 8 (length xs * w + length ys * w) (splice_at (8 + length xs * w) (concat ys) bs) =
      slice 8 (length xs * w) bs @ concat ys"
    using slice_splice_same [OF room] room
    by (simp add: slice_append_split slice_splice_other ly)
  then show "slice 8 (length (xs @ ys) * w) (splice_at (8 + length xs * w) (concat ys) bs) = concat (xs @ ys)"
    by (simp add: xs add_mult_distrib)
qed

lemma array_block_capacity: "array_block w xs bs \<Longrightarrow> 8 \<le> length bs \<and> length xs \<le> le_nat (slice 0 8 bs)"
  by (auto simp: array_block_def)

lemma put_cap_bounds: "count < 2 ^ 32 \<Longrightarrow> count \<le> put_cap count \<and> put_cap count < 2 ^ 34"
  by (auto simp: put_cap_def Let_def)

lemma append_cap_bounds: "count < 2 ^ 55 \<Longrightarrow> count < append_cap count \<and> append_cap count < 2 ^ 56"
  by (auto simp: append_cap_def Let_def)

lemma batch_cap_bounds: "need < 2 ^ 55 \<Longrightarrow> need \<le> batch_cap need \<and> batch_cap need < 2 ^ 56"
  by (auto simp: batch_cap_def Let_def)

lemma cap_bytes: "cap < 2 ^ 56 \<Longrightarrow> w \<le> 8 \<Longrightarrow> 8 + cap * w < (2 ^ 63 :: nat)"
proof -
  assume "cap < 2 ^ 56" "w \<le> (8 :: nat)"
  then have "cap * w \<le> (2 ^ 56 - 1) * 8" by (intro mult_le_mono) auto
  then show ?thesis by simp
qed

context block_allocator
begin

lemma new_array_cases:
  assumes g: "good (hp_st h)" and cap: "cap < 2 ^ 56" and w: "w \<le> 8"
  obtains (thrown) e h' where "new_array A w cap h = (Inl (Thrown e), h')"
    | (block) p h' where "new_array A w cap h = (Inr p, h')" "good (hp_st h')" "p \<notin> live (hp_st h)"
      "0 < p" "p < 2 ^ 64" "live (hp_st h') = insert p (live (hp_st h))"
      "\<And>q. q \<noteq> p \<Longrightarrow> hp_mem h' q = hp_mem h q" "cap_block w cap (hp_mem h' p)"
proof -
  have m: "(8 + cap * w) mod 2 ^ 64 = 8 + cap * w" "8 + cap * w < 2 ^ 63"
    using cap_bytes [OF cap w] by simp_all
  show ?thesis
  proof (cases rule: hmalloc_cases [OF g m(2)])
    case (1 e s')
    then show ?thesis using thrown [of e] unfolding new_array_def m(1) by simp
  next
    case (2 p s')
    let ?bs = "splice_at 0 (le_bytes 8 cap) (replicate (8 + cap * w) 0)"
    let ?h' = "h\<lparr>hp_st := s', hp_mem := (hp_mem h)(p := ?bs)\<rparr>"
    have "new_array A w cap h = (Inr p, ?h')"
      using 2(1) unfolding new_array_def m(1) by (simp add: store_ok store_nat_ok splice_all)
    moreover have "cap_block w cap ?bs"
      using cap slice_splice_same [of 0 "le_bytes 8 cap" "replicate (8 + cap * w) 0"]
      by (simp add: cap_block_def le_nat_bytes)
    ultimately show ?thesis using block [of p ?h'] 2 by simp
  qed
qed


lemma array_put_ok:
  assumes ok: "doc_ok good live h d n" and f: "f < n"
    and xs: "\<forall>x\<in>set xs. length x = w" "length xs < 2 ^ 32" "0 < w" "w \<le> 8"
  obtains (stored) h' where "array_put_impl A w d f (Some xs) (length xs) h = (Inr (), h')"
      "doc_ok good live h' d n" "field_kept live h h' d n f" "array_field w h' d f xs"
    | (thrown) e h' where "array_put_impl A w d f (Some xs) (length xs) h = (Inl (Thrown e), h')"
proof -
  let ?b = "sb (hp_mem h d) f"
  note r = root_other [OF ok f]
  obtain h1 where h1: "free_if A ?b h = (Inr (), h1)" "good (hp_st h1)"
    "live (hp_st h1) = live (hp_st h) - {?b}" "\<And>q. q \<noteq> ?b \<Longrightarrow> hp_mem h1 q = hp_mem h q"
    using free_if_ok [OF ok f refl] by blast
  note cap = put_cap_bounds [OF xs(2)]
  have cap56: "put_cap (length xs) < 2 ^ 56" using cap by simp
  show ?thesis
  proof (cases rule: new_array_cases [OF h1(2) cap56 xs(4)])
    case (1 e h')
    then show ?thesis using thrown [of e h'] by (simp add: array_put_impl_def r(4) h1(1))
  next
    case (2 p h2)
    note ext = array_block_extend [OF 2(8), of "[]" xs] 
    let ?h3 = "if xs \<noteq> [] then h2\<lparr>hp_mem := (hp_mem h2)(p := splice_at 8 (concat xs) (hp_mem h2 p))\<rparr> else h2"
    have st: "(if 0 < length xs then store p 8 (concat (take (length xs) xs)) else hret ()) h2 = (Inr (), ?h3)"
      using ext xs(1) cap by (simp add: store_ok slice_def)
    have blk: "array_block w xs (hp_mem ?h3 p)"
      using ext xs(1) cap 2(8) by (auto simp: array_block_cap slice_def)
    have "\<exists>h4. set_slot d f (length xs) p ?h3 = (Inr (), h4) \<and> doc_ok good live h4 d n
        \<and> field_kept live h h4 d n f \<and> sa (hp_mem h4 d) f = length xs \<and> sb (hp_mem h4 d) f = p
        \<and> hp_mem h4 p = hp_mem ?h3 p"
      by (rule install [OF ok f]) (use 2 h1 xs(2) in auto)
    then obtain h4 where h4: "set_slot d f (length xs) p ?h3 = (Inr (), h4)" "doc_ok good live h4 d n"
      "field_kept live h h4 d n f" "sa (hp_mem h4 d) f = length xs" "sb (hp_mem h4 d) f = p"
      "hp_mem h4 p = hp_mem ?h3 p" by blast
    have "array_put_impl A w d f (Some xs) (length xs) h = (Inr (), h4)"
      using st h4(1) 2(1) by (simp add: array_put_impl_def r(4) h1(1))
    moreover have "array_field w h4 d f xs" using h4(4-6) 2(4) blk by (simp add: array_field_def)
    ultimately show ?thesis using stored h4(2,3) by blast
  qed
qed


text \<open>The two ways to append: in place when the capacity suffices, else into a larger block.\<close>

lemma append_in_place:
  assumes ok: "doc_ok good live h d n" and f: "f < n" and fld: "array_field w h d f xs"
    and b: "b = sb (hp_mem h d) f" "b \<noteq> 0" and ys: "\<forall>y\<in>set ys. length y = w"
    and cap: "length xs + length ys \<le> le_nat (slice 0 8 (hp_mem h b))"
  shows "\<exists>h'. hthen (store b (8 + length xs * w) (concat ys))
        (\<lambda>_. set_slot_a d f (length xs + length ys)) h = (Inr (), h')
      \<and> doc_ok good live h' d n \<and> field_kept live h h' d n f \<and> array_field w h' d f (xs @ ys)"
proof -
  note r = root_other [OF ok f]
  have blk: "array_block w xs (hp_mem h b)" using fld b by (simp add: array_field_def)
  then obtain cap where c: "cap_block w cap (hp_mem h b)" "slice 8 (length xs * w) (hp_mem h b) = concat xs"
    "\<forall>x\<in>set xs. length x = w" by (auto simp: array_block_cap)
  have le: "length xs + length ys \<le> cap" using cap c(1) by (simp add: cap_block_def)
  note ext = array_block_extend [OF c(1,2) le]
  have w: "\<forall>x\<in>set xs \<union> set ys. length x = w" using c(3) ys by auto
  let ?h3 = "h\<lparr>hp_mem := (hp_mem h)(b := splice_at (8 + length xs * w) (concat ys) (hp_mem h b))\<rparr>"
  have st: "store b (8 + length xs * w) (concat ys) h = (Inr (), ?h3)" using ext(3) [OF w] by (simp add: store_ok)
  have blive: "b \<in> live (hp_st h)" using r(7) b by simp
  have lens: "length xs + length ys < 2 ^ 64" using le c(1) by (simp add: cap_block_def)
  have "\<exists>h4. set_slot d f (length xs + length ys) b ?h3 = (Inr (), h4) \<and> doc_ok good live h4 d n
      \<and> field_kept live h h4 d n f \<and> sa (hp_mem h4 d) f = length xs + length ys
      \<and> sb (hp_mem h4 d) f = b \<and> hp_mem h4 b = hp_mem ?h3 b"
    by (rule install [OF ok f]) (use b blive r(6) ok lens in \<open>auto simp: doc_ok_def\<close>)
  then obtain h4 where h4: "set_slot d f (length xs + length ys) b ?h3 = (Inr (), h4)"
    "doc_ok good live h4 d n" "field_kept live h h4 d n f" "sa (hp_mem h4 d) f = length xs + length ys"
    "sb (hp_mem h4 d) f = b" "hp_mem h4 b = hp_mem ?h3 b" by blast
  have root3: "hp_mem ?h3 d = hp_mem h d" using r(1) b(1) by simp
  have "set_slot_a d f (length xs + length ys) ?h3 = set_slot d f (length xs + length ys) b ?h3"
    using set_slot_a_ok [of ?h3 d n f] set_slot_ok [of ?h3 d n f _ b] r(3) f b(1) root3 by simp
  moreover have "array_block w (xs @ ys) (hp_mem h4 b)"
    unfolding array_block_cap h4(6) using ext(1,2) [OF w] le w by auto
  ultimately show ?thesis using st h4 b(2) by (auto simp: array_field_def)
qed

lemma append_grow:
  assumes ok: "doc_ok good live h d n" and f: "f < n" and fld: "array_field w h d f xs"
    and b: "b = sb (hp_mem h d) f" and ys: "\<forall>y\<in>set ys. length y = w"
    and cap: "length xs + length ys \<le> cap" "cap < 2 ^ 56" and w8: "w \<le> 8"
    and act: "act = hthen (new_array A w cap) (\<lambda>mem.
         hthen (if 0 < length xs
                then hthen (load b 8 (length xs * w)) (\<lambda>old. store mem 8 old) else hret ()) (\<lambda>_.
         hthen (store mem (8 + length xs * w) (concat ys)) (\<lambda>_.
         hthen (free_if A b) (\<lambda>_. set_slot d f (length xs + length ys) mem))))"
  obtains (stored) h' where "act h = (Inr (), h')"
      "doc_ok good live h' d n" "field_kept live h h' d n f" "array_field w h' d f (xs @ ys)"
    | (thrown) e h' where "act h = (Inl (Thrown e), h')"
proof -
  note r = root_other [OF ok f]
  have g: "good (hp_st h)" using ok by (simp add: doc_ok_def)
  have xs: "\<forall>x\<in>set xs. length x = w"
    and old: "xs \<noteq> [] \<Longrightarrow> 8 + length xs * w \<le> length (hp_mem h b) \<and> slice 8 (length xs * w) (hp_mem h b) = concat xs"
    using fld by (auto simp: array_field_def array_block_def b split: if_splits)
  show ?thesis
  proof (cases rule: new_array_cases [OF g cap(2) w8])
    case (1 e h')
    then show ?thesis using thrown [of e h'] by (simp add: act)
  next
    case (2 p h2)
    have pb: "p \<noteq> b" using 2(3,4) r(7) b by (cases "b = 0") auto
    define bs1 where "bs1 = (if xs = [] then hp_mem h2 p else splice_at 8 (concat xs) (hp_mem h2 p))"
    define bs2 where "bs2 = splice_at (8 + length xs * w) (concat ys) bs1"
    have le1: "length xs \<le> cap" using cap(1) by simp
    note e1 = array_block_extend [OF 2(8), of "[]" xs, simplified, OF _ le1 xs]
    have c1: "cap_block w cap bs1" "slice 8 (length xs * w) bs1 = concat xs"
      using e1 2(8) by (auto simp: bs1_def slice_def)
    have w: "\<forall>x\<in>set xs \<union> set ys. length x = w" using xs ys by auto
    note e2 = array_block_extend [OF c1 cap(1) w]
    let ?h2 = "h2\<lparr>hp_mem := (hp_mem h2)(p := bs1)\<rparr>"
    let ?h3 = "h2\<lparr>hp_mem := (hp_mem h2)(p := bs2)\<rparr>"
    have s1: "(if 0 < length xs then hthen (load b 8 (length xs * w)) (\<lambda>old. store p 8 old) else hret ()) h2
        = (Inr (), ?h2)"
      using old e1 2(7) [of b] pb by (auto simp: load_ok store_ok bs1_def slice_def fun_upd_idem)
    have s2: "store p (8 + length xs * w) (concat ys) ?h2 = (Inr (), ?h3)"
      using e2(3) by (simp add: store_ok bs2_def)
    have ok2: "good (hp_st ?h3)" "b \<noteq> 0 \<Longrightarrow> b \<in> live (hp_st ?h3)" using 2(2,6) r(7) b by auto
    obtain h4 where h4: "free_if A b ?h3 = (Inr (), h4)" "good (hp_st h4)"
      "live (hp_st h4) = live (hp_st ?h3) - {b}" "\<And>q. q \<noteq> b \<Longrightarrow> hp_mem h4 q = hp_mem ?h3 q"
    proof (cases "b = 0")
      case True
      then show ?thesis using that [of ?h3] ok2(1) not_null [OF ok2(1)] by (simp add: free_if_def)
    next
      case False
      then show ?thesis using hfree_ok [OF ok2(1) ok2(2)] that by (auto simp: free_if_def)
    qed
    have lens: "length xs + length ys < 2 ^ 64" using cap by simp
    have "\<exists>h5. set_slot d f (length xs + length ys) p h4 = (Inr (), h5) \<and> doc_ok good live h5 d n
        \<and> field_kept live h h5 d n f \<and> sa (hp_mem h5 d) f = length xs + length ys
        \<and> sb (hp_mem h5 d) f = p \<and> hp_mem h5 p = hp_mem h4 p"
      by (rule install [OF ok f]) (use 2 h4 lens b pb in auto)
    then obtain h5 where h5: "set_slot d f (length xs + length ys) p h4 = (Inr (), h5)"
      "doc_ok good live h5 d n" "field_kept live h h5 d n f"
      "sa (hp_mem h5 d) f = length xs + length ys" "sb (hp_mem h5 d) f = p" "hp_mem h5 p = hp_mem h4 p"
      by blast
    have "act h = (Inr (), h5)" using 2(1) s1 s2 h4(1) h5(1) by (simp add: act)
    moreover have "array_block w (xs @ ys) (hp_mem h5 p)"
      unfolding array_block_cap using h5(6) h4(4) [OF pb] e2(1,2) cap(1) w by (auto simp: bs2_def)
    ultimately show ?thesis using stored h5 2(4) by (simp add: array_field_def)
  qed
qed


lemma array_capacity_ok:
  assumes "doc_ok good live h d n" "f < n" "array_field w h d f xs"
  shows "array_capacity d f h = (Inr (if sb (hp_mem h d) f = 0 then 0
      else le_nat (slice 0 8 (hp_mem h (sb (hp_mem h d) f)))), h)"
  using root_other(4) [OF assms(1,2)] assms(3) array_block_capacity
  by (auto simp: array_capacity_def array_field_def load_nat_ok)

lemma array_append_ok:
  assumes ok: "doc_ok good live h d n" and f: "f < n" and fld: "array_field w h d f xs"
    and v: "length v = w" "w \<le> 8" and len: "length xs < 2 ^ 55"
  obtains (stored) h' where "array_append_impl A w d f v h = (Inr (), h')"
      "doc_ok good live h' d n" "field_kept live h h' d n f" "array_field w h' d f (xs @ [v])"
    | (thrown) e h' where "array_append_impl A w d f v h = (Inl (Thrown e), h')"
proof -
  let ?b = "sb (hp_mem h d) f"
  note r = root_other [OF ok f]
  have sa: "sa (hp_mem h d) f = length xs" using fld by (simp add: array_field_def)
  have ys: "\<forall>y\<in>set [v]. length y = w" using v by simp
  show ?thesis
  proof (cases "?b \<noteq> 0 \<and> length xs < le_nat (slice 0 8 (hp_mem h ?b))")
    case True
    then have nz: "?b \<noteq> 0" and cap: "length xs + length [v] \<le> le_nat (slice 0 8 (hp_mem h ?b))" by auto
    obtain h' where "hthen (store ?b (8 + length xs * w) v) (\<lambda>_. set_slot_a d f (length xs + 1)) h = (Inr (), h')"
      "doc_ok good live h' d n" "field_kept live h h' d n f" "array_field w h' d f (xs @ [v])"
      using append_in_place [OF ok f fld refl nz ys cap] by auto
    then show ?thesis
      using stored True by (simp add: array_append_impl_def r(4,5) sa array_capacity_ok [OF ok f fld])
  next
    case False
    have cap: "length xs + length [v] \<le> append_cap (length xs)" "append_cap (length xs) < 2 ^ 56"
      using append_cap_bounds [OF len] by auto
    have eq: "array_append_impl A w d f v h = hthen (new_array A w (append_cap (length xs))) (\<lambda>mem.
         hthen (if 0 < length xs
                then hthen (load ?b 8 (length xs * w)) (\<lambda>old. store mem 8 old) else hret ()) (\<lambda>_.
         hthen (store mem (8 + length xs * w) (concat [v])) (\<lambda>_.
         hthen (free_if A ?b) (\<lambda>_. set_slot d f (length xs + length [v]) mem)))) h"
      using False by (auto simp: array_append_impl_def r(4,5) sa array_capacity_ok [OF ok f fld])
    show ?thesis
      by (rule append_grow [OF ok f fld refl ys cap v(2) refl]) (use stored thrown eq in auto)
  qed
qed

lemma array_append_batch_ok:
  assumes ok: "doc_ok good live h d n" and f: "f < n" and fld: "array_field w h d f xs"
    and ys: "\<forall>y\<in>set ys. length y = w" "0 < w" "w \<le> 8" "length ys < 2 ^ 32" and len: "length xs < 2 ^ 54"
  obtains (stored) h' where "array_append_batch_impl A w d f (Some ys) (length ys) h = (Inr (), h')"
      "doc_ok good live h' d n" "field_kept live h h' d n f" "array_field w h' d f (xs @ ys)"
    | (thrown) e h' where "array_append_batch_impl A w d f (Some ys) (length ys) h = (Inl (Thrown e), h')"
proof -
  let ?b = "sb (hp_mem h d) f"
  note r = root_other [OF ok f]
  have sa: "sa (hp_mem h d) f = length xs" using fld by (simp add: array_field_def)
  have need: "(length xs + length ys) mod 2 ^ 64 = length xs + length ys" "length xs + length ys < 2 ^ 55"
    using len ys(4) by simp_all
  consider "ys = []" | "ys \<noteq> []" "?b = 0" | "ys \<noteq> []" "?b \<noteq> 0" by blast
  then show ?thesis
  proof cases
    case 1
    then show ?thesis
      using stored [of h] ok fld by (simp add: array_append_batch_impl_def field_kept_def kept_def)
  next
    case 2
    then have xs: "xs = []" using fld by (simp add: array_field_def)
    have eq: "array_append_batch_impl A w d f (Some ys) (length ys) h = array_put_impl A w d f (Some ys) (length ys) h"
      using 2 by (simp add: array_append_batch_impl_def r(4))
    show ?thesis
      by (rule array_put_ok [OF ok f ys(1,4,2,3)]) (use stored thrown eq xs in auto)
  next
    case 3
    let ?cap = "le_nat (slice 0 8 (hp_mem h ?b))"
    have eq: "array_append_batch_impl A w d f (Some ys) (length ys) h =
      (if length xs + length ys \<le> ?cap
       then hthen (store ?b (8 + length xs * w) (concat ys)) (\<lambda>_. set_slot_a d f (length xs + length ys)) h
       else hthen (new_array A w (batch_cap (length xs + length ys))) (\<lambda>mem.
         hthen (if 0 < length xs
                then hthen (load ?b 8 (length xs * w)) (\<lambda>old. store mem 8 old) else hret ()) (\<lambda>_.
         hthen (store mem (8 + length xs * w) (concat ys)) (\<lambda>_.
         hthen (free_if A ?b) (\<lambda>_. set_slot d f (length xs + length ys) mem)))) h)"
      using 3 by (simp add: array_append_batch_impl_def r(4,5) sa array_capacity_ok [OF ok f fld]
          need(1) [simplified] Let_def)
    show ?thesis
    proof (cases "length xs + length ys \<le> ?cap")
      case True
      then show ?thesis using append_in_place [OF ok f fld refl 3(2) ys(1) True] stored eq by auto
    next
      case False
      have cap: "length xs + length ys \<le> batch_cap (length xs + length ys)"
        "batch_cap (length xs + length ys) < 2 ^ 56" using batch_cap_bounds [OF need(2)] by auto
      show ?thesis
        by (rule append_grow [OF ok f fld refl ys(1) cap ys(3) refl]) (use stored thrown eq False in auto)
    qed
  qed
qed

end

lemma array_view_field:
  assumes "length (hp_mem h d) = 8 + 16 * n" "f < n" "array_field w h d f xs" "length xs < 2 ^ 32"
  shows "array_view w d f h = (Inr (concat xs), h)"
proof (cases "sb (hp_mem h d) f = 0")
  case True
  then show ?thesis using assms by (simp add: array_view_def array_size_def slot_a_ok array_field_def)
next
  case False
  then have blk: "array_block w xs (hp_mem h (sb (hp_mem h d) f))" and sa: "sa (hp_mem h d) f = length xs"
    using assms(3) by (simp_all add: array_field_def)
  have room: "8 + length xs * w \<le> length (hp_mem h (sb (hp_mem h d) f))"
    "slice 8 (length xs * w) (hp_mem h (sb (hp_mem h d) f)) = concat xs"
    using blk by (auto simp: array_block_def)
  show ?thesis
    using assms(1,2,4) room
    by (cases xs) (auto simp: array_view_def array_size_def slot_a_ok slot_b_ok sa load_ok)
qed

section \<open>Creating and retiring documents\<close>

lemma slice_replicate: "i + k \<le> n \<Longrightarrow> slice i k (replicate n x) = replicate k x"
  by (simp add: slice_def)

lemma le_nat_zeros [simp]: "le_nat (replicate k 0) = 0"
  by (induction k) simp_all

lemma new_root:
  fixes n i :: nat
  assumes "n < 2 ^ 32"
  defines "root \<equiv> splice_at 4 (le_bytes 4 n) (splice_at 0 (le_bytes 4 i) (replicate (8 + 16 * n) 0))"
  shows "length root = 8 + 16 * n" "le_nat (slice 4 4 root) = n" "le_nat (slice 0 4 root) = i mod 2 ^ 32"
    and "f < n \<Longrightarrow> sa root f = 0 \<and> sb root f = 0"
proof -
  let ?z = "replicate (8 + 16 * n) (0 :: u8)"
  let ?r = "splice_at 0 (le_bytes 4 i) ?z"
  have len: "length ?r = 8 + 16 * n" by simp
  show "length root = 8 + 16 * n" by (simp add: root_def)
  show "le_nat (slice 4 4 root) = n"
    using slice_splice_same [of 4 "le_bytes 4 n" ?r] assms(1) by (simp add: root_def le_nat_bytes)
  show "le_nat (slice 0 4 root) = i mod 2 ^ 32"
    using slice_splice_same [of 0 "le_bytes 4 i" ?z] slice_splice_other [of 4 "le_bytes 4 n" ?r 0 4]
    by (simp add: root_def le_nat_bytes)
  show "sa root f = 0 \<and> sb root f = 0" if "f < n"
    using slot_room [OF that] that
    by (simp add: sa_def sb_def root_def slice_splice_other slice_replicate slot_pos_def)
qed

context block_allocator
begin

lemma Doc_new_ok:
  assumes g: "good (hp_st h)" and n: "n < 2 ^ 32"
  obtains (created) d h' where "Doc_new A n i h = (Inr d, h')" "doc_ok good live h' d n"
      "d \<notin> live (hp_st h)" "live (hp_st h') = insert d (live (hp_st h))"
      "\<And>q. q \<noteq> d \<Longrightarrow> hp_mem h' q = hp_mem h q" "get_doc_id d h' = (Inr (i mod 2 ^ 32), h')"
      "\<And>f. f < n \<Longrightarrow> sa (hp_mem h' d) f = 0 \<and> sb (hp_mem h' d) f = 0"
    | (thrown) e h' where "Doc_new A n i h = (Inl (Thrown e), h')"
proof -
  have m: "8 + n * 16 < 2 ^ 63" using n by simp
  show ?thesis
  proof (cases rule: hmalloc_cases [OF g m])
    case (1 e s')
    then show ?thesis using thrown [of e] by (simp add: Doc_new_def)
  next
    case (2 d s')
    let ?root = "splice_at 4 (le_bytes 4 n) (splice_at 0 (le_bytes 4 i) (replicate (8 + 16 * n) 0))"
    let ?h' = "h\<lparr>hp_st := s', hp_mem := (hp_mem h)(d := ?root)\<rparr>"
    note root = new_root [OF n, where i = i]
    have run: "Doc_new A n i h = (Inr d, ?h')"
      using 2(1) by (simp add: Doc_new_def store_ok store_nat_ok splice_all mult.commute)
    have "doc_ok good live ?h' d n"
      using 2 root by (simp add: doc_ok_def doc_wf_def)
    moreover have "get_doc_id d ?h' = (Inr (i mod 2 ^ 32), ?h')"
      using root(1,3) by (simp add: get_doc_id_def load_nat_ok)
    ultimately show ?thesis
      using created [of d ?h'] run 2 root(4) by simp
  qed
qed

text \<open>Retiring frees the payload of every slot and then the root block, each exactly once.\<close>

lemma retire_slots_ok:
  assumes "good (hp_st h)" "d \<in> live (hp_st h)" "length (hp_mem h d) = 8 + 16 * n"
    and "set is \<subseteq> {..<n}" "distinct is"
    and "\<forall>f\<in>set is. sb (hp_mem h d) f \<noteq> 0 \<longrightarrow> sb (hp_mem h d) f \<in> live (hp_st h) - {d}"
    and "\<forall>f\<in>set is. \<forall>g\<in>set is. f \<noteq> g \<longrightarrow> sb (hp_mem h d) f \<noteq> 0 \<longrightarrow> sb (hp_mem h d) f \<noteq> sb (hp_mem h d) g"
  shows "\<exists>h'. retire_slots A d is h = (Inr (), h') \<and> good (hp_st h')
     \<and> live (hp_st h') = live (hp_st h) - sb (hp_mem h d) ` set is
     \<and> (\<forall>q. q \<notin> sb (hp_mem h d) ` set is \<longrightarrow> hp_mem h' q = hp_mem h q)"
  using assms
proof (induction "is" arbitrary: h)
  case (Cons i js)
  let ?b = "sb (hp_mem h d) i"
  have i: "i < n" using Cons.prems(4) by simp
  have sl: "slot_b d i h = (Inr ?b, h)" using Cons.prems(3) i by (simp add: slot_b_ok)
  have "\<exists>h1. free_if A ?b h = (Inr (), h1) \<and> good (hp_st h1) \<and> live (hp_st h1) = live (hp_st h) - {?b}
      \<and> (\<forall>q. q \<noteq> ?b \<longrightarrow> hp_mem h1 q = hp_mem h q)"
  proof (cases "?b = 0")
    case True
    then show ?thesis using Cons.prems(1) not_null by (simp add: free_if_def)
  next
    case False
    then show ?thesis
      using hfree_ok [OF Cons.prems(1), of ?b] Cons.prems(6) by (auto simp: free_if_def)
  qed
  then obtain h1 where h1: "free_if A ?b h = (Inr (), h1)" "good (hp_st h1)"
    "live (hp_st h1) = live (hp_st h) - {?b}" "\<And>q. q \<noteq> ?b \<Longrightarrow> hp_mem h1 q = hp_mem h q" by blast
  have db: "d \<noteq> ?b" using live_nz [OF Cons.prems(1,2)] Cons.prems(6) by (cases "?b = 0") auto
  then have root: "hp_mem h1 d = hp_mem h d" using h1(4) by simp
  have apart: "sb (hp_mem h d) f \<noteq> ?b" if "f \<in> set js" "sb (hp_mem h d) f \<noteq> 0" for f
    using Cons.prems(5,7) that by auto
  have "\<exists>h'. retire_slots A d js h1 = (Inr (), h') \<and> good (hp_st h')
      \<and> live (hp_st h') = live (hp_st h1) - sb (hp_mem h1 d) ` set js
      \<and> (\<forall>q. q \<notin> sb (hp_mem h1 d) ` set js \<longrightarrow> hp_mem h' q = hp_mem h1 q)"
    by (rule Cons.IH) (use Cons.prems h1 db root apart in auto)
  then show ?case using sl h1 root by auto
qed simp

lemma Retire_ok:
  assumes ok: "doc_ok good live h d n"
  shows "\<exists>h'. Retire A d h = (Inr (), h') \<and> good (hp_st h')
     \<and> live (hp_st h') = live (hp_st h) - ({d} \<union> sb (hp_mem h d) ` {..<n})
     \<and> (\<forall>q. q \<notin> {d} \<union> sb (hp_mem h d) ` {..<n} \<longrightarrow> hp_mem h' q = hp_mem h q)"
proof -
  have g: "good (hp_st h)" and wf: "doc_wf (live (hp_st h)) (hp_mem h) d n" using ok by (simp_all add: doc_ok_def)
  have d: "d \<in> live (hp_st h)" "length (hp_mem h d) = 8 + 16 * n" "le_nat (slice 4 4 (hp_mem h d)) = n"
    using wf by (simp_all add: doc_wf_def)
  have d0: "d \<noteq> 0" by (rule live_nz [OF g d(1)])
  have ex: "\<exists>h1. retire_slots A d [0..<n] h = (Inr (), h1) \<and> good (hp_st h1)
     \<and> live (hp_st h1) = live (hp_st h) - sb (hp_mem h d) ` set [0..<n]
     \<and> (\<forall>q. q \<notin> sb (hp_mem h d) ` set [0..<n] \<longrightarrow> hp_mem h1 q = hp_mem h q)"
    by (rule retire_slots_ok [OF g d(1,2)]) (use wf in \<open>auto simp: doc_wf_def\<close>)
  then obtain h1 where h1: "retire_slots A d [0..<n] h = (Inr (), h1)" "good (hp_st h1)"
    "live (hp_st h1) = live (hp_st h) - sb (hp_mem h d) ` {..<n}"
    "\<And>q. q \<notin> sb (hp_mem h d) ` {..<n} \<Longrightarrow> hp_mem h1 q = hp_mem h q"
    by (auto simp: atLeast0LessThan)
  have "d \<notin> sb (hp_mem h d) ` {..<n}" using wf d0 by (force simp: doc_wf_def)
  then have d1: "d \<in> live (hp_st h1)" using h1(3) d(1) by simp
  obtain s' where s': "hfree A d h1 = (Inr (), h1\<lparr>hp_st := s', hp_mem := (hp_mem h1)(d := [])\<rparr>)"
    "good s'" "live s' = live (hp_st h1) - {d}" using hfree_ok [OF h1(2) d1] by blast
  have "Retire A d h = (Inr (), h1\<lparr>hp_st := s', hp_mem := (hp_mem h1)(d := [])\<rparr>)"
    using d d0 h1(1) s'(1) by (simp add: Retire_def load_nat_ok)
  then show ?thesis using s'(2,3) h1(3,4) by auto
qed

text \<open>
  Storing a string frees the old payload before it allocates the new one: when the allocation
  throws, the slot still refers to the freed block.
\<close>

lemma put_string_thrown:
  assumes ok: "doc_ok good live h d n" and f: "f < n" and v: "length v < 2 ^ 63"
    and old: "sb (hp_mem h d) f \<noteq> 0" and thr: "put_string A d f v h = (Inl e, h')"
  shows "sb (hp_mem h' d) f = sb (hp_mem h d) f \<and> sb (hp_mem h' d) f \<notin> live (hp_st h')"
proof -
  let ?b = "sb (hp_mem h d) f"
  let ?m = "if 0 < length v then length v else 1"
  note r = root_other [OF ok f]
  obtain h1 where h1: "free_if A ?b h = (Inr (), h1)" "good (hp_st h1)"
    "live (hp_st h1) = live (hp_st h) - {?b}" "\<And>q. q \<noteq> ?b \<Longrightarrow> hp_mem h1 q = hp_mem h q"
    using free_if_ok [OF ok f refl] by blast
  have m: "?m < 2 ^ 63" using v by simp
  show ?thesis
  proof (cases rule: put_string_ok [OF ok f v])
    case (1 h4)
    then show ?thesis using thr by simp
  next
    case (2 e' h4)
    show ?thesis
    proof (cases rule: hmalloc_cases [OF h1(2) m])
      case (1 e'' s')
      then have "h' = h1\<lparr>hp_st := s'\<rparr>" using thr by (simp add: put_string_def r(4) h1(1))
      then show ?thesis using 1 h1(3) h1(4) [of d] r(1) by simp
    next
      case (2 p s')
      let ?h2 = "h1\<lparr>hp_st := s', hp_mem := (hp_mem h1)(p := map (al_junk A p) [0..<?m])\<rparr>"
      have pd: "p \<noteq> d" using 2(3) h1(3) r(1,2) by auto
      let ?h3 = "if 0 < length v then ?h2\<lparr>hp_mem := (hp_mem ?h2)(p := v)\<rparr> else ?h2"
      have st: "(if 0 < length v then store p 0 v else hret ()) ?h2 = (Inr (), ?h3)"
        by (simp add: store_ok splice_all)
      have "length (hp_mem ?h3 d) = 8 + 16 * n" using pd h1(4) [of d] r(1,3) by simp
      then have "set_slot d f (length v) p ?h3 =
          (Inr (), ?h3\<lparr>hp_mem := (hp_mem ?h3)(d := put_slot f (length v) p (hp_mem ?h3 d))\<rparr>)"
        by (rule set_slot_ok [OF _ f])
      then have "fst (put_string A d f v h) = Inr ()"
        using st 2(1) by (simp add: put_string_def r(4) h1(1))
      then show ?thesis using thr by simp
    qed
  qed
qed

end

text \<open>A field that is kept reads the same.\<close>

lemma kept_reads:
  assumes "field_kept live h h' d n f" "doc_wf (live (hp_st h)) (hp_mem h) d n" "f < n" "g < n" "g \<noteq> f"
  shows "sa (hp_mem h' d) g = sa (hp_mem h d) g" "sb (hp_mem h' d) g = sb (hp_mem h d) g"
    "sb (hp_mem h d) g \<noteq> 0 \<Longrightarrow> hp_mem h' (sb (hp_mem h d) g) = hp_mem h (sb (hp_mem h d) g)"
proof -
  show "sa (hp_mem h' d) g = sa (hp_mem h d) g" "sb (hp_mem h' d) g = sb (hp_mem h d) g"
    using assms by (simp_all add: field_kept_def kept_def)
  assume "sb (hp_mem h d) g \<noteq> 0"
  then have "sb (hp_mem h d) g \<in> live (hp_st h) - {d}" "sb (hp_mem h d) g \<noteq> sb (hp_mem h d) f"
    using assms by (auto simp: doc_wf_def)
  then show "hp_mem h' (sb (hp_mem h d) g) = hp_mem h (sb (hp_mem h d) g)"
    using assms(1) by (simp add: field_kept_def kept_def)
qed

lemma kept_get_string:
  assumes "field_kept live h h' d n f" "doc_wf (live (hp_st h)) (hp_mem h) d n"
    and "length (hp_mem h' d) = 8 + 16 * n" "f < n" "g < n" "g \<noteq> f"
  shows "fst (get_string d g h') = fst (get_string d g h)"
  using kept_reads [OF assms(1,2,4-6)] assms(3,5) doc_wf_length [OF assms(2)]
  by (simp add: get_string_def slot_b_ok slot_a_ok load_def)

lemma kept_array_field:
  assumes "field_kept live h h' d n f" "doc_wf (live (hp_st h)) (hp_mem h) d n" "f < n" "g < n" "g \<noteq> f"
  shows "array_field w h' d g xs = array_field w h d g xs"
  using kept_reads [OF assms] by (simp add: array_field_def)

end
