(* ===== verification/IndexKV.thy ===== *)
theory IndexKV
  imports Index DocCorrect
begin

text \<open>
  Correctness of the key-value index, for every allocator with the contract \<open>upkept_allocator\<close>.
  The rows of an index are documents whose blocks are live, pairwise disjoint and disjoint from a
  set of reserved blocks (the header of the index, the roots of posting lists); each is stored
  under its own primary key.
\<close>

section \<open>The allocator contract of an index\<close>

text \<open>
  What an index relies on beyond the contract of documents: flushing a thread cache and reclaiming
  retired blocks leave the live blocks alone, and reclaiming reports no error.
\<close>

locale upkept_allocator = block_allocator A good live
  for A :: "'st Allocator" and good :: "'st \<Rightarrow> bool" and live :: "'st \<Rightarrow> nat set" +
  fixes U :: "'st upkeep"
  assumes flush_keeps: "good st \<Longrightarrow> good (up_flush U st) \<and> live (up_flush U st) = live st"
    and reclaim_keeps: "good st \<Longrightarrow> \<exists>n st'. up_reclaim U st = (Inr n, st') \<and> good st' \<and> live st' = live st"

section \<open>Reading the heap\<close>

lemma iret_apply [simp]: "iret x s = (Inr x, s)"
  by (simp add: iret_def)

lemma ithen_ret [simp]: "m s = (Inr x, s') \<Longrightarrow> ithen m k s = k x s'"
  "m s = (Inl e, s') \<Longrightarrow> ithen m k s = (Inl e, s')"
  by (simp_all add: ithen_def)

lemma on_heap_ok: "m (ix_heap s) = (Inr x, h) \<Longrightarrow> on_heap m s = (Inr x, s\<lparr>ix_heap := h\<rparr>)"
  by (simp add: on_heap_def)

lemma on_heap_thrown: "m (ix_heap s) = (Inl e, h) \<Longrightarrow> on_heap m s = (Inl (DocError e), s\<lparr>ix_heap := h\<rparr>)"
  by (simp add: on_heap_def)

lemma on_heap_read: "m (ix_heap s) = (Inr x, ix_heap s) \<Longrightarrow> on_heap m s = (Inr x, s)"
  by (simp add: on_heap_def)

abbreviation mem_of :: "('st, 'x) kv_index_scheme \<Rightarrow> nat \<Rightarrow> bytes" where
  "mem_of s \<equiv> hp_mem (ix_heap s)"

abbreviation docs_map :: "('st, 'x) kv_index_scheme \<Rightarrow> string \<rightharpoonup> nat" where
  "docs_map s \<equiv> cm_map (snd (ix_docs s))"

definition n_slots :: "Schema \<Rightarrow> nat" where
  "n_slots sch = unat (sc_max_field_id sch) + 1"

definition doc_blocks :: "nat \<Rightarrow> (nat \<Rightarrow> bytes) \<Rightarrow> nat \<Rightarrow> nat set" where
  "doc_blocks n mem d = insert d (sb (mem d) ` {..<n} - {0})"

definition str_of :: "(nat \<Rightarrow> bytes) \<Rightarrow> nat \<Rightarrow> nat \<Rightarrow> bytes" where
  "str_of mem d f = (if sb (mem d) f = 0 then [] else slice 0 (sa (mem d) f) (mem (sb (mem d) f)))"

definition readable :: "(nat \<Rightarrow> bytes) \<Rightarrow> nat \<Rightarrow> nat \<Rightarrow> bool" where
  "readable mem d f \<longleftrightarrow> (sb (mem d) f \<noteq> 0 \<longrightarrow> sa (mem d) f \<le> length (mem (sb (mem d) f)))"

definition doc_id_of :: "(nat \<Rightarrow> bytes) \<Rightarrow> nat \<Rightarrow> nat" where
  "doc_id_of mem d = le_nat (slice 0 4 (mem d))"

text \<open>A schema whose look-up maps were rebuilt after its fields were loaded.\<close>

definition schema_ok :: "Schema \<Rightarrow> bool" where
  "schema_ok sch \<longleftrightarrow> (\<forall>f\<in>set (Schema.fields sch). fd_field_id f \<le> sc_max_field_id sch)
     \<and> (\<forall>p. FindField sch (sc_pk sch) = Some p \<longrightarrow> deref sch p \<noteq> None)"

definition row_ok :: "Schema \<Rightarrow> nat set \<Rightarrow> (nat \<Rightarrow> bytes) \<Rightarrow> nat \<Rightarrow> bool" where
  "row_ok sch L mem d \<longleftrightarrow> doc_wf L mem d (n_slots sch)
     \<and> (\<forall>f\<in>set (Schema.fields sch). fd_type f = DString \<longrightarrow> readable mem d (unat (fd_field_id f)))"

definition pk_of :: "Schema \<Rightarrow> (nat \<Rightarrow> bytes) \<Rightarrow> nat \<Rightarrow> string" where
  "pk_of sch mem d =
     (case FindField sch (sc_pk sch) of None \<Rightarrow> [] | Some ptr \<Rightarrow>
      case deref sch ptr of None \<Rightarrow> [] | Some pk \<Rightarrow>
        let fid = unat (fd_field_id pk) in
        case fd_type pk of
          DInt32 \<Rightarrow> to_string32 (word_of_nat (sa (mem d) fid))
        | DInt64 \<Rightarrow> to_string64 (word_of_nat (sa (mem d) fid))
        | DString \<Rightarrow> as_string (str_of mem d fid)
        | _ \<Rightarrow> [])"

lemma deref_field: "deref sch p = Some f \<Longrightarrow> f \<in> set (Schema.fields sch)"
  by (force simp: deref_def Schema.fields_def dest: map_of_SomeD)

lemma field_slot: "schema_ok sch \<Longrightarrow> f \<in> set (Schema.fields sch) \<Longrightarrow> unat (fd_field_id f) < n_slots sch"
  by (auto simp: schema_ok_def n_slots_def word_le_nat_alt)

text \<open>The reads of a row stay inside its blocks and give what the bytes say.\<close>

lemma row_reads:
  assumes "row_ok sch L (hp_mem h) d" "f < n_slots sch"
  shows "get_int32 d f h = (Inr (word_of_nat (sa (hp_mem h d) f)), h)"
    "get_int64 d f h = (Inr (word_of_nat (sa (hp_mem h d) f)), h)"
    "readable (hp_mem h) d f \<Longrightarrow> get_string d f h = (Inr (str_of (hp_mem h) d f), h)"
proof -
  have len: "length (hp_mem h d) = 8 + 16 * n_slots sch" using assms(1) by (simp add: row_ok_def doc_wf_def)
  show "get_int32 d f h = (Inr (word_of_nat (sa (hp_mem h d) f)), h)"
    "get_int64 d f h = (Inr (word_of_nat (sa (hp_mem h d) f)), h)"
    using slot_a_ok [OF len assms(2)] by (simp_all add: get_int32_def get_int64_def)
  show "get_string d f h = (Inr (str_of (hp_mem h) d f), h)" if "readable (hp_mem h) d f"
    using slot_a_ok [OF len assms(2)] slot_b_ok [OF len assms(2)] that
    by (simp add: get_string_def str_of_def readable_def load_ok)
qed

lemma row_id: "row_ok sch L (hp_mem h) d \<Longrightarrow> get_doc_id d h = (Inr (doc_id_of (hp_mem h) d), h)"
  by (simp add: row_ok_def doc_wf_def get_doc_id_def load_nat_ok doc_id_of_def)

lemma ExtractPk_ok:
  assumes "schema_ok sch" "row_ok sch L (mem_of s) d"
  shows "ExtractPk sch d s = (Inr (pk_of sch (mem_of s) d), s)"
proof (cases "FindField sch (sc_pk sch)")
  case None
  then show ?thesis by (simp add: ExtractPk_def pk_of_def)
next
  case (Some p)
  then obtain pk where pk: "deref sch p = Some pk" using assms(1) by (auto simp: schema_ok_def)
  note f = deref_field [OF pk]
  note r = row_reads [OF assms(2) field_slot [OF assms(1) f]]
  have str: "fd_type pk = DString \<Longrightarrow> readable (mem_of s) d (unat (fd_field_id pk))"
    using assms(2) f by (simp add: row_ok_def)
  show ?thesis
    using r str by (cases "fd_type pk") (simp_all add: ExtractPk_def pk_of_def Some pk on_heap_read)
qed

section \<open>Rows keep their contents\<close>

definition same_doc :: "nat \<Rightarrow> (nat \<Rightarrow> bytes) \<Rightarrow> (nat \<Rightarrow> bytes) \<Rightarrow> nat \<Rightarrow> bool" where
  "same_doc n mem mem' d \<longleftrightarrow> (\<forall>q\<in>doc_blocks n mem d. mem' q = mem q)"

lemma same_doc_reads:
  assumes "same_doc n mem mem' d"
  shows "mem' d = mem d" "doc_blocks n mem' d = doc_blocks n mem d" "doc_id_of mem' d = doc_id_of mem d"
    and "f < n \<Longrightarrow> str_of mem' d f = str_of mem d f" "f < n \<Longrightarrow> readable mem' d f = readable mem d f"
proof -
  show root: "mem' d = mem d" using assms by (simp add: same_doc_def doc_blocks_def)
  then show "doc_blocks n mem' d = doc_blocks n mem d" "doc_id_of mem' d = doc_id_of mem d"
    by (simp_all add: doc_blocks_def doc_id_of_def)
  assume f: "f < n"
  then have "sb (mem d) f \<noteq> 0 \<Longrightarrow> mem' (sb (mem d) f) = mem (sb (mem d) f)"
    using assms by (simp add: same_doc_def doc_blocks_def)
  then show "str_of mem' d f = str_of mem d f" "readable mem' d f = readable mem d f"
    by (simp_all add: str_of_def readable_def root)
qed

lemma pk_of_same:
  assumes "schema_ok sch" "same_doc (n_slots sch) mem mem' d"
  shows "pk_of sch mem' d = pk_of sch mem d"
proof (cases "FindField sch (sc_pk sch)")
  case (Some p)
  then obtain pk where pk: "deref sch p = Some pk" using assms(1) by (auto simp: schema_ok_def)
  note same_doc_reads(1) [OF assms(2)] same_doc_reads(4) [OF assms(2) field_slot [OF assms(1) deref_field [OF pk]]]
  then show ?thesis by (cases "fd_type pk") (simp_all add: pk_of_def Some pk)
qed (simp add: pk_of_def)

lemma row_blocks_live: "row_ok sch L mem d \<Longrightarrow> doc_blocks (n_slots sch) mem d \<subseteq> L"
  by (auto simp: row_ok_def doc_wf_def doc_blocks_def)

lemma row_ok_same:
  assumes "row_ok sch L mem d" "schema_ok sch" "same_doc (n_slots sch) mem mem' d"
    "doc_blocks (n_slots sch) mem d \<subseteq> L'"
  shows "row_ok sch L' mem' d"
proof -
  note r = same_doc_reads [OF assms(3)]
  have "sb (mem d) f \<in> L' - {d}" if "f < n_slots sch" "sb (mem d) f \<noteq> 0" for f
  proof -
    have "sb (mem d) f \<in> doc_blocks (n_slots sch) mem d" using that by (simp add: doc_blocks_def)
    moreover have "sb (mem d) f \<noteq> d" using assms(1) that by (auto simp: row_ok_def doc_wf_def)
    ultimately show ?thesis using assms(4) by auto
  qed
  moreover have "d \<in> L'" using assms(4) by (auto simp: doc_blocks_def)
  ultimately have "doc_wf L' mem' d (n_slots sch)"
    using assms(1) by (simp add: row_ok_def doc_wf_def r(1))
  then show ?thesis using assms(1) r(5) field_slot [OF assms(2)] by (simp add: row_ok_def)
qed

section \<open>The rows of an index\<close>

definition rows_ok :: "Schema \<Rightarrow> nat set \<Rightarrow> (nat \<Rightarrow> bytes) \<Rightarrow> nat set \<Rightarrow> (string \<rightharpoonup> nat) \<Rightarrow> bool" where
  "rows_ok sch L mem R M \<longleftrightarrow>
     (\<forall>k d. M k = Some d \<longrightarrow> row_ok sch L mem d \<and> pk_of sch mem d = k \<and> doc_blocks (n_slots sch) mem d \<inter> R = {})
     \<and> (\<forall>k k' d d'. M k = Some d \<longrightarrow> M k' = Some d' \<longrightarrow> k \<noteq> k' \<longrightarrow>
          doc_blocks (n_slots sch) mem d \<inter> doc_blocks (n_slots sch) mem d' = {})"

text \<open>A document that is not stored yet: well formed and sharing no block with a row.\<close>

definition fresh_row :: "Schema \<Rightarrow> nat set \<Rightarrow> (nat \<Rightarrow> bytes) \<Rightarrow> nat set \<Rightarrow> (string \<rightharpoonup> nat) \<Rightarrow> nat \<Rightarrow> bool" where
  "fresh_row sch L mem R M d \<longleftrightarrow> row_ok sch L mem d \<and> doc_blocks (n_slots sch) mem d \<inter> R = {}
     \<and> (\<forall>d'\<in>ran M. doc_blocks (n_slots sch) mem d \<inter> doc_blocks (n_slots sch) mem d' = {})"

definition old_blocks :: "Schema \<Rightarrow> (nat \<Rightarrow> bytes) \<Rightarrow> (string \<rightharpoonup> nat) \<Rightarrow> string \<Rightarrow> nat set" where
  "old_blocks sch mem M k = (case M k of None \<Rightarrow> {} | Some d \<Rightarrow> doc_blocks (n_slots sch) mem d)"

lemma rows_okD:
  assumes "rows_ok sch L mem R M" "M k = Some d"
  shows "row_ok sch L mem d" "pk_of sch mem d = k" "doc_blocks (n_slots sch) mem d \<inter> R = {}"
    "M k' = Some d' \<Longrightarrow> k \<noteq> k' \<Longrightarrow> doc_blocks (n_slots sch) mem d \<inter> doc_blocks (n_slots sch) mem d' = {}"
  using assms unfolding rows_ok_def by blast+

lemma map_le_Some: "M' \<subseteq>\<^sub>m M \<Longrightarrow> M' k = Some d \<Longrightarrow> M k = Some d"
  by (auto simp: map_le_def dom_def)

lemma rows_ok_frame:
  assumes "rows_ok sch L mem R M" "schema_ok sch" "M' \<subseteq>\<^sub>m M"
    and "\<And>k d. M' k = Some d \<Longrightarrow> doc_blocks (n_slots sch) mem d \<subseteq> L' \<and> doc_blocks (n_slots sch) mem d \<inter> R' = {}"
    and "\<And>k d. M' k = Some d \<Longrightarrow> same_doc (n_slots sch) mem mem' d"
  shows "rows_ok sch L' mem' R' M'"
proof -
  note old = map_le_Some [OF assms(3)]
  have "row_ok sch L' mem' d \<and> pk_of sch mem' d = k \<and> doc_blocks (n_slots sch) mem' d \<inter> R' = {}"
    if m: "M' k = Some d" for k d
    using row_ok_same [OF _ assms(2) assms(5) [OF m]] pk_of_same [OF assms(2) assms(5) [OF m]]
      rows_okD(1,2) [OF assms(1) old [OF m]] assms(4) [OF m] same_doc_reads(2) [OF assms(5) [OF m]] by simp
  moreover have "doc_blocks (n_slots sch) mem' d \<inter> doc_blocks (n_slots sch) mem' d' = {}"
    if "M' k = Some d" "M' k' = Some d'" "k \<noteq> k'" for k k' d d'
    using rows_okD(4) [OF assms(1) old [OF that(1)] old [OF that(2)] that(3)]
      same_doc_reads(2) [OF assms(5) [OF that(1)]] same_doc_reads(2) [OF assms(5) [OF that(2)]] by simp
  ultimately show ?thesis unfolding rows_ok_def by blast
qed

lemma rows_ok_insert:
  assumes "rows_ok sch L mem R M" "fresh_row sch L mem R M d" "k = pk_of sch mem d"
  shows "rows_ok sch L mem R (M(k \<mapsto> d))"
proof -
  have new: "doc_blocks (n_slots sch) mem d \<inter> doc_blocks (n_slots sch) mem d' = {}" if "M k' = Some d'" for k' d'
    using assms(2) that by (auto simp: fresh_row_def ran_def)
  have "row_ok sch L mem e \<and> pk_of sch mem e = j \<and> doc_blocks (n_slots sch) mem e \<inter> R = {}"
    if "(M(k \<mapsto> d)) j = Some e" for j e
    using that assms(2,3) rows_okD(1-3) [OF assms(1)] by (auto simp: fresh_row_def split: if_splits)
  moreover have "doc_blocks (n_slots sch) mem e \<inter> doc_blocks (n_slots sch) mem e' = {}"
    if "(M(k \<mapsto> d)) j = Some e" "(M(k \<mapsto> d)) j' = Some e'" "j \<noteq> j'" for j j' e e'
    using that new rows_okD(4) [OF assms(1)] by (auto split: if_splits)
  ultimately show ?thesis unfolding rows_ok_def by blast
qed

lemma fresh_row_same:
  assumes "fresh_row sch L mem R M d" "schema_ok sch" "M' \<subseteq>\<^sub>m M" "rows_ok sch L mem R M"
    and "doc_blocks (n_slots sch) mem d \<subseteq> L'" "same_doc (n_slots sch) mem mem' d"
    and "doc_blocks (n_slots sch) mem d \<inter> R' = {}"
    and "\<And>k d. M' k = Some d \<Longrightarrow> same_doc (n_slots sch) mem mem' d"
  shows "fresh_row sch L' mem' R' M' d"
proof -
  have "doc_blocks (n_slots sch) mem' d \<inter> doc_blocks (n_slots sch) mem' d' = {}" if "d' \<in> ran M'" for d'
  proof -
    obtain k where k: "M' k = Some d'" using \<open>d' \<in> ran M'\<close> by (auto simp: ran_def)
    then have "d' \<in> ran M" using map_le_Some [OF assms(3)] by (auto simp: ran_def)
    then show ?thesis
      using assms(1) same_doc_reads(2) [OF assms(6)] same_doc_reads(2) [OF assms(8) [OF k]]
      by (simp add: fresh_row_def)
  qed
  moreover have "row_ok sch L' mem' d"
    using row_ok_same [OF _ assms(2,6,5)] assms(1) by (auto simp: fresh_row_def)
  ultimately show ?thesis
    using same_doc_reads(2) [OF assms(6)] assms(7) by (simp add: fresh_row_def)
qed

section \<open>The invariant and the operations\<close>

definition kv_inv :: "(string \<Rightarrow> u64) \<Rightarrow> ('st \<Rightarrow> bool) \<Rightarrow> ('st \<Rightarrow> nat set) \<Rightarrow> Schema \<Rightarrow> nat set
    \<Rightarrow> ('st, 'x) kv_index_scheme \<Rightarrow> bool" where
  "kv_inv hash good live sch R s \<longleftrightarrow> schema_ok sch \<and> good (hp_st (ix_heap s))
     \<and> cm_inv hash (snd (ix_docs s)) \<and> \<not> cm_lock_free (snd (ix_docs s))
     \<and> length (mem_of s (ix_hdr s)) = 8 \<and> ix_hdr s \<in> R \<and> R \<subseteq> live (hp_st (ix_heap s))
     \<and> rows_ok sch (live (hp_st (ix_heap s))) (mem_of s) R (docs_map s)"

lemma kv_invD:
  assumes "kv_inv hash good live sch R s"
  shows "schema_ok sch" "good (hp_st (ix_heap s))" "cm_inv hash (snd (ix_docs s))" "\<not> cm_lock_free (snd (ix_docs s))"
    "R \<subseteq> live (hp_st (ix_heap s))" "rows_ok sch (live (hp_st (ix_heap s))) (mem_of s) R (docs_map s)"
    "length (mem_of s (ix_hdr s)) = 8" "ix_hdr s \<in> R"
  using assms by (simp_all add: kv_inv_def)

lemma docs_get_map: "cm_inv hash (snd (ix_docs s)) \<Longrightarrow> docs_get hash k s = (Inr (docs_map s k), s)"
  by (simp add: docs_get_def cm_get_map)

lemma cm_put_cases:
  assumes "cm_inv hash (snd t)" "\<not> cm_lock_free (snd t)"
  obtains (stored) t' where "cm_put hash k v t = Inr t'" "cm_inv hash (snd t')" "\<not> cm_lock_free (snd t')"
      "cm_map (snd t') = (cm_map (snd t))(k \<mapsto> v)"
    | (full) "cm_put hash k v t = Inl UndefinedShift" "31 \<le> cm_bits (snd t)"
proof -
  obtain c m where t: "t = (c, m)" by (cases t)
  show ?thesis
  proof (cases "cm_put hash k v (c, m)")
    case (Inl e)
    then have "e = UndefinedShift" "31 \<le> cm_bits m" using assms(2) t
      by (auto simp: cm_put_def Let_def trigger_rehash_def rehash_locked_def split: if_splits)
    then show ?thesis using full Inl t by simp
  next
    case (Inr t')
    have "cm_inv hash m" using assms(1) t by simp
    from cm_put_spec [OF this, of k v c "fst t'" "snd t'"] show ?thesis
      using stored [of t'] Inr t assms(2) by simp
  qed
qed

lemma docs_put_ok:
  assumes "cm_inv hash (snd (ix_docs s))" "\<not> cm_lock_free (snd (ix_docs s))" "cm_bits (snd (ix_docs s)) < 31"
  obtains m where "docs_put hash k v s = (Inr (), s\<lparr>ix_docs := m\<rparr>)" "cm_inv hash (snd m)" "\<not> cm_lock_free (snd m)"
    "cm_map (snd m) = (docs_map s)(k \<mapsto> v)"
  using assms(3) that by (cases rule: cm_put_cases [OF assms(1,2), of k v]) (auto simp: docs_put_def)

lemma docs_erase_ok:
  assumes "cm_inv hash (snd (ix_docs s))" "\<not> cm_lock_free (snd (ix_docs s))"
  obtains m where "docs_erase hash k s = (Inr (k \<in> dom (docs_map s)), s\<lparr>ix_docs := m\<rparr>)" "cm_inv hash (snd m)"
    "\<not> cm_lock_free (snd m)" "cm_map (snd m) = (docs_map s)(k := None)"
proof -
  obtain c m where s: "ix_docs s = (c, m)" by (cases "ix_docs s")
  obtain r m' where e: "cm_erase hash k m = Inr (r, m')" using cm_erase_ok [of m hash k] assms s by auto
  have i: "cm_inv hash m" using assms(1) s by simp
  note sp = cm_erase_spec [OF i e]
  then have "docs_erase hash k s = (Inr (k \<in> dom (docs_map s)), s\<lparr>ix_docs := (c, m')\<rparr>)"
    using e s by (simp add: docs_erase_def thread_erase_def)
  then show ?thesis using that [of "(c, m')"] sp s assms(2) by simp
qed

context upkept_allocator
begin

text \<open>The common part of \<^verbatim>\<open>Upsert\<close> and \<^verbatim>\<open>Delete\<close>: the row under a key, if any, is retired.\<close>

lemma retire_row:
  assumes inv: "kv_inv hash good live sch R s"
  obtains h where "(case docs_map s k of Some old_off \<Rightarrow> on_heap (Retire A old_off) | None \<Rightarrow> iret ()) s
        = (Inr (), s\<lparr>ix_heap := h\<rparr>)"
      "good (hp_st h)" "live (hp_st h) = live (hp_st (ix_heap s)) - old_blocks sch (mem_of s) (docs_map s) k"
      "\<And>q. q \<in> live (hp_st h) \<Longrightarrow> hp_mem h q = mem_of s q"
      "rows_ok sch (live (hp_st h)) (hp_mem h) R ((docs_map s)(k := None))"
proof -
  note i = kv_invD [OF inv]
  have "\<exists>h. (case docs_map s k of Some old_off \<Rightarrow> on_heap (Retire A old_off) | None \<Rightarrow> iret ()) s
        = (Inr (), s\<lparr>ix_heap := h\<rparr>) \<and> good (hp_st h)
      \<and> live (hp_st h) = live (hp_st (ix_heap s)) - old_blocks sch (mem_of s) (docs_map s) k
      \<and> (\<forall>q\<in>live (hp_st h). hp_mem h q = mem_of s q)"
  proof (cases "docs_map s k")
    case None
    then show ?thesis using i(2) by (intro exI [of _ "ix_heap s"]) (simp add: old_blocks_def)
  next
    case (Some d)
    have "doc_ok good live (ix_heap s) d (n_slots sch)"
      using rows_okD(1) [OF i(6) Some] i(2) by (simp add: doc_ok_def row_ok_def)
    from Retire_ok [OF this] obtain h where h: "Retire A d (ix_heap s) = (Inr (), h)" "good (hp_st h)"
      "live (hp_st h) = live (hp_st (ix_heap s)) - ({d} \<union> sb (mem_of s d) ` {..<n_slots sch})"
      "\<forall>q. q \<notin> {d} \<union> sb (mem_of s d) ` {..<n_slots sch} \<longrightarrow> hp_mem h q = mem_of s q" by blast
    have l: "live (hp_st h) = live (hp_st (ix_heap s)) - doc_blocks (n_slots sch) (mem_of s) d"
      using h(3) not_null [OF i(2)] by (auto simp: doc_blocks_def)
    have "\<forall>q\<in>live (hp_st h). hp_mem h q = mem_of s q" using h(3,4) by blast
    then show ?thesis using h(1,2) l Some by (intro exI [of _ h]) (simp add: on_heap_ok old_blocks_def)
  qed
  then obtain h where h: "(case docs_map s k of Some old_off \<Rightarrow> on_heap (Retire A old_off) | None \<Rightarrow> iret ()) s
        = (Inr (), s\<lparr>ix_heap := h\<rparr>)" "good (hp_st h)"
      "live (hp_st h) = live (hp_st (ix_heap s)) - old_blocks sch (mem_of s) (docs_map s) k"
      "\<And>q. q \<in> live (hp_st h) \<Longrightarrow> hp_mem h q = mem_of s q" by blast
  have sub: "doc_blocks (n_slots sch) (mem_of s) d \<subseteq> live (hp_st h)" if "docs_map s k' = Some d" "k' \<noteq> k" for k' d
  proof -
    have "doc_blocks (n_slots sch) (mem_of s) d \<inter> old_blocks sch (mem_of s) (docs_map s) k = {}"
      using rows_okD(4) [OF i(6) that(1), of k] that(2) by (simp add: old_blocks_def split: option.splits)
    then show ?thesis using row_blocks_live [OF rows_okD(1) [OF i(6) that(1)]] h(3) by blast
  qed
  have "rows_ok sch (live (hp_st h)) (hp_mem h) R ((docs_map s)(k := None))"
  proof (rule rows_ok_frame [OF i(6,1)])
    show "(docs_map s)(k := None) \<subseteq>\<^sub>m docs_map s" by (simp add: map_le_def)
    show "doc_blocks (n_slots sch) (mem_of s) d \<subseteq> live (hp_st h) \<and> doc_blocks (n_slots sch) (mem_of s) d \<inter> R = {}"
      "same_doc (n_slots sch) (mem_of s) (hp_mem h) d" if m: "((docs_map s)(k := None)) k' = Some d" for k' d
      using sub [of k' d] rows_okD(3) [OF i(6), of k' d] h(4) m
      by (auto simp: same_doc_def split: if_splits)
  qed
  then show ?thesis using that h by blast
qed

lemma reserved_kept:
  assumes "kv_inv hash good live sch R s"
  shows "R \<inter> old_blocks sch (mem_of s) (docs_map s) k = {}"
  using kv_invD(6) [OF assms] by (auto simp: old_blocks_def dest: rows_okD(3) split: option.splits)

lemma fresh_kept:
  "fresh_row sch L mem R M d \<Longrightarrow> doc_blocks (n_slots sch) mem d \<inter> old_blocks sch mem M k = {}"
  by (auto simp: fresh_row_def old_blocks_def ran_def split: option.splits)

lemma Upsert_ok:
  assumes inv: "kv_inv hash good live sch R s" and bits: "cm_bits (snd (ix_docs s)) < 31"
    and fresh: "fresh_row sch (live (hp_st (ix_heap s))) (mem_of s) R (docs_map s) d"
    and k: "k = pk_of sch (mem_of s) d"
  obtains h m where "Upsert hash A sch d s = (Inr (), s\<lparr>ix_heap := h, ix_docs := m\<rparr>)"
    "kv_inv hash good live sch R (s\<lparr>ix_heap := h, ix_docs := m\<rparr>)" "cm_map (snd m) = (docs_map s)(k \<mapsto> d)"
    "live (hp_st h) = live (hp_st (ix_heap s)) - old_blocks sch (mem_of s) (docs_map s) k"
    "\<And>q. q \<in> live (hp_st h) \<Longrightarrow> hp_mem h q = mem_of s q"
proof -
  note i = kv_invD [OF inv]
  have row: "row_ok sch (live (hp_st (ix_heap s))) (mem_of s) d" using fresh by (simp add: fresh_row_def)
  obtain h where h: "(case docs_map s k of Some old_off \<Rightarrow> on_heap (Retire A old_off) | None \<Rightarrow> iret ()) s
        = (Inr (), s\<lparr>ix_heap := h\<rparr>)"
      "good (hp_st h)" "live (hp_st h) = live (hp_st (ix_heap s)) - old_blocks sch (mem_of s) (docs_map s) k"
      "\<And>q. q \<in> live (hp_st h) \<Longrightarrow> hp_mem h q = mem_of s q"
      "rows_ok sch (live (hp_st h)) (hp_mem h) R ((docs_map s)(k := None))"
    using retire_row [OF inv] by blast
  let ?s1 = "s\<lparr>ix_heap := h\<rparr>"
  have "cm_inv hash (snd (ix_docs ?s1))" "\<not> cm_lock_free (snd (ix_docs ?s1))" "cm_bits (snd (ix_docs ?s1)) < 31"
    using i bits by simp_all
  from docs_put_ok [OF this] obtain m where m: "docs_put hash k d ?s1 = (Inr (), ?s1\<lparr>ix_docs := m\<rparr>)"
    "cm_inv hash (snd m)" "\<not> cm_lock_free (snd m)" "cm_map (snd m) = (docs_map ?s1)(k \<mapsto> d)" by blast
  have run: "Upsert hash A sch d s = (Inr (), s\<lparr>ix_heap := h, ix_docs := m\<rparr>)"
    using h(1) m(1) by (simp add: Upsert_def ExtractPk_ok [OF i(1) row] docs_get_map [OF i(3)] k [symmetric])
  have live: "doc_blocks (n_slots sch) (mem_of s) d \<subseteq> live (hp_st h)"
    using row_blocks_live [OF row] fresh_kept [OF fresh, of k] h(3) by blast
  have same: "same_doc (n_slots sch) (mem_of s) (hp_mem h) d" using live h(4) by (auto simp: same_doc_def)
  have "fresh_row sch (live (hp_st h)) (hp_mem h) R ((docs_map s)(k := None)) d"
  proof (rule fresh_row_same [OF fresh i(1) _ i(6) live same])
    show "(docs_map s)(k := None) \<subseteq>\<^sub>m docs_map s" by (simp add: map_le_def)
    show "doc_blocks (n_slots sch) (mem_of s) d \<inter> R = {}" using fresh by (simp add: fresh_row_def)
    fix k' d' assume m': "((docs_map s)(k := None)) k' = Some d'"
    then have "docs_map s k' = Some d'" "k' \<noteq> k" by (auto split: if_splits)
    then have "doc_blocks (n_slots sch) (mem_of s) d' \<inter> old_blocks sch (mem_of s) (docs_map s) k = {}"
      using rows_okD(4) [OF i(6), of k' d' k] by (simp add: old_blocks_def split: option.splits)
    then have "doc_blocks (n_slots sch) (mem_of s) d' \<subseteq> live (hp_st h)"
      using row_blocks_live [OF rows_okD(1) [OF i(6) \<open>docs_map s k' = Some d'\<close>]] h(3) by blast
    then show "same_doc (n_slots sch) (mem_of s) (hp_mem h) d'" using h(4) by (auto simp: same_doc_def)
  qed
  then have "rows_ok sch (live (hp_st h)) (hp_mem h) R (((docs_map s)(k := None))(k \<mapsto> d))"
    by (rule rows_ok_insert [OF h(5)]) (simp add: pk_of_same [OF i(1) same] k)
  moreover have "R \<subseteq> live (hp_st h)" using i(5) reserved_kept [OF inv, of k] h(3) by blast
  moreover have "hp_mem h (ix_hdr s) = mem_of s (ix_hdr s)" using h(4) i(8) \<open>R \<subseteq> live (hp_st h)\<close> by blast
  ultimately have "kv_inv hash good live sch R (s\<lparr>ix_heap := h, ix_docs := m\<rparr>)"
    using i m h(2) by (simp add: kv_inv_def)
  then show ?thesis using that run m(4) h(3,4) by simp
qed

lemma Delete_ok:
  assumes inv: "kv_inv hash good live sch R s"
  obtains h m where "Delete hash A k s = (Inr (k \<in> dom (docs_map s)), s\<lparr>ix_heap := h, ix_docs := m\<rparr>)"
    "kv_inv hash good live sch R (s\<lparr>ix_heap := h, ix_docs := m\<rparr>)" "cm_map (snd m) = (docs_map s)(k := None)"
    "live (hp_st h) = live (hp_st (ix_heap s)) - old_blocks sch (mem_of s) (docs_map s) k"
    "\<And>q. q \<in> live (hp_st h) \<Longrightarrow> hp_mem h q = mem_of s q"
proof -
  note i = kv_invD [OF inv]
  obtain h where h: "(case docs_map s k of Some old_off \<Rightarrow> on_heap (Retire A old_off) | None \<Rightarrow> iret ()) s
        = (Inr (), s\<lparr>ix_heap := h\<rparr>)"
      "good (hp_st h)" "live (hp_st h) = live (hp_st (ix_heap s)) - old_blocks sch (mem_of s) (docs_map s) k"
      "\<And>q. q \<in> live (hp_st h) \<Longrightarrow> hp_mem h q = mem_of s q"
      "rows_ok sch (live (hp_st h)) (hp_mem h) R ((docs_map s)(k := None))"
    using retire_row [OF inv] by blast
  let ?s1 = "s\<lparr>ix_heap := h\<rparr>"
  have "cm_inv hash (snd (ix_docs ?s1))" "\<not> cm_lock_free (snd (ix_docs ?s1))" using i by simp_all
  from docs_erase_ok [OF this] obtain m where m: "docs_erase hash k ?s1 = (Inr (k \<in> dom (docs_map ?s1)), ?s1\<lparr>ix_docs := m\<rparr>)"
    "cm_inv hash (snd m)" "\<not> cm_lock_free (snd m)" "cm_map (snd m) = (docs_map ?s1)(k := None)" by blast
  have run: "Delete hash A k s = (Inr (k \<in> dom (docs_map s)), s\<lparr>ix_heap := h, ix_docs := m\<rparr>)"
    using h(1) m(1) by (simp add: Delete_def docs_get_map [OF i(3)])
  have R: "R \<subseteq> live (hp_st h)" using i(5) reserved_kept [OF inv, of k] h(3) by blast
  then have "hp_mem h (ix_hdr s) = mem_of s (ix_hdr s)" using h(4) i(8) by blast
  then have "kv_inv hash good live sch R (s\<lparr>ix_heap := h, ix_docs := m\<rparr>)"
    using i m h(2,5) R by (simp add: kv_inv_def)
  then show ?thesis using that run m(4) h(3,4) by simp
qed

end

section \<open>New documents\<close>

definition next_id :: "('st, 'x) kv_index_scheme \<Rightarrow> nat" where
  "next_id s = le_nat (slice 0 4 (mem_of s (ix_hdr s)))"

lemma NextDocId_ok:
  assumes "length (mem_of s (ix_hdr s)) = 8"
  shows "NextDocId s = (Inr (next_id s), s\<lparr>ix_heap := (ix_heap s)\<lparr>hp_mem :=
     (mem_of s)(ix_hdr s := splice_at 0 (le_bytes 4 ((next_id s + 1) mod 2 ^ 32)) (mem_of s (ix_hdr s)))\<rparr>\<rparr>)"
proof -
  let ?p = "ix_hdr s"
  have l: "load_nat 4 ?p 0 (ix_heap s) = (Inr (next_id s), ix_heap s)"
    using load_nat_ok [of 0 4 "ix_heap s" ?p] assms by (simp add: next_id_def)
  have st: "store_nat 4 ?p 0 v (ix_heap s) = (Inr (), (ix_heap s)\<lparr>hp_mem :=
      (mem_of s)(?p := splice_at 0 (le_bytes 4 v) (mem_of s ?p))\<rparr>)" for v
    using store_nat_ok [of 0 4 "ix_heap s" ?p v] assms by simp
  show ?thesis unfolding NextDocId_def by (rule on_heap_ok) (simp add: l st)
qed

lemma slots_bound: "n_slots sch < 2 ^ 32"
  using unsigned_less [of "sc_max_field_id sch", where ?'a = nat] by (simp add: n_slots_def)

context upkept_allocator
begin

lemma header_write:
  assumes inv: "kv_inv hash good live sch R s" and len: "length bs = 8"
  shows "kv_inv hash good live sch R (s\<lparr>ix_heap := (ix_heap s)\<lparr>hp_mem := (mem_of s)(ix_hdr s := bs)\<rparr>\<rparr>)"
proof -
  note i = kv_invD [OF inv]
  have "rows_ok sch (live (hp_st (ix_heap s))) ((mem_of s)(ix_hdr s := bs)) R (docs_map s)"
  proof (rule rows_ok_frame [OF i(6,1)])
    fix k d assume k: "docs_map s k = Some d"
    show "doc_blocks (n_slots sch) (mem_of s) d \<subseteq> live (hp_st (ix_heap s)) \<and> doc_blocks (n_slots sch) (mem_of s) d \<inter> R = {}"
      using row_blocks_live rows_okD(1,3) [OF i(6) k] by blast
    have "ix_hdr s \<notin> doc_blocks (n_slots sch) (mem_of s) d" using rows_okD(3) [OF i(6) k] i(8) by blast
    then show "same_doc (n_slots sch) (mem_of s) ((mem_of s)(ix_hdr s := bs)) d"
      by (auto simp: same_doc_def)
  qed simp
  then show ?thesis using i len by (simp add: kv_inv_def)
qed

text \<open>A step that only adds live blocks and leaves the old ones alone keeps the index intact.\<close>

lemma kv_inv_grow:
  assumes inv: "kv_inv hash good live sch R s" and g: "good (hp_st h)"
    and sub: "live (hp_st (ix_heap s)) \<subseteq> live (hp_st h)"
    and mem: "\<And>q. q \<in> live (hp_st (ix_heap s)) \<Longrightarrow> hp_mem h q = mem_of s q"
    and R: "R \<subseteq> R'" "R' \<subseteq> live (hp_st h)" "R' - R \<subseteq> - live (hp_st (ix_heap s))"
  shows "kv_inv hash good live sch R' (s\<lparr>ix_heap := h\<rparr>)"
proof -
  note i = kv_invD [OF inv]
  have "rows_ok sch (live (hp_st h)) (hp_mem h) R' (docs_map s)"
  proof (rule rows_ok_frame [OF i(6,1)])
    fix k d assume k: "docs_map s k = Some d"
    have l: "doc_blocks (n_slots sch) (mem_of s) d \<subseteq> live (hp_st (ix_heap s))"
      by (rule row_blocks_live [OF rows_okD(1) [OF i(6) k]])
    then show "doc_blocks (n_slots sch) (mem_of s) d \<subseteq> live (hp_st h) \<and> doc_blocks (n_slots sch) (mem_of s) d \<inter> R' = {}"
      using sub rows_okD(3) [OF i(6) k] R(3) by blast
    show "same_doc (n_slots sch) (mem_of s) (hp_mem h) d" using l mem by (auto simp: same_doc_def)
  qed simp
  moreover have "hp_mem h (ix_hdr s) = mem_of s (ix_hdr s)" using mem i(5,8) by blast
  ultimately show ?thesis using i g R by (auto simp: kv_inv_def)
qed

lemma NewDoc_ok:
  assumes inv: "kv_inv hash good live sch R s"
  obtains (created) d h where "NewDoc A sch s = (Inr d, s\<lparr>ix_heap := h\<rparr>)" "kv_inv hash good live sch R (s\<lparr>ix_heap := h\<rparr>)"
      "fresh_row sch (live (hp_st h)) (hp_mem h) R (docs_map s) d" "doc_id_of (hp_mem h) d = next_id s"
      "next_id (s\<lparr>ix_heap := h\<rparr>) = (next_id s + 1) mod 2 ^ 32" "d \<notin> live (hp_st (ix_heap s))"
    | (thrown) e h where "NewDoc A sch s = (Inl (DocError (Thrown e)), s\<lparr>ix_heap := h\<rparr>)"
proof -
  note i = kv_invD [OF inv]
  let ?bs = "splice_at 0 (le_bytes 4 ((next_id s + 1) mod 2 ^ 32)) (mem_of s (ix_hdr s))"
  let ?h1 = "(ix_heap s)\<lparr>hp_mem := (mem_of s)(ix_hdr s := ?bs)\<rparr>"
  let ?s1 = "s\<lparr>ix_heap := ?h1\<rparr>"
  have len: "length ?bs = 8" using i(7) by simp
  note inv1 = header_write [OF inv len]
  have g1: "good (hp_st ?h1)" using i(2) by simp
  have n: "unat (sc_max_field_id sch) + 1 = n_slots sch" by (simp add: n_slots_def)
  have id: "next_id s < 2 ^ 32" using le_nat_less [of "slice 0 4 (mem_of s (ix_hdr s))"] i(7) by (simp add: next_id_def)
  show ?thesis
  proof (cases rule: Doc_new_ok [OF g1 slots_bound [of sch], of "next_id s"])
    case (1 d h)
    have run: "NewDoc A sch s = (Inr d, s\<lparr>ix_heap := h\<rparr>)"
      unfolding NewDoc_def n using 1(1) by (simp add: NextDocId_ok [OF i(7)] on_heap_ok)
    have live: "live (hp_st ?h1) = live (hp_st (ix_heap s))" by simp
    have sub: "live (hp_st (ix_heap ?s1)) \<subseteq> live (hp_st h)" using 1(4) by auto
    have mem: "hp_mem h q = mem_of ?s1 q" if "q \<in> live (hp_st (ix_heap ?s1))" for q
    proof -
      have "q \<noteq> d" using 1(3) that by auto
      from 1(5) [OF this] show ?thesis by simp
    qed
    have hd: "hp_mem h (ix_hdr s) = ?bs" using mem [of "ix_hdr s"] i(5,8) by auto
    have "kv_inv hash good live sch R (?s1\<lparr>ix_heap := h\<rparr>)"
      by (rule kv_inv_grow [OF inv1 _ sub mem]) (use 1(2,4) i(5) in \<open>auto simp: doc_ok_def\<close>)
    then have inv2: "kv_inv hash good live sch R (s\<lparr>ix_heap := h\<rparr>)" by simp
    have blk: "doc_blocks (n_slots sch) (hp_mem h) d = {d}" using 1(7) by (auto simp: doc_blocks_def)
    have "row_ok sch (live (hp_st h)) (hp_mem h) d"
      using 1(2,7) field_slot [OF i(1)] by (simp add: row_ok_def doc_ok_def readable_def)
    moreover have "d \<notin> doc_blocks (n_slots sch) (hp_mem h) d'" if "d' \<in> ran (docs_map s)" for d'
    proof -
      obtain k where k: "docs_map s k = Some d'" using \<open>d' \<in> ran (docs_map s)\<close> by (auto simp: ran_def)
      have b: "doc_blocks (n_slots sch) (mem_of s) d' \<subseteq> live (hp_st (ix_heap s)) - R"
        using row_blocks_live [OF rows_okD(1) [OF i(6) k]] rows_okD(3) [OF i(6) k] by blast
      have "same_doc (n_slots sch) (mem_of s) (hp_mem h) d'"
        using b mem i(8) by (auto simp: same_doc_def)
      then show ?thesis using b 1(3) same_doc_reads(2) by fastforce
    qed
    ultimately have "fresh_row sch (live (hp_st h)) (hp_mem h) R (docs_map s) d"
      using 1(3) i(5) by (auto simp: fresh_row_def blk)
    moreover have "doc_id_of (hp_mem h) d = next_id s"
      using 1(2,6) id by (simp add: get_doc_id_def load_nat_ok doc_ok_def doc_wf_def doc_id_of_def)
    moreover have "next_id (s\<lparr>ix_heap := h\<rparr>) = (next_id s + 1) mod 2 ^ 32"
      using slice_splice_same [of 0 "le_bytes 4 ((next_id s + 1) mod 2 ^ 32)" "mem_of s (ix_hdr s)"] i(7)
      by (simp add: next_id_def [of "s\<lparr>ix_heap := h\<rparr>"] hd le_nat_bytes)
    ultimately show ?thesis using created run inv2 1(3) by simp
  next
    case (2 e h)
    then have "NewDoc A sch s = (Inl (DocError (Thrown e)), s\<lparr>ix_heap := h\<rparr>)"
      unfolding NewDoc_def n by (simp add: NextDocId_ok [OF i(7)] on_heap_thrown)
    then show ?thesis by (rule thrown)
  qed
qed

end

section \<open>Batches and upkeep\<close>

context upkept_allocator
begin

lemma Publish_ok:
  assumes inv: "kv_inv hash good live sch R s"
  obtains st where "Publish U s = (Inr (), s\<lparr>ix_heap := (ix_heap s)\<lparr>hp_st := st\<rparr>\<rparr>)"
    "live st = live (hp_st (ix_heap s))" "kv_inv hash good live sch R (s\<lparr>ix_heap := (ix_heap s)\<lparr>hp_st := st\<rparr>\<rparr>)"
proof -
  note i = kv_invD [OF inv]
  have f: "good (up_flush U (hp_st (ix_heap s)))" "live (up_flush U (hp_st (ix_heap s))) = live (hp_st (ix_heap s))"
    using flush_keeps [OF i(2)] by simp_all
  obtain n st where r: "up_reclaim U (up_flush U (hp_st (ix_heap s))) = (Inr n, st)" "good st"
    "live st = live (hp_st (ix_heap s))" using reclaim_keeps [OF f(1)] f(2) by auto
  have "Publish U s = (Inr (), s\<lparr>ix_heap := (ix_heap s)\<lparr>hp_st := st\<rparr>\<rparr>)"
    using r(1) by (simp add: Publish_def FlushTlc_call_def ReclaimExpired_call_def on_heap_def)
  moreover have "kv_inv hash good live sch R (s\<lparr>ix_heap := (ix_heap s)\<lparr>hp_st := st\<rparr>\<rparr>)"
    by (rule kv_inv_grow [OF inv]) (use r i(5) in auto)
  ultimately show ?thesis using that r(3) by blast
qed

end

text \<open>Documents that can be inserted together: not stored yet, with new and distinct keys.\<close>

definition fresh_batch :: "Schema \<Rightarrow> nat set \<Rightarrow> (nat \<Rightarrow> bytes) \<Rightarrow> nat set \<Rightarrow> (string \<rightharpoonup> nat) \<Rightarrow> nat list \<Rightarrow> bool" where
  "fresh_batch sch L mem R M ds \<longleftrightarrow> (\<forall>d\<in>set ds. fresh_row sch L mem R M d \<and> pk_of sch mem d \<notin> dom M)
     \<and> distinct (map (pk_of sch mem) ds)
     \<and> (\<forall>d\<in>set ds. \<forall>d'\<in>set ds. d \<noteq> d' \<longrightarrow> doc_blocks (n_slots sch) mem d \<inter> doc_blocks (n_slots sch) mem d' = {})"

lemma fresh_batch_Cons:
  assumes "fresh_batch sch L mem R M (d # ds)"
  shows "fresh_row sch L mem R M d" "fresh_batch sch L mem R (M(pk_of sch mem d \<mapsto> d)) ds"
proof -
  show "fresh_row sch L mem R M d" using assms by (simp add: fresh_batch_def)
  have new: "d' \<noteq> d \<and> pk_of sch mem d' \<noteq> pk_of sch mem d" if "d' \<in> set ds" for d'
    using assms that by (simp add: fresh_batch_def) (metis image_eqI)
  have rn: "ran (M(pk_of sch mem d \<mapsto> d)) \<subseteq> insert d (ran M)" by (auto simp: ran_def)
  have "fresh_row sch L mem R (M(pk_of sch mem d \<mapsto> d)) d'" if "d' \<in> set ds" for d'
  proof -
    have f: "fresh_row sch L mem R M d'" "doc_blocks (n_slots sch) mem d' \<inter> doc_blocks (n_slots sch) mem d = {}"
      using assms that new [OF that] by (simp_all add: fresh_batch_def)
    have "\<forall>e\<in>insert d (ran M). doc_blocks (n_slots sch) mem d' \<inter> doc_blocks (n_slots sch) mem e = {}"
      using f by (simp add: fresh_row_def)
    then show ?thesis using f(1) rn unfolding fresh_row_def by blast
  qed
  then show "fresh_batch sch L mem R (M(pk_of sch mem d \<mapsto> d)) ds"
    using assms new by (auto simp: fresh_batch_def)
qed

context upkept_allocator
begin

lemma Put_cases:
  assumes inv: "kv_inv hash good live sch R s"
    and fresh: "fresh_row sch (live (hp_st (ix_heap s))) (mem_of s) R (docs_map s) d"
  obtains (stored) m where "Put hash sch d s = (Inr (), s\<lparr>ix_docs := m\<rparr>)"
      "cm_map (snd m) = (docs_map s)(pk_of sch (mem_of s) d \<mapsto> d)" "kv_inv hash good live sch R (s\<lparr>ix_docs := m\<rparr>)"
    | (full) "Put hash sch d s = (Inl (MapError UndefinedShift), s)"
proof -
  note i = kv_invD [OF inv]
  have row: "row_ok sch (live (hp_st (ix_heap s))) (mem_of s) d" using fresh by (simp add: fresh_row_def)
  note pk = ExtractPk_ok [OF i(1) row]
  show ?thesis
  proof (cases rule: cm_put_cases [OF i(3,4), of "pk_of sch (mem_of s) d" d])
    case (1 m)
    have "rows_ok sch (live (hp_st (ix_heap s))) (mem_of s) R ((docs_map s)(pk_of sch (mem_of s) d \<mapsto> d))"
      by (rule rows_ok_insert [OF i(6) fresh refl])
    then have "kv_inv hash good live sch R (s\<lparr>ix_docs := m\<rparr>)" using i 1 by (simp add: kv_inv_def)
    then show ?thesis using stored [of m] 1 pk by (simp add: Put_def docs_put_def)
  next
    case 2
    then show ?thesis using full pk by (simp add: Put_def docs_put_def)
  qed
qed

text \<open>A batch stores all of its documents, whatever upkeep happens on the way, or the table is full.\<close>

lemma batch_put_loop_cases:
  assumes "kv_inv hash good live sch R s"
    and "fresh_batch sch (live (hp_st (ix_heap s))) (mem_of s) R (docs_map s) ds"
  obtains (stored) m st where "batch_put_loop hash U sch i ds s = (Inr (), s\<lparr>ix_heap := (ix_heap s)\<lparr>hp_st := st\<rparr>, ix_docs := m\<rparr>)"
      "cm_map (snd m) = docs_map s ++ map_of (map (\<lambda>d. (pk_of sch (mem_of s) d, d)) ds)"
      "kv_inv hash good live sch R (s\<lparr>ix_heap := (ix_heap s)\<lparr>hp_st := st\<rparr>, ix_docs := m\<rparr>)"
    | (full) s' where "batch_put_loop hash U sch i ds s = (Inl (MapError UndefinedShift), s')"
proof -
  have "(\<exists>m st. batch_put_loop hash U sch i ds s = (Inr (), s\<lparr>ix_heap := (ix_heap s)\<lparr>hp_st := st\<rparr>, ix_docs := m\<rparr>)
      \<and> cm_map (snd m) = docs_map s ++ map_of (map (\<lambda>d. (pk_of sch (mem_of s) d, d)) ds)
      \<and> kv_inv hash good live sch R (s\<lparr>ix_heap := (ix_heap s)\<lparr>hp_st := st\<rparr>, ix_docs := m\<rparr>))
    \<or> (\<exists>s'. batch_put_loop hash U sch i ds s = (Inl (MapError UndefinedShift), s'))"
    using assms
  proof (induction ds arbitrary: s i)
    case Nil
    then show ?case by (intro disjI1 exI [of _ "ix_docs s"] exI [of _ "hp_st (ix_heap s)"]) simp
  next
    case (Cons d ds)
    let ?k = "pk_of sch (mem_of s) d"
    note fb = fresh_batch_Cons [OF Cons.prems(2)]
    show ?case
    proof (cases rule: Put_cases [OF Cons.prems(1) fb(1)])
      case (1 m)
      let ?s1 = "s\<lparr>ix_docs := m\<rparr>"
      obtain st where st: "(if (i + 1) mod kFlushEvery = 0 then Publish U else iret ()) ?s1
          = (Inr (), ?s1\<lparr>ix_heap := (ix_heap s)\<lparr>hp_st := st\<rparr>\<rparr>)"
        "live st = live (hp_st (ix_heap s))" "kv_inv hash good live sch R (?s1\<lparr>ix_heap := (ix_heap s)\<lparr>hp_st := st\<rparr>\<rparr>)"
      proof (cases "(i + 1) mod kFlushEvery = 0")
        case True
        obtain st where "Publish U ?s1 = (Inr (), ?s1\<lparr>ix_heap := (ix_heap ?s1)\<lparr>hp_st := st\<rparr>\<rparr>)"
          "live st = live (hp_st (ix_heap ?s1))" "kv_inv hash good live sch R (?s1\<lparr>ix_heap := (ix_heap ?s1)\<lparr>hp_st := st\<rparr>\<rparr>)"
          by (rule Publish_ok [OF 1(3)])
        then show ?thesis using that [of st] True by simp
      next
        case False
        then show ?thesis using that [of "hp_st (ix_heap s)"] 1(3) by simp
      qed
      let ?s2 = "?s1\<lparr>ix_heap := (ix_heap s)\<lparr>hp_st := st\<rparr>\<rparr>"
      have b: "fresh_batch sch (live (hp_st (ix_heap ?s2))) (mem_of ?s2) R (docs_map ?s2) ds"
        using fb(2) 1(2) st(2) by simp
      have step: "batch_put_loop hash U sch i (d # ds) s = batch_put_loop hash U sch (Suc i) ds ?s2"
        using 1(1) st(1) by simp
      have pks: "distinct (map (pk_of sch (mem_of s)) (d # ds))" using Cons.prems(2) by (simp add: fresh_batch_def)
      have "?k \<notin> dom (map_of (map (\<lambda>d. (pk_of sch (mem_of s) d, d)) ds))"
        using pks by (auto simp: dom_map_of_conv_image_fst)
      then have maps: "(docs_map s)(?k \<mapsto> d) ++ map_of (map (\<lambda>d. (pk_of sch (mem_of s) d, d)) ds)
          = docs_map s ++ map_of (map (\<lambda>d. (pk_of sch (mem_of s) d, d)) (d # ds))"
        by (simp add: map_add_upd_left)
      show ?thesis using Cons.IH [OF st(3) b, of "Suc i"] unfolding step maps [symmetric] 1(2) [symmetric] by simp
    next
      case 2
      then show ?thesis by simp
    qed
  qed
  then show ?thesis using stored full by blast
qed

lemma BatchPut_cases:
  assumes "kv_inv hash good live sch R s"
    and "fresh_batch sch (live (hp_st (ix_heap s))) (mem_of s) R (docs_map s) ds"
  obtains (stored) s' where "BatchPut hash U sch ds s = (Inr (), s')" "mem_of s' = mem_of s"
      "docs_map s' = docs_map s ++ map_of (map (\<lambda>d. (pk_of sch (mem_of s) d, d)) ds)"
      "kv_inv hash good live sch R s'"
    | (full) s' where "BatchPut hash U sch ds s = (Inl (MapError UndefinedShift), s')"
proof (cases rule: batch_put_loop_cases [OF assms, of 0])
  case (1 m st)
  let ?s1 = "s\<lparr>ix_heap := (ix_heap s)\<lparr>hp_st := st\<rparr>, ix_docs := m\<rparr>"
  obtain st' where p: "Publish U ?s1 = (Inr (), ?s1\<lparr>ix_heap := (ix_heap ?s1)\<lparr>hp_st := st'\<rparr>\<rparr>)"
    "kv_inv hash good live sch R (?s1\<lparr>ix_heap := (ix_heap ?s1)\<lparr>hp_st := st'\<rparr>\<rparr>)"
    by (rule Publish_ok [OF 1(3)])
  show ?thesis
    by (rule stored [of "?s1\<lparr>ix_heap := (ix_heap ?s1)\<lparr>hp_st := st'\<rparr>\<rparr>"])
      (use p 1(1,2) in \<open>simp_all add: BatchPut_def\<close>)
next
  case (2 s')
  then show ?thesis using full [of s'] by (simp add: BatchPut_def)
qed

end

end
