(* ===== verification/IndexInverted.thy ===== *)
theory IndexInverted
  imports IndexKV
begin

text \<open>
  Correctness of the inverted index: after every put and delete the posting list of a term holds
  exactly the identifiers of the stored documents that contain the term, and the queries return
  these sets.  Proved for every allocator with the contract \<open>upkept_allocator\<close>.
\<close>

section \<open>Terms of a document\<close>

definition field_terms :: "(nat \<Rightarrow> bytes) \<Rightarrow> nat \<Rightarrow> FieldDef \<Rightarrow> string list" where
  "field_terms mem d f =
     (if \<not> fd_is_index f then []
      else let fid = fd_field_id f; n = unat fid in
        case fd_type f of
          DString \<Rightarrow> map (PostingKey fid) (Tokenize (as_string (str_of mem d n)))
        | DInt32 \<Rightarrow> [PostingKey fid (to_string32 (word_of_nat (sa (mem d) n)))]
        | DInt64 \<Rightarrow> [PostingKey fid (to_string64 (word_of_nat (sa (mem d) n)))]
        | _ \<Rightarrow> [])"

definition doc_terms :: "Schema \<Rightarrow> (nat \<Rightarrow> bytes) \<Rightarrow> nat \<Rightarrow> string list" where
  "doc_terms sch mem d = concat (map (field_terms mem d) (Schema.fields sch))"

lemma field_terms_same:
  assumes "same_doc n mem mem' d" "unat (fd_field_id f) < n"
  shows "field_terms mem' d f = field_terms mem d f"
  using same_doc_reads(1) [OF assms(1)] same_doc_reads(4) [OF assms]
  by (simp add: field_terms_def Let_def split: DataType.splits)

lemma doc_terms_same:
  assumes "schema_ok sch" "same_doc (n_slots sch) mem mem' d"
  shows "doc_terms sch mem' d = doc_terms sch mem d"
  using field_terms_same [OF assms(2)] field_slot [OF assms(1)]
  by (simp add: doc_terms_def cong: map_cong)

section \<open>Posting lists\<close>

abbreviation posting_map :: "'st inverted_index \<Rightarrow> string \<rightharpoonup> nat" where
  "posting_map s \<equiv> cm_map (snd (iv_postings s))"

definition posting :: "'st inverted_index \<Rightarrow> string \<Rightarrow> nat set" where
  "posting s p = (case posting_map s p of None \<Rightarrow> {} | Some off \<Rightarrow>
     (case iv_bitmaps s off of None \<Rightarrow> {} | Some b \<Rightarrow> bm_set b))"

definition reserved :: "'st inverted_index \<Rightarrow> nat set" where
  "reserved s = insert (ix_hdr s) (ran (posting_map s))"

definition post_ok :: "(string \<Rightarrow> u64) \<Rightarrow> 'st inverted_index \<Rightarrow> bool" where
  "post_ok hash s \<longleftrightarrow> cm_inv hash (snd (iv_postings s)) \<and> \<not> cm_lock_free (snd (iv_postings s))
     \<and> (\<forall>p off. posting_map s p = Some off \<longrightarrow> (\<exists>b. iv_bitmaps s off = Some b \<and> bm_inv b \<and> bm_set b \<noteq> {}))
     \<and> (\<forall>p p' off. posting_map s p = Some off \<longrightarrow> posting_map s p' = Some off \<longrightarrow> p = p')"

definition iv_struct :: "(string \<Rightarrow> u64) \<Rightarrow> ('st \<Rightarrow> bool) \<Rightarrow> ('st \<Rightarrow> nat set) \<Rightarrow> Schema \<Rightarrow> 'st inverted_index \<Rightarrow> bool" where
  "iv_struct hash good live sch s \<longleftrightarrow> kv_inv hash good live sch (reserved s) s \<and> post_ok hash s"

lemma post_okD:
  assumes "post_ok hash s"
  shows "cm_inv hash (snd (iv_postings s))" "\<not> cm_lock_free (snd (iv_postings s))"
    "posting_map s p = Some off \<Longrightarrow> \<exists>b. iv_bitmaps s off = Some b \<and> bm_inv b \<and> bm_set b \<noteq> {}"
    "posting_map s p = Some off \<Longrightarrow> posting_map s p' = Some off \<Longrightarrow> p = p'"
  using assms unfolding post_ok_def by blast+

lemma posting_None: "post_ok hash s \<Longrightarrow> posting_map s p = None \<longleftrightarrow> posting s p = {}"
  using post_okD(3) [of hash s p] by (fastforce simp: posting_def split: option.splits)

text \<open>The heap may grow and the posting lists change; rows and header stay as they are.\<close>

definition extends :: "('st \<Rightarrow> nat set) \<Rightarrow> 'st inverted_index \<Rightarrow> 'st inverted_index \<Rightarrow> bool" where
  "extends live s s' \<longleftrightarrow> ix_docs s' = ix_docs s \<and> ix_hdr s' = ix_hdr s
     \<and> live (hp_st (ix_heap s)) \<subseteq> live (hp_st (ix_heap s'))
     \<and> (\<forall>q\<in>live (hp_st (ix_heap s)). mem_of s' q = mem_of s q)
     \<and> reserved s' - reserved s \<subseteq> - live (hp_st (ix_heap s))"

lemma extends_refl [simp]: "extends live s s"
  by (simp add: extends_def)

lemma extends_trans:
  assumes "extends live s s'" "extends live s' s''"
  shows "extends live s s''"
proof -
  note e = assms [unfolded extends_def]
  have "mem_of s'' q = mem_of s q" if "q \<in> live (hp_st (ix_heap s))" for q
  proof -
    have "q \<in> live (hp_st (ix_heap s'))" using e(1) that by blast
    then show ?thesis using e that by simp
  qed
  moreover have "live (hp_st (ix_heap s)) \<subseteq> live (hp_st (ix_heap s''))" using e by (simp add: subset_iff)
  moreover have "reserved s'' - reserved s \<subseteq> - live (hp_st (ix_heap s))" using e by (simp add: subset_iff) metis
  ultimately show ?thesis using e by (simp add: extends_def)
qed

text \<open>The two ways a call can end without a result: the allocator throws, or a table is full.\<close>

definition exhausted :: "index_error \<Rightarrow> bool" where
  "exhausted e \<longleftrightarrow> (\<exists>a. e = DocError (Thrown a)) \<or> e = MapError UndefinedShift"

definition upd_postings :: "(nat set \<Rightarrow> nat set) \<Rightarrow> string list \<Rightarrow> (string \<Rightarrow> nat set) \<Rightarrow> string \<Rightarrow> nat set" where
  "upd_postings g ps F = (\<lambda>p. if p \<in> set ps then g (F p) else F p)"

text \<open>A run that changed the posting lists of the keys \<open>ps\<close> by \<open>g\<close>, or failed as \<open>fails\<close> allows.\<close>

definition posted :: "(index_error \<Rightarrow> bool) \<Rightarrow> (string \<Rightarrow> u64) \<Rightarrow> ('st \<Rightarrow> bool) \<Rightarrow> ('st \<Rightarrow> nat set) \<Rightarrow> Schema
    \<Rightarrow> (nat set \<Rightarrow> nat set) \<Rightarrow> string list \<Rightarrow> 'st inverted_index \<Rightarrow> (index_error + 'a) \<times> 'st inverted_index \<Rightarrow> bool" where
  "posted fails hash good live sch g ps s res \<longleftrightarrow> (case res of
       (Inl e, _) \<Rightarrow> fails e
     | (Inr _, s') \<Rightarrow> iv_struct hash good live sch s' \<and> extends live s s'
         \<and> posting s' = upd_postings g ps (posting s))"

lemma posted_ret: "iv_struct hash good live sch s \<Longrightarrow> posted fails hash good live sch g [] s (iret x s)"
  by (simp add: posted_def upd_postings_def)

lemma posted_then:
  assumes "posted fails hash good live sch g ps s (m s)" "\<And>X. g (g X) = g X"
    and "\<And>x s'. iv_struct hash good live sch s' \<Longrightarrow> extends live s s' \<Longrightarrow>
           posted fails hash good live sch g qs s' (k x s')"
  shows "posted fails hash good live sch g (ps @ qs) s (ithen m k s)"
proof (cases "m s")
  case (Pair r s')
  show ?thesis
  proof (cases r)
    case (Inl e)
    then show ?thesis using assms(1) Pair by (simp add: posted_def)
  next
    case (Inr x)
    have s': "iv_struct hash good live sch s'" "extends live s s'" "posting s' = upd_postings g ps (posting s)"
      using assms(1) Pair Inr by (simp_all add: posted_def)
    have "upd_postings g qs (upd_postings g ps F) = upd_postings g (ps @ qs) F" for F
      using assms(2) by (auto simp: upd_postings_def fun_eq_iff)
    then show ?thesis
      using assms(3) [OF s'(1,2), of x] extends_trans [OF s'(2)] s'(3) Pair Inr
      by (auto simp: posted_def split: prod.splits sum.splits)
  qed
qed

lemma row_extends:
  assumes "iv_struct hash good live sch s" "docs_map s k = Some d" "extends live s s'"
  shows "same_doc (n_slots sch) (mem_of s) (mem_of s') d"
proof -
  have "rows_ok sch (live (hp_st (ix_heap s))) (mem_of s) (reserved s) (docs_map s)"
    using assms(1) by (simp add: iv_struct_def kv_inv_def)
  from row_blocks_live [OF rows_okD(1) [OF this assms(2)]] show ?thesis
    using assms(3) by (auto simp: same_doc_def extends_def)
qed

section \<open>The loops over the fields of a document\<close>

lemma posted_tokens:
  assumes "\<And>term s'. iv_struct hash good live sch s' \<Longrightarrow> posted fails hash good live sch g [PostingKey fid term] s' (post term s')"
    and "\<And>X. g (g X) = g X" "iv_struct hash good live sch s"
  shows "posted fails hash good live sch g (map (PostingKey fid) toks) s (post_tokens post toks s)"
  using assms(3)
proof (induction toks arbitrary: s)
  case Nil
  then show ?case by (simp add: posted_ret del: iret_apply)
next
  case (Cons tok toks)
  have "posted fails hash good live sch g ([PostingKey fid tok] @ map (PostingKey fid) toks) s
      (ithen (post tok) (\<lambda>_. post_tokens post toks) s)"
    by (rule posted_then [where m = "post tok" and s = s, OF assms(1) [OF Cons.prems] assms(2)]) (rule Cons.IH)
  then show ?case by simp
qed

lemma posted_fields:
  assumes step: "\<And>fid term s'. iv_struct hash good live sch s' \<Longrightarrow>
      posted fails hash good live sch g [PostingKey fid term] s' (post fid term s')"
    and idem: "\<And>X. g (g X) = g X" and sch: "set fs \<subseteq> set (Schema.fields sch)"
    and s: "iv_struct hash good live sch s" "docs_map s k = Some d"
  shows "posted fails hash good live sch g (concat (map (field_terms (mem_of s) d) fs)) s (post_fields post d fs s)"
  using sch s
proof (induction fs arbitrary: s)
  case Nil
  then show ?case by (simp add: posted_ret del: iret_apply)
next
  case (Cons f fs)
  let ?fid = "fd_field_id f"
  have f: "f \<in> set (Schema.fields sch)" and fs: "set fs \<subseteq> set (Schema.fields sch)" using Cons.prems(1) by simp_all
  have sok: "schema_ok sch" and rows: "rows_ok sch (live (hp_st (ix_heap s))) (mem_of s) (reserved s) (docs_map s)"
    using Cons.prems(2) by (simp_all add: iv_struct_def kv_inv_def)
  have row: "row_ok sch (live (hp_st (ix_heap s))) (mem_of s) d" by (rule rows_okD(1) [OF rows Cons.prems(3)])
  note r = row_reads [OF row field_slot [OF sok f]]
  have str: "fd_type f = DString \<Longrightarrow> readable (mem_of s) d (unat ?fid)" using row f by (simp add: row_ok_def)
  have rest: "posted fails hash good live sch g (concat (map (field_terms (mem_of s) d) fs)) s' (post_fields post d fs s')"
    if e: "iv_struct hash good live sch s'" "extends live s s'" for s'
  proof -
    have d: "docs_map s' k = Some d" using e(2) Cons.prems(3) by (simp add: extends_def)
    have "field_terms (mem_of s') d f' = field_terms (mem_of s) d f'" if "f' \<in> set fs" for f'
      using field_terms_same [OF row_extends [OF Cons.prems(2,3) e(2)]] field_slot [OF sok, of f'] fs that by blast
    then have "map (field_terms (mem_of s') d) fs = map (field_terms (mem_of s) d) fs" by (rule map_cong [OF refl])
    then show ?thesis using Cons.IH [OF fs e(1) d] by metis
  qed
  show ?case
  proof (cases "fd_is_index f")
    case False
    then show ?thesis using rest [OF Cons.prems(2)] by (simp add: field_terms_def [of _ _ f])
  next
    case True
    let ?m = "case fd_type f of
            DString \<Rightarrow> ithen (on_heap (get_string d (unat ?fid))) (\<lambda>v. post_tokens (post ?fid) (Tokenize (as_string v)))
          | DInt32 \<Rightarrow> ithen (on_heap (get_int32 d (unat ?fid))) (\<lambda>v. post ?fid (to_string32 v))
          | DInt64 \<Rightarrow> ithen (on_heap (get_int64 d (unat ?fid))) (\<lambda>v. post ?fid (to_string64 v))
          | _ \<Rightarrow> iret ()"
    note tok = posted_tokens [where post = "post ?fid", OF step idem Cons.prems(2)]
    have "posted fails hash good live sch g (field_terms (mem_of s) d f) s (?m s)"
      using True r str tok step [OF Cons.prems(2)] posted_ret [OF Cons.prems(2)]
      by (cases "fd_type f") (simp_all add: field_terms_def on_heap_read Let_def)
    then have "posted fails hash good live sch g (field_terms (mem_of s) d f @ concat (map (field_terms (mem_of s) d) fs)) s
        (ithen ?m (\<lambda>_. post_fields post d fs) s)"
      by (rule posted_then [OF _ idem]) (rule rest)
    then show ?thesis using True by (simp add: Let_def)
  qed
qed

section \<open>Adding to and removing from a posting list\<close>

lemma kv_inv_shrink:
  "kv_inv hash good live sch R s \<Longrightarrow> R' \<subseteq> R \<Longrightarrow> ix_hdr s \<in> R' \<Longrightarrow> kv_inv hash good live sch R' s"
  unfolding kv_inv_def rows_ok_def by (intro conjI allI impI; blast)

text \<open>The fields of the inverted index alone do not matter to its rows.\<close>

lemma kv_inv_postings [simp]:
  "kv_inv hash good live sch R (s\<lparr>iv_postings := m\<rparr>) = kv_inv hash good live sch R s"
  "kv_inv hash good live sch R (s\<lparr>iv_bitmaps := b\<rparr>) = kv_inv hash good live sch R s"
  by (simp_all add: kv_inv_def)

lemma posting_update:
  assumes "post_ok hash s" "posting_map s p = Some off" "bm_set b' \<noteq> {}" "bm_inv b'"
  defines "s' \<equiv> s\<lparr>iv_bitmaps := (iv_bitmaps s)(off := Some b')\<rparr>"
  shows "post_ok hash s'" "posting s' = (posting s)(p := bm_set b')" "reserved s' = reserved s"
proof -
  note ok = post_okD [OF assms(1)]
  have m: "posting_map s' = posting_map s" by (simp add: s'_def)
  show "reserved s' = reserved s" by (simp add: reserved_def s'_def)
  have "\<exists>b. iv_bitmaps s' o' = Some b \<and> bm_inv b \<and> bm_set b \<noteq> {}" if "posting_map s' p' = Some o'" for p' o'
    using ok(3) [of p' o'] that assms(3,4) m by (auto simp: s'_def)
  then show "post_ok hash s'" using ok(1,2,4) m by (auto simp: post_ok_def s'_def)
  have "posting s' p' = ((posting s)(p := bm_set b')) p'" for p'
  proof (cases "p' = p")
    case False
    then have "posting_map s p' \<noteq> Some off" using ok(4) [OF assms(2)] by blast
    then show ?thesis using False by (simp add: posting_def s'_def split: option.splits)
  qed (simp add: posting_def s'_def assms(2))
  then show "posting s' = (posting s)(p := bm_set b')" by (rule ext)
qed

lemma RemoveFromPosting_posted:
  assumes s: "iv_struct hash good live sch s"
  shows "posted (\<lambda>_. False) hash good live sch (\<lambda>X. X - {i}) [PostingKey fid term] s (RemoveFromPosting hash fid term i s)"
proof -
  let ?p = "PostingKey fid term"
  have kv: "kv_inv hash good live sch (reserved s) s" and po: "post_ok hash s" using s by (simp_all add: iv_struct_def)
  note ok = post_okD [OF po]
  have get: "postings_get hash ?p s = posting_map s ?p" using ok(1) by (simp add: postings_get_def cm_get_map)
  show ?thesis
  proof (cases "posting_map s ?p")
    case None
    then have "posting s ?p = {}" by (simp add: posting_def)
    then show ?thesis using None s
      by (auto simp: RemoveFromPosting_def get posted_def upd_postings_def fun_eq_iff)
  next
    case (Some off)
    obtain b where b: "iv_bitmaps s off = Some b" "bm_inv b" "bm_set b \<noteq> {}" using ok(3) [OF Some] by blast
    note rem = Remove_set [OF b(2), of i]
    have pb: "posting s ?p = bm_set b" using Some b(1) by (simp add: posting_def)
    let ?s1 = "s\<lparr>iv_bitmaps := (iv_bitmaps s)(off := Some (Remove i b))\<rparr>"
    have em: "IsEmpty (Remove i b) \<longleftrightarrow> bm_set (Remove i b) = {}"
      using roaring.count_0 [of "Remove i b"] rem by (simp add: IsEmpty_def Cardinality_def)
    show ?thesis
    proof (cases "IsEmpty (Remove i b)")
      case False
      then have ne: "bm_set (Remove i b) \<noteq> {}" using em by simp
      note up = posting_update [OF po Some ne conjunct1 [OF rem]]
      have run: "RemoveFromPosting hash fid term i s = (Inr (), ?s1)"
        using False b(1) by (simp add: RemoveFromPosting_def get Some attach_bitmap_def set_bitmap_def)
      have "iv_struct hash good live sch ?s1" using kv up(1,3) by (simp add: iv_struct_def)
      moreover have "extends live s ?s1" using up(3) by (simp add: extends_def)
      moreover have "posting ?s1 = upd_postings (\<lambda>X. X - {i}) [?p] (posting s)"
        using up(2) rem pb by (simp add: upd_postings_def fun_eq_iff)
      ultimately show ?thesis by (simp add: run posted_def)
    next
      case True
      obtain c m where t: "iv_postings s = (c, m)" by (cases "iv_postings s")
      obtain r m' where e: "cm_erase hash ?p m = Inr (r, m')" using cm_erase_ok [of m hash ?p] ok(2) t by auto
      have "cm_inv hash m" using ok(1) t by simp
      note sp = cm_erase_spec [OF this e]
      let ?s2 = "?s1\<lparr>iv_postings := (c, m')\<rparr>"
      have er: "postings_erase hash ?p ?s1 = (Inr r, ?s2)"
        using e t by (simp add: postings_erase_def thread_erase_def)
      have run: "RemoveFromPosting hash fid term i s = (Inr (), ?s2)"
        using True b(1) er
        by (simp add: RemoveFromPosting_def Let_def get Some attach_bitmap_def set_bitmap_def)
      have pm: "posting_map ?s2 = (posting_map s)(?p := None)" using sp t by simp
      have other: "o' \<noteq> off" if "posting_map s p' = Some o'" "p' \<noteq> ?p" for p' o'
        using ok(4) [OF Some] that by auto
      have "\<exists>b. iv_bitmaps ?s2 o' = Some b \<and> bm_inv b \<and> bm_set b \<noteq> {}" if "posting_map ?s2 p' = Some o'" for p' o'
        using ok(3) [of p' o'] other [of p' o'] that unfolding pm by (auto split: if_splits)
      moreover have "p' = p''" if "posting_map ?s2 p' = Some o'" "posting_map ?s2 p'' = Some o'" for p' p'' o'
      proof -
        have "posting_map s p' = Some o'" "posting_map s p'' = Some o'" using that unfolding pm by (simp_all split: if_splits)
        then show ?thesis by (rule ok(4))
      qed
      moreover have "cm_inv hash (snd (iv_postings ?s2))" "\<not> cm_lock_free (snd (iv_postings ?s2))"
        using sp ok(2) t by simp_all
      ultimately have po2: "post_ok hash ?s2" unfolding post_ok_def by blast
      have res: "reserved ?s2 \<subseteq> reserved s" unfolding reserved_def pm by (auto simp: ran_def)
      then have "kv_inv hash good live sch (reserved ?s2) s"
        by (rule kv_inv_shrink [OF kv]) (simp add: reserved_def)
      then have "iv_struct hash good live sch ?s2" using po2 by (simp add: iv_struct_def)
      moreover have "extends live s ?s2" using res by (auto simp: extends_def)
      moreover have "posting ?s2 p' = upd_postings (\<lambda>X. X - {i}) [?p] (posting s) p'" for p'
      proof (cases "p' = ?p")
        case eq: True
        have "bm_set b - {i} = {}" using True em rem by simp
        then show ?thesis using pb pm eq by (simp add: posting_def upd_postings_def)
      next
        case False
        then show ?thesis using other [of p'] pm by (auto simp: posting_def upd_postings_def split: option.splits)
      qed
      ultimately show ?thesis by (simp add: run posted_def fun_eq_iff)
    qed
  qed
qed

context upkept_allocator
begin

lemma new_bitmap_cases:
  assumes g: "good (hp_st (ix_heap s))"
  obtains (created) off h where "new_bitmap A s = (Inr off, s\<lparr>ix_heap := h, iv_bitmaps := (iv_bitmaps s)(off := Some bm_new)\<rparr>)"
      "good (hp_st h)" "off \<notin> live (hp_st (ix_heap s))" "live (hp_st h) = insert off (live (hp_st (ix_heap s)))"
      "\<And>q. q \<noteq> off \<Longrightarrow> hp_mem h q = mem_of s q"
    | (thrown) e h where "new_bitmap A s = (Inl (DocError (Thrown e)), s\<lparr>ix_heap := h\<rparr>)"
proof -
  have m: "bm_root_size < 2 ^ 63" by (simp add: bm_root_size_def)
  show ?thesis
  proof (cases rule: hmalloc_cases [OF g m])
    case (1 e s')
    then show ?thesis using thrown [of e] by (simp add: new_bitmap_def on_heap_thrown)
  next
    case (2 p s')
    show ?thesis
      by (rule created [of p "(ix_heap s)\<lparr>hp_st := s', hp_mem := (mem_of s)(p := map (al_junk A p) [0..<bm_root_size])\<rparr>"])
        (use 2 in \<open>simp_all add: new_bitmap_def on_heap_ok\<close>)
  qed
qed

lemma AddToPosting_posted:
  assumes s: "iv_struct hash good live sch s" and i: "i < 2 ^ 32"
  shows "posted exhausted hash good live sch (insert i) [PostingKey fid term] s (AddToPosting hash A fid term i s)"
proof -
  let ?p = "PostingKey fid term"
  have kv: "kv_inv hash good live sch (reserved s) s" and po: "post_ok hash s" using s by (simp_all add: iv_struct_def)
  note ok = post_okD [OF po]
  have get: "postings_get hash ?p s = posting_map s ?p" using ok(1) by (simp add: postings_get_def cm_get_map)
  show ?thesis
  proof (cases "posting_map s ?p")
    case (Some off)
    obtain b where b: "iv_bitmaps s off = Some b" "bm_inv b" "bm_set b \<noteq> {}" using ok(3) [OF Some] by blast
    note add = Add_set [OF b(2) i]
    have pb: "posting s ?p = bm_set b" using Some b(1) by (simp add: posting_def)
    let ?s1 = "s\<lparr>iv_bitmaps := (iv_bitmaps s)(off := Some (Add i b))\<rparr>"
    have "bm_set (Add i b) \<noteq> {}" using add by simp
    note up = posting_update [OF po Some this conjunct1 [OF add]]
    have run: "AddToPosting hash A fid term i s = (Inr (), ?s1)"
      using b(1) by (simp add: AddToPosting_def get Some attach_bitmap_def set_bitmap_def)
    have "iv_struct hash good live sch ?s1" using kv up(1,3) by (simp add: iv_struct_def)
    moreover have "extends live s ?s1" using up(3) by (simp add: extends_def)
    moreover have "posting ?s1 = upd_postings (insert i) [?p] (posting s)"
      using up(2) add pb by (simp add: upd_postings_def fun_eq_iff)
    ultimately show ?thesis by (simp add: run posted_def)
  next
    case None
    have g: "good (hp_st (ix_heap s))" by (rule kv_invD(2) [OF kv])
    show ?thesis
    proof (cases rule: new_bitmap_cases [OF g])
      case (2 e h)
      then show ?thesis by (simp add: AddToPosting_def get None posted_def exhausted_def)
    next
      case (1 off h)
      let ?b = "Add i bm_new"
      have add: "bm_inv ?b" "bm_set ?b = {i}" using Add_set [OF bm_new_ok(1) i] bm_new_ok(2) by simp_all
      let ?s1 = "s\<lparr>ix_heap := h, iv_bitmaps := (iv_bitmaps s)(off := Some ?b)\<rparr>"
      have run: "AddToPosting hash A fid term i s = postings_put hash ?p off ?s1"
        using 1(1) by (simp add: AddToPosting_def get None set_bitmap_def)
      show ?thesis
      proof (cases rule: cm_put_cases [OF ok(1,2), of ?p off])
        case 2
        then show ?thesis by (simp add: run postings_put_def posted_def exhausted_def)
      next
        case put: (1 m)
        let ?s2 = "?s1\<lparr>iv_postings := m\<rparr>"
        have pm: "posting_map ?s2 = (posting_map s)(?p \<mapsto> off)" using put(4) by simp
        have fresh: "o' \<noteq> off" if "posting_map s p' = Some o'" for p' o'
          using kv_invD(5) [OF kv] 1(3) that by (auto simp: reserved_def ran_def)
        have memq: "hp_mem h q = mem_of s q" if "q \<in> live (hp_st (ix_heap s))" for q
          using 1(3) 1(5) [of q] that by (cases "q = off") simp_all
        have "\<exists>b. iv_bitmaps ?s2 o' = Some b \<and> bm_inv b \<and> bm_set b \<noteq> {}" if "posting_map ?s2 p' = Some o'" for p' o'
          using ok(3) [of p' o'] fresh [of p' o'] add that unfolding pm by (auto split: if_splits)
        moreover have "p' = p''" if "posting_map ?s2 p' = Some o'" "posting_map ?s2 p'' = Some o'" for p' p'' o'
        proof (cases "o' = off")
          case True
          then show ?thesis using that fresh [of p'] fresh [of p''] unfolding pm by (simp split: if_splits)
        next
          case False
          then have "posting_map s p' = Some o'" "posting_map s p'' = Some o'"
            using that unfolding pm by (simp_all split: if_splits)
          then show ?thesis by (rule ok(4))
        qed
        moreover have "cm_inv hash (snd (iv_postings ?s2))" "\<not> cm_lock_free (snd (iv_postings ?s2))"
          using put(2,3) by simp_all
        ultimately have po2: "post_ok hash ?s2" unfolding post_ok_def by blast
        have res: "reserved ?s2 = insert off (reserved s)"
          unfolding reserved_def pm using ran_map_upd [where m = "posting_map s", OF None, of off] by auto
        have "kv_inv hash good live sch (reserved ?s2) (s\<lparr>ix_heap := h\<rparr>)"
          by (rule kv_inv_grow [OF kv 1(2) _ memq]) (use 1(3,4) res kv_invD(5) [OF kv] in auto)
        then have "kv_inv hash good live sch (reserved ?s2) ?s2" by (simp add: kv_inv_def)
        then have "iv_struct hash good live sch ?s2" using po2 by (simp add: iv_struct_def)
        moreover have "extends live s ?s2" using 1(3,4) memq res by (auto simp: extends_def)
        moreover have "posting ?s2 p' = upd_postings (insert i) [?p] (posting s) p'" for p'
          using fresh [of p'] pm None add(2) by (auto simp: posting_def upd_postings_def split: option.splits)
        ultimately show ?thesis using put(1) by (simp add: run postings_put_def posted_def fun_eq_iff)
      qed
    qed
  qed
qed

end

section \<open>Put and delete keep the posting lists exact\<close>

definition term_docs :: "Schema \<Rightarrow> (nat \<Rightarrow> bytes) \<Rightarrow> (string \<rightharpoonup> nat) \<Rightarrow> string \<Rightarrow> nat set" where
  "term_docs sch mem M p = doc_id_of mem ` {d \<in> ran M. p \<in> set (doc_terms sch mem d)}"

definition iv_inv :: "(string \<Rightarrow> u64) \<Rightarrow> ('st \<Rightarrow> bool) \<Rightarrow> ('st \<Rightarrow> nat set) \<Rightarrow> Schema \<Rightarrow> 'st inverted_index \<Rightarrow> bool" where
  "iv_inv hash good live sch s \<longleftrightarrow> iv_struct hash good live sch s
     \<and> posting s = term_docs sch (mem_of s) (docs_map s)
     \<and> inj_on (doc_id_of (mem_of s)) (ran (docs_map s))"

lemma doc_id_bound: "row_ok sch L mem d \<Longrightarrow> doc_id_of mem d < 2 ^ 32"
  using le_nat_less [of "slice 0 4 (mem d)"] by (simp add: doc_id_of_def row_ok_def doc_wf_def)

lemma term_docs_same:
  assumes "schema_ok sch" "\<And>d. d \<in> ran M \<Longrightarrow> same_doc (n_slots sch) mem mem' d"
  shows "term_docs sch mem' M = term_docs sch mem M"
proof
  fix p
  have "{d \<in> ran M. p \<in> set (doc_terms sch mem' d)} = {d \<in> ran M. p \<in> set (doc_terms sch mem d)}"
    using doc_terms_same [OF assms] by auto
  then show "term_docs sch mem' M p = term_docs sch mem M p"
    unfolding term_docs_def using same_doc_reads(3) [OF assms(2)] by (auto intro!: image_cong)
qed

lemma inj_ids_same:
  assumes "\<And>d. d \<in> D \<Longrightarrow> same_doc n mem mem' d"
  shows "inj_on (doc_id_of mem') D = inj_on (doc_id_of mem) D"
  by (rule inj_on_cong) (rule same_doc_reads(3) [OF assms])

lemma ran_remove:
  assumes "rows_ok sch L mem R M" "M k = Some d"
  shows "ran (M(k := None)) = ran M - {d}"
proof -
  have u: "k' = k" if "M k' = Some d" for k'
    using rows_okD(4) [OF assms that] by (cases "k' = k") (auto simp: doc_blocks_def)
  have "ran (M(k := None)) = {e. \<exists>j. j \<noteq> k \<and> M j = Some e}" by (auto simp: ran_def)
  moreover have "ran M = {e. \<exists>j. M j = Some e}" by (simp add: ran_def)
  moreover have "(\<exists>j. j \<noteq> k \<and> M j = Some e) \<longleftrightarrow> (\<exists>j. M j = Some e) \<and> e \<noteq> d" for e
    using u assms(2) by (cases "e = d") (blast, metis option.inject)
  ultimately show ?thesis by blast
qed

lemma term_docs_remove:
  assumes "rows_ok sch L mem R M" "M k = Some d" "inj_on (doc_id_of mem) (ran M)"
  shows "term_docs sch mem (M(k := None)) = upd_postings (\<lambda>X. X - {doc_id_of mem d}) (doc_terms sch mem d) (term_docs sch mem M)"
proof
  fix p
  let ?D = "{e \<in> ran M. p \<in> set (doc_terms sch mem e)}"
  have d: "d \<in> ran M" using assms(2) by (auto simp: ran_def)
  have "term_docs sch mem (M(k := None)) p = doc_id_of mem ` (?D - ?D \<inter> {d})"
    unfolding term_docs_def ran_remove [OF assms(1,2)] by (rule arg_cong [where f = "image (doc_id_of mem)"]) blast
  also have "\<dots> = doc_id_of mem ` ?D - doc_id_of mem ` (?D \<inter> {d})"
    by (rule inj_on_image_set_diff [OF assms(3)]) auto
  also have "\<dots> = upd_postings (\<lambda>X. X - {doc_id_of mem d}) (doc_terms sch mem d) (term_docs sch mem M) p"
  proof (cases "p \<in> set (doc_terms sch mem d)")
    case True
    then have "?D \<inter> {d} = {d}" using d by blast
    then show ?thesis using True by (simp add: upd_postings_def term_docs_def)
  next
    case False
    then have "?D \<inter> {d} = {}" by blast
    then show ?thesis using False by (simp add: upd_postings_def term_docs_def)
  qed
  finally show "term_docs sch mem (M(k := None)) p =
      upd_postings (\<lambda>X. X - {doc_id_of mem d}) (doc_terms sch mem d) (term_docs sch mem M) p" .
qed

lemma term_docs_insert:
  "term_docs sch mem (M(k \<mapsto> d)) =
     upd_postings (insert (doc_id_of mem d)) (doc_terms sch mem d) (term_docs sch mem (M(k := None)))"
proof -
  have "ran (M(k \<mapsto> d)) = insert d (ran (M(k := None)))" by (auto simp: ran_def)
  then show ?thesis by (auto simp: fun_eq_iff upd_postings_def term_docs_def)
qed

lemma DeindexDoc_posted:
  assumes s: "iv_struct hash good live sch s" "docs_map s k = Some d"
  shows "posted (\<lambda>_. False) hash good live sch (\<lambda>X. X - {doc_id_of (mem_of s) d}) (doc_terms sch (mem_of s) d) s
    (DeindexDoc hash sch d s)"
proof -
  have "row_ok sch (live (hp_st (ix_heap s))) (mem_of s) d"
    using s by (auto simp: iv_struct_def kv_inv_def dest: rows_okD(1))
  then have "on_heap (get_doc_id d) s = (Inr (doc_id_of (mem_of s) d), s)" by (intro on_heap_read row_id)
  moreover have "posted (\<lambda>_. False) hash good live sch (\<lambda>X. X - {i}) (concat (map (field_terms (mem_of s) d) (Schema.fields sch))) s
      (post_fields (\<lambda>fid term. RemoveFromPosting hash fid term i) d (Schema.fields sch) s)" for i
    by (rule posted_fields [OF RemoveFromPosting_posted _ subset_refl s]) auto
  ultimately show ?thesis by (simp add: DeindexDoc_def doc_terms_def)
qed

text \<open>The first part of put and delete: the document stored under the key leaves its posting lists.\<close>

lemma deindex_old:
  assumes inv: "iv_inv hash good live sch s"
  obtains s1 where "(case docs_map s k of Some old_doc \<Rightarrow> DeindexDoc hash sch old_doc | None \<Rightarrow> iret ()) s = (Inr (), s1)"
    "iv_struct hash good live sch s1" "extends live s s1"
    "posting s1 = term_docs sch (mem_of s) ((docs_map s)(k := None))"
proof (cases "docs_map s k")
  case None
  then have "(docs_map s)(k := None) = docs_map s" by (simp add: fun_upd_idem)
  then show ?thesis using that [of s] inv None by (simp add: iv_inv_def)
next
  case (Some d)
  have st: "iv_struct hash good live sch s" and po: "posting s = term_docs sch (mem_of s) (docs_map s)"
    and inj: "inj_on (doc_id_of (mem_of s)) (ran (docs_map s))" using inv by (simp_all add: iv_inv_def)
  have rows: "rows_ok sch (live (hp_st (ix_heap s))) (mem_of s) (reserved s) (docs_map s)"
    using st by (simp add: iv_struct_def kv_inv_def)
  obtain s1 where "DeindexDoc hash sch d s = (Inr (), s1)" "iv_struct hash good live sch s1" "extends live s s1"
    "posting s1 = upd_postings (\<lambda>X. X - {doc_id_of (mem_of s) d}) (doc_terms sch (mem_of s) d) (posting s)"
    using DeindexDoc_posted [OF st Some] by (auto simp: posted_def split: prod.splits sum.splits)
  then show ?thesis using that [of s1] Some term_docs_remove [OF rows Some inj] po by simp
qed

context upkept_allocator
begin

lemma IndexDoc_posted:
  assumes s: "iv_struct hash good live sch s" "docs_map s k = Some d"
  shows "posted exhausted hash good live sch (insert (doc_id_of (mem_of s) d)) (doc_terms sch (mem_of s) d) s
    (IndexDoc hash A sch d s)"
proof -
  have row: "row_ok sch (live (hp_st (ix_heap s))) (mem_of s) d"
    using s by (auto simp: iv_struct_def kv_inv_def dest: rows_okD(1))
  then have "on_heap (get_doc_id d) s = (Inr (doc_id_of (mem_of s) d), s)" by (intro on_heap_read row_id)
  moreover have "posted exhausted hash good live sch (insert i) (concat (map (field_terms (mem_of s) d) (Schema.fields sch))) s
      (post_fields (\<lambda>fid term. AddToPosting hash A fid term i) d (Schema.fields sch) s)" if "i < 2 ^ 32" for i
    by (rule posted_fields [OF AddToPosting_posted [OF _ that] _ subset_refl s]) auto
  ultimately show ?thesis using doc_id_bound [OF row] by (simp add: IndexDoc_def doc_terms_def)
qed

text \<open>Rows other than the one under \<open>k\<close>, and a fresh row, survive when that row is retired.\<close>

lemma extended_fresh:
  assumes s: "iv_struct hash good live sch s" and e: "extends live s s1"
    and f: "fresh_row sch (live (hp_st (ix_heap s))) (mem_of s) (reserved s) (docs_map s) d"
  shows "fresh_row sch (live (hp_st (ix_heap s1))) (mem_of s1) (reserved s1) (docs_map s1) d"
    "same_doc (n_slots sch) (mem_of s) (mem_of s1) d"
proof -
  have sok: "schema_ok sch" and rows: "rows_ok sch (live (hp_st (ix_heap s))) (mem_of s) (reserved s) (docs_map s)"
    using s by (simp_all add: iv_struct_def kv_inv_def)
  have l: "doc_blocks (n_slots sch) (mem_of s) d \<subseteq> live (hp_st (ix_heap s))"
    using row_blocks_live f by (auto simp: fresh_row_def)
  then show same: "same_doc (n_slots sch) (mem_of s) (mem_of s1) d" using e by (auto simp: same_doc_def extends_def)
  have "fresh_row sch (live (hp_st (ix_heap s1))) (mem_of s1) (reserved s1) (docs_map s) d"
  proof (rule fresh_row_same [OF f sok map_le_refl rows _ same])
    show "doc_blocks (n_slots sch) (mem_of s) d \<subseteq> live (hp_st (ix_heap s1))" using l e by (auto simp: extends_def)
    have "doc_blocks (n_slots sch) (mem_of s) d \<inter> reserved s = {}" using f by (simp add: fresh_row_def)
    moreover have "reserved s1 - reserved s \<subseteq> - live (hp_st (ix_heap s))" using e by (simp add: extends_def)
    ultimately show "doc_blocks (n_slots sch) (mem_of s) d \<inter> reserved s1 = {}" using l by blast
    show "same_doc (n_slots sch) (mem_of s) (mem_of s1) d'" if "docs_map s k' = Some d'" for k' d'
      by (rule row_extends [OF s that e])
  qed
  then show "fresh_row sch (live (hp_st (ix_heap s1))) (mem_of s1) (reserved s1) (docs_map s1) d"
    using e by (simp add: extends_def)
qed

end

section \<open>Put and delete\<close>

lemma posting_frame [simp]:
  "posting (s\<lparr>ix_heap := h, ix_docs := m\<rparr>) = posting s" "reserved (s\<lparr>ix_heap := h, ix_docs := m\<rparr>) = reserved s"
  "post_ok hash (s\<lparr>ix_heap := h, ix_docs := m\<rparr>) = post_ok hash s"
  by (simp_all add: fun_eq_iff posting_def reserved_def post_ok_def split: option.split)

lemma inj_ids_insert:
  assumes "inj_on (doc_id_of mem) (ran M)" "doc_id_of mem d \<notin> doc_id_of mem ` ran (M(k := None))"
  shows "inj_on (doc_id_of mem) (ran (M(k \<mapsto> d)))" "inj_on (doc_id_of mem) (ran (M(k := None)))"
proof -
  have "ran (M(k := None)) \<subseteq> ran M" by (auto simp: ran_def)
  then show i: "inj_on (doc_id_of mem) (ran (M(k := None)))" by (rule inj_on_subset [OF assms(1)])
  have "ran (M(k \<mapsto> d)) = insert d (ran (M(k := None)))" by (auto simp: ran_def)
  then show "inj_on (doc_id_of mem) (ran (M(k \<mapsto> d)))" using i assms(2) by auto
qed

text \<open>What is left of an extended state after the row under \<open>k\<close> is retired.\<close>

lemma survivors:
  assumes s: "iv_struct hash good live sch s" and e: "extends live s s1"
    and live: "live (hp_st h) = live (hp_st (ix_heap s1)) - old_blocks sch (mem_of s1) (docs_map s1) k"
    and mem: "\<And>q. q \<in> live (hp_st h) \<Longrightarrow> hp_mem h q = mem_of s1 q"
    and d: "doc_blocks (n_slots sch) (mem_of s) d \<subseteq> live (hp_st (ix_heap s))"
      "doc_blocks (n_slots sch) (mem_of s) d \<inter> old_blocks sch (mem_of s) (docs_map s) k = {}"
  shows "same_doc (n_slots sch) (mem_of s) (hp_mem h) d \<and> doc_blocks (n_slots sch) (mem_of s) d \<subseteq> live (hp_st h)"
proof -
  have "old_blocks sch (mem_of s1) (docs_map s1) k = old_blocks sch (mem_of s) (docs_map s) k"
    using e row_extends [OF s _ e] same_doc_reads(2) by (simp add: old_blocks_def extends_def split: option.splits)
  then have l: "doc_blocks (n_slots sch) (mem_of s) d \<subseteq> live (hp_st h)"
    using d e live by (auto simp: extends_def)
  have "hp_mem h q = mem_of s q" if "q \<in> doc_blocks (n_slots sch) (mem_of s) d" for q
  proof -
    have "hp_mem h q = mem_of s1 q" using mem l that by blast
    also have "\<dots> = mem_of s q" using d(1) e that by (auto simp: extends_def)
    finally show ?thesis .
  qed
  then show ?thesis using l by (simp add: same_doc_def)
qed

lemma other_row:
  assumes "rows_ok sch L mem R M" "d \<in> ran (M(k := None))"
  shows "doc_blocks (n_slots sch) mem d \<subseteq> L" "doc_blocks (n_slots sch) mem d \<inter> old_blocks sch mem M k = {}"
proof -
  obtain j where j: "M j = Some d" "j \<noteq> k" using assms(2) by (auto simp: ran_def split: if_splits)
  show "doc_blocks (n_slots sch) mem d \<subseteq> L" by (rule row_blocks_live [OF rows_okD(1) [OF assms(1) j(1)]])
  show "doc_blocks (n_slots sch) mem d \<inter> old_blocks sch mem M k = {}"
    using rows_okD(4) [OF assms(1) j(1), of k] j(2) by (simp add: old_blocks_def split: option.splits)
qed

context upkept_allocator
begin

lemma InvertedIndex_Delete_ok:
  assumes inv: "iv_inv hash good live sch s"
  obtains s' where "InvertedIndex_Delete hash A sch k s = (Inr (k \<in> dom (docs_map s)), s')"
    "iv_inv hash good live sch s'" "docs_map s' = (docs_map s)(k := None)"
    "\<And>d. d \<in> ran ((docs_map s)(k := None)) \<Longrightarrow> same_doc (n_slots sch) (mem_of s) (mem_of s') d"
proof -
  have st: "iv_struct hash good live sch s" and inj: "inj_on (doc_id_of (mem_of s)) (ran (docs_map s))"
    using inv by (simp_all add: iv_inv_def)
  have sok: "schema_ok sch" and cm: "cm_inv hash (snd (ix_docs s))"
    and rows: "rows_ok sch (live (hp_st (ix_heap s))) (mem_of s) (reserved s) (docs_map s)"
    using st by (simp_all add: iv_struct_def kv_inv_def)
  obtain s1 where s1: "(case docs_map s k of Some old_doc \<Rightarrow> DeindexDoc hash sch old_doc | None \<Rightarrow> iret ()) s = (Inr (), s1)"
    "iv_struct hash good live sch s1" "extends live s s1"
    "posting s1 = term_docs sch (mem_of s) ((docs_map s)(k := None))" by (rule deindex_old [OF inv])
  have kv1: "kv_inv hash good live sch (reserved s1) s1" using s1(2) by (simp add: iv_struct_def)
  have docs1: "docs_map s1 = docs_map s" using s1(3) by (simp add: extends_def)
  obtain h m where d: "Delete hash A k s1 = (Inr (k \<in> dom (docs_map s1)), s1\<lparr>ix_heap := h, ix_docs := m\<rparr>)"
    "kv_inv hash good live sch (reserved s1) (s1\<lparr>ix_heap := h, ix_docs := m\<rparr>)"
    "cm_map (snd m) = (docs_map s1)(k := None)"
    "live (hp_st h) = live (hp_st (ix_heap s1)) - old_blocks sch (mem_of s1) (docs_map s1) k"
    "\<And>q. q \<in> live (hp_st h) \<Longrightarrow> hp_mem h q = mem_of s1 q" by (rule Delete_ok [OF kv1, of k]) (rule that)
  let ?s2 = "s1\<lparr>ix_heap := h, ix_docs := m\<rparr>" and ?M = "(docs_map s)(k := None)"
  have same: "same_doc (n_slots sch) (mem_of s) (hp_mem h) e" if "e \<in> ran ?M" for e
    using survivors [OF st s1(3) d(4,5) other_row [OF rows that]] by simp
  have M: "docs_map ?s2 = ?M" using d(3) docs1 by simp
  have inj': "inj_on (doc_id_of (mem_of s)) (ran ?M)"
    by (rule inj_on_subset [OF inj]) (auto simp: ran_def)
  have "iv_inv hash good live sch ?s2"
    unfolding iv_inv_def M using d(2) s1(2,4) term_docs_same [OF sok same] inj' inj_ids_same [OF same]
    by (simp add: iv_struct_def)
  moreover have "InvertedIndex_Delete hash A sch k s = (Inr (k \<in> dom (docs_map s)), ?s2)"
    using s1(1) d(1) docs1 by (simp add: InvertedIndex_Delete_def docs_get_map [OF cm])
  ultimately show ?thesis using that [of ?s2] M same by simp
qed

lemma InvertedIndex_Put_cases:
  assumes inv: "iv_inv hash good live sch s" and bits: "cm_bits (snd (ix_docs s)) < 31"
    and fresh: "fresh_row sch (live (hp_st (ix_heap s))) (mem_of s) (reserved s) (docs_map s) d"
    and k: "k = pk_of sch (mem_of s) d"
    and id: "doc_id_of (mem_of s) d \<notin> doc_id_of (mem_of s) ` ran ((docs_map s)(k := None))"
  obtains (stored) s' where "InvertedIndex_Put hash A sch d s = (Inr (), s')" "iv_inv hash good live sch s'"
      "docs_map s' = (docs_map s)(k \<mapsto> d)"
      "\<And>d'. d' \<in> ran ((docs_map s)(k \<mapsto> d)) \<Longrightarrow> same_doc (n_slots sch) (mem_of s) (mem_of s') d'"
    | (failed) e s' where "InvertedIndex_Put hash A sch d s = (Inl e, s')" "exhausted e"
proof -
  have st: "iv_struct hash good live sch s" and inj: "inj_on (doc_id_of (mem_of s)) (ran (docs_map s))"
    using inv by (simp_all add: iv_inv_def)
  have sok: "schema_ok sch" and cm: "cm_inv hash (snd (ix_docs s))"
    and rows: "rows_ok sch (live (hp_st (ix_heap s))) (mem_of s) (reserved s) (docs_map s)"
    using st by (simp_all add: iv_struct_def kv_inv_def)
  have row: "row_ok sch (live (hp_st (ix_heap s))) (mem_of s) d" using fresh by (simp add: fresh_row_def)
  obtain s1 where s1: "(case docs_map s k of Some old_doc \<Rightarrow> DeindexDoc hash sch old_doc | None \<Rightarrow> iret ()) s = (Inr (), s1)"
    "iv_struct hash good live sch s1" "extends live s s1"
    "posting s1 = term_docs sch (mem_of s) ((docs_map s)(k := None))" by (rule deindex_old [OF inv])
  have kv1: "kv_inv hash good live sch (reserved s1) s1" using s1(2) by (simp add: iv_struct_def)
  have docs1: "docs_map s1 = docs_map s" and bits1: "cm_bits (snd (ix_docs s1)) < 31"
    using s1(3) bits by (simp_all add: extends_def)
  note fr1 = extended_fresh [OF st s1(3) fresh]
  have k1: "k = pk_of sch (mem_of s1) d" using pk_of_same [OF sok fr1(2)] k by simp
  obtain h m where u: "Upsert hash A sch d s1 = (Inr (), s1\<lparr>ix_heap := h, ix_docs := m\<rparr>)"
    "kv_inv hash good live sch (reserved s1) (s1\<lparr>ix_heap := h, ix_docs := m\<rparr>)"
    "cm_map (snd m) = (docs_map s1)(k \<mapsto> d)"
    "live (hp_st h) = live (hp_st (ix_heap s1)) - old_blocks sch (mem_of s1) (docs_map s1) k"
    "\<And>q. q \<in> live (hp_st h) \<Longrightarrow> hp_mem h q = mem_of s1 q" by (rule Upsert_ok [OF kv1 bits1 fr1(1) k1]) (rule that)
  let ?s2 = "s1\<lparr>ix_heap := h, ix_docs := m\<rparr>" and ?M = "(docs_map s)(k \<mapsto> d)"
  have M: "docs_map ?s2 = ?M" using u(3) docs1 by simp
  have st2: "iv_struct hash good live sch ?s2" using u(2) s1(2) by (simp add: iv_struct_def)
  have same2: "same_doc (n_slots sch) (mem_of s) (mem_of ?s2) e" if e: "e \<in> ran ?M" for e
  proof -
    have "e = d \<or> e \<in> ran ((docs_map s)(k := None))" using e by (auto simp: ran_def split: if_splits)
    then have "doc_blocks (n_slots sch) (mem_of s) e \<subseteq> live (hp_st (ix_heap s))"
      "doc_blocks (n_slots sch) (mem_of s) e \<inter> old_blocks sch (mem_of s) (docs_map s) k = {}"
      using other_row [OF rows] row_blocks_live [OF row] fresh_kept [OF fresh] by metis+
    then show ?thesis using survivors [OF st s1(3) u(4,5)] by simp
  qed
  have d2: "docs_map ?s2 k = Some d" using M by simp
  have dM: "d \<in> ran ?M" by (auto simp: ran_def)
  have run: "InvertedIndex_Put hash A sch d s = IndexDoc hash A sch d ?s2"
    using s1(1) u(1) by (simp add: InvertedIndex_Put_def ExtractPk_ok [OF sok row] docs_get_map [OF cm] k [symmetric])
  obtain r s3 where ix: "IndexDoc hash A sch d ?s2 = (r, s3)" by (cases "IndexDoc hash A sch d ?s2")
  note p = IndexDoc_posted [OF st2 d2, unfolded ix posted_def]
  show ?thesis
  proof (cases r)
    case (Inl e)
    then show ?thesis using failed [of e s3] run ix p by simp
  next
    case (Inr x)
    then have s3: "iv_struct hash good live sch s3" "extends live ?s2 s3"
      "posting s3 = upd_postings (insert (doc_id_of (mem_of ?s2) d)) (doc_terms sch (mem_of ?s2) d) (posting ?s2)"
      using p by simp_all
    have M3: "docs_map s3 = ?M" using s3(2) M by (simp add: extends_def)
    have same3: "same_doc (n_slots sch) (mem_of s) (mem_of s3) e" if "e \<in> ran ?M" for e
    proof -
      obtain j where "docs_map ?s2 j = Some e" using \<open>e \<in> ran ?M\<close> M by (auto simp: ran_def)
      from row_extends [OF st2 this s3(2)] show ?thesis
        using same2 [OF that] same_doc_reads(2) [OF same2 [OF that]] by (simp add: same_doc_def)
    qed
    have "posting s3 = upd_postings (insert (doc_id_of (mem_of s) d)) (doc_terms sch (mem_of s) d)
        (term_docs sch (mem_of s) ((docs_map s)(k := None)))"
      using s3(3) s1(4) same_doc_reads(3) [OF same2 [OF dM]] doc_terms_same [OF sok same2 [OF dM]] by simp
    also have "\<dots> = term_docs sch (mem_of s3) ?M"
      by (simp only: term_docs_insert [symmetric] term_docs_same [OF sok same3])
    finally have "iv_inv hash good live sch s3"
      unfolding iv_inv_def M3 using s3(1) inj_ids_insert(1) [OF inj id] inj_ids_same [OF same3] by simp
    then show ?thesis using stored [of s3] run ix Inr M3 same3 by simp
  qed
qed

end

end
