(* ===== verification/IndexQuery.thy ===== *)
theory IndexQuery
  imports IndexInverted
begin

text \<open>
  The queries of the inverted index: their results are the exact sets of identifiers, they change
  no row and no posting list, and what they allocate on the way stays allocated.
\<close>

section \<open>Intersection with early exit\<close>

lemma IsEmpty_set: "bm_inv b \<Longrightarrow> IsEmpty b \<longleftrightarrow> bm_set b = {}"
  using roaring.count_0 [of b] by (simp add: IsEmpty_def Cardinality_def)

lemma and_all_set:
  "bm_inv r \<Longrightarrow> \<forall>b\<in>set bs. bm_inv b \<Longrightarrow>
     bm_inv (and_all r bs) \<and> bm_set (and_all r bs) = bm_set r \<inter> (\<Inter>b\<in>set bs. bm_set b)"
proof (induction bs arbitrary: r)
  case (Cons b bs)
  note a = AndWith_set [of r b False]
  then show ?case using Cons IsEmpty_set [of "AndWith False b r"] by (auto simp: Let_def)
qed simp

lemma copy_bitmap_set: "bm_inv b \<Longrightarrow> bm_inv (copy_bitmap b) \<and> bm_set (copy_bitmap b) = bm_set b"
  using OrWith_set [OF bm_new_ok(1), of b False] bm_new_ok(2) by (simp add: copy_bitmap_def)

section \<open>Runs that leave the index alone\<close>

definition quiet :: "('st \<Rightarrow> nat set) \<Rightarrow> 'st inverted_index \<Rightarrow> 'st inverted_index \<Rightarrow> bool" where
  "quiet live s s' \<longleftrightarrow> ix_docs s' = ix_docs s \<and> ix_hdr s' = ix_hdr s \<and> iv_postings s' = iv_postings s
     \<and> live (hp_st (ix_heap s)) \<subseteq> live (hp_st (ix_heap s'))
     \<and> (\<forall>q\<in>live (hp_st (ix_heap s)). mem_of s' q = mem_of s q \<and> iv_bitmaps s' q = iv_bitmaps s q)"

lemma quiet_refl [simp]: "quiet live s s"
  by (simp add: quiet_def)

lemma root_live:
  assumes "iv_struct hash good live sch s" "posting_map s p = Some off"
  shows "off \<in> live (hp_st (ix_heap s))"
  using assms by (auto simp: iv_struct_def kv_inv_def reserved_def ran_def)

lemma quiet_posting:
  assumes "iv_struct hash good live sch s" "quiet live s s'"
  shows "posting s' = posting s" "reserved s' = reserved s" "post_ok hash s'"
proof -
  have pm: "posting_map s' = posting_map s" using assms(2) by (simp add: quiet_def)
  have b: "iv_bitmaps s' off = iv_bitmaps s off" if "posting_map s p = Some off" for p off
    using root_live [OF assms(1) that] assms(2) by (simp add: quiet_def)
  then have "posting s' p = posting s p" for p by (simp add: posting_def pm split: option.split)
  then show "posting s' = posting s" by (rule ext)
  show "reserved s' = reserved s" using assms(2) by (simp add: reserved_def quiet_def)
  have po: "post_ok hash s" using assms(1) by (simp add: iv_struct_def)
  show "post_ok hash s'" unfolding post_ok_def pm
    using post_okD(1-3) [OF po] b assms(2) post_okD(4) [OF po] by (intro conjI allI impI) (simp_all add: quiet_def)
qed

context upkept_allocator
begin

text \<open>A run that leaves the index alone keeps it consistent.\<close>

lemma quiet_struct:
  assumes s: "iv_struct hash good live sch s" and q: "quiet live s s'" and g: "good (hp_st (ix_heap s'))"
  shows "iv_struct hash good live sch s'"
proof -
  note qp = quiet_posting [OF s q]
  have kv: "kv_inv hash good live sch (reserved s) s" using s by (simp add: iv_struct_def)
  have "kv_inv hash good live sch (reserved s) (s\<lparr>ix_heap := ix_heap s'\<rparr>)"
    by (rule kv_inv_grow [OF kv g]) (use q kv_invD(5) [OF kv] in \<open>auto simp: quiet_def\<close>)
  then show ?thesis using qp(2,3) q by (simp add: iv_struct_def kv_inv_def quiet_def)
qed

lemma quiet_iv_inv:
  assumes inv: "iv_inv hash good live sch s" and q: "quiet live s s'" and g: "good (hp_st (ix_heap s'))"
  shows "iv_inv hash good live sch s'"
proof -
  have st: "iv_struct hash good live sch s" using inv by (simp add: iv_inv_def)
  have kv: "schema_ok sch" "rows_ok sch (live (hp_st (ix_heap s))) (mem_of s) (reserved s) (docs_map s)"
    using st by (simp_all add: iv_struct_def kv_inv_def)
  have same: "same_doc (n_slots sch) (mem_of s) (mem_of s') d" if "d \<in> ran (docs_map s)" for d
  proof -
    obtain k where "docs_map s k = Some d" using \<open>d \<in> ran (docs_map s)\<close> by (auto simp: ran_def)
    from row_blocks_live [OF rows_okD(1) [OF kv(2) this]] show ?thesis
      using q by (auto simp: same_doc_def quiet_def)
  qed
  have d: "docs_map s' = docs_map s" using q by (simp add: quiet_def)
  show ?thesis unfolding iv_inv_def d
    using quiet_struct [OF st q g] quiet_posting(1) [OF st q] inv term_docs_same [OF kv(1) same] inj_ids_same [OF same]
    by (simp add: iv_inv_def)
qed

end

text \<open>A run that started somewhere above \<open>s\<^sub>0\<close> and left \<open>s\<^sub>0\<close> alone, with a result as \<open>P\<close> says.\<close>

definition queried :: "('st \<Rightarrow> bool) \<Rightarrow> ('st \<Rightarrow> nat set) \<Rightarrow> 'st inverted_index \<Rightarrow> ('a \<Rightarrow> 'st inverted_index \<Rightarrow> bool)
    \<Rightarrow> (index_error + 'a) \<times> 'st inverted_index \<Rightarrow> bool" where
  "queried good live s0 P res \<longleftrightarrow> (case res of
       (Inl e, _) \<Rightarrow> exhausted e
     | (Inr x, s') \<Rightarrow> quiet live s0 s' \<and> good (hp_st (ix_heap s')) \<and> P x s')"

lemma queried_then:
  assumes "queried good live s0 P (m s)"
    and "\<And>x s'. quiet live s0 s' \<Longrightarrow> good (hp_st (ix_heap s')) \<Longrightarrow> P x s' \<Longrightarrow> queried good live s0 Q (k x s')"
  shows "queried good live s0 Q (ithen m k s)"
proof (cases "m s")
  case (Pair r s')
  show ?thesis
  proof (cases r)
    case (Inl e)
    then show ?thesis using assms(1) Pair by (simp add: queried_def)
  next
    case (Inr x)
    then show ?thesis using assms(1) assms(2) [of s' x] Pair by (simp add: queried_def)
  qed
qed

lemma queried_ret: "quiet live s0 s \<Longrightarrow> good (hp_st (ix_heap s)) \<Longrightarrow> P x s \<Longrightarrow> queried good live s0 P (iret x s)"
  by (simp add: queried_def)

lemma queried_set_bitmap:
  assumes "quiet live s0 s" "good (hp_st (ix_heap s))" "off \<notin> live (hp_st (ix_heap s0))"
    and "P () (s\<lparr>iv_bitmaps := (iv_bitmaps s)(off := Some b)\<rparr>)"
  shows "queried good live s0 P (set_bitmap off b s)"
  using assms by (auto simp: queried_def set_bitmap_def quiet_def)

definition found_ok :: "('st \<Rightarrow> nat set) \<Rightarrow> 'st inverted_index \<Rightarrow> string \<Rightarrow> (nat \<times> bitmap) option \<Rightarrow> bool" where
  "found_ok live s p r \<longleftrightarrow> (case r of
       None \<Rightarrow> posting s p = {}
     | Some (off, b) \<Rightarrow> off \<in> live (hp_st (ix_heap s)) \<and> bm_inv b \<and> bm_set b = posting s p \<and> bm_set b \<noteq> {})"

lemma Query_ok:
  assumes s0: "iv_struct hash good live sch s0" and q: "quiet live s0 s"
  shows "\<exists>r. Query hash fid term s = (Inr r, s) \<and> found_ok live s0 (PostingKey fid term) r"
proof -
  let ?p = "PostingKey fid term"
  note qp = quiet_posting [OF s0 q]
  have po: "post_ok hash s0" using s0 by (simp add: iv_struct_def)
  have get: "postings_get hash ?p s = posting_map s0 ?p"
    using post_okD(1) [OF qp(3)] q by (simp add: postings_get_def cm_get_map quiet_def)
  show ?thesis
  proof (cases "posting_map s0 ?p")
    case None
    then show ?thesis by (simp add: Query_def get found_ok_def posting_def)
  next
    case (Some off)
    obtain b where b: "iv_bitmaps s0 off = Some b" "bm_inv b" "bm_set b \<noteq> {}" using post_okD(3) [OF po Some] by blast
    have off: "off \<in> live (hp_st (ix_heap s0))" by (rule root_live [OF s0 Some])
    have "iv_bitmaps s off = Some b" using q off b(1) by (simp add: quiet_def)
    then have "Query hash fid term s = (Inr (Some (off, b)), s)" by (simp add: Query_def get Some attach_bitmap_def)
    moreover have "posting s0 ?p = bm_set b" using Some b(1) by (simp add: posting_def)
    ultimately show ?thesis using off b by (simp add: found_ok_def)
  qed
qed

lemma queried_Query:
  assumes "iv_struct hash good live sch s0" "quiet live s0 s" "good (hp_st (ix_heap s))"
  shows "queried good live s0 (\<lambda>r s'. s' = s \<and> found_ok live s0 (PostingKey fid term) r) (Query hash fid term s)"
  using Query_ok [OF assms(1,2), of fid "term"] assms(2,3) by (auto simp: queried_def)

definition live_count :: "('st \<Rightarrow> nat set) \<Rightarrow> 'st inverted_index \<Rightarrow> nat" where
  "live_count live s = card (live (hp_st (ix_heap s)))"

context upkept_allocator
begin

lemma queried_new_bitmap:
  assumes q: "quiet live s0 s" and g: "good (hp_st (ix_heap s))"
  shows "queried good live s0 (\<lambda>off s'. off \<notin> live (hp_st (ix_heap s))
      \<and> live (hp_st (ix_heap s')) = insert off (live (hp_st (ix_heap s)))
      \<and> iv_bitmaps s' = (iv_bitmaps s)(off := Some bm_new)) (new_bitmap A s)"
proof (cases rule: new_bitmap_cases [OF g])
  case (1 off h)
  have n: "off \<notin> live (hp_st (ix_heap s0))" using q 1(3) by (auto simp: quiet_def)
  have "hp_mem h r = mem_of s0 r" if "r \<in> live (hp_st (ix_heap s0))" for r
    using 1(5) [of r] n q that by (cases "r = off") (simp_all add: quiet_def)
  then have "quiet live s0 (s\<lparr>ix_heap := h, iv_bitmaps := (iv_bitmaps s)(off := Some bm_new)\<rparr>)"
    using q n 1(4) by (auto simp: quiet_def)
  then show ?thesis using 1 by (simp add: queried_def)
next
  case (2 e h)
  then show ?thesis by (simp add: queried_def exhausted_def)
qed

section \<open>Disjunction\<close>

lemma queried_or_terms:
  assumes s0: "iv_struct hash good live sch s0"
    and "quiet live s0 s" "good (hp_st (ix_heap s))" "r \<notin> live (hp_st (ix_heap s0))" "r \<in> live (hp_st (ix_heap s))"
    and "iv_bitmaps s r = Some b" "bm_inv b" "finite (live (hp_st (ix_heap s)))"
  shows "queried good live s0 (\<lambda>_ s'. (\<exists>b'. iv_bitmaps s' r = Some b' \<and> bm_inv b'
        \<and> bm_set b' = bm_set b \<union> (\<Union>t\<in>set terms. posting s0 (PostingKey fid t)))
      \<and> live_count live s' = live_count live s + length terms) (or_terms hash A fid r terms s)"
  using assms(2-)
proof (induction terms arbitrary: s b)
  case Nil
  then show ?case by (simp add: queried_def)
next
  case (Cons t ts)
  let ?Q = "\<lambda>_ s'. (\<exists>b'. iv_bitmaps s' r = Some b' \<and> bm_inv b'
        \<and> bm_set b' = bm_set b \<union> (\<Union>t\<in>set (t # ts). posting s0 (PostingKey fid t)))
      \<and> live_count live s' = live_count live s + length (t # ts)"
  show ?case unfolding or_terms.simps
  proof (rule queried_then [where m = "new_bitmap A" and s = s, OF queried_new_bitmap [OF Cons.prems(1,2)]])
    fix off s1
    assume q1: "quiet live s0 s1" "good (hp_st (ix_heap s1))"
      and n1: "off \<notin> live (hp_st (ix_heap s)) \<and> live (hp_st (ix_heap s1)) = insert off (live (hp_st (ix_heap s)))
        \<and> iv_bitmaps s1 = (iv_bitmaps s)(off := Some bm_new)"
    have r1: "iv_bitmaps s1 r = Some b" "r \<in> live (hp_st (ix_heap s1))" "finite (live (hp_st (ix_heap s1)))"
      "live_count live s1 = live_count live s + 1"
      using n1 Cons.prems(4,5,7) by (auto simp: live_count_def)
    obtain f where f: "Query hash fid t s1 = (Inr f, s1)" "found_ok live s0 (PostingKey fid t) f"
      using Query_ok [OF s0 q1(1)] by blast
    show "queried good live s0 ?Q (ithen (Query hash fid t) (\<lambda>found.
        ithen (case found of None \<Rightarrow> iret ()
          | Some (_, bm) \<Rightarrow> ithen (attach_bitmap r) (\<lambda>result. set_bitmap r (OrWith False bm result)))
        (\<lambda>_. or_terms hash A fid r ts)) s1)"
    proof (cases f)
      case None
      then have "posting s0 (PostingKey fid t) = {}" using f(2) by (simp add: found_ok_def)
      then show ?thesis
        using Cons.IH [OF q1 Cons.prems(3) r1(2,1) Cons.prems(6) r1(3)] f(1) None r1(4) by simp
    next
      case (Some x)
      obtain o' bm where x: "x = (o', bm)" by (cases x)
      have bm: "bm_inv bm" "bm_set bm = posting s0 (PostingKey fid t)" using f(2) Some x by (simp_all add: found_ok_def)
      note orw = OrWith_set [OF Cons.prems(6) bm(1), of False]
      let ?s2 = "s1\<lparr>iv_bitmaps := (iv_bitmaps s1)(r := Some (OrWith False bm b))\<rparr>"
      have q2: "quiet live s0 ?s2" using q1(1) Cons.prems(3) by (auto simp: quiet_def)
      have "queried good live s0 (\<lambda>_ s'. (\<exists>b'. iv_bitmaps s' r = Some b' \<and> bm_inv b'
            \<and> bm_set b' = bm_set (OrWith False bm b) \<union> (\<Union>t\<in>set ts. posting s0 (PostingKey fid t)))
          \<and> live_count live s' = live_count live ?s2 + length ts) (or_terms hash A fid r ts ?s2)"
        by (rule Cons.IH [OF q2]) (use q1(2) Cons.prems(3) r1 orw in simp_all)
      moreover have "live_count live ?s2 = live_count live s + 1" using r1(4) by (simp add: live_count_def)
      moreover have "bm_set (OrWith False bm b) = bm_set b \<union> posting s0 (PostingKey fid t)" using orw bm(2) by simp
      ultimately show ?thesis
        using f(1) Some x r1(1) by (simp add: attach_bitmap_def set_bitmap_def Un_assoc)
    qed
  qed
qed

lemma QueryOr_queried:
  assumes s: "iv_struct hash good live sch s" and fin: "finite (live (hp_st (ix_heap s)))"
  shows "queried good live s (\<lambda>r s'. r \<notin> live (hp_st (ix_heap s))
      \<and> (\<exists>b. iv_bitmaps s' r = Some b \<and> bm_inv b \<and> bm_set b = (\<Union>t\<in>set terms. posting s (PostingKey fid t)))
      \<and> live_count live s' = live_count live s + length terms + 1) (QueryOr hash A fid terms s)"
proof -
  have g: "good (hp_st (ix_heap s))" using s by (simp add: iv_struct_def kv_inv_def)
  show ?thesis unfolding QueryOr_def
  proof (rule queried_then [where m = "new_bitmap A" and s = s, OF queried_new_bitmap [OF quiet_refl g]])
    fix r s1
    assume q1: "quiet live s s1" "good (hp_st (ix_heap s1))"
      and n1: "r \<notin> live (hp_st (ix_heap s)) \<and> live (hp_st (ix_heap s1)) = insert r (live (hp_st (ix_heap s)))
        \<and> iv_bitmaps s1 = (iv_bitmaps s)(r := Some bm_new)"
    have r1: "r \<notin> live (hp_st (ix_heap s))" "r \<in> live (hp_st (ix_heap s1))" "iv_bitmaps s1 r = Some bm_new"
      "finite (live (hp_st (ix_heap s1)))" "live_count live s1 = live_count live s + 1"
      using n1 fin by (auto simp: live_count_def)
    show "queried good live s (\<lambda>r s'. r \<notin> live (hp_st (ix_heap s))
        \<and> (\<exists>b. iv_bitmaps s' r = Some b \<and> bm_inv b \<and> bm_set b = (\<Union>t\<in>set terms. posting s (PostingKey fid t)))
        \<and> live_count live s' = live_count live s + length terms + 1)
      (ithen (or_terms hash A fid r terms) (\<lambda>_. iret r) s1)"
      by (rule queried_then [where m = "or_terms hash A fid r terms" and s = s1, OF queried_or_terms [OF s q1 r1(1-3) bm_new_ok(1) r1(4)]], rule queried_ret)
        (use r1(1,5) bm_new_ok(2) in auto)
  qed
qed

end

section \<open>Conjunction\<close>

definition gathered :: "'st inverted_index \<Rightarrow> u16 \<Rightarrow> string list \<Rightarrow> bitmap list option \<Rightarrow> bool" where
  "gathered s fid terms r \<longleftrightarrow> (case r of
       None \<Rightarrow> \<exists>t\<in>set terms. posting s (PostingKey fid t) = {}
     | Some bs \<Rightarrow> list_all2 (\<lambda>t b. bm_inv b \<and> bm_set b = posting s (PostingKey fid t)) terms bs)"

lemma gathered_inter:
  assumes "gathered s fid terms (Some bs)" "sort_key Cardinality bs = b # rest"
  shows "bm_inv (and_all (copy_bitmap b) rest)"
    "bm_set (and_all (copy_bitmap b) rest) = (\<Inter>t\<in>set terms. posting s (PostingKey fid t))"
proof -
  have all: "list_all2 (\<lambda>t b. bm_inv b \<and> bm_set b = posting s (PostingKey fid t)) terms bs"
    using assms(1) by (simp add: gathered_def)
  have sets: "set (b # rest) = set bs" using assms(2) by (metis set_sort)
  have inv: "\<forall>c\<in>set bs. bm_inv c" using all by (auto simp: list_all2_conv_all_nth in_set_conv_nth)
  have "bm_set ` set bs = (\<lambda>t. posting s (PostingKey fid t)) ` set terms"
    using all by (induction rule: list_all2_induct) auto
  moreover have "bm_set b \<inter> (\<Inter>c\<in>set rest. bm_set c) = \<Inter> (bm_set ` set bs)" unfolding sets [symmetric] by simp
  moreover have b: "bm_inv b" "\<forall>c\<in>set rest. bm_inv c" using inv sets by auto
  ultimately show "bm_inv (and_all (copy_bitmap b) rest)"
    "bm_set (and_all (copy_bitmap b) rest) = (\<Inter>t\<in>set terms. posting s (PostingKey fid t))"
    using and_all_set [of "copy_bitmap b" rest] copy_bitmap_set [of b] by simp_all
qed

context upkept_allocator
begin

lemma queried_gather:
  assumes s0: "iv_struct hash good live sch s0" and "quiet live s0 s" "good (hp_st (ix_heap s))"
  shows "queried good live s0 (\<lambda>r _. gathered s0 fid terms r) (gather hash A fid terms s)"
  using assms(2-)
proof (induction terms arbitrary: s)
  case Nil
  then show ?case by (simp add: queried_def gathered_def)
next
  case (Cons t ts)
  let ?Q = "\<lambda>r (_ :: 'a inverted_index). gathered s0 fid (t # ts) r"
  show ?case unfolding gather.simps
  proof (rule queried_then [where m = "new_bitmap A" and s = s, OF queried_new_bitmap [OF Cons.prems]])
    fix off s1
    assume q1: "quiet live s0 s1" "good (hp_st (ix_heap s1))"
    obtain f where f: "Query hash fid t s1 = (Inr f, s1)" "found_ok live s0 (PostingKey fid t) f"
      using Query_ok [OF s0 q1(1)] by blast
    show "queried good live s0 ?Q (ithen (Query hash fid t) (\<lambda>found. case found of None \<Rightarrow> iret None
        | Some (_, bm) \<Rightarrow> if IsEmpty bm then iret None
            else ithen (gather hash A fid ts) (\<lambda>rest. iret (map_option ((#) bm) rest))) s1)"
    proof (cases f)
      case None
      then show ?thesis using f q1 by (simp add: queried_def gathered_def found_ok_def)
    next
      case (Some x)
      obtain o' bm where x: "x = (o', bm)" by (cases x)
      have bm: "bm_inv bm" "bm_set bm = posting s0 (PostingKey fid t)" "\<not> IsEmpty bm"
        using f(2) Some x IsEmpty_set [of bm] by (auto simp: found_ok_def)
      have "queried good live s0 ?Q (ithen (gather hash A fid ts) (\<lambda>rest. iret (map_option ((#) bm) rest)) s1)"
      proof (rule queried_then [where m = "gather hash A fid ts" and s = s1, OF Cons.IH [OF q1]], rule queried_ret)
        fix r s' assume "gathered s0 fid ts r"
        then show "gathered s0 fid (t # ts) (map_option ((#) bm) r)"
          using bm by (cases r) (auto simp: gathered_def)
      qed
      then show ?thesis using f(1) Some x bm(3) by simp
    qed
  qed
qed

lemma QueryAnd_queried:
  assumes s: "iv_struct hash good live sch s"
  shows "queried good live s (\<lambda>r s'. r \<notin> live (hp_st (ix_heap s))
      \<and> (\<exists>b. iv_bitmaps s' r = Some b \<and> bm_inv b
          \<and> bm_set b = (if terms = [] then {} else \<Inter>t\<in>set terms. posting s (PostingKey fid t))))
      (QueryAnd hash A fid terms s)"
    (is "queried good live s ?Q _")
proof -
  have g: "good (hp_st (ix_heap s))" using s by (simp add: iv_struct_def kv_inv_def)
  have empty: "queried good live s ?Q (new_bitmap A s1)"
    if q: "quiet live s s1" "good (hp_st (ix_heap s1))"
      and none: "(if terms = [] then {} else \<Inter>t\<in>set terms. posting s (PostingKey fid t)) = {}" for s1
    using queried_new_bitmap [OF q] q(1) none bm_new_ok
    by (auto simp: queried_def quiet_def split: prod.splits sum.splits)
  show ?thesis
  proof (cases "terms = []")
    case True
    then show ?thesis using empty [OF quiet_refl g] by (simp add: QueryAnd_def)
  next
    case False
    show ?thesis unfolding QueryAnd_def if_not_P [OF False]
    proof (rule queried_then [where m = "gather hash A fid terms" and s = s, OF queried_gather [OF s quiet_refl g]])
      fix f s1
      assume q1: "quiet live s s1" "good (hp_st (ix_heap s1))" and f: "gathered s fid terms f"
      show "queried good live s (\<lambda>r s'. r \<notin> live (hp_st (ix_heap s))
          \<and> (\<exists>b. iv_bitmaps s' r = Some b \<and> bm_inv b \<and> bm_set b = (\<Inter>t\<in>set terms. posting s (PostingKey fid t))))
        ((case f of None \<Rightarrow> new_bitmap A | Some bs \<Rightarrow> case sort_key Cardinality bs of [] \<Rightarrow> new_bitmap A
          | b # rest \<Rightarrow> ithen (new_bitmap A) (\<lambda>r.
              ithen (set_bitmap r (and_all (copy_bitmap b) rest)) (\<lambda>_. iret r))) s1)"
      proof (cases f)
        case None
        then have "(\<Inter>t\<in>set terms. posting s (PostingKey fid t)) = {}" using f by (auto simp: gathered_def)
        then show ?thesis using empty [OF q1] False None by simp
      next
        case (Some bs)
        have "length bs = length terms" using f Some by (simp add: gathered_def list_all2_lengthD)
        then obtain b rest where sorted: "sort_key Cardinality bs = b # rest"
          using False by (cases "sort_key Cardinality bs") (auto dest: arg_cong [where f = length])
        note inter = gathered_inter [OF f [unfolded Some] sorted]
        show ?thesis unfolding Some sorted option.case list.case
        proof (rule queried_then [where m = "new_bitmap A" and s = s1, OF queried_new_bitmap [OF q1]])
          fix r s2
          assume q2: "quiet live s s2" "good (hp_st (ix_heap s2))"
            and "r \<notin> live (hp_st (ix_heap s1)) \<and> live (hp_st (ix_heap s2)) = insert r (live (hp_st (ix_heap s1)))
              \<and> iv_bitmaps s2 = (iv_bitmaps s1)(r := Some bm_new)"
          then have "r \<notin> live (hp_st (ix_heap s))" using q1(1) by (auto simp: quiet_def)
          then show "queried good live s (\<lambda>r s'. r \<notin> live (hp_st (ix_heap s))
              \<and> (\<exists>b. iv_bitmaps s' r = Some b \<and> bm_inv b \<and> bm_set b = (\<Inter>t\<in>set terms. posting s (PostingKey fid t))))
            (ithen (set_bitmap r (and_all (copy_bitmap b) rest)) (\<lambda>_. iret r) s2)"
            using q2 inter by (auto simp: set_bitmap_def queried_def quiet_def)
        qed
      qed
    qed
  qed
qed

end

end
