(* ===== verification/Pages.thy ===== *)
theory Pages
  imports Segments
begin

text \<open>
  The page layer of the arena allocator (src/libs/yikv/alloc/ft_allocator.cc): the page bitmap with
  \<^verbatim>\<open>alloc_pages\<close> and \<^verbatim>\<open>free_pages\<close>, the layout \<^verbatim>\<open>initialize\<close> computes for a fresh arena, the recount
  of free pages on reopening and the bitmap part of \<^verbatim>\<open>CheckConsistency\<close>. Bitmap words are 64-bit
  words; offsets, counts and sizes are natural numbers, bounded by the arena size. The mutexes of
  the sources guard whole operations, so an operation is one step of the model.

  The operating system is the parameter \<open>os\<close> of the mapping. \<open>ub\<close> is the value of the shift
  \<^verbatim>\<open>1ULL << 64\<close> that the general path of \<^verbatim>\<open>alloc_pages\<close> evaluates, which C++ leaves undefined (an
  x86-64 shift instruction gives 1). An exception of the sources is an \<open>Inl\<close> result together with
  the state at the throw.
\<close>

section \<open>The page state\<close>

record page_arena =
  mapping :: mapped_file
  page_size :: nat
  arena_size :: nat
  data_offset :: nat
  bitmap_offset :: nat
  bitmap_words :: nat
  page_count :: nat
  free_page_count :: nat
  next_page_cursor :: nat
  bm :: "u64 list"

definition bitmap_set :: "nat \<Rightarrow> u64 list \<Rightarrow> u64 list" where
  "bitmap_set page b = b[page div 64 := b ! (page div 64) OR push_bit (page mod 64) 1]"

definition bitmap_clear :: "nat \<Rightarrow> u64 list \<Rightarrow> u64 list" where
  "bitmap_clear page b = b[page div 64 := b ! (page div 64) AND NOT (push_bit (page mod 64) 1)]"

definition bitmap_test :: "u64 list \<Rightarrow> nat \<Rightarrow> bool" where
  "bitmap_test b page \<longleftrightarrow> drop_bit (page mod 64) (b ! (page div 64)) AND 1 \<noteq> 0"

subsection \<open>Searching a run of free pages\<close>

text \<open>The mask of \<open>count\<close> ones of the first and the general path.\<close>

definition low_mask :: "nat \<Rightarrow> u64" where
  "low_mask count = (if count = 64 then - 1 else push_bit count 1 - 1)"

text \<open>First path, \<open>count \<le> 64\<close>: the inner loop over \<open>shift\<close> and the loop over the words.\<close>

function fast_shift :: "nat \<Rightarrow> nat \<Rightarrow> nat \<Rightarrow> u64 \<Rightarrow> nat \<Rightarrow> nat option" where
  "fast_shift pc w count free shift =
     (if shift + count \<le> 64 then
        let page = w * 64 + shift in
        if pc \<le> page then None
        else if pc < page + count then None
        else if free AND push_bit shift (low_mask count) = push_bit shift (low_mask count)
             then Some shift
        else fast_shift pc w count free (Suc shift)
      else None)"
  by pat_completeness auto
termination
  by (relation "measure (\<lambda>(pc, w, count, free, shift). 65 - shift)") auto

declare fast_shift.simps [simp del]

fun fast_words :: "u64 list \<Rightarrow> nat \<Rightarrow> nat \<Rightarrow> nat \<Rightarrow> nat list \<Rightarrow> nat option" where
  "fast_words b pc start_w count [] = None"
| "fast_words b pc start_w count (ws # wss) =
     (let w = (start_w + ws) mod length b in
      if b ! w = - 1 then fast_words b pc start_w count wss
      else case fast_shift pc w count (NOT (b ! w)) 0 of
             Some shift \<Rightarrow> Some (w * 64 + shift)
           | None \<Rightarrow> fast_words b pc start_w count wss)"

text \<open>
  The page-by-page scan, used for \<open>64 < count \<le> 128\<close> and again as the last resort. It stops
  (\<^verbatim>\<open>break\<close>) at the first candidate that does not fit before the end of the arena.
\<close>

definition pages_free :: "u64 list \<Rightarrow> nat \<Rightarrow> nat \<Rightarrow> bool" where
  "pages_free b p count \<longleftrightarrow> list_all (\<lambda>i. \<not> bitmap_test b (p + i)) [0..<count]"

fun scan_pages :: "u64 list \<Rightarrow> nat \<Rightarrow> nat \<Rightarrow> nat \<Rightarrow> nat list \<Rightarrow> nat option" where
  "scan_pages b pc start_p count [] = None"
| "scan_pages b pc start_p count (t # ts) =
     (let p = (start_p + t) mod pc in
      if pc < p + count then None
      else if pages_free b p count then Some p
      else scan_pages b pc start_p count ts)"

text \<open>The general path. \<open>shl1 ub n\<close> is the source's \<^verbatim>\<open>1ULL << n\<close>.\<close>

definition shl1 :: "u64 \<Rightarrow> nat \<Rightarrow> u64" where
  "shl1 ub n = (if n < 64 then push_bit n 1 else ub)"

function run_length ::
  "u64 \<Rightarrow> u64 list \<Rightarrow> nat \<Rightarrow> nat \<Rightarrow> nat \<Rightarrow> u64 \<Rightarrow> nat \<Rightarrow> nat \<Rightarrow> nat" where
  "run_length ub b pc count cw cw_free cw_pos run_len =
     (if run_len < count then
        let shifted = drop_bit cw_pos cw_free in
        if shifted = 0 then run_len
        else
          let in_word0 = (if NOT shifted = 0 then 64 - cw_pos else ctz (NOT shifted));
              in_word = (if pc < (cw + 1) * 64 then min in_word0 (pc - cw * 64 - cw_pos)
                         else in_word0);
              run_len' = run_len + in_word
          in if count \<le> run_len' then run_len'
             else
               let cw' = cw + 1 in
               if length b \<le> cw' \<or> pc \<le> cw' * 64 then run_len'
               else
                 let valid = (if pc < (cw' + 1) * 64 then pc - cw' * 64 else 64);
                     free' = NOT (b ! cw') AND (shl1 ub valid - 1)
                 in if free' = 0 then run_len'
                    else run_length ub b pc count cw' free' 0 run_len'
      else run_len)"
  by pat_completeness auto
termination
  by (relation "measure (\<lambda>(ub, b, pc, count, cw, cw_free, cw_pos, run_len). length b - cw)") auto

declare run_length.simps [simp del]

text \<open>The free bits of the word the general path starts a run in.\<close>

definition start_free :: "u64 list \<Rightarrow> nat \<Rightarrow> nat \<Rightarrow> nat \<Rightarrow> nat \<Rightarrow> u64" where
  "start_free b pc w_idx wi start_off =
     (let free0 = NOT (b ! w_idx);
          free1 = (if wi = 0 \<and> 0 < start_off then free0 AND push_bit start_off (- 1) else free0)
      in if pc < (w_idx + 1) * 64 then free1 AND (push_bit (pc - w_idx * 64) 1 - 1) else free1)"

fun general_words ::
  "u64 \<Rightarrow> u64 list \<Rightarrow> nat \<Rightarrow> nat \<Rightarrow> nat \<Rightarrow> nat \<Rightarrow> nat list \<Rightarrow> nat option" where
  "general_words ub b pc start_w start_off count [] = None"
| "general_words ub b pc start_w start_off count (wi # wis) =
     (let w_idx = (start_w + wi) mod length b in
      if b ! w_idx = - 1 then general_words ub b pc start_w start_off count wis
      else if pc \<le> w_idx * 64 then general_words ub b pc start_w start_off count wis
      else
        let free = start_free b pc w_idx wi start_off in
        if free = 0 then general_words ub b pc start_w start_off count wis
        else if count \<le> run_length ub b pc count w_idx free (ctz free) 0
             then Some (w_idx * 64 + ctz free)
             else general_words ub b pc start_w start_off count wis)"

subsection \<open>Marking a run and taking it\<close>

text \<open>The first two paths and the last resort set the bits one word mask or one page at a time.\<close>

definition mark_fast :: "nat \<Rightarrow> nat \<Rightarrow> u64 list \<Rightarrow> u64 list" where
  "mark_fast page count b =
     b[page div 64 := b ! (page div 64) OR push_bit (page mod 64) (low_mask count)]"

definition mark_pages :: "nat \<Rightarrow> nat \<Rightarrow> u64 list \<Rightarrow> u64 list" where
  "mark_pages p count b = fold (\<lambda>i. bitmap_set (p + i)) [0..<count] b"

text \<open>The general path marks word by word. The guard \<open>r_w < length b\<close> is the end of the bitmap;
  a run that ends before \<open>page_count\<close> never reaches it.\<close>

function mark_run :: "nat \<Rightarrow> nat \<Rightarrow> nat \<Rightarrow> nat \<Rightarrow> u64 list \<Rightarrow> u64 list" where
  "mark_run pc remaining r_w r_pos b =
     (if 0 < remaining \<and> r_w < length b then
        let n0 = min remaining (64 - r_pos);
            n = (if pc < (r_w + 1) * 64 then min n0 (pc - r_w * 64 - r_pos) else n0)
        in mark_run pc (remaining - n) (Suc r_w) 0
             (b[r_w := b ! r_w OR push_bit r_pos (low_mask n)])
      else b)"
  by pat_completeness auto
termination
  by (relation "measure (\<lambda>(pc, remaining, r_w, r_pos, b). length b - r_w)") auto

declare mark_run.simps [simp del]

definition take_pages ::
  "(string \<Rightarrow> bool \<Rightarrow> bool) \<Rightarrow> nat \<Rightarrow> nat \<Rightarrow> u64 list \<Rightarrow> 'a page_arena_scheme \<Rightarrow>
   (alloc_error + nat) \<times> 'a page_arena_scheme" where
  "take_pages os page count b s =
     (let off = data_offset s + page * page_size s;
          s1 = s\<lparr>bm := b, free_page_count := free_page_count s - count,
                 next_page_cursor := (page + count) mod page_count s\<rparr>
      in case EnsureMapped os off (count * page_size s) (mapping s) of
           (Some e, m) \<Rightarrow> (Inl e, s1\<lparr>mapping := m\<rparr>)
         | (None, m) \<Rightarrow> (Inr off, s1\<lparr>mapping := m\<rparr>))"

definition alloc_pages ::
  "(string \<Rightarrow> bool \<Rightarrow> bool) \<Rightarrow> u64 \<Rightarrow> nat \<Rightarrow> 'a page_arena_scheme \<Rightarrow>
   (alloc_error + nat) \<times> 'a page_arena_scheme" where
  "alloc_pages os ub count s =
     (let b = bm s; pc = page_count s; cur = next_page_cursor s in
      if count = 0 \<or> free_page_count s < count then (Inl BadAlloc, s)
      else
        case (if count \<le> 64 then fast_words b pc (cur div 64 mod length b) count [0..<length b]
              else None) of
          Some page \<Rightarrow> take_pages os page count (mark_fast page count b) s
        | None \<Rightarrow>
        (case (if 64 < count \<and> count \<le> 128 then scan_pages b pc (cur mod pc) count [0..<pc]
               else None) of
          Some p \<Rightarrow> take_pages os p count (mark_pages p count b) s
        | None \<Rightarrow>
        (case general_words ub b pc (cur mod pc div 64) (cur mod pc mod 64) count [0..<length b] of
          Some p \<Rightarrow> take_pages os p count (mark_run pc count (p div 64) (p mod 64) b) s
        | None \<Rightarrow>
        (case scan_pages b pc (cur mod pc) count [0..<pc] of
          Some p \<Rightarrow> take_pages os p count (mark_pages p count b) s
        | None \<Rightarrow> (Inl BadAlloc, s)))))"

subsection \<open>Freeing pages\<close>

fun clear_pages :: "nat list \<Rightarrow> u64 list \<Rightarrow> bool \<times> u64 list" where
  "clear_pages [] b = (True, b)"
| "clear_pages (p # ps) b =
     (if \<not> bitmap_test b p then (False, b) else clear_pages ps (bitmap_clear p b))"

definition free_pages ::
  "nat \<Rightarrow> nat \<Rightarrow> 'a page_arena_scheme \<Rightarrow> alloc_error option \<times> 'a page_arena_scheme" where
  "free_pages off count s =
     (if off < data_offset s \<or> (off - data_offset s) mod page_size s \<noteq> 0
      then (Some (RuntimeError ''invalid page offset''), s)
      else
        let start = (off - data_offset s) div page_size s in
        if page_count s < start + count
        then (Some (RuntimeError ''page free range outside arena''), s)
        else
          case clear_pages [start..<start + count] (bm s) of
            (False, b) \<Rightarrow> (Some (RuntimeError ''double free in page bitmap''), s\<lparr>bm := b\<rparr>)
          | (True, b) \<Rightarrow> (None, s\<lparr>bm := b, free_page_count := free_page_count s + count\<rparr>))"

section \<open>Fresh layout, recount and consistency check\<close>

text \<open>\<^verbatim>\<open>sizeof(AllocatorMetadata)\<close>: 104 bytes of fields and 64 size classes of 32 bytes.\<close>

definition sizeof_AllocatorMetadata :: nat where
  "sizeof_AllocatorMetadata = 104 + kMaxSizeClasses * 32"

definition fresh_pages :: "nat \<Rightarrow> mapped_file \<Rightarrow> page_arena" where
  "fresh_pages ps m =
     (let size = virtual_size m;
          meta_bytes = AlignUp sizeof_AllocatorMetadata ps;
          rough_pages = (size - meta_bytes) div ps;
          bm_words = AlignUp ((rough_pages + 63) div 64) 1;
          bm_bytes = AlignUp (bm_words * 8) ps;
          doff = meta_bytes + bm_bytes;
          pc = (size - doff) div ps
      in \<lparr>mapping = m, page_size = ps, arena_size = size, data_offset = doff,
          bitmap_offset = meta_bytes, bitmap_words = bm_words, page_count = pc,
          free_page_count = pc, next_page_cursor = 0, bm = replicate bm_words 0\<rparr>)"

definition word_free :: "nat \<Rightarrow> nat \<Rightarrow> u64 list \<Rightarrow> nat \<Rightarrow> nat" where
  "word_free pc words b w =
     (let last_partial = pc mod 64 in
      if last_partial \<noteq> 0 \<and> w = words - 1
      then popcount (NOT (b ! w) AND (push_bit last_partial 1 - 1))
      else popcount (NOT (b ! w)))"

definition recount :: "'a page_arena_scheme \<Rightarrow> nat" where
  "recount s = sum_list (map (word_free (page_count s) (bitmap_words s) (bm s)) [0..<bitmap_words s])"

definition reopen_pages :: "'a page_arena_scheme \<Rightarrow> 'a page_arena_scheme" where
  "reopen_pages s = s\<lparr>free_page_count := recount s\<rparr>"

definition check_bitmap :: "'a page_arena_scheme \<Rightarrow> alloc_error option" where
  "check_bitmap s =
     (if arena_size s \<le> data_offset s then Some (RuntimeError ''invalid data offset'')
      else if recount s \<noteq> free_page_count s
           then Some (RuntimeError ''page bitmap diverged from free_page_count'')
      else None)"

section \<open>Bits of the bitmap\<close>

text \<open>The abstract state of the bitmap: which pages are used.\<close>

abbreviation used :: "u64 list \<Rightarrow> nat \<Rightarrow> bool" where
  "used \<equiv> wbit"

lemma bitmap_test_used [simp]: "bitmap_test b p = used b p"
  by (simp add: bitmap_test_def wbit_def bit_iff_odd_drop_bit and_one_eq odd_iff_mod_2_eq_one)

lemma bit_low_mask: "n \<le> 64 \<Longrightarrow> bit (low_mask n) k \<longleftrightarrow> k < n"
proof (cases "n = 64")
  case True
  then show ?thesis using bit_imp_le_length [of "- 1 :: u64" k] by (auto simp: low_mask_def bit_simps)
next
  case False
  assume "n \<le> 64"
  with False have "low_mask n = mask n" by (simp add: low_mask_def mask_eq_exp_minus_1 push_bit_eq_mult)
  then show ?thesis using \<open>n \<le> 64\<close> by (auto simp: bit_simps)
qed

lemma bit_push_low_mask:
  "n + k \<le> 64 \<Longrightarrow> bit (push_bit k (low_mask n)) j \<longleftrightarrow> k \<le> j \<and> j < k + n"
  by (cases "j < 64") (auto simp: bit_simps bit_low_mask dest: bit_64_bound)

lemma push_low_mask_subset:
  assumes "n + k \<le> 64"
  shows "(w::u64) AND push_bit k (low_mask n) = push_bit k (low_mask n) \<longleftrightarrow> (\<forall>i<n. bit w (k + i))"
proof -
  have "(w AND push_bit k (low_mask n) = push_bit k (low_mask n))
    \<longleftrightarrow> (\<forall>j. k \<le> j \<and> j < k + n \<longrightarrow> bit w j)"
  proof
    assume eq: "w AND push_bit k (low_mask n) = push_bit k (low_mask n)"
    show "\<forall>j. k \<le> j \<and> j < k + n \<longrightarrow> bit w j"
      using arg_cong [OF eq, of "\<lambda>v. bit v j" for j] assms by (metis bit_and_iff bit_push_low_mask)
  next
    assume "\<forall>j. k \<le> j \<and> j < k + n \<longrightarrow> bit w j"
    then show "w AND push_bit k (low_mask n) = push_bit k (low_mask n)"
      using assms by (intro u64_eqI) (auto simp: bit_and_iff bit_push_low_mask)
  qed
  also have "\<dots> \<longleftrightarrow> (\<forall>i<n. bit w (k + i))"
    by (metis add.commute le_add_diff_inverse less_add_same_cancel1 nat_add_left_cancel_less le_add1)
  finally show ?thesis .
qed

lemma used_bitmap_set:
  assumes "p < 64 * length b" "q < 64 * length b"
  shows "used (bitmap_set p b) q \<longleftrightarrow> used b q \<or> q = p"
  unfolding bitmap_set_def by (rule wbit_set [OF assms])

lemma used_bitmap_clear:
  assumes "p < 64 * length b" "q < 64 * length b"
  shows "used (bitmap_clear p b) q \<longleftrightarrow> used b q \<and> q \<noteq> p"
  unfolding bitmap_clear_def by (rule wbit_clear [OF assms])

lemma length_bitmap_upd [simp]:
  "length (bitmap_set p b) = length b" "length (bitmap_clear p b) = length b"
  "length (mark_fast p c b) = length b"
  by (simp_all add: bitmap_set_def bitmap_clear_def mark_fast_def)

lemma length_mark_pages [simp]: "length (mark_pages p count b) = length b"
proof -
  have "length (fold (\<lambda>i. bitmap_set (p + i)) is b) = length b" for "is"
    by (induction "is" arbitrary: b) auto
  then show ?thesis by (simp add: mark_pages_def)
qed

lemma word_range:
  fixes q :: nat
  assumes "k + n \<le> 64"
  shows "(q div 64 = w \<and> k \<le> q mod 64 \<and> q mod 64 < k + n) \<longleftrightarrow> (w * 64 + k \<le> q \<and> q < w * 64 + k + n)"
proof -
  obtain a r where q: "q = a * 64 + r" "r < 64" "q div 64 = a" "q mod 64 = r"
    using div_mult_mod_eq [of q 64] mod_less_divisor [of 64 q] by (metis zero_less_numeral)
  consider "a = w" | "a + 1 \<le> w" | "w + 1 \<le> a" by linarith
  then show ?thesis unfolding q(3,4)
  proof cases
    case 1
    then show "(a = w \<and> k \<le> r \<and> r < k + n) \<longleftrightarrow> (w * 64 + k \<le> q \<and> q < w * 64 + k + n)"
      using q(1) by auto
  next
    case 2
    then show "(a = w \<and> k \<le> r \<and> r < k + n) \<longleftrightarrow> (w * 64 + k \<le> q \<and> q < w * 64 + k + n)"
      using q(1,2) by linarith
  next
    case 3
    then show "(a = w \<and> k \<le> r \<and> r < k + n) \<longleftrightarrow> (w * 64 + k \<le> q \<and> q < w * 64 + k + n)"
      using q(1,2) assms by linarith
  qed
qed

lemma used_mark_fast:
  assumes "p mod 64 + count \<le> 64" "p < 64 * length b" "q < 64 * length b"
  shows "used (mark_fast p count b) q \<longleftrightarrow> used b q \<or> (p \<le> q \<and> q < p + count)"
proof -
  have "(q div 64 = p div 64 \<and> p mod 64 \<le> q mod 64 \<and> q mod 64 < p mod 64 + count)
    \<longleftrightarrow> (p \<le> q \<and> q < p + count)"
    using word_range [OF assms(1), of q "p div 64"] by simp
  then show ?thesis
    unfolding mark_fast_def using assms
    by (subst wbit_or_word) (auto simp: div64_less bit_push_low_mask add.commute)
qed

lemma used_mark_pages:
  assumes "p + count \<le> 64 * length b" "q < 64 * length b"
  shows "used (mark_pages p count b) q \<longleftrightarrow> used b q \<or> (p \<le> q \<and> q < p + count)"
  using assms
proof (induction count)
  case 0
  then show ?case by (auto simp: mark_pages_def)
next
  case (Suc c)
  have "mark_pages p (Suc c) b = bitmap_set (p + c) (mark_pages p c b)"
    by (simp add: mark_pages_def)
  then show ?case using Suc by (auto simp: used_bitmap_set)
qed

lemma mark_run_step:
  assumes "0 < n" "r_w < length b"
  shows "mark_run pc n r_w r_pos b =
    (let n0 = min n (64 - r_pos);
         k = (if pc < (r_w + 1) * 64 then min n0 (pc - r_w * 64 - r_pos) else n0)
     in mark_run pc (n - k) (Suc r_w) 0 (b[r_w := b ! r_w OR push_bit r_pos (low_mask k)]))"
  using assms by (simp add: mark_run.simps [of pc n r_w r_pos b])

lemma used_mark_run:
  assumes "r_w * 64 + r_pos + n \<le> pc" "pc \<le> 64 * length b" "r_pos < 64" "q < 64 * length b"
  shows "length (mark_run pc n r_w r_pos b) = length b \<and>
    (used (mark_run pc n r_w r_pos b) q \<longleftrightarrow>
      used b q \<or> (r_w * 64 + r_pos \<le> q \<and> q < r_w * 64 + r_pos + n))"
  using assms
proof (induction pc n r_w r_pos b rule: mark_run.induct)
  case (1 pc n r_w r_pos b)
  show ?case
  proof (cases "n = 0")
    case True
    then show ?thesis by (auto simp: mark_run.simps [of pc 0 r_w r_pos b])
  next
    case False
    with "1.prems" have rw: "r_w < length b" by linarith
    define n0 where "n0 = min n (64 - r_pos)"
    define k where "k = (if pc < (r_w + 1) * 64 then min n0 (pc - r_w * 64 - r_pos) else n0)"
    have k_eq: "k = min n (64 - r_pos)"
      using "1.prems" False by (auto simp: k_def n0_def)
    define b' where "b' = b[r_w := b ! r_w OR push_bit r_pos (low_mask k)]"
    have step: "mark_run pc n r_w r_pos b = mark_run pc (n - k) (Suc r_w) 0 b'"
      using False rw by (simp add: mark_run_step Let_def n0_def k_def b'_def)
    have pre: "0 < n - k \<Longrightarrow> Suc r_w * 64 + 0 + (n - k) \<le> pc"
      using "1.prems" k_eq by auto
    have ub': "used b' q \<longleftrightarrow> used b q \<or> (r_w * 64 + r_pos \<le> q \<and> q < r_w * 64 + r_pos + k)"
    proof -
      have "(q div 64 = r_w \<and> r_pos \<le> q mod 64 \<and> q mod 64 < r_pos + k)
        \<longleftrightarrow> (r_w * 64 + r_pos \<le> q \<and> q < r_w * 64 + r_pos + k)"
        by (rule word_range) (use k_eq "1.prems"(3) in auto)
      then show ?thesis
        unfolding b'_def using rw "1.prems" k_eq
        by (subst wbit_or_word) (auto simp: div64_less bit_push_low_mask)
    qed
    show ?thesis
    proof (cases "n - k = 0")
      case True
      then have "mark_run pc n r_w r_pos b = b'" "n = k"
        using step k_eq by (auto simp: mark_run.simps [of pc 0 "Suc r_w" 0 b'])
      then show ?thesis using ub' by (simp add: b'_def)
    next
      case False
      then have k64: "k = 64 - r_pos" using k_eq by auto
      have "length (mark_run pc (n - k) (Suc r_w) 0 b') = length b' \<and>
        (used (mark_run pc (n - k) (Suc r_w) 0 b') q \<longleftrightarrow>
          used b' q \<or> (Suc r_w * 64 + 0 \<le> q \<and> q < Suc r_w * 64 + 0 + (n - k)))"
        unfolding b'_def
      proof (rule "1.IH" [OF _ n0_def k_def])
        show "0 < n \<and> r_w < length b" using \<open>n \<noteq> 0\<close> rw by simp
        show "Suc r_w * 64 + 0 + (n - k) \<le> pc" using pre False by simp
      qed (use "1.prems" in simp_all)
      then show ?thesis
        using step ub' k64 False "1.prems"(3) by (auto simp: b'_def)
    qed
  qed
qed

section \<open>What the searches find\<close>

text \<open>A run: \<open>count\<close> free pages from \<open>p\<close> on, inside the arena.\<close>

definition free_run :: "u64 list \<Rightarrow> nat \<Rightarrow> nat \<Rightarrow> nat \<Rightarrow> bool" where
  "free_run b pc p count \<longleftrightarrow> p + count \<le> pc \<and> (\<forall>i<count. \<not> used b (p + i))"

lemma fast_shift_Some:
  "fast_shift pc w count free shift = Some k \<Longrightarrow>
     k + count \<le> 64 \<and> w * 64 + k + count \<le> pc \<and> (\<forall>i<count. bit free (k + i))"
proof (induction pc w count free shift rule: fast_shift.induct)
  case (1 pc w count free shift)
  show ?case
  proof (cases "shift + count \<le> 64 \<and> \<not> pc \<le> w * 64 + shift \<and> \<not> pc < w * 64 + shift + count")
    case True
    show ?thesis
    proof (cases "free AND push_bit shift (low_mask count) = push_bit shift (low_mask count)")
      case found: True
      then have "k = shift" using True "1.prems" by (simp add: fast_shift.simps [of pc w count free shift])
      then show ?thesis using True found push_low_mask_subset [of count shift free] by auto
    next
      case False
      then have "fast_shift pc w count free (Suc shift) = Some k"
        using True "1.prems" by (simp add: fast_shift.simps [of pc w count free shift])
      then show ?thesis using "1.IH" True False by auto
    qed
  next
    case False
    then show ?thesis using "1.prems" by (auto simp: fast_shift.simps [of pc w count free shift] Let_def split: if_splits)
  qed
qed

lemma fast_words_Some:
  assumes "fast_words b pc start_w count wss = Some p" "0 < count"
  shows "free_run b pc p count \<and> p mod 64 + count \<le> 64"
  using assms
proof (induction wss)
  case Nil
  then show ?case by simp
next
  case (Cons ws wss)
  define w where "w = (start_w + ws) mod length b"
  show ?case
  proof (cases "b ! w = - 1 \<or> fast_shift pc w count (NOT (b ! w)) 0 = None")
    case True
    then have "fast_words b pc start_w count wss = Some p"
      using Cons.prems(1) by (auto simp: w_def Let_def split: if_splits)
    then show ?thesis using Cons by blast
  next
    case False
    then obtain k where k: "fast_shift pc w count (NOT (b ! w)) 0 = Some k" and p: "p = w * 64 + k"
      using Cons.prems by (auto simp: w_def Let_def)
    note f = fast_shift_Some [OF k]
    have "\<not> used b (p + i)" if "i < count" for i
    proof -
      have "bit (NOT (b ! w)) (k + i)" using f that by blast
      then show ?thesis
        using f that wbit_in_word [of "k + i" b w] p by (auto simp: bit_simps add.assoc)
    qed
    moreover have "p mod 64 = k" using f p \<open>0 < count\<close> by simp
    ultimately show ?thesis using f p by (auto simp: free_run_def)
  qed
qed

lemma pages_free_run: "pages_free b p count \<longleftrightarrow> (\<forall>i<count. \<not> used b (p + i))"
  by (auto simp: pages_free_def list_all_iff)

lemma scan_pages_Some: "scan_pages b pc start_p count ts = Some p \<Longrightarrow> free_run b pc p count"
  by (induction ts) (auto simp: Let_def free_run_def pages_free_run split: if_splits)

text \<open>
  With the x86 value of the undefined shift and an arena of whole bitmap words, the run the
  general path measures never continues into a second word, and is then a real run.
\<close>

lemma run_length_one_word:
  assumes "count \<le> run_length 1 b pc count cw free pos 0" "0 < count"
    and "pc mod 64 = 0" "cw * 64 < pc" "pos < 64"
  shows "\<forall>i<count. bit free (pos + i)"
proof -
  define shifted where "shifted = drop_bit pos free"
  define in_word where "in_word = (if NOT shifted = 0 then 64 - pos else ctz (NOT shifted))"
  have words: "(cw + 1) * 64 \<le> pc" using assms(3,4) by (auto elim!: dvdE simp: mod_eq_0_iff_dvd)
  have sh: "shifted \<noteq> 0"
    using assms(1,2) by (auto simp: run_length.simps [of 1 b pc count cw free pos 0] shifted_def)
  have full: "cw' * 64 < pc \<Longrightarrow> (cw' + 1) * 64 \<le> pc" for cw'
    using assms(3) by (auto elim!: dvdE simp: mod_eq_0_iff_dvd)
  have "run_length 1 b pc count cw free pos 0 = in_word"
    using assms(2) sh words full [of "cw + 1"]
    by (subst run_length.simps) (auto simp: shifted_def [symmetric] in_word_def [symmetric] Let_def shl1_def)
  then have le: "count \<le> in_word" using assms(1) by simp
  have "bit shifted i" if "i < in_word" "i + pos < 64" for i
  proof (cases "NOT shifted = 0")
    case True
    then have "shifted = - 1" by (metis bit.double_compl bit.compl_zero)
    then show ?thesis using that by (simp add: bit_simps)
  next
    case False
    then have "\<not> bit (NOT shifted) i" using ctz_bit [OF False] that by (simp add: in_word_def)
    then show ?thesis using that by (simp add: bit_simps)
  qed
  moreover have "i + pos < 64" if "i < in_word" for i
  proof (cases "NOT shifted = 0")
    case True
    then show ?thesis using that by (simp add: in_word_def)
  next
    case False
    then have "i < ctz (NOT shifted)" using that by (simp add: in_word_def)
    then have "i < 64" "\<not> bit (NOT shifted) i" using ctz_bit [OF False] ctz_less [OF False] by auto
    then have "bit shifted i" by (simp add: bit_simps)
    then show ?thesis by (auto simp: shifted_def bit_simps dest: bit_64_bound)
  qed
  ultimately show ?thesis using le by (auto simp: shifted_def bit_simps add.commute)
qed

lemma start_free_bits:
  assumes "w_idx * 64 < pc" "bit (start_free b pc w_idx wi start_off) k"
  shows "\<not> bit (b ! w_idx) k" "w_idx * 64 + k < pc"
proof -
  have k: "k < 64" using assms(2) by (rule bit_64_bound)
  have mask: "push_bit n 1 - 1 = (mask n :: u64)" for n
    by (simp add: mask_eq_exp_minus_1 push_bit_eq_mult)
  show "\<not> bit (b ! w_idx) k" "w_idx * 64 + k < pc"
    using assms k unfolding start_free_def Let_def mask
    by (auto simp: bit_simps split: if_splits)
qed

lemma general_words_Some:
  assumes "general_words 1 b pc start_w start_off count wis = Some p" "0 < count" "pc mod 64 = 0"
  shows "free_run b pc p count"
  using assms
proof (induction wis)
  case Nil
  then show ?case by simp
next
  case (Cons wi wis)
  define w where "w = (start_w + wi) mod length b"
  define free where "free = start_free b pc w wi start_off"
  show ?case
  proof (cases "b ! w = - 1 \<or> pc \<le> w * 64 \<or> free = 0 \<or>
      \<not> count \<le> run_length 1 b pc count w free (ctz free) 0")
    case True
    then show ?thesis using Cons by (auto simp: w_def [symmetric] free_def [symmetric] Let_def split: if_splits)
  next
    case False
    then have p: "p = w * 64 + ctz free"
      using Cons.prems by (auto simp: w_def [symmetric] free_def [symmetric] Let_def)
    have bits: "\<forall>i<count. bit free (ctz free + i)"
      using False Cons.prems ctz_less [of free] by (intro run_length_one_word) auto
    have "\<not> used b (p + i) \<and> p + i < pc" if "i < count" for i
    proof -
      have b: "bit free (ctz free + i)" using bits that by blast
      then have "ctz free + i < 64" by (rule bit_64_bound)
      then show ?thesis
        using start_free_bits [of w pc b wi start_off "ctz free + i"] b False p wbit_in_word [of "ctz free + i" b w]
        by (auto simp: free_def add.assoc)
    qed
    moreover from this [of "count - 1"] have "p + count \<le> pc" using Cons.prems(2) by linarith
    ultimately show ?thesis by (simp add: free_run_def)
  qed
qed

section \<open>The page invariant\<close>

definition free_set :: "'a page_arena_scheme \<Rightarrow> nat set" where
  "free_set s = {p. p < page_count s \<and> \<not> used (bm s) p}"

definition pages_inv :: "'a page_arena_scheme \<Rightarrow> bool" where
  "pages_inv s \<longleftrightarrow> length (bm s) = bitmap_words s \<and> page_count s \<le> 64 * length (bm s) \<and>
     0 < page_size s \<and> free_page_count s = card (free_set s)"

text \<open>The effect of taking a run: exactly its pages become used.\<close>

definition marks_run :: "u64 list \<Rightarrow> nat \<Rightarrow> nat \<Rightarrow> u64 list \<Rightarrow> bool" where
  "marks_run b p count b' \<longleftrightarrow> length b' = length b \<and>
     (\<forall>q < 64 * length b. used b' q \<longleftrightarrow> used b q \<or> (p \<le> q \<and> q < p + count))"

lemma marks_run_fast:
  "free_run b pc p count \<Longrightarrow> 0 < count \<Longrightarrow> p mod 64 + count \<le> 64 \<Longrightarrow> pc \<le> 64 * length b \<Longrightarrow>
   marks_run b p count (mark_fast p count b)"
  by (auto simp: marks_run_def free_run_def used_mark_fast)

lemma marks_run_pages:
  "free_run b pc p count \<Longrightarrow> pc \<le> 64 * length b \<Longrightarrow> marks_run b p count (mark_pages p count b)"
  by (auto simp: marks_run_def free_run_def used_mark_pages)

lemma marks_run_general:
  assumes "free_run b pc p count" "pc \<le> 64 * length b" "0 < count"
  shows "marks_run b p count (mark_run pc count (p div 64) (p mod 64) b)"
proof -
  have split: "p div 64 * 64 + p mod 64 = p" by (rule div_mult_mod_eq)
  have m: "length (mark_run pc count (p div 64) (p mod 64) b) = length b \<and>
    (used (mark_run pc count (p div 64) (p mod 64) b) q \<longleftrightarrow> used b q \<or> (p \<le> q \<and> q < p + count))"
    if "q < 64 * length b" for q
    using used_mark_run [of "p div 64" "p mod 64" count pc b q] assms that
    by (simp only: split free_run_def mod_less_divisor zero_less_numeral)
  have "0 < 64 * length b" using assms by (auto simp: free_run_def)
  from m [OF this] have "length (mark_run pc count (p div 64) (p mod 64) b) = length b" by blast
  then show ?thesis using m unfolding marks_run_def by blast
qed

lemma card_free_marks:
  assumes "free_run b pc p count" "marks_run b p count b'" "pc \<le> 64 * length b"
  shows "card {q. q < pc \<and> \<not> used b' q} = card {q. q < pc \<and> \<not> used b q} - count"
proof -
  have eq: "{q. q < pc \<and> \<not> used b' q} = {q. q < pc \<and> \<not> used b q} - {p..<p + count}"
    using assms by (auto simp: marks_run_def)
  have sub: "{p..<p + count} \<subseteq> {q. q < pc \<and> \<not> used b q}"
  proof
    fix q assume "q \<in> {p..<p + count}"
    then obtain i where "i < count" "q = p + i" by (auto simp: le_iff_add)
    then show "q \<in> {q. q < pc \<and> \<not> used b q}" using assms(1) by (auto simp: free_run_def)
  qed
  have fin: "finite {p..<p + count}" by simp
  show ?thesis unfolding eq card_Diff_subset [OF fin sub] by simp
qed

lemma pages_inv_take:
  assumes "pages_inv s" "free_run (bm s) (page_count s) p count" "marks_run (bm s) p count b'"
    and "take_pages os p count b' s = (r, s')"
  shows "pages_inv s' \<and> bm s' = b' \<and> page_count s' = page_count s \<and> data_offset s' = data_offset s \<and>
    page_size s' = page_size s \<and> (\<forall>off. r = Inr off \<longrightarrow> off = data_offset s + p * page_size s)"
proof -
  from assms(4) obtain m where
    s': "s' = s\<lparr>bm := b', free_page_count := free_page_count s - count,
               next_page_cursor := (p + count) mod page_count s, mapping := m\<rparr>"
    and r: "\<forall>off. r = Inr off \<longrightarrow> off = data_offset s + p * page_size s"
    by (auto simp: take_pages_def Let_def split: prod.splits option.splits)
  have "card {q. q < page_count s \<and> \<not> used b' q} = card (free_set s) - count"
    using card_free_marks [OF assms(2,3)] assms(1) by (simp add: pages_inv_def free_set_def)
  then show ?thesis
    using assms(1,3) s' r by (simp add: pages_inv_def free_set_def marks_run_def)
qed

text \<open>
  Every answer of \<open>alloc_pages\<close> comes from one of the four searches.
\<close>

lemma alloc_pages_cases:
  assumes "pages_inv s" "page_count s mod 64 = 0" "alloc_pages os 1 count s = (r, s')"
  obtains (none) "r = Inl BadAlloc" "s' = s"
  | (run) p b' where "0 < count" "free_run (bm s) (page_count s) p count"
      "marks_run (bm s) p count b'" "take_pages os p count b' s = (r, s')"
proof -
  let ?b = "bm s" and ?pc = "page_count s" and ?cur = "next_page_cursor s"
  have pc: "?pc \<le> 64 * length ?b" using assms(1) by (simp add: pages_inv_def)
  define fast where "fast = (if count \<le> 64
    then fast_words ?b ?pc (?cur div 64 mod length ?b) count [0..<length ?b] else None)"
  define mid where "mid = (if 64 < count \<and> count \<le> 128
    then scan_pages ?b ?pc (?cur mod ?pc) count [0..<?pc] else None)"
  define gen where "gen = general_words 1 ?b ?pc (?cur mod ?pc div 64) (?cur mod ?pc mod 64) count [0..<length ?b]"
  define lst where "lst = scan_pages ?b ?pc (?cur mod ?pc) count [0..<?pc]"
  have al: "alloc_pages os 1 count s =
    (if count = 0 \<or> free_page_count s < count then (Inl BadAlloc, s) else
     case fast of Some p \<Rightarrow> take_pages os p count (mark_fast p count ?b) s | None \<Rightarrow>
     case mid of Some p \<Rightarrow> take_pages os p count (mark_pages p count ?b) s | None \<Rightarrow>
     case gen of Some p \<Rightarrow> take_pages os p count (mark_run ?pc count (p div 64) (p mod 64) ?b) s | None \<Rightarrow>
     case lst of Some p \<Rightarrow> take_pages os p count (mark_pages p count ?b) s | None \<Rightarrow> (Inl BadAlloc, s))"
    unfolding alloc_pages_def Let_def fast_def mid_def gen_def lst_def by (rule refl)
  show thesis
  proof (cases "count = 0 \<or> free_page_count s < count")
    case True
    then show thesis using al assms(3) none by auto
  next
    case False
    then have c: "0 < count" by simp
    have f: "fast = Some p \<Longrightarrow> free_run ?b ?pc p count \<and> p mod 64 + count \<le> 64" for p
      using fast_words_Some c by (auto simp: fast_def split: if_splits)
    have m: "mid = Some p \<Longrightarrow> free_run ?b ?pc p count" for p
      using scan_pages_Some by (auto simp: mid_def split: if_splits)
    have g: "gen = Some p \<Longrightarrow> free_run ?b ?pc p count" for p
      using general_words_Some c assms(2) by (auto simp: gen_def)
    have l: "lst = Some p \<Longrightarrow> free_run ?b ?pc p count" for p
      using scan_pages_Some by (auto simp: lst_def)
    show thesis
      using assms(3) unfolding al
      using False f m g l none
        run [OF c _ marks_run_fast] run [OF c _ marks_run_pages] run [OF c _ marks_run_general] pc c
      by (auto split: option.splits)
  qed
qed

section \<open>Freeing\<close>

lemma clear_pages_spec:
  assumes "distinct ps" "\<forall>p \<in> set ps. p < 64 * length b" "clear_pages ps b = (ok, b')"
  shows "length b' = length b \<and> (ok \<longleftrightarrow> (\<forall>p \<in> set ps. used b p)) \<and>
    (ok \<longrightarrow> (\<forall>q < 64 * length b. used b' q \<longleftrightarrow> used b q \<and> q \<notin> set ps))"
  using assms
proof (induction ps arbitrary: b)
  case Nil
  then show ?case by simp
next
  case (Cons p ps)
  show ?case
  proof (cases "used b p")
    case False
    then show ?thesis using Cons.prems by simp
  next
    case True
    define c where "c = bitmap_clear p b"
    have c: "q < 64 * length b \<Longrightarrow> used c q \<longleftrightarrow> used b q \<and> q \<noteq> p" for q
      using Cons.prems(2) used_bitmap_clear [of p b q] by (simp add: c_def)
    have len: "length c = length b" by (simp add: c_def)
    have "clear_pages ps c = (ok, b')" using True Cons.prems(3) by (simp add: c_def)
    then have ih: "length b' = length c \<and> (ok \<longleftrightarrow> (\<forall>p \<in> set ps. used c p)) \<and>
      (ok \<longrightarrow> (\<forall>q < 64 * length c. used b' q \<longleftrightarrow> used c q \<and> q \<notin> set ps))"
      using Cons.IH [of c] Cons.prems len by simp
    have "(\<forall>p' \<in> set ps. used c p') \<longleftrightarrow> (\<forall>p' \<in> set ps. used b p')"
      using c Cons.prems by auto
    then show ?thesis using ih c len True by auto
  qed
qed

lemma free_pages_None:
  assumes "pages_inv s" "free_pages off count s = (None, s')"
  defines "start \<equiv> (off - data_offset s) div page_size s"
  shows "off = data_offset s + start * page_size s \<and> start + count \<le> page_count s \<and>
    (\<forall>p. start \<le> p \<and> p < start + count \<longrightarrow> used (bm s) p) \<and>
    (\<exists>b'. s' = s\<lparr>bm := b', free_page_count := free_page_count s + count\<rparr> \<and> length b' = length (bm s) \<and>
      (\<forall>q < 64 * length (bm s). used b' q \<longleftrightarrow> used (bm s) q \<and> \<not> (start \<le> q \<and> q < start + count)))"
proof -
  from assms(2) have g: "data_offset s \<le> off" "(off - data_offset s) mod page_size s = 0"
    "start + count \<le> page_count s"
    by (auto simp: free_pages_def Let_def start_def split: if_splits prod.splits bool.splits)
  obtain ok b' where cl: "clear_pages [start..<start + count] (bm s) = (ok, b')"
    by (cases "clear_pages [start..<start + count] (bm s)")
  then have ok: "ok" "s' = s\<lparr>bm := b', free_page_count := free_page_count s + count\<rparr>"
    using assms(2) g by (auto simp: free_pages_def Let_def start_def [symmetric] split: if_splits bool.splits)
  have spec: "length b' = length (bm s) \<and> (ok \<longleftrightarrow> (\<forall>p \<in> set [start..<start + count]. used (bm s) p)) \<and>
    (ok \<longrightarrow> (\<forall>q < 64 * length (bm s). used b' q \<longleftrightarrow> used (bm s) q \<and> q \<notin> set [start..<start + count]))"
    by (rule clear_pages_spec [OF _ _ cl]) (use g assms(1) in \<open>auto simp: pages_inv_def\<close>)
  have "off = data_offset s + start * page_size s"
    using g div_mult_mod_eq [of "off - data_offset s" "page_size s"] by (simp add: start_def)
  moreover have "\<forall>p. start \<le> p \<and> p < start + count \<longrightarrow> used (bm s) p" using ok(1) spec by simp
  moreover have "\<forall>q < 64 * length (bm s). used b' q \<longleftrightarrow> used (bm s) q \<and> \<not> (start \<le> q \<and> q < start + count)"
    using ok(1) spec by simp
  ultimately show ?thesis using g(3) ok(2) spec by blast
qed

lemma free_pages_exact:
  assumes "pages_inv s" "free_pages off count s = (None, s')"
  shows "pages_inv s' \<and> (\<exists>start. off = data_offset s + start * page_size s \<and>
    {start..<start + count} \<inter> free_set s = {} \<and> free_set s' = free_set s \<union> {start..<start + count})"
proof -
  define start where "start = (off - data_offset s) div page_size s"
  obtain b' where f: "off = data_offset s + start * page_size s" "start + count \<le> page_count s"
      "\<forall>p. start \<le> p \<and> p < start + count \<longrightarrow> used (bm s) p"
    and s': "s' = s\<lparr>bm := b', free_page_count := free_page_count s + count\<rparr>" "length b' = length (bm s)"
      "\<forall>q < 64 * length (bm s). used b' q \<longleftrightarrow> used (bm s) q \<and> \<not> (start \<le> q \<and> q < start + count)"
    using free_pages_None [OF assms] unfolding start_def by blast
  have pc: "page_count s \<le> 64 * length (bm s)" using assms(1) by (simp add: pages_inv_def)
  have disj: "{start..<start + count} \<inter> free_set s = {}" using f(3) by (auto simp: free_set_def)
  have fs: "free_set s' = free_set s \<union> {start..<start + count}"
    using s' f(2) pc by (auto simp: free_set_def)
  have fin: "finite (free_set s)" by (simp add: free_set_def)
  have "card (free_set s') = card (free_set s) + count"
    unfolding fs using disj fin by (subst card_Un_disjoint) auto
  then show ?thesis using assms(1) s' f(1) disj fs by (auto simp: pages_inv_def)
qed

section \<open>The recount of free pages\<close>

lemma card_word_free:
  "card {p. p div 64 = w \<and> p mod 64 < n \<and> \<not> used b p} = popcount (NOT (b ! w) AND (if n < 64 then push_bit n 1 - 1 else - 1))"
  if "n \<le> 64" for n :: nat
proof -
  have m: "bit (if n < 64 then push_bit n 1 - 1 else - 1 :: u64) k \<longleftrightarrow> k < n" for k
    using bit_low_mask [OF that, of k] that by (auto simp: low_mask_def)
  have "{p. p div 64 = w \<and> p mod 64 < n \<and> \<not> used b p} = (\<lambda>k. w * 64 + k) ` {k. k < n \<and> \<not> bit (b ! w) k}"
  proof (intro set_eqI iffI)
    fix p assume "p \<in> {p. p div 64 = w \<and> p mod 64 < n \<and> \<not> used b p}"
    then show "p \<in> (\<lambda>k. w * 64 + k) ` {k. k < n \<and> \<not> bit (b ! w) k}"
      by (intro image_eqI [of _ _ "p mod 64"]) (auto simp: wbit_def)
  next
    fix p assume "p \<in> (\<lambda>k. w * 64 + k) ` {k. k < n \<and> \<not> bit (b ! w) k}"
    then show "p \<in> {p. p div 64 = w \<and> p mod 64 < n \<and> \<not> used b p}"
      using that by (auto simp: wbit_def)
  qed
  moreover have "{k. bit (NOT (b ! w) AND (if n < 64 then push_bit n 1 - 1 else - 1)) k} = {k. k < n \<and> \<not> bit (b ! w) k}"
  proof (rule Collect_cong)
    fix k
    show "bit (NOT (b ! w) AND (if n < 64 then push_bit n 1 - 1 else - 1)) k \<longleftrightarrow> k < n \<and> \<not> bit (b ! w) k"
      unfolding bit_and_iff m using that by (auto simp: bit_not_iff)
  qed
  ultimately show ?thesis
    by (simp only: popcount_card) (simp add: card_image)
qed

lemma ceil64: "(n + 63) div 64 = (if n mod 64 = 0 then n div 64 else n div 64 + (1::nat))"
proof -
  have "(n + 63) div 64 = (n div 64 * 64 + n mod 64 + 63) div 64" by (simp only: div_mult_mod_eq)
  also have "\<dots> = n div 64 + (n mod 64 + 63) div 64" by (simp only: add.assoc div_mult_self3)
  finally show ?thesis
  proof -
    assume eq: "(n + 63) div 64 = n div 64 + (n mod 64 + 63) div 64"
    have "(r + 63) div 64 = (if r = 0 then 0 else (1::nat))" if "r < 64" for r
      using that by (auto intro: div_nat_eqI)
    then show ?thesis using eq mod_less_divisor [of 64 n] by simp
  qed
qed

lemma recount_card:
  assumes "bitmap_words s = (page_count s + 63) div 64"
  shows "recount s = card (free_set s)"
proof -
  define pc where "pc = page_count s"
  define lim where "lim w = (if pc mod 64 \<noteq> 0 \<and> w = bitmap_words s - 1 then pc mod 64 else 64)" for w
  have wf: "word_free pc (bitmap_words s) (bm s) w = card {p. p div 64 = w \<and> p mod 64 < lim w \<and> \<not> used (bm s) p}" for w
  proof -
    have "lim w \<le> 64" by (simp add: lim_def order_less_imp_le)
    from card_word_free [OF this, of w "bm s"] show ?thesis
      by (auto simp: word_free_def lim_def Let_def)
  qed
  have part: "free_set s = (\<Union>w<bitmap_words s. {p. p div 64 = w \<and> p mod 64 < lim w \<and> \<not> used (bm s) p})"
  proof -
    have "p < pc \<longleftrightarrow> p div 64 < bitmap_words s \<and> p mod 64 < lim (p div 64)" for p
    proof -
      have words: "bitmap_words s = (if pc mod 64 = 0 then pc div 64 else pc div 64 + 1)"
        unfolding assms pc_def [symmetric] by (simp add: ceil64)
      have arith: "(a < c \<or> a = c \<and> r < t) \<longleftrightarrow> a < (if t = 0 then c else c + 1) \<and>
        r < (if t \<noteq> 0 \<and> a = (if t = 0 then c else c + 1) - 1 then t else 64)"
        if "r < 64" "t < 64" for a c r t :: nat
        using that by auto
      show ?thesis unfolding lim_def words less_by_word [of p pc] by (rule arith) simp_all
    qed
    then show ?thesis by (auto simp: free_set_def pc_def)
  qed
  have fin: "finite {p. p div 64 = w \<and> p mod 64 < n \<and> Q p}" for w n :: nat and Q
    by (rule finite_subset [of _ "{..<(w + 1) * 64}"]) (auto intro: div_less_dividend dest: sym simp: div_less_iff_less_mult)
  have "card (free_set s) = (\<Sum>w<bitmap_words s. card {p. p div 64 = w \<and> p mod 64 < lim w \<and> \<not> used (bm s) p})"
    unfolding part by (rule card_UN_disjoint) (auto simp: fin)
  also have "\<dots> = recount s"
    by (simp add: recount_def wf [symmetric] pc_def [symmetric] interv_sum_list_conv_sum_set_nat atLeast0LessThan)
  finally show ?thesis by simp
qed

section \<open>Properties\<close>

text \<open>An anonymous arena of \<open>pc\<close> one-unit pages over the bitmap \<open>b\<close>, for concrete runs.\<close>

definition demo_arena :: "nat \<Rightarrow> nat \<Rightarrow> nat \<Rightarrow> u64 list \<Rightarrow> page_arena" where
  "demo_arena pc free cur b =
     \<lparr>mapping = \<lparr>path = [], base_set = True, virtual_size = 1000, segment_size = 0, seg_mapped = []\<rparr>,
      page_size = 1, arena_size = 1000, data_offset = 8, bitmap_offset = 4, bitmap_words = length b,
      page_count = pc, free_page_count = free, next_page_cursor = cur, bm = b\<rparr>"

lemma used_low_word: "k \<le> 64 \<Longrightarrow> p < 64 \<Longrightarrow> used (mask k # b) p \<longleftrightarrow> p < k"
  by (auto simp: wbit_def bit_simps)

lemma demo_full_word:
  assumes "k \<le> 64"
  shows "pages_inv (demo_arena 64 (64 - k) 0 [mask k])"
proof -
  have "free_set (demo_arena 64 (64 - k) 0 [mask k]) = {k..<64}"
    using assms by (auto simp: free_set_def demo_arena_def used_low_word not_less)
  then show ?thesis by (simp add: pages_inv_def demo_arena_def)
qed

text \<open>(C5) Page allocation is sound in an arena of whole bitmap words, with the x86 value of the
  undefined shift: whatever the result, the free page counter stays the number of clear bits, and a
  returned offset is the address of a run of \<open>count\<close> pages inside the arena that were all free and
  are exactly the pages newly marked used.\<close>

theorem alloc_pages_sound:
  assumes "pages_inv s" "page_count s mod 64 = 0" "alloc_pages os 1 count s = (r, s')"
  shows "pages_inv s' \<and> (\<forall>off. r = Inr off \<longrightarrow>
    (\<exists>p. off = data_offset s + p * page_size s \<and> p + count \<le> page_count s \<and>
         (\<forall>i<count. \<not> used (bm s) (p + i)) \<and>
         (\<forall>q < 64 * length (bm s). used (bm s') q \<longleftrightarrow> used (bm s) q \<or> (p \<le> q \<and> q < p + count))))"
  using assms
proof (cases rule: alloc_pages_cases)
  case none
  then show ?thesis using assms(1) by simp
next
  case (run p b')
  from pages_inv_take [OF assms(1) run(2,3,4)] show ?thesis
    using run(2,3) by (auto simp: free_run_def marks_run_def)
qed

theorem alloc_pages_sound_witness:
  "pages_inv (demo_arena 64 63 0 [1]) \<and> pages_inv (snd (alloc_pages (\<lambda>_ _. True) 1 3 (demo_arena 64 63 0 [1])))"
proof -
  have i: "pages_inv (demo_arena 64 63 0 [1])" using demo_full_word [of 1] by simp
  have m: "page_count (demo_arena 64 63 0 [1]) mod 64 = 0" by code_simp
  show ?thesis using i alloc_pages_sound [OF i m surjective_pairing] by blast
qed

text \<open>Freeing what was allocated restores the free pages: after a successful allocation,
  \<^verbatim>\<open>free_pages\<close> on the returned offset and count succeeds and gives back the same set of free pages
  and the same counter.\<close>

theorem alloc_free_roundtrip:
  assumes "pages_inv s" "page_count s mod 64 = 0" "alloc_pages os 1 count s = (Inr off, s')"
  shows "\<exists>s''. free_pages off count s' = (None, s'') \<and> free_set s'' = free_set s \<and>
    free_page_count s'' = free_page_count s"
  using assms
proof (cases rule: alloc_pages_cases)
  case none
  then show ?thesis by simp
next
  case (run p b')
  note inv' = pages_inv_take [OF assms(1) run(2,3,4)]
  have off: "off = data_offset s' + p * page_size s'" and ps: "0 < page_size s'"
    using inv' by (auto simp: pages_inv_def)
  then have start: "(off - data_offset s') div page_size s' = p" "(off - data_offset s') mod page_size s' = 0"
    by simp_all
  obtain ok c where cl: "clear_pages [p..<p + count] (bm s') = (ok, c)"
    by (cases "clear_pages [p..<p + count] (bm s')")
  have pc: "page_count s' \<le> 64 * length (bm s)" "p + count \<le> page_count s'"
    using assms(1) inv' run(2) by (auto simp: pages_inv_def free_run_def)
  have spec: "length c = length (bm s') \<and> (ok \<longleftrightarrow> (\<forall>q \<in> set [p..<p + count]. used (bm s') q)) \<and>
    (ok \<longrightarrow> (\<forall>q < 64 * length (bm s'). used c q \<longleftrightarrow> used (bm s') q \<and> q \<notin> set [p..<p + count]))"
    by (rule clear_pages_spec [OF _ _ cl]) (use inv' pc in \<open>auto simp: pages_inv_def\<close>)
  have len: "length (bm s') = length (bm s)" using inv' run(3) by (simp add: marks_run_def)
  have ok: ok using spec inv' run(3) pc by (auto simp: marks_run_def)
  have fr: "\<not> used (bm s) q" if "p \<le> q" "q < p + count" for q
    using run(2) that by (auto simp: free_run_def le_iff_add)
  have res: "free_pages off count s' = (None, s'\<lparr>bm := c, free_page_count := free_page_count s' + count\<rparr>)"
    using cl ok start pc off by (simp add: free_pages_def Let_def)
  have "used c q \<longleftrightarrow> used (bm s) q" if "q < page_count s" for q
    using spec ok that pc inv' run(3) fr len by (auto simp: marks_run_def)
  then have "free_set (s'\<lparr>bm := c, free_page_count := free_page_count s' + count\<rparr>) = free_set s"
    using inv' by (auto simp: free_set_def)
  moreover have "free_page_count s' + count = free_page_count s"
    using run(4) alloc_pages_def assms(3) by (auto simp: take_pages_def alloc_pages_def Let_def split: prod.splits option.splits if_splits)
  ultimately show ?thesis using res by auto
qed

theorem alloc_free_roundtrip_witness:
  "fst (alloc_pages (\<lambda>_ _. True) 1 3 (demo_arena 64 63 0 [1])) = Inr 9 \<and>
   (\<exists>s''. free_pages 9 3 (snd (alloc_pages (\<lambda>_ _. True) 1 3 (demo_arena 64 63 0 [1]))) = (None, s''))"
proof -
  have i: "pages_inv (demo_arena 64 63 0 [1])" using demo_full_word [of 1] by simp
  have m: "page_count (demo_arena 64 63 0 [1]) mod 64 = 0" by code_simp
  have r: "fst (alloc_pages (\<lambda>_ _. True) 1 3 (demo_arena 64 63 0 [1])) = Inr 9" by code_simp
  have e: "alloc_pages (\<lambda>_ _. True) 1 3 (demo_arena 64 63 0 [1])
    = (Inr 9, snd (alloc_pages (\<lambda>_ _. True) 1 3 (demo_arena 64 63 0 [1])))"
    using r by (simp add: prod_eq_iff)
  show ?thesis using r alloc_free_roundtrip [OF i m e] by blast
qed

lemma alloc_pages_all_fail:
  assumes "64 < count"
    and "scan_pages (bm s) (page_count s) (next_page_cursor s mod page_count s) count [0..<page_count s] = None"
    and "general_words ub (bm s) (page_count s) (next_page_cursor s mod page_count s div 64)
          (next_page_cursor s mod page_count s mod 64) count [0..<length (bm s)] = None"
  shows "alloc_pages os ub count s = (Inl BadAlloc, s)"
  using assms by (simp add: alloc_pages_def Let_def)

lemma unused_zero: "q < 64 * n \<Longrightarrow> \<not> used (replicate n 0) q"
  by (simp add: wbit_def div64_less)

text \<open>The two runs the next theorems exhibit, search by search.\<close>

lemma ctz_eqI: "bit w n \<Longrightarrow> (\<And>m. m < n \<Longrightarrow> \<not> bit w m) \<Longrightarrow> ctz w = n"
proof -
  assume b: "bit w n" and l: "\<And>m. m < n \<Longrightarrow> \<not> bit w m"
  then have "w \<noteq> 0" by auto
  note c = ctz_bit [OF this]
  show ?thesis using b l c by (metis linorder_neqE_nat)
qed

lemma ctz_masks:
  "0 < n \<Longrightarrow> ctz (mask n) = 0" "n < 64 \<Longrightarrow> ctz (NOT (mask n)) = n" "n < 64 \<Longrightarrow> NOT (mask n :: u64) \<noteq> 0"
proof -
  show "0 < n \<Longrightarrow> ctz (mask n) = 0" by (rule ctz_eqI) (auto simp: bit_simps)
  show c: "n < 64 \<Longrightarrow> ctz (NOT (mask n)) = n" by (rule ctz_eqI) (auto simp: bit_simps)
  show "n < 64 \<Longrightarrow> NOT (mask n :: u64) \<noteq> 0"
  proof
    assume "n < 64" "NOT (mask n :: u64) = 0"
    then have "bit (NOT (mask n :: u64)) n = False" by simp
    then show False using \<open>n < 64\<close> by (simp add: bit_simps)
  qed
qed

lemma mask_neq_0: "0 < n \<Longrightarrow> (mask n :: u64) \<noteq> 0"
  by (metis bit_0_eq bit_mask_iff bot_apply le0 min_less_iff_conj mask_eq_0_iff neq0_conv)

lemma drop_push_ones: "drop_bit n (push_bit n (- 1)) = (mask (64 - n) :: u64)" if "n \<le> 64"
  by (rule u64_eqI) (use that in \<open>auto simp: bit_simps\<close>)

lemma overlap_eval:
  "fast_words [NOT (mask 30), NOT (mask 35)] 104 0 60 [0, 1] = None"
  "general_words ub [NOT (mask 30), NOT (mask 35)] 104 0 0 60 [0, 1] = Some 0"
proof -
  have "fast_shift 104 0 60 (mask 30) 0 = None"
  proof (rule ccontr)
    assume "fast_shift 104 0 60 (mask 30) 0 \<noteq> None"
    then obtain k where "fast_shift 104 0 60 (mask 30) 0 = Some k" by auto
    from fast_shift_Some [OF this] have "bit (mask 30 :: u64) (k + 59)" by auto
    then show False by (simp add: bit_simps)
  qed
  moreover have "fast_shift 104 1 60 free 0 = None" for free
  proof (rule ccontr)
    assume "fast_shift 104 1 60 free 0 \<noteq> None"
    then obtain k where "fast_shift 104 1 60 free 0 = Some k" by auto
    from fast_shift_Some [OF this] show False by auto
  qed
  ultimately show "fast_words [NOT (mask 30), NOT (mask 35)] 104 0 60 [0, 1] = None"
    by (simp add: Let_def)
  let ?b = "[NOT (mask 30), NOT (mask 35)] :: u64 list"
  have free: "start_free ?b 104 0 0 0 = mask 30" by (simp add: start_free_def)
  have free': "mask 35 AND (shl1 ub 40 - 1) = (mask 35 :: u64)"
  proof -
    have "shl1 ub 40 - 1 = mask 40" by (simp add: shl1_def mask_eq_exp_minus_1)
    then show ?thesis by (simp only:) (rule u64_eqI, auto simp: bit_simps)
  qed
  have second: "run_length ub ?b 104 60 1 (mask 35) 0 30 = 65"
    by (subst run_length.simps) (simp add: ctz_masks mask_neq_0 Let_def)
  have "run_length ub ?b 104 60 0 (mask 30) 0 0 = 65"
    using second by (subst run_length.simps) (simp add: ctz_masks mask_neq_0 Let_def free')
  moreover have "NOT (mask 30 :: u64) \<noteq> - 1"
    using mask_neq_0 [of 30] by (metis bit.compl_one bit.double_compl zero_less_numeral)
  ultimately show "general_words ub ?b 104 0 0 60 [0, 1] = Some 0"
    by (simp add: free ctz_masks mask_neq_0 Let_def)
qed

lemma incomplete_eval:
  "scan_pages [0, 0, 0] 192 130 70 (0 # ts) = None"
  "general_words 1 [0, 0, 0] 192 2 2 70 [0, 1, 2] = None"
proof -
  show "scan_pages [0, 0, 0] 192 130 70 (0 # ts) = None" by (simp add: Let_def)
  define w where "w = (push_bit 2 (- 1) :: u64)"
  have f: "start_free [0, 0, 0] 192 2 0 2 = w"
    "start_free [0, 0, 0] 192 0 1 2 = - 1" "start_free [0, 0, 0] 192 1 2 2 = - 1"
    by (simp_all add: start_free_def w_def)
  have c: "ctz w = 2" "ctz (- 1) = 0"
    by (rule ctz_eqI; auto simp: w_def bit_simps)+
  have "bit w 2" by (simp add: w_def bit_simps)
  then have w0: "w \<noteq> 0" by auto
  have "run_length 1 [0, 0, 0] 192 70 2 w 2 0 = 62"
    using drop_push_ones [of 2] by (subst run_length.simps) (simp add: ctz_masks mask_neq_0 Let_def w_def del: push_bit_minus_one)
  moreover have "run_length 1 [0, 0, 0] 192 70 0 (- 1) 0 0 = 64" "run_length 1 [0, 0, 0] 192 70 1 (- 1) 0 0 = 64"
    by (subst run_length.simps, simp add: Let_def shl1_def)+
  ultimately show "general_words 1 [0, 0, 0] 192 2 2 70 [0, 1, 2] = None"
    using f c w0 by (simp add: Let_def)
qed

text \<open>(C12) A defect of the general path: its run counter adds the free prefix of the next word even
  when the run of the first word has already ended. There is an arena satisfying the invariant in
  which \<^verbatim>\<open>alloc_pages\<close> returns a run that contains pages already in use, whatever the value of the
  undefined shift.\<close>

theorem alloc_pages_overlap:
  "\<exists>(s :: page_arena) off p. pages_inv s \<and> fst (alloc_pages os ub 60 s) = Inr off \<and>
     off = data_offset s + p * page_size s \<and> used (bm s) (p + 30)"
proof (intro exI conjI)
  let ?b = "[NOT (mask 30), NOT (mask 35)] :: u64 list"
  let ?s = "demo_arena 104 65 0 ?b"
  have u: "used ?b q \<longleftrightarrow> (if q < 64 then 30 \<le> q else 99 \<le> q)" if "q < 104" for q
  proof (cases "q < 64")
    case True
    then show ?thesis by (auto simp: wbit_def bit_simps)
  next
    case False
    then have "q = 1 * 64 + (q - 64)" "q - 64 < 40" using that by auto
    then show ?thesis using wbit_in_word [of "q - 64" ?b 1] False by (auto simp: bit_simps)
  qed
  have "free_set ?s = {..<30} \<union> {64..<99}"
    using u by (auto simp: free_set_def demo_arena_def split: if_splits)
  moreover have "card ({..<30::nat} \<union> {64..<99}) = 65"
    by (subst card_Un_disjoint) auto
  ultimately show "pages_inv ?s" by (simp add: pages_inv_def demo_arena_def)
  show "fst (alloc_pages os ub 60 ?s) = Inr 8"
    using overlap_eval by (simp add: alloc_pages_def demo_arena_def take_pages_def EnsureMapped_def upt_rec)
  show "8 = data_offset ?s + 0 * page_size ?s" by (simp add: demo_arena_def)
  show "used (bm ?s) (0 + 30)" using u [of 30] by (simp add: demo_arena_def)
qed

text \<open>A defect of the last resort scan: it stops at the end of the arena instead of wrapping
  around, so pages before the cursor are never tried. With the x86 value of the undefined shift
  there is an arena in which every page is free and \<^verbatim>\<open>alloc_pages\<close> still throws \<^verbatim>\<open>std::bad_alloc\<close>
  for a request of 70 of its 192 pages.\<close>

theorem alloc_pages_incomplete:
  "\<exists>s :: page_arena. pages_inv s \<and> free_set s = {..<page_count s} \<and> 70 \<le> free_page_count s \<and>
     alloc_pages os 1 70 s = (Inl BadAlloc, s)"
proof (intro exI conjI)
  let ?s = "demo_arena 192 192 130 [0, 0, 0]"
  have "\<not> used [0, 0, 0] q" if "q < 192" for q
    using that unused_zero [of q 3] by (simp add: numeral_eq_Suc)
  then show fs: "free_set ?s = {..<page_count ?s}"
    by (auto simp: free_set_def demo_arena_def)
  then show "pages_inv ?s" by (simp add: pages_inv_def demo_arena_def)
  show "70 \<le> free_page_count ?s" by code_simp
  have upt: "[0..<192] = 0 # [1..<192]" "[0..<length [0::u64, 0, 0]] = [0, 1, 2]"
    by (simp_all add: upt_conv_Cons)
  show "alloc_pages os 1 70 ?s = (Inl BadAlloc, ?s)"
  proof (rule alloc_pages_all_fail)
    show "scan_pages (bm ?s) (page_count ?s) (next_page_cursor ?s mod page_count ?s) 70 [0..<page_count ?s] = None"
      using incomplete_eval(1) by (simp only: demo_arena_def page_arena.simps upt) simp
    show "general_words 1 (bm ?s) (page_count ?s) (next_page_cursor ?s mod page_count ?s div 64)
        (next_page_cursor ?s mod page_count ?s mod 64) 70 [0..<length (bm ?s)] = None"
      using incomplete_eval(2) by (simp only: demo_arena_def page_arena.simps upt) simp
  qed simp
qed

text \<open>Freeing is exact: when \<^verbatim>\<open>free_pages\<close> succeeds, the offset was a page address, every page of
  the range was in use, exactly those pages become free and the counter still agrees with the
  bitmap.\<close>

theorem free_pages_ok:
  assumes "pages_inv s" "free_pages off count s = (None, s')"
  shows "pages_inv s' \<and> (\<exists>start. off = data_offset s + start * page_size s \<and>
    {start..<start + count} \<inter> free_set s = {} \<and> free_set s' = free_set s \<union> {start..<start + count})"
  using assms by (rule free_pages_exact)

theorem free_pages_ok_witness:
  "pages_inv (demo_arena 64 61 0 [7]) \<and> fst (free_pages 9 2 (demo_arena 64 61 0 [7])) = None \<and>
   pages_inv (snd (free_pages 9 2 (demo_arena 64 61 0 [7])))"
proof -
  have i: "pages_inv (demo_arena 64 61 0 [7])" using demo_full_word [of 3] by (simp add: mask_eq_exp_minus_1)
  have r: "fst (free_pages 9 2 (demo_arena 64 61 0 [7])) = None" by code_simp
  have e: "free_pages 9 2 (demo_arena 64 61 0 [7]) = (None, snd (free_pages 9 2 (demo_arena 64 61 0 [7])))"
    using r by (simp add: prod_eq_iff)
  show ?thesis using i r free_pages_ok [OF i e] by blast
qed

text \<open>A defect of the error path of \<^verbatim>\<open>free_pages\<close>: the double-free check throws in the middle of
  the loop, after the bits of the earlier pages were cleared and before the counter is adjusted, so
  the state left behind violates the invariant.\<close>

theorem free_pages_error_leaves_partial_state:
  "\<exists>(s :: page_arena) s'. pages_inv s \<and>
     free_pages (data_offset s) 2 s = (Some (RuntimeError ''double free in page bitmap''), s') \<and> \<not> pages_inv s'"
proof (intro exI conjI)
  let ?s = "demo_arena 64 63 0 [1]"
  show "pages_inv ?s" using demo_full_word [of 1] by simp
  show "free_pages (data_offset ?s) 2 ?s = (Some (RuntimeError ''double free in page bitmap''), ?s\<lparr>bm := [0]\<rparr>)"
    by code_simp
  have "free_set (?s\<lparr>bm := [0]\<rparr>) = {..<64}"
    by (auto simp: free_set_def demo_arena_def wbit_def)
  then show "\<not> pages_inv (?s\<lparr>bm := [0]\<rparr>)" by (simp add: pages_inv_def demo_arena_def)
qed

text \<open>The recount on reopening is right when the bitmap has no spare word: from a state whose
  bits are intact, \<^verbatim>\<open>free_page_count\<close> is recomputed to the number of free pages, whatever value it had,
  and the consistency check passes.\<close>

theorem reopen_recount:
  assumes "pages_inv s" "bitmap_words s = (page_count s + 63) div 64" "data_offset s < arena_size s"
  shows "pages_inv (reopen_pages (s\<lparr>free_page_count := n\<rparr>)) \<and>
    check_bitmap (reopen_pages (s\<lparr>free_page_count := n\<rparr>)) = None"
proof -
  have r: "recount (s\<lparr>free_page_count := k\<rparr>) = card (free_set s)" for k
    using recount_card [OF assms(2)] by (simp add: recount_def)
  show ?thesis
    using assms by (simp add: reopen_pages_def check_bitmap_def r pages_inv_def free_set_def)
qed

theorem reopen_recount_witness:
  "pages_inv (reopen_pages (demo_arena 64 63 0 [1]\<lparr>free_page_count := 5\<rparr>)) \<and>
   check_bitmap (reopen_pages (demo_arena 64 63 0 [1]\<lparr>free_page_count := 5\<rparr>)) = None"
proof -
  have i: "pages_inv (demo_arena 64 63 0 [1])" using demo_full_word [of 1] by simp
  show ?thesis by (rule reopen_recount [OF i]) (simp_all add: demo_arena_def)
qed

section \<open>Fresh arenas\<close>

lemma popcount_minus_one: "popcount (- 1) = 64" "popcount (push_bit k 1 - 1) = k" if "k < 64"
proof -
  have "popcount (low_mask n) = n" if "n \<le> 64" for n
    using that by (simp add: popcount_card bit_low_mask)
  from this [of 64] this [of k] show "popcount (- 1) = 64" "popcount (push_bit k 1 - 1) = k"
    using \<open>k < 64\<close> by (auto simp: low_mask_def)
qed

lemma recount_zero:
  assumes "bm s = replicate (bitmap_words s) 0" "0 < bitmap_words s"
  shows "recount s = (if page_count s mod 64 = 0 then 64 * bitmap_words s
                      else 64 * (bitmap_words s - 1) + page_count s mod 64)"
proof -
  obtain k where k: "bitmap_words s = Suc k" using assms(2) by (cases "bitmap_words s") auto
  let ?f = "word_free (page_count s) (Suc k) (replicate (Suc k) 0)"
  have lo: "map ?f [0..<k] = map (\<lambda>_. 64) [0..<k]"
    by (rule map_cong) (auto simp: word_free_def Let_def popcount_minus_one [of 0] nth_replicate simp del: replicate_Suc)
  have hi: "?f k = (if page_count s mod 64 = 0 then 64 else page_count s mod 64)"
    by (simp add: word_free_def Let_def popcount_minus_one [of 0] nth_replicate popcount_minus_one(2) del: push_bit_of_1 replicate_Suc)
  have "recount s = sum_list (map ?f [0..<k]) + ?f k"
    by (simp add: recount_def assms(1) k)
  also have "\<dots> = 64 * k + ?f k" by (simp only: lo) (simp add: sum_list_triv)
  finally show ?thesis unfolding hi k by simp
qed

lemma AlignUp_1: "AlignUp n 1 = n"
  by (simp add: AlignUp_def)

lemma fresh_pages_fields:
  "bitmap_words (fresh_pages ps m) = ((virtual_size m - AlignUp sizeof_AllocatorMetadata ps) div ps + 63) div 64"
  "data_offset (fresh_pages ps m) =
     AlignUp sizeof_AllocatorMetadata ps + AlignUp (bitmap_words (fresh_pages ps m) * 8) ps"
  "page_count (fresh_pages ps m) = (virtual_size m - data_offset (fresh_pages ps m)) div ps"
  "bm (fresh_pages ps m) = replicate (bitmap_words (fresh_pages ps m)) 0"
  "page_size (fresh_pages ps m) = ps" "free_page_count (fresh_pages ps m) = page_count (fresh_pages ps m)"
  "arena_size (fresh_pages ps m) = virtual_size m"
  by (simp_all only: fresh_pages_def Let_def AlignUp_1 page_arena.simps)

lemma fresh_enough_words: "page_count (fresh_pages ps m) \<le> 64 * bitmap_words (fresh_pages ps m)"
proof -
  let ?rough = "(virtual_size m - AlignUp sizeof_AllocatorMetadata ps) div ps"
  have "page_count (fresh_pages ps m) \<le> ?rough"
    unfolding fresh_pages_fields(3) by (rule div_le_mono) (simp add: fresh_pages_fields(2))
  also have "\<dots> \<le> 64 * ((?rough + 63) div 64)" using ceil64 [of ?rough] div_mult_mod_eq [of ?rough 64] by auto
  finally show ?thesis by (simp only: fresh_pages_fields(1))
qed

lemma fresh_free_set: "free_set (fresh_pages ps m) = {..<page_count (fresh_pages ps m)}"
  using fresh_enough_words [of ps m] unused_zero [of _ "bitmap_words (fresh_pages ps m)"]
  by (auto simp: free_set_def fresh_pages_fields(4))

lemma spare_words:
  assumes "0 < w" "pc \<le> 64 * w"
  shows "(if pc mod 64 = 0 then 64 * w else 64 * (w - 1) + pc mod 64) = pc \<longleftrightarrow> w = (pc + 63) div (64::nat)"
proof -
  obtain k where "w = Suc k" using assms(1) by (cases w) auto
  moreover have "64 * (pc div 64) + pc mod 64 = pc" by simp
  ultimately show ?thesis unfolding ceil64 by (cases "pc mod 64 = 0") auto
qed

lemma meta_4096: "AlignUp sizeof_AllocatorMetadata 4096 = 4096"
  by (simp add: AlignUp_def sizeof_AllocatorMetadata_def kMaxSizeClasses_def)

text \<open>A fresh arena satisfies the page invariant with every page free, and the consistency check
  accepts it exactly when the bitmap, which was sized before the space of the bitmap itself was
  subtracted, has no word beyond the last page.\<close>

theorem fresh_pages_consistent:
  assumes "0 < ps" "data_offset (fresh_pages ps m) + ps \<le> virtual_size m"
  shows "pages_inv (fresh_pages ps m) \<and> free_set (fresh_pages ps m) = {..<page_count (fresh_pages ps m)} \<and>
    (check_bitmap (fresh_pages ps m) = None \<longleftrightarrow>
     bitmap_words (fresh_pages ps m) = (page_count (fresh_pages ps m) + 63) div 64)"
proof -
  let ?s = "fresh_pages ps m"
  have "0 < page_count ?s" using assms by (simp add: fresh_pages_fields(3) div_greater_zero_iff)
  then have w: "0 < bitmap_words ?s" using fresh_enough_words [of ps m] by (cases "bitmap_words ?s") auto
  have "pages_inv ?s" using assms(1) fresh_enough_words [of ps m] fresh_free_set [of ps m]
    by (simp add: pages_inv_def fresh_pages_fields(4,5,6))
  moreover have "check_bitmap ?s = None \<longleftrightarrow> recount ?s = page_count ?s"
    using assms by (simp add: check_bitmap_def fresh_pages_fields(6,7))
  moreover have "recount ?s = page_count ?s \<longleftrightarrow> bitmap_words ?s = (page_count ?s + 63) div 64"
    unfolding recount_zero [OF fresh_pages_fields(4) w] by (rule spare_words [OF w fresh_enough_words])
  ultimately show ?thesis using fresh_free_set by blast
qed

theorem fresh_pages_consistent_witness:
  "pages_inv (fresh_pages 4096 \<lparr>path = [], base_set = True, virtual_size = 2 ^ 30, segment_size = 2 ^ 30, seg_mapped = []\<rparr>) \<and>
   check_bitmap (fresh_pages 4096 \<lparr>path = [], base_set = True, virtual_size = 2 ^ 30, segment_size = 2 ^ 30, seg_mapped = []\<rparr>) = None"
proof -
  let ?m = "\<lparr>path = [], base_set = True, virtual_size = 2 ^ 30, segment_size = 2 ^ 30, seg_mapped = []\<rparr>"
  have w: "bitmap_words (fresh_pages 4096 ?m) = 4096"
    unfolding fresh_pages_fields(1) meta_4096 by simp
  have d: "data_offset (fresh_pages 4096 ?m) = 36864"
    unfolding fresh_pages_fields(2) w meta_4096 by (simp add: AlignUp_def)
  have p: "page_count (fresh_pages 4096 ?m) = 262135"
    by (simp only: fresh_pages_fields(3) d) simp
  have c: "0 < (4096::nat)" "data_offset (fresh_pages 4096 ?m) + 4096 \<le> virtual_size ?m"
    unfolding d by simp_all
  have "bitmap_words (fresh_pages 4096 ?m) = (page_count (fresh_pages 4096 ?m) + 63) div 64"
    unfolding w p by simp
  then show ?thesis using fresh_pages_consistent [OF c] by blast
qed

text \<open>A defect of the layout: for a fresh arena of 8 GiB with 4 KiB pages the bitmap takes 64
  pages, a whole word of pages too many, and \<^verbatim>\<open>CheckConsistency\<close> rejects the arena nothing has
  touched yet.\<close>

theorem fresh_8g_diverged:
  "virtual_size m = 2 ^ 33 \<Longrightarrow>
   check_bitmap (fresh_pages 4096 m) = Some (RuntimeError ''page bitmap diverged from free_page_count'')"
proof -
  assume m: "virtual_size m = 2 ^ 33"
  let ?s = "fresh_pages 4096 m"
  have w: "bitmap_words ?s = 32768"
    unfolding fresh_pages_fields(1) meta_4096 m by simp
  have d: "data_offset ?s = 266240"
    unfolding fresh_pages_fields(2) w meta_4096 by (simp add: AlignUp_def)
  have p: "page_count ?s = 2097087" by (simp only: fresh_pages_fields(3) d m) simp
  have "recount ?s = 2097151" using recount_zero [of ?s, OF fresh_pages_fields(4)] by (simp add: w p)
  then show ?thesis by (simp add: check_bitmap_def fresh_pages_fields(6,7) d p m)
qed

theorem fresh_8g_diverged_witness:
  "check_bitmap (fresh_pages 4096 \<lparr>path = ''arena'', base_set = True, virtual_size = 2 ^ 33, segment_size = 2 ^ 30, seg_mapped = []\<rparr>)
   = Some (RuntimeError ''page bitmap diverged from free_page_count'')"
  by (rule fresh_8g_diverged) simp

end
