(* ===== verification/Blocks.thy ===== *)
theory Blocks
  imports Pages
begin

text \<open>
  The block layer and the public interface of the arena allocator
  (src/libs/yikv/alloc/ft_allocator.cc): block headers, the free list and the delayed list of each
  size class, the thread-local caches, small and large allocation, immediate and delayed free,
  time-based reclamation, \<^verbatim>\<open>initialize\<close>, \<^verbatim>\<open>Malloc\<close>, \<^verbatim>\<open>Free\<close> and the inspection functions.

  The state is the record of the page layer extended by the structures stored in the arena, each as
  a map from the offset of the block header: \<open>hdrs\<close> the header, \<open>link\<close> the first payload word (the
  next offset of both chain structures), \<open>stamp\<close> the second (the time of a delayed block), and
  \<open>exts\<close> the page count in front of a large block, by the offset of its first page. What users write
  into payloads is not part of the state. \<open>tlc t c\<close> is the cache slot of thread \<open>t\<close> for class \<open>c\<close>,
  the entry pushed last first. A pointer is its arena offset, 0 for \<^verbatim>\<open>nullptr\<close>; the clock is the
  parameter \<open>now\<close>. A loop over a chain has fuel one more than the arena size, which is more than any
  chain of distinct offsets; running out of it is the error value \<open>Nonterminating\<close>.
\<close>

section \<open>State\<close>

definition kMagic :: u64 where "kMagic = 0x4654414c4c4f4333"
definition kVersion :: u32 where "kVersion = 3"
definition kLargeClassId :: u16 where "kLargeClassId = 0xFFFF"
definition kBlockMagic :: u16 where "kBlockMagic = 0x4642"
definition kFlagAllocated :: u16 where "kFlagAllocated = 1"
definition kFlagDelayed :: u16 where "kFlagDelayed = 2"
definition kReclaimInterval :: u32 where "kReclaimInterval = 256"

record BlockHeader =
  hb_magic :: u16
  hb_class :: u16
  hb_flags :: u16
  hb_pad :: u16

record SizeClassMeta =
  block_size :: nat
  pages_per_slab :: nat
  free_head :: nat
  delayed_head :: nat
  delayed_tail :: nat

record arena = page_arena +
  is_open :: bool
  meta_magic :: u64
  meta_version :: u32
  class_count :: nat
  classes :: "SizeClassMeta list"
  class_sizes :: "nat list"
  hdrs :: "nat \<Rightarrow> BlockHeader"
  link :: "nat \<Rightarrow> nat"
  stamp :: "nat \<Rightarrow> u64"
  exts :: "nat \<Rightarrow> nat"
  delayed_large_head :: nat
  delayed_large_tail :: nat
  current_epoch :: u64
  concurrent :: bool
  reclaim_delay_ns :: u64
  malloc_counter :: u32
  stat_used_bytes :: u64
  stat_alloc_count :: u64
  stat_free_count :: u64
  stat_delayed_count :: u64
  tlc :: "nat \<Rightarrow> nat \<Rightarrow> nat list"

abbreviation klass :: "arena \<Rightarrow> nat \<Rightarrow> SizeClassMeta" where
  "klass a cid \<equiv> classes a ! cid"

definition upd_class :: "nat \<Rightarrow> (SizeClassMeta \<Rightarrow> SizeClassMeta) \<Rightarrow> arena \<Rightarrow> arena" where
  "upd_class cid f a = a\<lparr>classes := (classes a)[cid := f (classes a ! cid)]\<rparr>"

definition upd_hdr :: "nat \<Rightarrow> (BlockHeader \<Rightarrow> BlockHeader) \<Rightarrow> arena \<Rightarrow> arena" where
  "upd_hdr off f a = a\<lparr>hdrs := (hdrs a)(off := f (hdrs a off))\<rparr>"

definition set_tlc :: "nat \<Rightarrow> nat \<Rightarrow> nat list \<Rightarrow> arena \<Rightarrow> arena" where
  "set_tlc t cid xs a = a\<lparr>tlc := (tlc a)(t := (tlc a t)(cid := xs))\<rparr>"

section \<open>Offsets and headers\<close>

definition ptr_to_offset :: "nat \<Rightarrow> nat \<Rightarrow> arena \<Rightarrow> alloc_error + nat" where
  "ptr_to_offset bse ptr a =
     (if ptr = 0 then Inr 0
      else if ptr < bse \<or> bse + virtual_size (mapping a) \<le> ptr
      then Inl (InvalidArgument ''pointer outside mmap arena'')
      else Inr (ptr - bse))"

definition offset_to_ptr :: "nat \<Rightarrow> nat \<Rightarrow> arena \<Rightarrow> alloc_error + nat" where
  "offset_to_ptr bse off a =
     (if off = 0 then Inr 0
      else if virtual_size (mapping a) \<le> off then Inl OutOfRange
      else Inr (bse + off))"

text \<open>The header in front of a payload, with the check of its magic number.\<close>

definition header_from_payload :: "nat \<Rightarrow> arena \<Rightarrow> alloc_error + nat" where
  "header_from_payload payload a =
     (let off = payload - kHeaderSize in
      if hb_magic (hdrs a off) \<noteq> kBlockMagic
      then Inl (RuntimeError ''invalid allocation header (corrupt magic)'')
      else Inr off)"

section \<open>Free lists, slabs and caches\<close>

definition push_free :: "nat \<Rightarrow> nat \<Rightarrow> arena \<Rightarrow> arena" where
  "push_free cid off a =
     (upd_hdr off (\<lambda>h. h\<lparr>hb_flags := 0, hb_class := of_nat cid\<rparr>)
       (upd_class cid (\<lambda>k. k\<lparr>free_head := off\<rparr>)
         (a\<lparr>link := (link a)(off := free_head (klass a cid))\<rparr>)))"

definition pop_free :: "nat \<Rightarrow> arena \<Rightarrow> nat option \<times> arena" where
  "pop_free cid a =
     (let off = free_head (klass a cid) in
      if off = 0 then (None, a)
      else (Some off, (upd_class cid (\<lambda>k. k\<lparr>free_head := link a off\<rparr>) a)\<lparr>link := (link a)(off := 0)\<rparr>))"

definition init_block :: "nat \<Rightarrow> nat \<Rightarrow> arena \<Rightarrow> arena" where
  "init_block cid off a =
     push_free cid off
       (upd_hdr off (\<lambda>_. \<lparr>hb_magic = kBlockMagic, hb_class = 0, hb_flags = 0, hb_pad = 0\<rparr>) a)"

definition fill_class ::
  "(string \<Rightarrow> bool \<Rightarrow> bool) \<Rightarrow> u64 \<Rightarrow> nat \<Rightarrow> arena \<Rightarrow> alloc_error option \<times> arena" where
  "fill_class os ub cid a =
     (case alloc_pages os ub (pages_per_slab (klass a cid)) a of
        (Inl e, a1) \<Rightarrow> (Some e, a1)
      | (Inr slab_offset, a1) \<Rightarrow>
          let slab_bytes = pages_per_slab (klass a1 cid) * page_size a1;
              bsz = block_size (klass a1 cid);
              cnt = slab_bytes div bsz
          in if cnt = 0 then (Some BadAlloc, a1)
             else (None, fold (\<lambda>i. init_block cid (slab_offset + i * bsz)) [0..<cnt] a1))"

text \<open>A block going from a cache back to the shared free list keeps its header but for the flags.\<close>

definition give_back :: "nat \<Rightarrow> nat \<Rightarrow> arena \<Rightarrow> arena" where
  "give_back cid off a =
     (upd_hdr off (\<lambda>h. h\<lparr>hb_flags := 0\<rparr>)
       (upd_class cid (\<lambda>k. k\<lparr>free_head := off\<rparr>)
         (a\<lparr>link := (link a)(off := free_head (klass a cid))\<rparr>)))"

text \<open>Popping \<open>n\<close> entries of a cache slot onto the free list: all of them when flushing, half of a
  full slot when freeing.\<close>

fun flush_n :: "nat \<Rightarrow> nat \<Rightarrow> nat \<Rightarrow> arena \<Rightarrow> arena" where
  "flush_n t cid 0 a = a"
| "flush_n t cid (Suc n) a =
     (case tlc a t cid of
        [] \<Rightarrow> a
      | off # rest \<Rightarrow> flush_n t cid n (give_back cid off (set_tlc t cid rest a)))"

definition flush_tlc_class :: "nat \<Rightarrow> nat \<Rightarrow> arena \<Rightarrow> arena" where
  "flush_tlc_class t cid a = flush_n t cid (length (tlc a t cid)) a"

text \<open>Refilling a cache slot from the free list.\<close>

fun refill :: "nat \<Rightarrow> nat \<Rightarrow> nat \<Rightarrow> arena \<Rightarrow> arena" where
  "refill t cid 0 a = a"
| "refill t cid (Suc n) a =
     (let off = free_head (klass a cid) in
      if off = 0 then a
      else refill t cid n
             (upd_class cid (\<lambda>k. k\<lparr>free_head := link a off\<rparr>) (set_tlc t cid (off # tlc a t cid) a)))"

section \<open>Allocation\<close>

definition count_alloc :: "nat \<Rightarrow> arena \<Rightarrow> arena" where
  "count_alloc bytes a =
     a\<lparr>stat_alloc_count := stat_alloc_count a + 1, stat_used_bytes := stat_used_bytes a + of_nat bytes\<rparr>"

definition malloc_small ::
  "(string \<Rightarrow> bool \<Rightarrow> bool) \<Rightarrow> u64 \<Rightarrow> nat \<Rightarrow> nat \<Rightarrow> arena \<Rightarrow> (alloc_error + nat) \<times> arena" where
  "malloc_small os ub t cid a =
     (let bsz = block_size (klass a cid) in
      case tlc a t cid of
        off # rest \<Rightarrow>
          (Inr (off + kHeaderSize),
           count_alloc bsz
             (upd_hdr off (\<lambda>h. h\<lparr>hb_flags := kFlagAllocated, hb_class := of_nat cid\<rparr>) (set_tlc t cid rest a)))
      | [] \<Rightarrow>
          (case (if free_head (klass a cid) = 0 then fill_class os ub cid a else (None, a)) of
             (Some e, a1) \<Rightarrow> (Inl e, a1)
           | (None, a1) \<Rightarrow>
               let a2 = refill t cid (kTlcCapacity div 2) a1 in
               case tlc a2 t cid of
                 [] \<Rightarrow> (Inl BadAlloc, a2)
               | off # rest \<Rightarrow>
                   (Inr (off + kHeaderSize),
                    count_alloc bsz
                      (upd_hdr off
                        (\<lambda>h. \<lparr>hb_magic = kBlockMagic, hb_class = of_nat cid, hb_flags = kFlagAllocated, hb_pad = 0\<rparr>)
                        (set_tlc t cid rest a2)))))"

definition large_total :: "nat \<Rightarrow> u64 \<Rightarrow> nat" where
  "large_total ps user_size = AlignUp (unat (of_nat kLargeHdrSize + user_size)) ps mod 2 ^ 64"

definition malloc_large ::
  "(string \<Rightarrow> bool \<Rightarrow> bool) \<Rightarrow> u64 \<Rightarrow> u64 \<Rightarrow> arena \<Rightarrow> (alloc_error + nat) \<times> arena" where
  "malloc_large os ub user_size a =
     (let tot = large_total (page_size a) user_size;
          pages = tot div page_size a
      in case alloc_pages os ub pages a of
           (Inl e, a1) \<Rightarrow> (Inl e, a1)
         | (Inr off, a1) \<Rightarrow>
             (Inr (off + kLargeExtSize + kHeaderSize),
              count_alloc tot
                (upd_hdr (off + kLargeExtSize)
                  (\<lambda>h. \<lparr>hb_magic = kBlockMagic, hb_class = kLargeClassId, hb_flags = kFlagAllocated, hb_pad = 0\<rparr>)
                  (a1\<lparr>exts := (exts a1)(off := pages mod 2 ^ 32)\<rparr>))))"

section \<open>Free\<close>

definition count_free :: "nat \<Rightarrow> arena \<Rightarrow> arena" where
  "count_free bytes a =
     a\<lparr>stat_free_count := stat_free_count a + 1, stat_used_bytes := stat_used_bytes a - of_nat bytes\<rparr>"

definition push_tlc :: "nat \<Rightarrow> nat \<Rightarrow> nat \<Rightarrow> arena \<Rightarrow> arena" where
  "push_tlc t cid off a = set_tlc t cid (off # tlc a t cid) (upd_hdr off (\<lambda>h. h\<lparr>hb_flags := 0\<rparr>) a)"

definition free_small_immediate :: "nat \<Rightarrow> nat \<Rightarrow> arena \<Rightarrow> arena" where
  "free_small_immediate t off a =
     (let cid = unat (hb_class (hdrs a off));
          a1 = count_free (block_size (klass a cid)) a
      in if length (tlc a1 t cid) < kTlcCapacity then push_tlc t cid off a1
         else push_tlc t cid off (flush_n t cid (kTlcCapacity div 2) a1))"

definition free_large_immediate :: "nat \<Rightarrow> arena \<Rightarrow> alloc_error option \<times> arena" where
  "free_large_immediate off a =
     (let pages = exts a (off - kLargeExtSize);
          a1 = upd_hdr off (\<lambda>h. h\<lparr>hb_flags := 0\<rparr>) (count_free (pages * page_size a) a)
      in free_pages (off - kLargeExtSize) pages a1)"

definition count_delayed :: "nat \<Rightarrow> arena \<Rightarrow> arena" where
  "count_delayed bytes a =
     a\<lparr>stat_free_count := stat_free_count a + 1, stat_delayed_count := stat_delayed_count a + 1,
       stat_used_bytes := stat_used_bytes a - of_nat bytes\<rparr>"

text \<open>The block's own chain words are written first, then the tail's link.\<close>

definition mark_delayed :: "u64 \<Rightarrow> nat \<Rightarrow> arena \<Rightarrow> arena" where
  "mark_delayed now off a =
     (upd_hdr off (\<lambda>h. h\<lparr>hb_flags := kFlagDelayed\<rparr>) a)
       \<lparr>link := (link a)(off := 0), stamp := (stamp a)(off := now)\<rparr>"

definition free_small_delayed :: "u64 \<Rightarrow> nat \<Rightarrow> arena \<Rightarrow> arena" where
  "free_small_delayed now off a =
     (let cid = unat (hb_class (hdrs a off));
          bsz = block_size (klass a cid);
          a1 = mark_delayed now off a;
          tail = delayed_tail (klass a1 cid);
          a2 = (if tail = 0 then upd_class cid (\<lambda>k. k\<lparr>delayed_head := off\<rparr>) a1
                else a1\<lparr>link := (link a1)(tail := off)\<rparr>)
      in count_delayed bsz (upd_class cid (\<lambda>k. k\<lparr>delayed_tail := off\<rparr>) a2))"

definition free_large_delayed :: "u64 \<Rightarrow> nat \<Rightarrow> arena \<Rightarrow> arena" where
  "free_large_delayed now off a =
     (let pages = exts a (off - kLargeExtSize);
          a1 = mark_delayed now off a;
          tail = delayed_large_tail a1;
          a2 = (if tail = 0 then a1\<lparr>delayed_large_head := off\<rparr>
                else a1\<lparr>link := (link a1)(tail := off)\<rparr>)
      in count_delayed (pages * page_size a) (a2\<lparr>delayed_large_tail := off\<rparr>))"

section \<open>Reclamation\<close>

definition uncount_delayed :: "arena \<Rightarrow> arena" where
  "uncount_delayed a = a\<lparr>stat_delayed_count := stat_delayed_count a - 1\<rparr>"

fun reclaim_class :: "u64 \<Rightarrow> nat \<Rightarrow> nat \<Rightarrow> nat \<Rightarrow> arena \<Rightarrow> (alloc_error + nat) \<times> arena" where
  "reclaim_class cutoff cid 0 n a = (Inl Nonterminating, a)"
| "reclaim_class cutoff cid (Suc fuel) n a =
     (let d = delayed_head (klass a cid) in
      if d = 0 then (Inr n, a)
      else if cutoff < stamp a d then (Inr n, a)
      else
        let nxt = link a d;
            a1 = upd_class cid (\<lambda>k. k\<lparr>delayed_head := nxt, delayed_tail := (if nxt = 0 then 0 else delayed_tail k)\<rparr>) a
        in reclaim_class cutoff cid fuel (n + 1) (uncount_delayed (push_free cid d a1)))"

fun reclaim_classes :: "u64 \<Rightarrow> nat list \<Rightarrow> nat \<Rightarrow> arena \<Rightarrow> (alloc_error + nat) \<times> arena" where
  "reclaim_classes cutoff [] n a = (Inr n, a)"
| "reclaim_classes cutoff (cid # cids) n a =
     (case reclaim_class cutoff cid (Suc (arena_size a)) n a of
        (Inl e, a1) \<Rightarrow> (Inl e, a1)
      | (Inr n1, a1) \<Rightarrow> reclaim_classes cutoff cids n1 a1)"

fun reclaim_large :: "u64 \<Rightarrow> nat \<Rightarrow> nat \<Rightarrow> arena \<Rightarrow> (alloc_error + nat) \<times> arena" where
  "reclaim_large cutoff 0 n a = (Inl Nonterminating, a)"
| "reclaim_large cutoff (Suc fuel) n a =
     (let d = delayed_large_head a in
      if d = 0 then (Inr n, a)
      else if cutoff < stamp a d then (Inr n, a)
      else
        let nxt = link a d;
            a1 = a\<lparr>delayed_large_head := nxt, delayed_large_tail := (if nxt = 0 then 0 else delayed_large_tail a)\<rparr>;
            a2 = uncount_delayed (upd_hdr d (\<lambda>h. h\<lparr>hb_flags := 0\<rparr>) a1)
        in case free_pages (d - kLargeExtSize) (exts a2 (d - kLargeExtSize)) a2 of
             (Some e, a3) \<Rightarrow> (Inl e, a3)
           | (None, a3) \<Rightarrow> reclaim_large cutoff fuel (n + 1) a3)"

definition reclaim_with_cutoff :: "u64 \<Rightarrow> arena \<Rightarrow> (alloc_error + nat) \<times> arena" where
  "reclaim_with_cutoff cutoff a =
     (case reclaim_classes cutoff [0..<class_count a] 0 a of
        (Inl e, a1) \<Rightarrow> (Inl e, a1)
      | (Inr n, a1) \<Rightarrow> reclaim_large cutoff (Suc (arena_size a1)) n a1)"

definition maybe_reclaim_expired :: "u64 \<Rightarrow> arena \<Rightarrow> alloc_error option \<times> arena" where
  "maybe_reclaim_expired now a =
     (let c = malloc_counter a + 1 in
      if c < kReclaimInterval then (None, a\<lparr>malloc_counter := c\<rparr>)
      else
        let a1 = a\<lparr>malloc_counter := 0\<rparr> in
        if now < reclaim_delay_ns a1 then (None, a1)
        else case reclaim_with_cutoff (now - reclaim_delay_ns a1) a1 of
               (Inl e, a2) \<Rightarrow> (Some e, a2)
             | (Inr _, a2) \<Rightarrow> (None, a2))"

section \<open>Opening\<close>

definition clear_tlc :: "nat \<Rightarrow> arena \<Rightarrow> arena" where
  "clear_tlc t a = a\<lparr>tlc := (tlc a)(t := (\<lambda>_. []))\<rparr>"

text \<open>
  \<^verbatim>\<open>initialize\<close> on an arena value whose stored part is the content of the mapped file; a new file is
  all zero, so its magic number is 0 and every stored structure empty.
\<close>

definition zero_class :: SizeClassMeta where
  "zero_class = \<lparr>block_size = 0, pages_per_slab = 0, free_head = 0, delayed_head = 0, delayed_tail = 0\<rparr>"

definition init_classes :: "nat list \<Rightarrow> SizeClassMeta list" where
  "init_classes sizes =
     map (\<lambda>i. if i < length sizes
              then zero_class\<lparr>block_size := sizes ! i, pages_per_slab := kDefaultSlabPages\<rparr>
              else zero_class) [0..<kMaxSizeClasses]"

definition fresh_arena :: "nat \<Rightarrow> AllocatorOptions \<Rightarrow> nat list \<Rightarrow> arena \<Rightarrow> arena" where
  "fresh_arena t opts sizes a =
     (let p = fresh_pages (opt_page_size opts) (mapping a) in
      clear_tlc t (a\<lparr>page_size := page_size p, arena_size := arena_size p, data_offset := data_offset p,
        bitmap_offset := bitmap_offset p, bitmap_words := bitmap_words p, page_count := page_count p,
        free_page_count := free_page_count p, next_page_cursor := 0, bm := bm p,
        is_open := True, meta_magic := kMagic, meta_version := kVersion, class_count := length sizes,
        classes := init_classes sizes, class_sizes := sizes, delayed_large_head := 0,
        delayed_large_tail := 0, current_epoch := 1\<rparr>))"

definition initialize ::
  "(nat \<Rightarrow> bool) \<Rightarrow> (string \<Rightarrow> bool \<Rightarrow> bool) \<Rightarrow> (string \<Rightarrow> bool) \<Rightarrow> nat \<Rightarrow> AllocatorOptions \<Rightarrow> arena \<Rightarrow>
   alloc_error option \<times> arena" where
  "initialize reserve os exists t opts a =
     (if \<not> IsPowerOfTwo (of_nat (opt_page_size opts))
      then (Some (InvalidArgument ''page_size must be a power of two''), a)
      else
        let a0 = a\<lparr>concurrent := opt_concurrent opts, reclaim_delay_ns := opt_reclaim_delay_ns opts\<rparr> in
        case Open_mapping reserve os exists opts (mapping a0) of
          (Some e, m) \<Rightarrow> (Some e, a0\<lparr>mapping := m\<rparr>)
        | (None, m) \<Rightarrow>
            let a1 = a0\<lparr>mapping := m, is_open := True\<rparr> in
            if meta_magic a1 \<noteq> 0 \<and> meta_magic a1 \<noteq> kMagic
            then (Some (RuntimeError ''FtAllocator: arena has an unrecognised magic value''), a1)
            else if meta_magic a1 = kMagic \<and> meta_version a1 \<noteq> kVersion
            then (Some (RuntimeError ''FtAllocator: incompatible arena version''), a1)
            else if meta_magic a1 = kMagic \<and> meta_version a1 = kVersion then
              (case BuildSizeClasses (page_size a1) of
                 Inl e \<Rightarrow> (Some (LogicError e), a1)
               | Inr sizes \<Rightarrow>
                   let a2 = a1\<lparr>class_sizes := sizes\<rparr> in
                   if arena_size a2 \<noteq> virtual_size (mapping a2) \<or> class_count a2 \<noteq> length sizes
                   then (Some (RuntimeError ''existing allocator metadata does not match requested layout''), a2)
                   else case reclaim_with_cutoff (- 1) (reopen_pages (clear_tlc t a2)) of
                          (Inl e, a3) \<Rightarrow> (Some e, a3)
                        | (Inr _, a3) \<Rightarrow> (None, a3))
            else
              (case BuildSizeClasses (opt_page_size opts) of
                 Inl e \<Rightarrow> (Some (LogicError e), a1)
               | Inr sizes \<Rightarrow> (None, fresh_arena t opts sizes a1)))"

section \<open>The public interface\<close>

text \<open>These are the calls of a thread whose cache is bound to this arena, or to none.\<close>

definition FlushTlc :: "nat \<Rightarrow> arena \<Rightarrow> arena" where
  "FlushTlc t a = (if \<not> is_open a then a else fold (flush_tlc_class t) [0..<class_count a] a)"

definition Close :: "nat \<Rightarrow> arena \<Rightarrow> arena" where
  "Close t a = (FlushTlc t a)\<lparr>mapping := Close_mapping (mapping (FlushTlc t a)), is_open := False\<rparr>"

definition Malloc ::
  "(string \<Rightarrow> bool \<Rightarrow> bool) \<Rightarrow> u64 \<Rightarrow> nat \<Rightarrow> u64 \<Rightarrow> u64 \<Rightarrow> arena \<Rightarrow> (alloc_error + nat) \<times> arena" where
  "Malloc os ub t now user_size a =
     (if \<not> is_open a then (Inl (RuntimeError ''allocator not open''), a)
      else
        case (case find_class (class_sizes a) user_size of
                Some cid \<Rightarrow> malloc_small os ub t cid a
              | None \<Rightarrow> malloc_large os ub user_size a) of
          (Inl e, a1) \<Rightarrow> (Inl e, a1)
        | (Inr ptr, a1) \<Rightarrow>
            (case maybe_reclaim_expired now a1 of
               (Some e, a2) \<Rightarrow> (Inl e, a2)
             | (None, a2) \<Rightarrow> (Inr ptr, a2)))"

datatype FreeMode = Immediate | Delayed

definition Free :: "nat \<Rightarrow> u64 \<Rightarrow> nat \<Rightarrow> FreeMode \<Rightarrow> arena \<Rightarrow> alloc_error option \<times> arena" where
  "Free t now ptr mode a =
     (if ptr = 0 then (None, a)
      else if \<not> is_open a then (Some (RuntimeError ''allocator not open''), a)
      else case header_from_payload ptr a of
        Inl e \<Rightarrow> (Some e, a)
      | Inr off \<Rightarrow>
          if hb_flags (hdrs a off) AND kFlagAllocated = 0
          then (Some (RuntimeError ''double free detected''), a)
          else
            let large = (hb_class (hdrs a off) = kLargeClassId) in
            case mode of
              Delayed \<Rightarrow> (None, if large then free_large_delayed now off a else free_small_delayed now off a)
            | Immediate \<Rightarrow> (if large then free_large_immediate off a else (None, free_small_immediate t off a)))"

definition PtrToOffset :: "nat \<Rightarrow> nat \<Rightarrow> arena \<Rightarrow> alloc_error + nat" where
  "PtrToOffset bse ptr a =
     (if \<not> is_open a then Inl (RuntimeError ''allocator not open'') else ptr_to_offset bse ptr a)"

definition OffsetToPtr :: "nat \<Rightarrow> nat \<Rightarrow> arena \<Rightarrow> alloc_error + nat" where
  "OffsetToPtr bse off a =
     (if \<not> is_open a then Inl (RuntimeError ''allocator not open'') else offset_to_ptr bse off a)"

definition AdvanceEpoch :: "arena \<Rightarrow> (alloc_error + u64) \<times> arena" where
  "AdvanceEpoch a =
     (if \<not> is_open a then (Inl (RuntimeError ''allocator not open''), a)
      else (Inr (current_epoch a + 1), a\<lparr>current_epoch := current_epoch a + 1\<rparr>))"

definition ReclaimExpired :: "u64 \<Rightarrow> arena \<Rightarrow> (alloc_error + nat) \<times> arena" where
  "ReclaimExpired now a =
     (if \<not> is_open a then (Inl (RuntimeError ''allocator not open''), a)
      else if now < reclaim_delay_ns a then (Inr 0, a)
      else reclaim_with_cutoff (now - reclaim_delay_ns a) a)"

definition CheckConsistency :: "arena \<Rightarrow> alloc_error option" where
  "CheckConsistency a =
     (if \<not> is_open a then Some (RuntimeError ''allocator not open'')
      else if meta_magic a \<noteq> kMagic \<or> meta_version a \<noteq> kVersion
      then Some (RuntimeError ''invalid metadata magic/version'')
      else check_bitmap a)"

text \<open>\<^verbatim>\<open>PeekFtArenaReservedBytes\<close> reads the magic number, the version and the size from the file; \<open>pread off n\<close>
  is the system call, \<open>None\<close> for a short read.\<close>

definition PeekFtArenaReservedBytes :: "bool \<Rightarrow> (nat \<Rightarrow> nat \<Rightarrow> nat option) \<Rightarrow> nat option" where
  "PeekFtArenaReservedBytes opens pread =
     (if \<not> opens then None
      else case (pread 0 8, pread 8 4, pread 12 4, pread 16 8) of
        (Some magic, Some version, Some _, Some asize) \<Rightarrow>
          (if magic \<noteq> 0x4654414c4c4f4333 \<or> version \<noteq> 3 then None else Some asize)
      | _ \<Rightarrow> None)"

end
