(* ===== verification/BlocksInv.thy ===== *)
theory BlocksInv
  imports Blocks
begin

text \<open>
  The ownership invariant of the block layer. A ghost map gives every page to a region, a slab of one
  size class or a large block, and another gives every block a role: on the free list of its class,
  in the cache of a thread, on a delayed list, or live. Since roles are a function, a block is in one
  place only; since regions are, blocks never share bytes. The lemmas show that each step of the
  sources moves a block from one role to another and keeps everything else.
\<close>

section \<open>Chains through the first payload word\<close>

fun linked :: "(nat \<Rightarrow> nat) \<Rightarrow> nat \<Rightarrow> nat list \<Rightarrow> bool" where
  "linked nx h [] \<longleftrightarrow> h = 0"
| "linked nx h (x # xs) \<longleftrightarrow> h = x \<and> x \<noteq> 0 \<and> linked nx (nx x) xs"

lemma linked_upd [simp]: "x \<notin> set xs \<Longrightarrow> linked (nx(x := y)) h xs = linked nx h xs"
  by (induction xs arbitrary: h) auto

lemma linked_0 [simp]: "linked nx 0 xs \<longleftrightarrow> xs = []"
  by (cases xs) auto

lemma linked_nonzero: "linked nx h xs \<Longrightarrow> h \<noteq> 0 \<Longrightarrow> \<exists>ys. xs = h # ys \<and> linked nx (nx h) ys"
  by (cases xs) auto

lemma linked_push: "linked nx h xs \<Longrightarrow> x \<noteq> 0 \<Longrightarrow> x \<notin> set xs \<Longrightarrow> linked (nx(x := h)) x (x # xs)"
  by simp

lemma linked_snoc:
  assumes "linked nx h xs" "distinct xs" "xs \<noteq> []" "x \<noteq> 0" "x \<notin> set xs"
  shows "linked (nx(x := 0, last xs := x)) h (xs @ [x])"
  using assms
proof (induction xs arbitrary: h)
  case (Cons y ys)
  show ?case
  proof (cases "ys = []")
    case True
    then show ?thesis using Cons.prems by auto
  next
    case False
    have "linked (nx(x := 0, last ys := x)) (nx y) (ys @ [x])" by (rule Cons.IH) (use Cons.prems False in auto)
    moreover have "last ys \<noteq> y" using Cons.prems(2) False last_in_set [of ys] by auto
    ultimately show ?thesis using Cons.prems False by (simp del: fun_upd_apply add: fun_upd_other)
  qed
qed simp

section \<open>Regions, roles and the invariant\<close>

datatype region = Slab nat | LargeRun nat

datatype role = RFree nat | RCached nat nat | RDelayed nat | RLive nat | RLargeDelayed | RLargeLive

fun rlen :: "region \<Rightarrow> nat" where
  "rlen (Slab cid) = kDefaultSlabPages"
| "rlen (LargeRun n) = n"

fun role_class :: "role \<Rightarrow> nat option" where
  "role_class (RFree c) = Some c"
| "role_class (RCached t c) = Some c"
| "role_class (RDelayed c) = Some c"
| "role_class (RLive c) = Some c"
| "role_class RLargeDelayed = None"
| "role_class RLargeLive = None"

fun role_flags :: "role \<Rightarrow> u16" where
  "role_flags (RFree c) = 0"
| "role_flags (RCached t c) = 0"
| "role_flags (RDelayed c) = kFlagDelayed"
| "role_flags (RLive c) = kFlagAllocated"
| "role_flags RLargeDelayed = kFlagDelayed"
| "role_flags RLargeLive = kFlagAllocated"

definition class_word :: "nat option \<Rightarrow> u16" where
  "class_word c = (case c of None \<Rightarrow> kLargeClassId | Some cid \<Rightarrow> of_nat cid)"

type_synonym ownership = "nat \<Rightarrow> (nat \<times> region) option"
type_synonym roles = "nat \<Rightarrow> role option"

definition page_addr :: "arena \<Rightarrow> nat \<Rightarrow> nat" where
  "page_addr a p = data_offset a + p * page_size a"

definition layout :: "arena \<Rightarrow> bool" where
  "layout a \<longleftrightarrow> is_open a \<and> 0 < data_offset a \<and> length (classes a) = kMaxSizeClasses \<and>
     class_sizes a = size_table (page_size a) \<and> class_count a = length (size_table (page_size a)) \<and>
     data_offset a + page_count a * page_size a \<le> arena_size a \<and> page_count a mod 64 = 0 \<and> page_count a < 2 ^ 32 \<and>
     kLargeHdrSize \<le> page_size a \<and> page_size a dvd 2 ^ 64 \<and>
     (\<forall>cid < class_count a. block_size (klass a cid) = size_table (page_size a) ! cid \<and>
        pages_per_slab (klass a cid) = kDefaultSlabPages)"

definition owns :: "arena \<Rightarrow> ownership \<Rightarrow> bool" where
  "owns a own \<longleftrightarrow> (\<forall>p s r. own p = Some (s, r) \<longrightarrow> p < page_count a \<and> used (bm a) p \<and> s \<le> p \<and> p < s + rlen r \<and>
     (\<forall>q. s \<le> q \<and> q < s + rlen r \<longrightarrow> own q = Some (s, r)))"

definition placed :: "arena \<Rightarrow> ownership \<Rightarrow> nat option \<Rightarrow> nat \<Rightarrow> bool" where
  "placed a own c x \<longleftrightarrow>
     (case c of
        Some cid \<Rightarrow> cid < class_count a \<and> (\<exists>s i. own s = Some (s, Slab cid) \<and>
          x = page_addr a s + i * (size_table (page_size a) ! cid) \<and>
          (i + 1) * (size_table (page_size a) ! cid) \<le> kDefaultSlabPages * page_size a)
      | None \<Rightarrow> (\<exists>s n. own s = Some (s, LargeRun n) \<and> x = page_addr a s + kLargeExtSize \<and>
          exts a (page_addr a s) = n \<and> kLargeHdrSize \<le> n * page_size a))"

definition role_ok :: "arena \<Rightarrow> ownership \<Rightarrow> nat \<Rightarrow> role \<Rightarrow> bool" where
  "role_ok a own x r \<longleftrightarrow> placed a own (role_class r) x \<and> hb_magic (hdrs a x) = kBlockMagic \<and>
     hb_class (hdrs a x) = class_word (role_class r) \<and> hb_flags (hdrs a x) = role_flags r"

definition roles_ok :: "arena \<Rightarrow> ownership \<Rightarrow> roles \<Rightarrow> bool" where
  "roles_ok a own role \<longleftrightarrow> (\<forall>x. case role x of Some r \<Rightarrow> role_ok a own x r | None \<Rightarrow> hb_flags (hdrs a x) = 0)"

definition holds :: "roles \<Rightarrow> role \<Rightarrow> nat list \<Rightarrow> bool" where
  "holds role r xs \<longleftrightarrow> distinct xs \<and> set xs = {x. role x = Some r}"

text \<open>The last block of a delayed list; 0 for an empty one.\<close>

definition tail_of :: "nat list \<Rightarrow> nat" where
  "tail_of xs = (if xs = [] then 0 else last xs)"

definition lists_ok ::
  "arena \<Rightarrow> roles \<Rightarrow> (nat \<Rightarrow> nat list) \<Rightarrow> (nat \<Rightarrow> nat list) \<Rightarrow> nat list \<Rightarrow> bool" where
  "lists_ok a role F D L \<longleftrightarrow>
     (\<forall>cid < class_count a. linked (link a) (free_head (klass a cid)) (F cid) \<and> holds role (RFree cid) (F cid)) \<and>
     (\<forall>cid < class_count a. linked (link a) (delayed_head (klass a cid)) (D cid) \<and> holds role (RDelayed cid) (D cid) \<and>
        delayed_tail (klass a cid) = tail_of (D cid)) \<and>
     linked (link a) (delayed_large_head a) L \<and> holds role RLargeDelayed L \<and> delayed_large_tail a = tail_of L \<and>
     (\<forall>t cid. holds role (RCached t cid) (tlc a t cid))"

definition blocks_inv ::
  "arena \<Rightarrow> ownership \<Rightarrow> roles \<Rightarrow> (nat \<Rightarrow> nat list) \<Rightarrow> (nat \<Rightarrow> nat list) \<Rightarrow> nat list \<Rightarrow> bool" where
  "blocks_inv a own role F D L \<longleftrightarrow>
     pages_inv a \<and> layout a \<and> owns a own \<and> roles_ok a own role \<and> lists_ok a role F D L"

definition arena_inv :: "arena \<Rightarrow> bool" where
  "arena_inv a \<longleftrightarrow> (\<exists>own role F D L. blocks_inv a own role F D L)"

definition live :: "arena \<Rightarrow> nat set" where
  "live a = {x. hb_flags (hdrs a x) AND kFlagAllocated \<noteq> 0}"

text \<open>The bytes of the block whose header is at \<open>x\<close>, its own header and extension included.\<close>

definition extent :: "arena \<Rightarrow> nat \<Rightarrow> nat set" where
  "extent a x =
     (if hb_class (hdrs a x) = kLargeClassId
      then {x - kLargeExtSize..<x - kLargeExtSize + exts a (x - kLargeExtSize) * page_size a}
      else {x..<x + block_size (klass a (unat (hb_class (hdrs a x))))})"

section \<open>Placement\<close>

lemma placed_cong:
  "page_size a' = page_size a \<Longrightarrow> data_offset a' = data_offset a \<Longrightarrow> class_count a' = class_count a \<Longrightarrow> exts a' = exts a \<Longrightarrow>
   placed a' own c x = placed a own c x"
  by (simp only: placed_def page_addr_def)

lemma owns_cong: "page_count a' = page_count a \<Longrightarrow> bm a' = bm a \<Longrightarrow> owns a' own = owns a own"
  by (simp only: owns_def)

lemma placed_mono:
  assumes "placed a own c x" "page_size a' = page_size a" "data_offset a' = data_offset a" "class_count a' = class_count a"
    and own: "\<And>s cid. own s = Some (s, Slab cid) \<Longrightarrow> own' s = Some (s, Slab cid)"
      "\<And>s n. c = None \<Longrightarrow> own s = Some (s, LargeRun n) \<Longrightarrow> x = page_addr a s + kLargeExtSize \<Longrightarrow>
         own' s = Some (s, LargeRun n) \<and> exts a' (page_addr a s) = exts a (page_addr a s)"
  shows "placed a' own' c x"
proof -
  have pa: "page_addr a' = page_addr a" using assms(2,3) by (simp add: page_addr_def fun_eq_iff)
  show ?thesis
  proof (cases c)
    case None
    then obtain s n where s: "own s = Some (s, LargeRun n)" "x = page_addr a s + kLargeExtSize" "exts a (page_addr a s) = n"
        "kLargeHdrSize \<le> n * page_size a"
      using assms(1) by (auto simp: placed_def)
    then have "own' s = Some (s, LargeRun n) \<and> exts a' (page_addr a s) = n" using own(2) [OF None s(1,2)] by simp
    then have "own' s = Some (s, LargeRun n) \<and> x = page_addr a' s + kLargeExtSize \<and> exts a' (page_addr a' s) = n \<and>
        kLargeHdrSize \<le> n * page_size a'"
      unfolding pa assms(2) using s by blast
    then show ?thesis unfolding None placed_def option.case by blast
  next
    case (Some cid)
    then obtain s i where s: "cid < class_count a" "own s = Some (s, Slab cid)" "x = page_addr a s + i * (size_table (page_size a) ! cid)"
        "(i + 1) * (size_table (page_size a) ! cid) \<le> kDefaultSlabPages * page_size a"
      using assms(1) by (auto simp: placed_def)
    have "cid < class_count a' \<and> own' s = Some (s, Slab cid) \<and> x = page_addr a' s + i * (size_table (page_size a') ! cid) \<and>
        (i + 1) * (size_table (page_size a') ! cid) \<le> kDefaultSlabPages * page_size a'"
      unfolding pa assms(2,4) using s own(1) [OF s(2)] by blast
    then show ?thesis unfolding Some placed_def option.case by blast
  qed
qed

lemma class_count_le: "layout a \<Longrightarrow> class_count a \<le> 46"
  by (simp add: layout_def length_size_table)

lemma class_lt: "layout a \<Longrightarrow> cid < class_count a \<Longrightarrow> cid < length (classes a)"
  using class_count_le [of a] by (simp add: layout_def kMaxSizeClasses_def)

lemma class_word_small: "cid < 46 \<Longrightarrow> unat (class_word (Some cid)) = cid \<and> class_word (Some cid) \<noteq> kLargeClassId"
proof -
  assume c: "cid < 46"
  have u: "unat (of_nat cid :: u16) = cid" using c by (simp add: unat_of_nat)
  moreover have "unat kLargeClassId = 65535" by (simp add: kLargeClassId_def)
  ultimately have "(of_nat cid :: u16) \<noteq> kLargeClassId" using c by auto
  then show ?thesis using u by (simp add: class_word_def)
qed

lemma size_table_pos: "cid < length (size_table ps) \<Longrightarrow> 24 \<le> size_table ps ! cid"
  using size_table_tiny [of cid ps] size_table_middle [of cid ps] by (cases "cid < 38") auto

definition live_role :: "role \<Rightarrow> bool" where
  "live_role r \<longleftrightarrow> (case r of RLive c \<Rightarrow> True | RLargeLive \<Rightarrow> True | _ \<Rightarrow> False)"

lemma live_role_simps [simp]:
  "live_role (RLive c)" "live_role RLargeLive" "\<not> live_role (RFree c)" "\<not> live_role (RCached t c)"
  "\<not> live_role (RDelayed c)" "\<not> live_role RLargeDelayed"
  by (simp_all add: live_role_def)

lemma flags_live: "role_flags r AND kFlagAllocated \<noteq> 0 \<longleftrightarrow> live_role r"
  by (cases r) (simp_all add: kFlagAllocated_def kFlagDelayed_def)

lemma live_roles:
  assumes "roles_ok a own role"
  shows "live a = {x. \<exists>r. role x = Some r \<and> live_role r}"
proof (intro set_eqI)
  fix x
  have "case role x of Some r \<Rightarrow> role_ok a own x r | None \<Rightarrow> hb_flags (hdrs a x) = 0"
    using assms by (simp add: roles_ok_def)
  then show "x \<in> live a \<longleftrightarrow> x \<in> {x. \<exists>r. role x = Some r \<and> live_role r}"
    using flags_live by (cases "role x") (auto simp: live_def role_ok_def)
qed

text \<open>Every placed block lies in a region of pages it owns.\<close>

definition region_bytes :: "arena \<Rightarrow> nat \<Rightarrow> region \<Rightarrow> nat set" where
  "region_bytes a s r = {page_addr a s..<page_addr a s + rlen r * page_size a}"

lemma page_in_region:
  assumes "y \<in> region_bytes a s r" "0 < page_size a"
  shows "data_offset a \<le> y" "s \<le> (y - data_offset a) div page_size a" "(y - data_offset a) div page_size a < s + rlen r"
proof -
  obtain d where d: "y = page_addr a s + d" "d < rlen r * page_size a"
    using assms(1) by (auto simp: region_bytes_def le_iff_add)
  then have y: "y - data_offset a = s * page_size a + d" by (simp add: page_addr_def)
  show "data_offset a \<le> y" using d by (simp add: page_addr_def)
  show "s \<le> (y - data_offset a) div page_size a" unfolding y using assms(2) by simp
  have "d div page_size a < rlen r" using d(2) by (simp add: less_mult_imp_div_less)
  then show "(y - data_offset a) div page_size a < s + rlen r" unfolding y using assms(2) by simp
qed

lemma regions_disjoint:
  assumes "owns a own" "0 < page_size a" "own s = Some (s, r)" "own s' = Some (s', r')"
    "y \<in> region_bytes a s r" "y \<in> region_bytes a s' r'"
  shows "s = s'"
proof -
  let ?p = "(y - data_offset a) div page_size a"
  have "own ?p = Some (s, r)" using assms(1,3) page_in_region [OF assms(5,2)] unfolding owns_def by blast
  moreover have "own ?p = Some (s', r')" using assms(1,4) page_in_region [OF assms(6,2)] unfolding owns_def by blast
  ultimately show ?thesis by simp
qed

text \<open>The bytes of a block lie in its region, and blocks do not overlap.\<close>

lemma extent_small:
  assumes "layout a" "role_ok a own x r" "role_class r = Some cid"
  shows "cid < class_count a \<and> extent a x = {x..<x + size_table (page_size a) ! cid}"
proof -
  have c: "cid < class_count a" using assms(2,3) by (simp add: role_ok_def placed_def)
  have "cid < 46" using c class_count_le [OF assms(1)] by simp
  note w = class_word_small [OF this]
  have "block_size (klass a cid) = size_table (page_size a) ! cid" using assms(1) c by (simp add: layout_def)
  then show ?thesis using c w assms(2,3) by (simp add: extent_def role_ok_def)
qed

lemma extent_large:
  assumes "role_ok a own x r" "role_class r = None"
  shows "extent a x = {x - kLargeExtSize..<x - kLargeExtSize + exts a (x - kLargeExtSize) * page_size a}"
  using assms by (simp add: extent_def role_ok_def class_word_def)

lemma extent_in_region:
  assumes "layout a" "role_ok a own x r"
  shows "\<exists>s g. own s = Some (s, g) \<and> extent a x \<subseteq> region_bytes a s g \<and> x \<in> region_bytes a s g \<and>
    (case role_class r of Some cid \<Rightarrow> g = Slab cid | None \<Rightarrow> g = LargeRun (exts a (page_addr a s)) \<and> x = page_addr a s + kLargeExtSize)"
proof (cases "role_class r")
  case (Some cid)
  let ?b = "size_table (page_size a) ! cid"
  obtain s i where si: "own s = Some (s, Slab cid)" "x = page_addr a s + i * ?b" "(i + 1) * ?b \<le> kDefaultSlabPages * page_size a"
    using assms(2) Some by (auto simp: role_ok_def placed_def)
  note e = extent_small [OF assms Some]
  have "24 \<le> ?b" using e assms(1) by (intro size_table_pos) (simp add: layout_def)
  moreover have "x + ?b \<le> page_addr a s + kDefaultSlabPages * page_size a" using si(2,3) by simp
  ultimately show ?thesis using e si(1,2) Some by (intro exI [of _ s] exI [of _ "Slab cid"]) (auto simp: region_bytes_def)
next
  case None
  obtain s n where sn: "own s = Some (s, LargeRun n)" "x = page_addr a s + kLargeExtSize" "exts a (page_addr a s) = n"
      "kLargeHdrSize \<le> n * page_size a"
    using assms(2) None by (auto simp: role_ok_def placed_def)
  then show ?thesis using extent_large [OF assms(2) None] None
    by (intro exI [of _ s] exI [of _ "LargeRun n"]) (auto simp: region_bytes_def size_consts)
qed

lemma multiples_apart: "i \<noteq> j \<Longrightarrow> {i * b..<i * b + b} \<inter> {j * b..<j * b + (b :: nat)} = {}"
proof (induction i j rule: linorder_wlog)
  case (le i j)
  then have "(i + 1) * b \<le> j * b" by (intro mult_le_mono1) simp
  then show ?case by auto
qed (simp add: Int_commute)

lemma extents_disjoint:
  assumes "pages_inv a" "layout a" "owns a own" "role_ok a own x r" "role_ok a own y r'" "x \<noteq> y"
  shows "extent a x \<inter> extent a y = {}"
proof (rule ccontr)
  have ps: "0 < page_size a" using assms(1) by (simp add: pages_inv_def)
  assume "extent a x \<inter> extent a y \<noteq> {}"
  then obtain z where z: "z \<in> extent a x" "z \<in> extent a y" by blast
  obtain s g where s: "own s = Some (s, g)" "extent a x \<subseteq> region_bytes a s g"
      "case role_class r of Some cid \<Rightarrow> g = Slab cid | None \<Rightarrow> g = LargeRun (exts a (page_addr a s)) \<and> x = page_addr a s + kLargeExtSize"
    using extent_in_region [OF assms(2,4)] by blast
  obtain s' g' where s': "own s' = Some (s', g')" "extent a y \<subseteq> region_bytes a s' g'"
      "case role_class r' of Some cid \<Rightarrow> g' = Slab cid | None \<Rightarrow> g' = LargeRun (exts a (page_addr a s')) \<and> y = page_addr a s' + kLargeExtSize"
    using extent_in_region [OF assms(2,5)] by blast
  have eq: "s = s'" using regions_disjoint [OF assms(3) ps s(1) s'(1)] s(2) s'(2) z by blast
  then have gg: "g = g'" using s(1) s'(1) by simp
  show False
  proof (cases "role_class r")
    case None
    then show ?thesis using s(3) s'(3) eq gg assms(6) by (auto split: option.splits)
  next
    case (Some cid)
    then have c': "role_class r' = Some cid" using s(3) s'(3) gg by (auto split: option.splits)
    let ?b = "size_table (page_size a) ! cid"
    obtain i s1 where i: "x = page_addr a s1 + i * ?b" "own s1 = Some (s1, Slab cid)" "(i + 1) * ?b \<le> kDefaultSlabPages * page_size a"
      using assms(4) Some by (auto simp: role_ok_def placed_def)
    obtain j s2 where j: "y = page_addr a s2 + j * ?b" "own s2 = Some (s2, Slab cid)" "(j + 1) * ?b \<le> kDefaultSlabPages * page_size a"
      using assms(5) c' by (auto simp: role_ok_def placed_def)
    note ex = extent_small [OF assms(2,4) Some] extent_small [OF assms(2,5) c']
    have "z \<in> region_bytes a s1 (Slab cid)" using z(1) ex(1) i(1,3) by (auto simp: region_bytes_def)
    moreover have "z \<in> region_bytes a s2 (Slab cid)" using z(2) ex(2) j(1,3) by (auto simp: region_bytes_def)
    ultimately have "s1 = s2" using regions_disjoint [OF assms(3) ps i(2) j(2)] by blast
    then have d: "i \<noteq> j" using assms(6) i(1) j(1) by auto
    obtain u where u: "z = page_addr a s1 + u" using z(1) ex(1) i(1) by (auto simp: le_iff_add)
    have "u \<in> {i * ?b..<i * ?b + ?b}" "u \<in> {j * ?b..<j * ?b + ?b}"
      using z ex i(1) j(1) u \<open>s1 = s2\<close> by auto
    then show ?thesis using multiples_apart [OF d, of ?b] by blast
  qed
qed

section \<open>Steps that only move blocks\<close>

text \<open>What the steps on lists and headers leave alone.\<close>

definition same_layout :: "arena \<Rightarrow> arena \<Rightarrow> bool" where
  "same_layout a a' \<longleftrightarrow> page_size a' = page_size a \<and> arena_size a' = arena_size a \<and> data_offset a' = data_offset a \<and>
     bitmap_words a' = bitmap_words a \<and> page_count a' = page_count a \<and> free_page_count a' = free_page_count a \<and>
     bm a' = bm a \<and> is_open a' = is_open a \<and> class_count a' = class_count a \<and> class_sizes a' = class_sizes a \<and>
     exts a' = exts a \<and> map block_size (classes a') = map block_size (classes a) \<and>
     map pages_per_slab (classes a') = map pages_per_slab (classes a)"

lemma same_layout_refl [simp]: "same_layout a a" by (simp add: same_layout_def)

lemma same_layout_trans: "same_layout a b \<Longrightarrow> same_layout b c \<Longrightarrow> same_layout a c"
  by (simp add: same_layout_def)

lemma map_nth_eq: "map f xs = map f ys \<Longrightarrow> i < length ys \<Longrightarrow> f (xs ! i) = f (ys ! i)"
  by (metis length_map nth_map)

lemma same_layout_inv:
  assumes "same_layout a a'"
  shows "pages_inv a \<Longrightarrow> pages_inv a'" "layout a \<Longrightarrow> layout a'" "owns a own \<Longrightarrow> owns a' own"
    "placed a' own c x = placed a own c x"
proof -
  note f = assms [unfolded same_layout_def]
  have "pages_inv a' = pages_inv a" by (simp add: pages_inv_def free_set_def f)
  then show "pages_inv a \<Longrightarrow> pages_inv a'" by simp
  have "owns a' own = owns a own" by (simp add: owns_def f)
  then show "owns a own \<Longrightarrow> owns a' own" by simp
  show "placed a' own c x = placed a own c x" by (rule placed_cong) (simp_all add: f)
  show "layout a'" if l: "layout a"
  proof -
    have len: "length (classes a') = length (classes a)"
      using f map_eq_imp_length_eq by blast
    have "block_size (klass a' cid) = block_size (klass a cid) \<and> pages_per_slab (klass a' cid) = pages_per_slab (klass a cid)"
      if "cid < class_count a" for cid
      using map_nth_eq [of block_size "classes a'" "classes a" cid] map_nth_eq [of pages_per_slab "classes a'" "classes a" cid]
        assms class_lt [OF l that] by (simp add: same_layout_def)
    then show ?thesis using l assms len by (simp add: same_layout_def layout_def)
  qed
qed

lemma roles_ok_set:
  assumes "roles_ok a own role" "same_layout a a'" "placed a own (role_class r') x" "hdrs a' = (hdrs a)(x := h)"
    "hb_magic h = kBlockMagic" "hb_class h = class_word (role_class r')" "hb_flags h = role_flags r'"
  shows "roles_ok a' own (role(x \<mapsto> r'))"
  unfolding roles_ok_def
proof
  fix y
  show "case (role(x \<mapsto> r')) y of None \<Rightarrow> hb_flags (hdrs a' y) = 0 | Some r \<Rightarrow> role_ok a' own y r"
  proof (cases "y = x")
    case True
    then show ?thesis using assms same_layout_inv(4) [OF assms(2)] by (simp add: role_ok_def)
  next
    case False
    have "case role y of Some r \<Rightarrow> role_ok a own y r | None \<Rightarrow> hb_flags (hdrs a y) = 0"
      using assms(1) by (simp add: roles_ok_def)
    then show ?thesis using False assms(4) same_layout_inv(4) [OF assms(2)] by (simp add: role_ok_def split: option.splits)
  qed
qed

lemma role_okD: "roles_ok a own role \<Longrightarrow> role x = Some r \<Longrightarrow> role_ok a own x r"
  by (auto simp: roles_ok_def dest: spec [of _ x])

lemma role_placed: "roles_ok a own role \<Longrightarrow> role x = Some r \<Longrightarrow> placed a own (role_class r) x"
  using role_okD by (auto simp: role_ok_def)

lemma roles_ok_own:
  "roles_ok a own role \<Longrightarrow> (\<And>x r. role x = Some r \<Longrightarrow> role_ok a own x r \<Longrightarrow> role_ok a own' x r) \<Longrightarrow> roles_ok a own' role"
  unfolding roles_ok_def by (metis (no_types, lifting) option.case_eq_if option.collapse)

lemma roles_ok_move:
  assumes "roles_ok a own role" "same_layout a a'" "role x = Some r" "role_class r' = role_class r"
    "hdrs a' = (hdrs a)(x := h)" "hb_magic h = kBlockMagic" "hb_class h = class_word (role_class r)" "hb_flags h = role_flags r'"
  shows "roles_ok a' own (role(x \<mapsto> r'))"
  using roles_ok_set [OF assms(1,2), of r' x h] role_placed [OF assms(1,3)] assms(4-8) by simp

lemma holds_move_to: "holds role r' xs \<Longrightarrow> role x \<noteq> Some r' \<Longrightarrow> holds (role(x \<mapsto> r')) r' (x # xs)"
  by (auto simp: holds_def)

lemma holds_move_to_end: "holds role r' xs \<Longrightarrow> role x \<noteq> Some r' \<Longrightarrow> holds (role(x \<mapsto> r')) r' (xs @ [x])"
  by (auto simp: holds_def)

lemma holds_move_from: "holds role r (x # xs) \<Longrightarrow> r' \<noteq> r \<Longrightarrow> holds (role(x \<mapsto> r')) r xs"
  by (auto simp: holds_def)

lemma holds_move_other: "holds role q xs \<Longrightarrow> role x \<noteq> Some q \<Longrightarrow> r' \<noteq> q \<Longrightarrow> holds (role(x \<mapsto> r')) q xs"
  by (auto simp: holds_def)

lemma holds_notin: "holds role q xs \<Longrightarrow> role x \<noteq> Some q \<Longrightarrow> x \<notin> set xs"
  by (simp add: holds_def)

lemma placed_nonzero: "layout a \<Longrightarrow> placed a own c x \<Longrightarrow> x \<noteq> 0"
proof -
  assume l: "layout a" and p: "placed a own c x"
  have "data_offset a \<le> x" using p by (auto simp: placed_def page_addr_def split: option.splits)
  then show ?thesis using l by (simp add: layout_def)
qed

text \<open>The parts of the list invariant, and how a link update outside the lists keeps them.\<close>

lemma lists_okD:
  assumes "lists_ok a role F D L"
  shows "cid < class_count a \<Longrightarrow> linked (link a) (free_head (klass a cid)) (F cid)" "cid < class_count a \<Longrightarrow> holds role (RFree cid) (F cid)"
    "cid < class_count a \<Longrightarrow> linked (link a) (delayed_head (klass a cid)) (D cid)" "cid < class_count a \<Longrightarrow> holds role (RDelayed cid) (D cid)"
    "cid < class_count a \<Longrightarrow> delayed_tail (klass a cid) = tail_of (D cid)" "linked (link a) (delayed_large_head a) L"
    "holds role RLargeDelayed L" "delayed_large_tail a = tail_of L" "holds role (RCached t cid) (tlc a t cid)"
  using assms by (simp_all add: lists_ok_def)

lemma lists_okI:
  assumes "\<And>cid. cid < class_count a \<Longrightarrow> linked (link a) (free_head (klass a cid)) (F cid)"
    "\<And>cid. cid < class_count a \<Longrightarrow> holds role (RFree cid) (F cid)"
    "\<And>cid. cid < class_count a \<Longrightarrow> linked (link a) (delayed_head (klass a cid)) (D cid)"
    "\<And>cid. cid < class_count a \<Longrightarrow> holds role (RDelayed cid) (D cid)"
    "\<And>cid. cid < class_count a \<Longrightarrow> delayed_tail (klass a cid) = tail_of (D cid)"
    "linked (link a) (delayed_large_head a) L" "holds role RLargeDelayed L" "delayed_large_tail a = tail_of L"
    "\<And>t cid. holds role (RCached t cid) (tlc a t cid)"
  shows "lists_ok a role F D L"
  using assms by (simp add: lists_ok_def)

text \<open>A cached block becomes live.\<close>

lemma cached_to_live:
  assumes inv: "blocks_inv a own role F D L" and tl: "tlc a t cid = off # rest"
    and h: "hb_magic h = kBlockMagic" "hb_class h = of_nat cid" "hb_flags h = kFlagAllocated"
    and a': "same_layout a a'" "hdrs a' = (hdrs a)(off := h)" "link a' = link a" "classes a' = classes a"
      "tlc a' = (tlc a)(t := (tlc a t)(cid := rest))" "delayed_large_head a' = delayed_large_head a"
      "delayed_large_tail a' = delayed_large_tail a"
  shows "blocks_inv a' own (role(off \<mapsto> RLive cid)) F D L \<and> role off = Some (RCached t cid)"
proof -
  note i = inv [unfolded blocks_inv_def]
  note ls = lists_okD [OF i [THEN conjunct2, THEN conjunct2, THEN conjunct2, THEN conjunct2]]
  have r: "role off = Some (RCached t cid)" using ls(9) [of t cid] tl by (auto simp: holds_def)
  have cc: "class_count a' = class_count a" using a'(1) by (simp add: same_layout_def)
  have "roles_ok a' own (role(off \<mapsto> RLive cid))"
    by (rule roles_ok_move [where role = role and x = off and h = h, OF _ a'(1) r _ a'(2)]) (use i h in \<open>simp_all add: class_word_def\<close>)
  moreover have "lists_ok a' (role(off \<mapsto> RLive cid)) F D L"
  proof (rule lists_okI)
    fix t' c show "holds (role(off \<mapsto> RLive cid)) (RCached t' c) (tlc a' t' c)"
    proof (cases "t' = t \<and> c = cid")
      case True
      then show ?thesis using ls(9) [of t cid] tl by (auto simp: a' intro: holds_move_from)
    next
      case False
      then show ?thesis using ls(9) [of t' c] r by (auto simp: a' intro: holds_move_other)
    qed
  qed (use ls r in \<open>auto simp: a' cc intro: holds_move_other\<close>)
  ultimately show ?thesis using i same_layout_inv [OF a'(1)] r by (simp add: blocks_inv_def)
qed

text \<open>A live small block goes into the cache of a thread.\<close>

lemma live_to_cached:
  assumes inv: "blocks_inv a own role F D L" and r: "role off = Some (RLive cid)"
    and a': "same_layout a a'" "hdrs a' = (hdrs a)(off := (hdrs a off)\<lparr>hb_flags := 0\<rparr>)" "link a' = link a" "classes a' = classes a"
      "tlc a' = (tlc a)(t := (tlc a t)(cid := off # tlc a t cid))" "delayed_large_head a' = delayed_large_head a"
      "delayed_large_tail a' = delayed_large_tail a"
  shows "blocks_inv a' own (role(off \<mapsto> RCached t cid)) F D L"
proof -
  note i = inv [unfolded blocks_inv_def]
  note ls = lists_okD [OF i [THEN conjunct2, THEN conjunct2, THEN conjunct2, THEN conjunct2]]
  have cc: "class_count a' = class_count a" using a'(1) by (simp add: same_layout_def)
  have ok: "role_ok a own off (RLive cid)" using i r by (auto simp: roles_ok_def dest: spec [of _ off])
  have "roles_ok a' own (role(off \<mapsto> RCached t cid))"
    by (rule roles_ok_move [where role = role and x = off and h = "(hdrs a off)\<lparr>hb_flags := 0\<rparr>", OF _ a'(1) r _ a'(2)])
      (use i ok in \<open>simp_all add: role_ok_def\<close>)
  moreover have "lists_ok a' (role(off \<mapsto> RCached t cid)) F D L"
  proof (rule lists_okI)
    fix t' c show "holds (role(off \<mapsto> RCached t cid)) (RCached t' c) (tlc a' t' c)"
    proof (cases "t' = t \<and> c = cid")
      case True
      then show ?thesis using ls(9) [of t cid] r by (auto simp: a' intro: holds_move_to)
    next
      case False
      then show ?thesis using ls(9) [of t' c] r by (auto simp: a' intro: holds_move_other)
    qed
  qed (use ls r in \<open>auto simp: a' cc intro: holds_move_other\<close>)
  ultimately show ?thesis using i same_layout_inv [OF a'(1)] by (simp add: blocks_inv_def)
qed

text \<open>A block with any role outside the free lists goes onto the free list of its class; \<open>tl\<close> and \<open>D'\<close>
  are the lists it comes from.\<close>

lemma to_free:
  assumes inv: "roles_ok a own role" "pages_inv a" "layout a" "owns a own"
    and r: "placed a own (Some cid) off" "\<And>c. role off \<noteq> Some (RFree c)"
    and ls: "\<And>c. c < class_count a \<Longrightarrow> linked (link a) (free_head (klass a c)) (F c)" "\<And>c. c < class_count a \<Longrightarrow> holds role (RFree c) (F c)"
    and a': "same_layout a a'" "hdrs a' = (hdrs a)(off := h)" "link a' = (link a)(off := free_head (klass a cid))"
      "\<And>c. free_head (klass a' c) = (if c = cid then off else free_head (klass a c))"
    and h: "hb_magic h = kBlockMagic" "hb_class h = of_nat cid" "hb_flags h = 0"
    and rest: "\<And>c. c < class_count a \<Longrightarrow> linked (link a) (delayed_head (klass a' c)) (D' c) \<and> holds (role(off \<mapsto> RFree cid)) (RDelayed c) (D' c) \<and>
        delayed_tail (klass a' c) = tail_of (D' c)"
      "linked (link a) (delayed_large_head a') L" "holds (role(off \<mapsto> RFree cid)) RLargeDelayed L" "delayed_large_tail a' = tail_of L"
      "\<And>t c. holds (role(off \<mapsto> RFree cid)) (RCached t c) (tlc a' t c)"
  shows "blocks_inv a' own (role(off \<mapsto> RFree cid)) (F(cid := off # F cid)) D' L"
proof -
  let ?role = "role(off \<mapsto> RFree cid)"
  have cc: "class_count a' = class_count a" using a'(1) by (simp add: same_layout_def)
  have nz: "off \<noteq> 0" by (rule placed_nonzero [OF inv(3) r(1)])
  note out = r(2)
  have rd: "?role off = Some (RFree cid)" by simp
  have "roles_ok a' own ?role"
    by (rule roles_ok_set [OF inv(1) a'(1) _ a'(2)]) (use h r in \<open>simp_all add: class_word_def\<close>)
  moreover have "lists_ok a' ?role (F(cid := off # F cid)) D' L"
  proof (rule lists_okI)
    fix c assume "c < class_count a'"
    then have c: "c < class_count a" by (simp add: cc)
    show "linked (link a') (free_head (klass a' c)) ((F(cid := off # F cid)) c)"
    proof (cases "c = cid")
      case True
      then show ?thesis using linked_push [OF ls(1) nz holds_notin [OF ls(2) out]] c by (simp add: a')
    next
      case False
      then show ?thesis using ls(1) [OF c] holds_notin [OF ls(2) [OF c] out] by (simp add: a')
    qed
    show "holds ?role (RFree c) ((F(cid := off # F cid)) c)"
      using ls(2) [OF c] out by (auto intro: holds_move_to holds_move_other)
    have "off \<notin> set (D' c)" using rest(1) [OF c] holds_notin [of ?role "RDelayed c" "D' c" off] rd by simp
    then show "linked (link a') (delayed_head (klass a' c)) (D' c)" using rest(1) [OF c] by (simp add: a'(3))
    show "holds ?role (RDelayed c) (D' c)" "delayed_tail (klass a' c) = tail_of (D' c)" using rest(1) [OF c] by simp_all
  next
    have "off \<notin> set L" using holds_notin [OF rest(3), of off] rd by simp
    then show "linked (link a') (delayed_large_head a') L" using rest(2) by (simp add: a'(3))
  qed (use rest in auto)
  ultimately show ?thesis using inv same_layout_inv [OF a'(1)] by (simp add: blocks_inv_def)
qed

text \<open>The live blocks of a role map.\<close>

definition lv :: "roles \<Rightarrow> nat set" where
  "lv role = {x. \<exists>r. role x = Some r \<and> live_role r}"

lemma lv_upd: "lv (role(x \<mapsto> r)) = (if live_role r then insert x (lv role) else lv role - {x})"
  by (auto simp: lv_def)

lemma lv_same: "role x = Some r \<Longrightarrow> \<not> live_role r \<Longrightarrow> \<not> live_role r' \<Longrightarrow> lv (role(x \<mapsto> r')) = lv role"
  by (auto simp: lv_def)

lemma blocks_invD:
  assumes "blocks_inv a own role F D L"
  shows "pages_inv a" "layout a" "owns a own" "roles_ok a own role" "lists_ok a role F D L" "live a = lv role"
  using assms live_roles [of a own role] by (simp_all add: blocks_inv_def lv_def)

text \<open>A step of the sources that keeps the invariant and the live blocks.\<close>

definition keeps :: "arena \<Rightarrow> arena \<Rightarrow> bool" where
  "keeps a a' \<longleftrightarrow> (arena_inv a \<longrightarrow> arena_inv a' \<and> live a' = live a)"

lemma keeps_refl [simp]: "keeps a a" by (simp add: keeps_def)
lemma keeps_trans: "keeps a b \<Longrightarrow> keeps b c \<Longrightarrow> keeps a c" by (simp add: keeps_def)

lemma keepsI:
  assumes "\<And>own role F D L. blocks_inv a own role F D L \<Longrightarrow> \<exists>own' role' F' D' L'. blocks_inv a' own' role' F' D' L' \<and> lv role' = lv role"
  shows "keeps a a'"
  unfolding keeps_def
proof
  assume "arena_inv a"
  then obtain own role F D L where i: "blocks_inv a own role F D L" by (auto simp: arena_inv_def)
  obtain own' role' F' D' L' where i': "blocks_inv a' own' role' F' D' L'" "lv role' = lv role" using assms [OF i] by blast
  then show "arena_inv a' \<and> live a' = live a"
    using blocks_invD(6) [OF i] blocks_invD(6) [OF i'(1)] unfolding arena_inv_def by blast
qed

lemma klass_upd_class: "layout a \<Longrightarrow> cid < class_count a \<Longrightarrow> classes a' = (classes a)[cid := k] \<Longrightarrow> klass a' c = (if c = cid then k else klass a c)"
  using class_lt [of a cid] by simp

lemma map_upd_same: "f x = f (xs ! i) \<Longrightarrow> map f (xs[i := x]) = map f xs"
  by (metis list_update_id map_update)

text \<open>A cached block goes back to the free list.\<close>

lemma give_back_keeps:
  assumes "tlc a t cid = off # rest"
  shows "keeps a (give_back cid off (set_tlc t cid rest a))"
proof (rule keepsI)
  fix own role F D L assume inv: "blocks_inv a own role F D L"
  let ?a = "give_back cid off (set_tlc t cid rest a)"
  note i = blocks_invD [OF inv] and ls = lists_okD [OF blocks_invD(5) [OF inv]]
  have r: "role off = Some (RCached t cid)" using ls(9) [of t cid] assms by (auto simp: holds_def)
  note ok = role_okD [OF i(4) r]
  have c: "cid < class_count a" using ok by (simp add: role_ok_def placed_def)
  have cl: "classes ?a = (classes a)[cid := (klass a cid)\<lparr>free_head := off\<rparr>]"
    by (simp add: give_back_def set_tlc_def upd_hdr_def upd_class_def)
  note kl = klass_upd_class [OF i(2) c cl]
  have "blocks_inv ?a own (role(off \<mapsto> RFree cid)) (F(cid := off # F cid)) D L"
  proof (rule to_free [OF i(4,1,2,3), where h = "(hdrs a off)\<lparr>hb_flags := 0\<rparr>"])
    show "same_layout a ?a" using cl
      by (simp add: same_layout_def map_upd_same) (simp add: give_back_def set_tlc_def upd_hdr_def upd_class_def)
    show "holds (role(off \<mapsto> RFree cid)) (RCached t' c') (tlc ?a t' c')" for t' c'
      using ls(9) [of t' c'] r assms holds_move_from [of role "RCached t cid" off rest "RFree cid"]
        holds_move_other [of role "RCached t' c'" "tlc a t' c'" off "RFree cid"]
      by (auto simp: give_back_def set_tlc_def upd_hdr_def upd_class_def)
    show "linked (link a) (delayed_head (klass ?a c')) (D c') \<and> holds (role(off \<mapsto> RFree cid)) (RDelayed c') (D c') \<and>
        delayed_tail (klass ?a c') = tail_of (D c')" if "c' < class_count a" for c'
      using ls(3,4,5) [OF that] r by (auto simp: kl intro: holds_move_other)
    show "holds (role(off \<mapsto> RFree cid)) RLargeDelayed L" using ls(7) r by (auto intro: holds_move_other)
    show "placed a own (Some cid) off" using role_placed [OF i(4) r] by simp
  qed (use ls r ok kl in \<open>simp_all add: role_ok_def class_word_def give_back_def set_tlc_def upd_hdr_def upd_class_def\<close>)
  moreover have "lv (role(off \<mapsto> RFree cid)) = lv role" by (rule lv_same [where role = role and x = off, OF r]) simp_all
  ultimately show "\<exists>own' role' F' D' L'. blocks_inv ?a own' role' F' D' L' \<and> lv role' = lv role" by blast
qed

lemma flush_n_keeps: "keeps a (flush_n t cid n a)"
proof (induction n arbitrary: a)
  case (Suc n)
  show ?case
  proof (cases "tlc a t cid")
    case (Cons off rest)
    show ?thesis using keeps_trans [OF give_back_keeps [OF Cons] Suc.IH] Cons by simp
  qed simp
qed simp

text \<open>The head of a free list goes into a cache.\<close>

lemma refill_step_keeps:
  assumes c: "cid < class_count a" and off: "off = free_head (klass a cid)" "off \<noteq> 0"
  shows "keeps a (upd_class cid (\<lambda>k. k\<lparr>free_head := link a off\<rparr>) (set_tlc t cid (off # tlc a t cid) a))" (is "keeps a ?a")
proof (rule keepsI)
  fix own role F D L assume inv: "blocks_inv a own role F D L"
  note i = blocks_invD [OF inv] and ls = lists_okD [OF blocks_invD(5) [OF inv]]
  obtain ys where ys: "F cid = off # ys" "linked (link a) (link a off) ys"
    using linked_nonzero [OF ls(1) [OF c]] off by auto
  have r: "role off = Some (RFree cid)" using ls(2) [OF c] ys(1) by (auto simp: holds_def)
  note ok = role_okD [OF i(4) r]
  have cl: "classes ?a = (classes a)[cid := (klass a cid)\<lparr>free_head := link a off\<rparr>]"
    by (simp add: set_tlc_def upd_class_def)
  note kl = klass_upd_class [OF i(2) c cl]
  have sl: "same_layout a ?a" using cl by (simp add: same_layout_def map_upd_same) (simp add: set_tlc_def upd_class_def)
  have fl: "link ?a = link a" "class_count ?a = class_count a" "delayed_large_head ?a = delayed_large_head a"
    "delayed_large_tail ?a = delayed_large_tail a" "hdrs ?a = (hdrs a)(off := hdrs a off)"
    "tlc ?a = (tlc a)(t := (tlc a t)(cid := off # tlc a t cid))"
    by (simp_all add: set_tlc_def upd_class_def)
  have "roles_ok ?a own (role(off \<mapsto> RCached t cid))"
    by (rule roles_ok_set [OF i(4) sl _ fl(5)]) (use ok in \<open>simp_all add: role_ok_def\<close>)
  moreover have "lists_ok ?a (role(off \<mapsto> RCached t cid)) (F(cid := ys)) D L"
  proof (rule lists_okI)
    fix c' assume "c' < class_count ?a"
    then have c': "c' < class_count a" by (simp add: fl)
    show "linked (link ?a) (free_head (klass ?a c')) ((F(cid := ys)) c')" using ls(1) [OF c'] ys(2) by (simp add: fl kl)
    show "holds (role(off \<mapsto> RCached t cid)) (RFree c') ((F(cid := ys)) c')"
      using ls(2) [OF c'] ys(1) r by (auto intro: holds_move_from holds_move_other)
    show "linked (link ?a) (delayed_head (klass ?a c')) (D c')" "holds (role(off \<mapsto> RCached t cid)) (RDelayed c') (D c')"
      "delayed_tail (klass ?a c') = tail_of (D c')"
      using ls(3,4,5) [OF c'] r by (auto simp: fl kl intro: holds_move_other)
  next
    fix t' c'
    show "holds (role(off \<mapsto> RCached t cid)) (RCached t' c') (tlc ?a t' c')"
      using ls(9) [of t' c'] r by (auto simp: fl(6) intro: holds_move_to holds_move_other)
  qed (use ls r in \<open>auto simp: fl intro: holds_move_other\<close>)
  ultimately have "blocks_inv ?a own (role(off \<mapsto> RCached t cid)) (F(cid := ys)) D L"
    using i same_layout_inv [OF sl] by (simp add: blocks_inv_def)
  moreover have "lv (role(off \<mapsto> RCached t cid)) = lv role" by (rule lv_same [where role = role and x = off, OF r]) simp_all
  ultimately show "\<exists>own' role' F' D' L'. blocks_inv ?a own' role' F' D' L' \<and> lv role' = lv role" by blast
qed

lemma refill_keeps: "cid < class_count a \<Longrightarrow> keeps a (refill t cid n a) \<and> class_count (refill t cid n a) = class_count a"
proof (induction n arbitrary: a)
  case (Suc n)
  let ?off = "free_head (klass a cid)"
  let ?a = "upd_class cid (\<lambda>k. k\<lparr>free_head := link a ?off\<rparr>) (set_tlc t cid (?off # tlc a t cid) a)"
  show ?case
  proof (cases "?off = 0")
    case False
    have cc: "class_count ?a = class_count a" by (simp add: upd_class_def set_tlc_def)
    have st: "keeps a ?a" by (rule refill_step_keeps [OF Suc.prems refl False])
    have "keeps ?a (refill t cid n ?a) \<and> class_count (refill t cid n ?a) = class_count a"
      using Suc.IH [of ?a] Suc.prems cc by simp
    then show ?thesis using keeps_trans [OF st, of "refill t cid n ?a"] False by (simp add: Let_def)
  qed simp
qed simp

lemma refill_nonempty:
  "tlc a t cid \<noteq> [] \<Longrightarrow> tlc (refill t cid n a) t cid \<noteq> []"
  "free_head (klass a cid) \<noteq> 0 \<Longrightarrow> tlc (refill t cid (Suc n) a) t cid \<noteq> []"
proof -
  show ne: "tlc a t cid \<noteq> [] \<Longrightarrow> tlc (refill t cid n a) t cid \<noteq> []" for a n
    by (induction n arbitrary: a) (simp_all add: Let_def upd_class_def set_tlc_def)
  show "free_head (klass a cid) \<noteq> 0 \<Longrightarrow> tlc (refill t cid (Suc n) a) t cid \<noteq> []"
    by (simp add: Let_def) (rule ne, simp add: upd_class_def set_tlc_def)
qed

section \<open>Taking pages\<close>

lemma alloc_pages_frame:
  assumes "alloc_pages os ub n (a :: arena) = (r, a1)"
  shows "\<exists>b fc cur m. a1 = a\<lparr>bm := b, free_page_count := fc, next_page_cursor := cur, mapping := m\<rparr>"
proof -
  have tk: "\<exists>b fc cur m. a1 = a\<lparr>bm := b, free_page_count := fc, next_page_cursor := cur, mapping := m\<rparr>"
    if "take_pages os p c b' a = (r, a1)" for p c b'
  proof (cases "EnsureMapped os (data_offset a + p * page_size a) (c * page_size a) (mapping a)")
    case (Pair e m)
    have "a1 = a\<lparr>bm := b', free_page_count := free_page_count a - c, next_page_cursor := (p + c) mod page_count a, mapping := m\<rparr>"
      using that Pair by (cases e) (simp_all add: take_pages_def Let_def)
    then show ?thesis by blast
  qed
  have id: "\<exists>b fc cur m. a = a\<lparr>bm := b, free_page_count := fc, next_page_cursor := cur, mapping := m\<rparr>"
    by (rule exI [of _ "bm a"], rule exI [of _ "free_page_count a"], rule exI [of _ "next_page_cursor a"],
        rule exI [of _ "mapping a"]) simp
  show ?thesis
    using assms tk id unfolding alloc_pages_def Let_def by (auto split: if_splits option.splits)
qed

text \<open>Pages taken from the bitmap belong to no region; they can be made one, or stay unowned.\<close>

definition give_region :: "nat \<Rightarrow> region \<Rightarrow> ownership \<Rightarrow> ownership" where
  "give_region p g own = (\<lambda>q. if p \<le> q \<and> q < p + rlen g then Some (p, g) else own q)"

lemma alloc_pages_region:
  assumes inv: "blocks_inv a own role F D L" and al: "alloc_pages os 1 n a = (r, a1)"
  shows "blocks_inv a1 own role F D L \<and> hdrs a1 = hdrs a \<and> classes a1 = classes a \<and> tlc a1 = tlc a \<and> class_count a1 = class_count a \<and>
    page_size a1 = page_size a \<and> exts a1 = exts a \<and>
    (\<forall>off. r = Inr off \<longrightarrow> (\<exists>p. off = page_addr a1 p \<and> 0 < n \<and> p + n \<le> page_count a \<and>
      (\<forall>q. p \<le> q \<and> q < p + n \<longrightarrow> own q = None) \<and>
      (\<forall>g. rlen g = n \<longrightarrow> blocks_inv a1 (give_region p g own) role F D L)))"
proof -
  note i = blocks_invD [OF inv]
  have pm: "page_count a mod 64 = 0" using i(2) by (simp add: layout_def)
  obtain b fc cur m where a1: "a1 = a\<lparr>bm := b, free_page_count := fc, next_page_cursor := cur, mapping := m\<rparr>"
    using alloc_pages_frame [OF al] by blast
  have pl: "placed a1 own' c x = placed a own' c x" for own' c x by (rule placed_cong) (simp_all add: a1)
  have lay: "layout a1" using i(2) by (simp add: a1 layout_def)
  have li: "lists_ok a1 role F D L" using i(5) by (simp add: a1 lists_ok_def)
  have ro: "role_ok a1 own' x r = role_ok a own' x r" for own' x r using pl by (simp add: role_ok_def a1)
  have hd: "hdrs a1 = hdrs a" by (simp add: a1)
  have rr: "roles_ok a1 own' role = roles_ok a own' role" for own' by (simp only: roles_ok_def ro hd)
  have pc: "page_count a \<le> 64 * length (bm a)" using i(1) by (simp add: pages_inv_def)
  have key: "pages_inv a1 \<and> (\<forall>q < 64 * length (bm a). used (bm a) q \<longrightarrow> used (bm a1) q) \<and>
    (\<forall>off. r = Inr off \<longrightarrow> (\<exists>p. off = page_addr a1 p \<and> 0 < n \<and> p + n \<le> page_count a \<and>
       (\<forall>q. p \<le> q \<and> q < p + n \<longrightarrow> \<not> used (bm a) q \<and> used (bm a1) q)))"
    using i(1) pm al
  proof (cases rule: alloc_pages_cases)
    case none
    then show ?thesis using i(1) by simp
  next
    case (run p b')
    note t = pages_inv_take [OF i(1) run(2,3,4)]
    have o: "off = page_addr a1 p" if "r = Inr off" for off using t that by (simp add: page_addr_def)
    have fr: "p + n \<le> page_count a" using run(2) by (simp add: free_run_def)
    have nu: "\<not> used (bm a) q" if "p \<le> q" "q < p + n" for q
      using run(2) that by (auto simp: free_run_def le_iff_add)
    have us: "used (bm a1) q \<longleftrightarrow> used (bm a) q \<or> p \<le> q \<and> q < p + n" if "q < 64 * length (bm a)" for q
      using t run(3) that by (simp add: marks_run_def)
    have "\<forall>q. p \<le> q \<and> q < p + n \<longrightarrow> \<not> used (bm a) q \<and> used (bm a1) q" using nu us fr pc by (meson less_le_trans)
    then show ?thesis using t us o run(1) fr by blast
  qed
  have ow: "owns a1 own" unfolding owns_def
  proof (intro allI impI)
    fix p s g assume "own p = Some (s, g)"
    then have "p < page_count a \<and> used (bm a) p \<and> s \<le> p \<and> p < s + rlen g \<and> (\<forall>q. s \<le> q \<and> q < s + rlen g \<longrightarrow> own q = Some (s, g))"
      using i(3) unfolding owns_def by blast
    then show "p < page_count a1 \<and> used (bm a1) p \<and> s \<le> p \<and> p < s + rlen g \<and> (\<forall>q. s \<le> q \<and> q < s + rlen g \<longrightarrow> own q = Some (s, g))"
      using key pc by (simp add: a1)
  qed
  have b1: "blocks_inv a1 own role F D L" using key lay ow rr i(4) li by (simp add: blocks_inv_def)
  have reg: "(\<forall>q. p \<le> q \<and> q < p + n \<longrightarrow> own q = None) \<and> (\<forall>g. rlen g = n \<longrightarrow> blocks_inv a1 (give_region p g own) role F D L)"
    if p: "p + n \<le> page_count a" "\<forall>q. p \<le> q \<and> q < p + n \<longrightarrow> \<not> used (bm a) q \<and> used (bm a1) q" for p
  proof -
    have none: "own q = None" if "p \<le> q" "q < p + n" for q
    proof (rule ccontr)
      assume "own q \<noteq> None"
      then obtain s g where "own q = Some (s, g)" by auto
      then have "used (bm a) q" using i(3) unfolding owns_def by blast
      then show False using p(2) that by blast
    qed
    have "blocks_inv a1 (give_region p g own) role F D L" if g: "rlen g = n" for g
    proof -
      have old: "give_region p g own q = Some v" if "own q = Some v" for q v
        using that none g by (auto simp: give_region_def)
      have "owns a1 (give_region p g own)" unfolding owns_def
      proof (intro allI impI)
        fix q s g' assume q: "give_region p g own q = Some (s, g')"
        show "q < page_count a1 \<and> used (bm a1) q \<and> s \<le> q \<and> q < s + rlen g' \<and>
            (\<forall>q'. s \<le> q' \<and> q' < s + rlen g' \<longrightarrow> give_region p g own q' = Some (s, g'))"
        proof (cases "p \<le> q \<and> q < p + n")
          case True
          then show ?thesis using q p g by (auto simp: give_region_def a1)
        next
          case False
          then have "own q = Some (s, g')" using q g by (auto simp: give_region_def split: if_splits)
          then show ?thesis using ow old unfolding owns_def by blast
        qed
      qed
      moreover have "roles_ok a1 (give_region p g own) role"
      proof -
        have "role_ok a (give_region p g own) x r" if "role_ok a own x r" for x r
          using that old by (cases "role_class r") (auto simp: role_ok_def placed_def)
        then have "roles_ok a (give_region p g own) role" using roles_ok_own [OF i(4)] by blast
        then show ?thesis by (simp only: rr)
      qed
      ultimately show ?thesis using key lay li by (simp add: blocks_inv_def)
    qed
    then show ?thesis using none by blast
  qed
  have "\<forall>off. r = Inr off \<longrightarrow> (\<exists>p. off = page_addr a1 p \<and> 0 < n \<and> p + n \<le> page_count a \<and>
      (\<forall>q. p \<le> q \<and> q < p + n \<longrightarrow> own q = None) \<and>
      (\<forall>g. rlen g = n \<longrightarrow> blocks_inv a1 (give_region p g own) role F D L))"
    using key reg by blast
  then show ?thesis using b1 by (simp add: a1)
qed

text \<open>A block with a role lies on owned pages.\<close>

lemma role_page_owned:
  assumes inv: "blocks_inv a own role F D L" and r: "role x = Some r"
    and x: "x \<in> region_bytes a p g" and free: "\<And>q. p \<le> q \<Longrightarrow> q < p + rlen g \<Longrightarrow> own q = None"
  shows False
proof -
  note i = blocks_invD [OF inv]
  have ps: "0 < page_size a" using i(1) by (simp add: pages_inv_def)
  obtain s g' where s: "own s = Some (s, g')" "x \<in> region_bytes a s g'"
    using extent_in_region [OF i(2) role_okD [OF i(4) r]] by blast
  have "own ((x - data_offset a) div page_size a) = Some (s, g')"
    using i(3) s(1) page_in_region(2,3) [OF s(2) ps] unfolding owns_def by blast
  then show False using free [OF page_in_region(2,3) [OF x ps]] by simp
qed

section \<open>Building a slab\<close>

lemma init_block_fields [simp]:
  "class_count (init_block cid off a) = class_count a" "tlc (init_block cid off a) = tlc a" "page_size (init_block cid off a) = page_size a"
  "page_addr (init_block cid off a) s = page_addr a s"
  by (simp_all add: init_block_def push_free_def upd_hdr_def upd_class_def page_addr_def)

lemma init_block_inv:
  assumes inv: "blocks_inv a own role F D L" and pl: "placed a own (Some cid) off" and r: "role off = None"
  shows "blocks_inv (init_block cid off a) own (role(off \<mapsto> RFree cid)) (F(cid := off # F cid)) D L \<and>
    free_head (klass (init_block cid off a) cid) \<noteq> 0"
proof -
  let ?a = "init_block cid off a"
  note i = blocks_invD [OF inv] and ls = lists_okD [OF blocks_invD(5) [OF inv]]
  have c: "cid < class_count a" using pl by (simp add: placed_def)
  have cl: "classes ?a = (classes a)[cid := (klass a cid)\<lparr>free_head := off\<rparr>]"
    by (simp add: init_block_def push_free_def upd_hdr_def upd_class_def)
  note kl = klass_upd_class [OF i(2) c cl]
  have fl: "link ?a = (link a)(off := free_head (klass a cid))"
    "hdrs ?a = (hdrs a)(off := \<lparr>hb_magic = kBlockMagic, hb_class = of_nat cid, hb_flags = 0, hb_pad = 0\<rparr>)"
    "delayed_large_head ?a = delayed_large_head a" "delayed_large_tail ?a = delayed_large_tail a"
    by (simp_all add: init_block_def push_free_def upd_hdr_def upd_class_def)
  have "blocks_inv ?a own (role(off \<mapsto> RFree cid)) (F(cid := off # F cid)) D L"
  proof (rule to_free [OF i(4,1,2,3) pl _ _ _ _ fl(2)])
    show "same_layout a ?a" using cl
      by (simp add: same_layout_def map_upd_same) (simp add: init_block_def push_free_def upd_hdr_def upd_class_def)
    show "linked (link a) (delayed_head (klass ?a c')) (D c') \<and> holds (role(off \<mapsto> RFree cid)) (RDelayed c') (D c') \<and>
        delayed_tail (klass ?a c') = tail_of (D c')" if "c' < class_count a" for c'
      using ls(3,4,5) [OF that] r by (auto simp: kl intro: holds_move_other)
    show "holds (role(off \<mapsto> RFree cid)) RLargeDelayed L" using ls(7) r by (auto intro: holds_move_other)
    show "holds (role(off \<mapsto> RFree cid)) (RCached t' c') (tlc ?a t' c')" for t' c'
      using ls(9) [of t' c'] r by (auto intro: holds_move_other)
  qed (use ls r kl fl in simp_all)
  then show ?thesis using placed_nonzero [OF i(2) pl] by (simp add: kl)
qed

lemma init_blocks:
  assumes "blocks_inv a own role F D L" "own s = Some (s, Slab cid)" "cid < class_count a" "distinct is"
    "b = size_table (page_size a) ! cid" "0 < b"
    "\<forall>i \<in> set is. (i + 1) * b \<le> kDefaultSlabPages * page_size a \<and> role (page_addr a s + i * b) = None"
  shows "\<exists>role' F'. blocks_inv (fold (\<lambda>i. init_block cid (page_addr a s + i * b)) is a) own role' F' D L \<and> lv role' = lv role \<and>
    tlc (fold (\<lambda>i. init_block cid (page_addr a s + i * b)) is a) = tlc a \<and>
    class_count (fold (\<lambda>i. init_block cid (page_addr a s + i * b)) is a) = class_count a \<and>
    (is \<noteq> [] \<or> free_head (klass a cid) \<noteq> 0 \<longrightarrow> free_head (klass (fold (\<lambda>i. init_block cid (page_addr a s + i * b)) is a) cid) \<noteq> 0)"
  using assms
proof (induction "is" arbitrary: a role F)
  case Nil
  then show ?case by auto
next
  case (Cons i js)
  let ?off = "page_addr a s + i * b"
  let ?a = "init_block cid ?off a" and ?role = "role(?off \<mapsto> RFree cid)"
  have pl: "placed a own (Some cid) ?off" using Cons.prems by (auto simp: placed_def)
  have n: "role ?off = None" using Cons.prems(7) by simp
  note st = init_block_inv [OF Cons.prems(1) pl n]
  have oth: "?role (page_addr ?a s + j * b) = None" if "j \<in> set js" for j
    using Cons.prems(4,6,7) that by auto
  have lv1: "lv ?role = lv role" using n by (auto simp: lv_def)
  have "\<exists>role' F'. blocks_inv (fold (\<lambda>i. init_block cid (page_addr ?a s + i * b)) js ?a) own role' F' D L \<and> lv role' = lv ?role \<and>
    tlc (fold (\<lambda>i. init_block cid (page_addr ?a s + i * b)) js ?a) = tlc ?a \<and>
    class_count (fold (\<lambda>i. init_block cid (page_addr ?a s + i * b)) js ?a) = class_count ?a \<and>
    (js \<noteq> [] \<or> free_head (klass ?a cid) \<noteq> 0 \<longrightarrow> free_head (klass (fold (\<lambda>i. init_block cid (page_addr ?a s + i * b)) js ?a) cid) \<noteq> 0)"
    by (rule Cons.IH [OF conjunct1 [OF st]]) (use Cons.prems oth in auto)
  then show ?case using lv1 st by simp
qed

lemma fill_class_keeps:
  assumes c: "cid < class_count a" and f: "fill_class os 1 cid a = (e, a')"
  shows "keeps a a' \<and> (arena_inv a \<longrightarrow> tlc a' = tlc a \<and> class_count a' = class_count a \<and> (e = None \<longrightarrow> free_head (klass a' cid) \<noteq> 0))"
proof -
  have main: "\<exists>own' role' F' D' L'. blocks_inv a' own' role' F' D' L' \<and> lv role' = lv role \<and> tlc a' = tlc a \<and> class_count a' = class_count a \<and>
      (e = None \<longrightarrow> free_head (klass a' cid) \<noteq> 0)" if inv: "blocks_inv a own role F D L" for own role F D L
  proof -
    note i = blocks_invD [OF inv]
    have k: "pages_per_slab (klass a cid) = kDefaultSlabPages" "block_size (klass a cid) = size_table (page_size a) ! cid"
      using i(2) c by (simp_all add: layout_def)
    obtain r a1 where al: "alloc_pages os 1 kDefaultSlabPages a = (r, a1)" by (cases "alloc_pages os 1 kDefaultSlabPages a")
    note rg = alloc_pages_region [OF inv al]
    show ?thesis
    proof (cases r)
      case (Inl err)
      then have "a' = a1" "e \<noteq> None" using f al k by (auto simp: fill_class_def)
      then show ?thesis using rg by blast
    next
      case (Inr off)
      obtain p where p: "off = page_addr a1 p" "\<forall>q. p \<le> q \<and> q < p + kDefaultSlabPages \<longrightarrow> own q = None"
          "blocks_inv a1 (give_region p (Slab cid) own) role F D L"
        using rg Inr by (metis rlen.simps(1))
      let ?b = "size_table (page_size a1) ! cid"
      let ?n = "kDefaultSlabPages * page_size a1 div ?b"
      have b: "24 \<le> ?b" using i(2) c rg by (intro size_table_pos) (simp add: layout_def)
      show ?thesis
      proof (cases "?n = 0")
        case True
        then have "a' = a1" "e \<noteq> None" using f al k Inr rg by (auto simp: fill_class_def Let_def)
        then show ?thesis using rg by blast
      next
        case False
        have a': "a' = fold (\<lambda>i. init_block cid (page_addr a1 p + i * ?b)) [0..<?n] a1" "e = None"
          using f al k Inr rg p(1) False by (auto simp: fill_class_def Let_def)
        have fits: "(j + 1) * ?b \<le> kDefaultSlabPages * page_size a1" if "j < ?n" for j
        proof -
          have "(j + 1) * ?b \<le> ?n * ?b" using that by (intro mult_le_mono1) simp
          also have "\<dots> \<le> kDefaultSlabPages * page_size a1" by (rule div_times_less_eq_dividend)
          finally show ?thesis .
        qed
        have inb: "page_addr a1 p + j * ?b \<in> region_bytes a1 p (Slab cid)" if "j < ?n" for j
          using fits [OF that] b by (auto simp: region_bytes_def)
        have none: "role (page_addr a1 p + j * ?b) = None" if "j < ?n" for j
        proof (rule ccontr)
          assume "role (page_addr a1 p + j * ?b) \<noteq> None"
          then obtain q where "role (page_addr a1 p + j * ?b) = Some q" by auto
          from role_page_owned [OF conjunct1 [OF rg] this inb [OF that]] p(2) show False by simp
        qed
        have "\<exists>role' F'. blocks_inv a' (give_region p (Slab cid) own) role' F' D L \<and> lv role' = lv role \<and> tlc a' = tlc a1 \<and> class_count a' = class_count a1 \<and>
          ([0..<?n] \<noteq> [] \<or> free_head (klass a1 cid) \<noteq> 0 \<longrightarrow> free_head (klass a' cid) \<noteq> 0)"
          unfolding a' by (rule init_blocks [OF p(3)]) (use c rg b fits none in \<open>auto simp: give_region_def kDefaultSlabPages_def\<close>)
        moreover have "[0..<?n] \<noteq> []" "tlc a1 = tlc a" "class_count a1 = class_count a" using rg False by simp_all
        ultimately show ?thesis by metis
      qed
    qed
  qed
  have "keeps a a'"
  proof (rule keepsI)
    fix own role F D L assume "blocks_inv a own role F D L"
    from main [OF this] show "\<exists>own' role' F' D' L'. blocks_inv a' own' role' F' D' L' \<and> lv role' = lv role" by metis
  qed
  moreover have "tlc a' = tlc a \<and> class_count a' = class_count a \<and> (e = None \<longrightarrow> free_head (klass a' cid) \<noteq> 0)" if "arena_inv a"
  proof -
    from that obtain own role F D L where "blocks_inv a own role F D L" unfolding arena_inv_def by metis
    from main [OF this] show ?thesis by metis
  qed
  ultimately show ?thesis by metis
qed

section \<open>Small and large allocation\<close>

lemma arena_invE:
  assumes "arena_inv a"
  obtains own role F D L where "blocks_inv a own role F D L"
  using assms unfolding arena_inv_def by metis

lemma arena_invI: "blocks_inv a own role F D L \<Longrightarrow> arena_inv a"
  unfolding arena_inv_def by metis

lemma take_cached:
  assumes inv: "arena_inv a" and tl: "tlc a t cid = off # rest"
    and h: "hb_magic (hdrs a off) = kBlockMagic \<Longrightarrow> hb_magic (f (hdrs a off)) = kBlockMagic"
      "hb_class (f (hdrs a off)) = of_nat cid" "hb_flags (f (hdrs a off)) = kFlagAllocated"
    and a': "a' = count_alloc n (upd_hdr off f (set_tlc t cid rest a))"
  shows "arena_inv a' \<and> off \<notin> live a \<and> live a' = insert off (live a) \<and> extent a' off = {off..<off + size_table (page_size a) ! cid}"
proof -
  from inv obtain own role F D L where b: "blocks_inv a own role F D L" by (rule arena_invE)
  note i = blocks_invD [OF b] and ls = lists_okD [OF blocks_invD(5) [OF b]]
  have r: "role off = Some (RCached t cid)" using ls(9) [of t cid] tl by (auto simp: holds_def)
  have m: "hb_magic (hdrs a off) = kBlockMagic" using role_okD [OF i(4) r] by (simp add: role_ok_def)
  have b': "blocks_inv a' own (role(off \<mapsto> RLive cid)) F D L \<and> role off = Some (RCached t cid)"
    by (rule cached_to_live [OF b tl h(1) [OF m] h(2,3)])
      (simp_all add: a' count_alloc_def upd_hdr_def set_tlc_def same_layout_def)
  note i' = blocks_invD [OF conjunct1 [OF b']]
  have ok: "role_ok a' own off (RLive cid)" by (rule role_okD [OF i'(4)]) simp
  have "extent a' off = {off..<off + size_table (page_size a') ! cid}" using extent_small [OF i'(2) ok] by simp
  moreover have "page_size a' = page_size a" by (simp add: a' count_alloc_def upd_hdr_def set_tlc_def)
  moreover have "off \<notin> live a" unfolding i(6) using r by (simp add: lv_def)
  ultimately show ?thesis using arena_invI [OF conjunct1 [OF b']] i(6) i'(6) by (simp add: lv_upd)
qed

lemma page_size_refill [simp]: "page_size (refill t cid n a) = page_size a"
  by (induction n arbitrary: a) (simp_all add: Let_def upd_class_def set_tlc_def)

lemma page_size_fill [simp]:
  assumes "fill_class os ub cid a = (e, a')"
  shows "page_size a' = page_size a"
proof -
  obtain r a1 where al: "alloc_pages os ub (pages_per_slab (klass a cid)) a = (r, a1)"
    by (cases "alloc_pages os ub (pages_per_slab (klass a cid)) a")
  have p: "page_size a1 = page_size a" using alloc_pages_frame [OF al] by auto
  have f: "page_size (fold (\<lambda>i. init_block cid (g i)) xs b) = page_size b" for g xs b
    by (induction xs arbitrary: b) simp_all
  show ?thesis
  proof (cases r)
    case (Inl err)
    then show ?thesis using assms al p by (simp add: fill_class_def)
  next
    case (Inr off)
    have "page_size a' = page_size a1" using assms al Inr f [of "\<lambda>i. off + i * block_size (klass a1 cid)"]
      by (auto simp: fill_class_def Let_def split: if_splits)
    then show ?thesis using p by simp
  qed
qed

lemma malloc_small_spec:
  assumes inv: "arena_inv a" and c: "cid < class_count a" and m: "malloc_small os 1 t cid a = (r, a')"
  shows "arena_inv a' \<and> (case r of Inl e \<Rightarrow> live a' = live a
    | Inr p \<Rightarrow> \<exists>x. p = x + kHeaderSize \<and> x \<notin> live a \<and> live a' = insert x (live a) \<and>
        extent a' x = {x..<x + size_table (page_size a) ! cid})"
proof (cases "tlc a t cid")
  case (Cons off rest)
  then have r: "r = Inr (off + kHeaderSize)" and a': "a' = count_alloc (block_size (klass a cid))
      (upd_hdr off (\<lambda>h. h\<lparr>hb_flags := kFlagAllocated, hb_class := of_nat cid\<rparr>) (set_tlc t cid rest a))"
    using m by (simp_all add: malloc_small_def)
  show ?thesis using take_cached [OF inv Cons _ _ _ a'] r by simp
next
  case Nil
  define fl where "fl = (if free_head (klass a cid) = 0 then fill_class os 1 cid a else (None, a))"
  obtain e a1 where fl1: "fl = (e, a1)" by (cases fl)
  have f: "keeps a a1 \<and> tlc a1 = tlc a \<and> class_count a1 = class_count a \<and> page_size a1 = page_size a \<and>
      (e = None \<longrightarrow> free_head (klass a1 cid) \<noteq> 0)"
  proof (cases "free_head (klass a cid) = 0")
    case True
    then have "fill_class os 1 cid a = (e, a1)" using fl1 by (simp add: fl_def)
    then show ?thesis using fill_class_keeps [OF c] page_size_fill inv by blast
  next
    case False
    then show ?thesis using fl1 by (auto simp: fl_def)
  qed
  show ?thesis
  proof (cases e)
    case (Some err)
    then have "r = Inl err" "a' = a1" using m Nil fl1 by (simp_all add: malloc_small_def fl_def [symmetric])
    then show ?thesis using f inv by (simp add: keeps_def)
  next
    case None
    let ?a2 = "refill t cid (kTlcCapacity div 2) a1"
    have i1: "arena_inv a1 \<and> live a1 = live a" using f inv by (simp add: keeps_def)
    have c1: "cid < class_count a1" using f c by simp
    have i2: "arena_inv ?a2 \<and> live ?a2 = live a" using refill_keeps [OF c1, of t "kTlcCapacity div 2"] i1 by (simp add: keeps_def)
    have "tlc ?a2 t cid \<noteq> []"
      using refill_nonempty(2) [of a1 cid t 15] f None by (simp add: kTlcCapacity_def)
    then obtain off rest where t2: "tlc ?a2 t cid = off # rest" by (cases "tlc ?a2 t cid") auto
    then have r: "r = Inr (off + kHeaderSize)" and a': "a' = count_alloc (block_size (klass a cid))
      (upd_hdr off (\<lambda>h. \<lparr>hb_magic = kBlockMagic, hb_class = of_nat cid, hb_flags = kFlagAllocated, hb_pad = 0\<rparr>) (set_tlc t cid rest ?a2))"
      using m Nil fl1 None by (simp_all add: malloc_small_def fl_def [symmetric] Let_def)
    show ?thesis using take_cached [OF conjunct1 [OF i2] t2 _ _ _ a'] r i2 f by simp
  qed
qed

lemma malloc_large_spec:
  assumes inv: "arena_inv a" and m: "malloc_large os 1 user_size a = (r, a')"
  shows "arena_inv a' \<and> (case r of Inl e \<Rightarrow> live a' = live a
    | Inr p \<Rightarrow> \<exists>x. p = x + kHeaderSize \<and> kLargeExtSize \<le> x \<and> x \<notin> live a \<and> live a' = insert x (live a) \<and>
        extent a' x = {x - kLargeExtSize..<x - kLargeExtSize + large_total (page_size a) user_size})"
proof -
  from inv obtain own role F D L where b: "blocks_inv a own role F D L" by (rule arena_invE)
  note i = blocks_invD [OF b]
  let ?tot = "large_total (page_size a) user_size"
  let ?n = "?tot div page_size a"
  obtain q a1 where al: "alloc_pages os 1 ?n a = (q, a1)" by (cases "alloc_pages os 1 ?n a")
  note rg = alloc_pages_region [OF b al]
  have ps: "0 < page_size a" using i(1) by (simp add: pages_inv_def)
  show ?thesis
  proof (cases q)
    case (Inl e)
    then have "r = Inl e" "a' = a1" using m al by (simp_all add: malloc_large_def Let_def)
    then show ?thesis using rg blocks_invD(6) [OF conjunct1 [OF rg]] i(6) arena_invI [OF conjunct1 [OF rg]] by simp
  next
    case (Inr off)
    obtain p where p: "off = page_addr a1 p" "0 < ?n" "p + ?n \<le> page_count a" "\<forall>q. p \<le> q \<and> q < p + ?n \<longrightarrow> own q = None"
        "blocks_inv a1 (give_region p (LargeRun ?n) own) role F D L"
      using rg Inr by (metis rlen.simps(2))
    let ?x = "off + kLargeExtSize" and ?own = "give_region p (LargeRun ?n) own"
    have n32: "?n mod 2 ^ 32 = ?n" using p(3) i(2) by (simp add: layout_def)
    have r: "r = Inr (?x + kHeaderSize)" and a': "a' = count_alloc ?tot
        (upd_hdr ?x (\<lambda>h. \<lparr>hb_magic = kBlockMagic, hb_class = kLargeClassId, hb_flags = kFlagAllocated, hb_pad = 0\<rparr>)
          (a1\<lparr>exts := (exts a1)(off := ?n)\<rparr>))"
      using m al Inr n32 by (simp_all add: malloc_large_def Let_def)
    have lay: "page_size a dvd 2 ^ 64" "kLargeHdrSize \<le> page_size a" using i(2) by (simp_all add: layout_def)
    have "page_size a dvd ?tot" using AlignUp_bounds(3) [OF ps] lay(1) by (simp add: large_total_def dvd_mod)
    then have dv: "?n * page_size a = ?tot" by simp
    have big: "kLargeHdrSize \<le> ?n * page_size a" using p(2) lay(2) by (cases ?n) auto
    let ?e = "a1\<lparr>exts := (exts a1)(off := ?n)\<rparr>"
    have pg: "page_size a1 = page_size a" using rg by simp
    have inj: "page_addr a1 s \<noteq> off" if "s \<noteq> p" for s using that p(1) ps pg by (simp add: page_addr_def)
    note i1 = blocks_invD [OF p(5)]
    have be: "blocks_inv ?e ?own role F D L"
    proof -
      have "role_ok ?e ?own y g" if "role y = Some g" for y g
      proof -
        have ok: "role_ok a1 own y g" using blocks_invD(4) [OF conjunct1 [OF rg]] that by (rule role_okD)
        have np: "\<not> (p \<le> s \<and> s < p + ?n)" if "own s = Some v" for s v using that p(4) by auto
        have pl: "placed a1 own (role_class g) y" using ok by (simp add: role_ok_def)
        have "placed ?e ?own (role_class g) y"
        proof (rule placed_mono [OF pl])
          fix s m assume s: "own s = Some (s, LargeRun m)"
          then have "s \<noteq> p" using np [OF s] p(2) by auto
          then show "?own s = Some (s, LargeRun m) \<and> exts ?e (page_addr a1 s) = exts a1 (page_addr a1 s)"
            using s np [OF s] inj by (auto simp: give_region_def)
        next
          fix s c assume s: "own s = Some (s, Slab c)"
          then show "?own s = Some (s, Slab c)" using np [OF s] by (auto simp: give_region_def)
        qed simp_all
        then show ?thesis using ok by (simp add: role_ok_def)
      qed
      moreover have "hb_flags (hdrs ?e y) = 0" if "role y = None" for y
        using i1(4) that by (auto simp: roles_ok_def dest: spec [of _ y])
      ultimately have "roles_ok ?e ?own role" by (auto simp: roles_ok_def split: option.splits)
      moreover have "pages_inv ?e" using i1(1) by (simp add: pages_inv_def free_set_def)
      moreover have "layout ?e" using i1(2) by (simp add: layout_def)
      moreover have "owns ?e ?own" using i1(3) owns_cong [of ?e a1] by simp
      moreover have "lists_ok ?e role F D L" using i1(5) by (simp add: lists_ok_def)
      ultimately show ?thesis by (simp add: blocks_inv_def)
    qed
    note ie = blocks_invD [OF be] and ls = lists_okD [OF blocks_invD(5) [OF be]]
    have none: "role ?x = None"
    proof (rule ccontr)
      assume "role ?x \<noteq> None"
      then obtain g where g: "role ?x = Some g" by auto
      have "?x \<in> region_bytes a1 p (LargeRun ?n)" using p(1) big pg by (auto simp: region_bytes_def size_consts)
      from role_page_owned [OF conjunct1 [OF rg] g this] p(4) show False by simp
    qed
    have sl: "same_layout ?e a'" by (simp add: a' same_layout_def count_alloc_def upd_hdr_def)
    have "roles_ok a' ?own (role(?x \<mapsto> RLargeLive))"
    proof (rule roles_ok_set [OF ie(4) sl, where h = "\<lparr>hb_magic = kBlockMagic, hb_class = kLargeClassId, hb_flags = kFlagAllocated, hb_pad = 0\<rparr>"])
      show "placed ?e ?own (role_class RLargeLive) ?x"
        using p(1,2) big pg by (auto simp: placed_def give_region_def page_addr_def)
    qed (simp_all add: a' count_alloc_def upd_hdr_def class_word_def)
    moreover have "lists_ok a' (role(?x \<mapsto> RLargeLive)) F D L"
      by (rule lists_okI) (use ls none in \<open>auto simp: a' count_alloc_def upd_hdr_def intro: holds_move_other\<close>)
    ultimately have b': "blocks_inv a' ?own (role(?x \<mapsto> RLargeLive)) F D L"
      using ie same_layout_inv [OF sl] by (simp add: blocks_inv_def)
    note i' = blocks_invD [OF b']
    have ok: "role_ok a' ?own ?x RLargeLive" by (rule role_okD [OF i'(4)]) simp
    have "extent a' ?x = {?x - kLargeExtSize..<?x - kLargeExtSize + ?tot}"
      unfolding extent_large [OF ok role_class.simps(6)] using dv pg by (simp add: a' count_alloc_def upd_hdr_def)
    moreover have "?x \<notin> live a" unfolding i(6) using none by (simp add: lv_def)
    moreover have "live a' = insert ?x (live a)" using i(6) i'(6) by (simp add: lv_upd)
    ultimately show ?thesis using arena_invI [OF b'] r by auto
  qed
qed

end
