(* ===== verification/AllocFree.thy ===== *)
theory AllocFree
  imports BlocksInv
begin

text \<open>
  Freeing and reclamation keep the ownership invariant of the block layer: delayed and immediate free
  of small and large blocks, the sweep over the delayed lists, and with them \<^verbatim>\<open>Malloc\<close>, \<^verbatim>\<open>Free\<close>,
  \<^verbatim>\<open>ReclaimExpired\<close> and \<^verbatim>\<open>FlushTlc\<close>. The properties of the allocator are at the end.
\<close>

section \<open>Delayed free\<close>

definition app_link :: "(nat \<Rightarrow> nat) \<Rightarrow> nat list \<Rightarrow> nat \<Rightarrow> nat \<Rightarrow> nat" where
  "app_link nx xs off = (if xs = [] then nx(off := 0) else nx(off := 0, last xs := off))"

lemma linked_app:
  "linked nx h xs \<Longrightarrow> distinct xs \<Longrightarrow> off \<noteq> 0 \<Longrightarrow> off \<notin> set xs \<Longrightarrow> linked (app_link nx xs off) (if xs = [] then off else h) (xs @ [off])"
  using linked_snoc [of nx h xs off] by (auto simp: app_link_def)

lemma linked_app_other:
  "off \<notin> set ys \<Longrightarrow> set xs \<inter> set ys = {} \<Longrightarrow> linked (app_link nx xs off) h ys = linked nx h ys"
  using last_in_set [of xs] by (cases "xs = []") (auto simp: app_link_def disjoint_iff)

lemma tail_zero: "linked nx h xs \<Longrightarrow> tail_of xs = 0 \<longleftrightarrow> xs = []"
proof -
  have "linked nx h xs \<Longrightarrow> 0 \<notin> set xs" by (induction xs arbitrary: h) auto
  then show "linked nx h xs \<Longrightarrow> tail_of xs = 0 \<longleftrightarrow> xs = []"
    using last_in_set [of xs] by (metis tail_of_def)
qed

lemma holds_disjoint: "holds role r xs \<Longrightarrow> holds role r' ys \<Longrightarrow> r \<noteq> r' \<Longrightarrow> set xs \<inter> set ys = {}"
  by (auto simp: holds_def)

lemma live_small_class:
  assumes "layout a" "role_ok a own off r" "role_class r = Some cid"
  shows "cid < class_count a" "unat (hb_class (hdrs a off)) = cid" "hb_class (hdrs a off) \<noteq> kLargeClassId"
proof -
  show c: "cid < class_count a" using assms by (simp add: role_ok_def placed_def)
  then have "cid < 46" using class_count_le [OF assms(1)] by simp
  from class_word_small [OF this] show "unat (hb_class (hdrs a off)) = cid" "hb_class (hdrs a off) \<noteq> kLargeClassId"
    using assms by (simp_all add: role_ok_def)
qed

lemma free_small_delayed_inv:
  assumes inv: "blocks_inv a own role F D L" and r: "role off = Some (RLive cid)"
  shows "blocks_inv (free_small_delayed now off a) own (role(off \<mapsto> RDelayed cid)) F (D(cid := D cid @ [off])) L"
proof -
  let ?a = "free_small_delayed now off a" and ?role = "role(off \<mapsto> RDelayed cid)" and ?D = "D(cid := D cid @ [off])"
  note i = blocks_invD [OF inv] and ls = lists_okD [OF blocks_invD(5) [OF inv]]
  note ok = role_okD [OF i(4) r]
  have c: "cid < class_count a" and u: "unat (hb_class (hdrs a off)) = cid" using live_small_class [OF i(2) ok] by simp_all
  have nz: "off \<noteq> 0" using placed_nonzero [OF i(2) role_placed [OF i(4) r]] .
  have tz: "delayed_tail (klass a cid) = 0 \<longleftrightarrow> D cid = []" using ls(5) [OF c] tail_zero [OF ls(3) [OF c]] by simp
  have cl: "classes ?a = (classes a)[cid := (klass a cid)\<lparr>delayed_head := (if D cid = [] then off else delayed_head (klass a cid)), delayed_tail := off\<rparr>]"
    using tz u class_lt [OF i(2) c]
    by (simp add: free_small_delayed_def Let_def mark_delayed_def upd_hdr_def upd_class_def count_delayed_def)
  note kl = klass_upd_class [OF i(2) c cl]
  have lk: "link ?a = app_link (link a) (D cid) off"
    using tz u ls(5) [OF c] by (simp add: free_small_delayed_def Let_def mark_delayed_def upd_hdr_def upd_class_def count_delayed_def app_link_def tail_of_def)
  have fl: "hdrs ?a = (hdrs a)(off := (hdrs a off)\<lparr>hb_flags := kFlagDelayed\<rparr>)" "class_count ?a = class_count a" "tlc ?a = tlc a"
    "delayed_large_head ?a = delayed_large_head a" "delayed_large_tail ?a = delayed_large_tail a"
    by (simp_all add: free_small_delayed_def Let_def mark_delayed_def upd_hdr_def upd_class_def count_delayed_def)
  have sl: "same_layout a ?a" using cl
    by (simp add: same_layout_def map_upd_same) (simp add: free_small_delayed_def Let_def mark_delayed_def upd_hdr_def upd_class_def count_delayed_def)
  have "roles_ok ?a own ?role"
    by (rule roles_ok_set [OF i(4) sl _ fl(1)]) (use ok in \<open>simp_all add: role_ok_def\<close>)
  moreover have "lists_ok ?a ?role F ?D L"
  proof (rule lists_okI)
    fix c' assume "c' < class_count ?a"
    then have c': "c' < class_count a" by (simp add: fl)
    have "off \<notin> set (F c')" using holds_notin [OF ls(2) [OF c']] r by simp
    then show "linked (link ?a) (free_head (klass ?a c')) (F c')"
      using linked_app_other [of off "F c'" "D cid"] holds_disjoint [OF ls(4) [OF c] ls(2) [OF c']] ls(1) [OF c']
      by (auto simp: lk kl)
    show "holds ?role (RFree c') (F c')" using ls(2) [OF c'] r by (auto intro: holds_move_other)
    have nd: "off \<notin> set (D c')" using holds_notin [OF ls(4) [OF c']] r by simp
    show "linked (link ?a) (delayed_head (klass ?a c')) (?D c')"
    proof (cases "c' = cid")
      case True
      have "distinct (D cid)" using ls(4) [OF c] by (simp add: holds_def)
      then show ?thesis using True linked_app [OF ls(3) [OF c] _ nz] nd by (simp add: lk kl)
    next
      case False
      then show ?thesis using linked_app_other [OF nd, of "D cid"] holds_disjoint [OF ls(4) [OF c] ls(4) [OF c']] ls(3) [OF c']
        by (simp add: lk kl)
    qed
    show "holds ?role (RDelayed c') (?D c')" using ls(4) [OF c'] r by (auto intro: holds_move_to_end holds_move_other)
    show "delayed_tail (klass ?a c') = tail_of (?D c')" using ls(5) [OF c'] by (simp add: kl tail_of_def)
  next
    have "off \<notin> set L" using holds_notin [OF ls(7)] r by simp
    then show "linked (link ?a) (delayed_large_head ?a) L"
      using linked_app_other [of off L "D cid"] holds_disjoint [OF ls(4) [OF c] ls(7)] ls(6) by (simp add: lk fl)
  qed (use ls r in \<open>auto simp: fl intro: holds_move_other\<close>)
  ultimately show ?thesis using i same_layout_inv [OF sl] by (simp add: blocks_inv_def)
qed

lemma free_large_delayed_inv:
  assumes inv: "blocks_inv a own role F D L" and r: "role off = Some RLargeLive"
  shows "blocks_inv (free_large_delayed now off a) own (role(off \<mapsto> RLargeDelayed)) F D (L @ [off])"
proof -
  let ?a = "free_large_delayed now off a" and ?role = "role(off \<mapsto> RLargeDelayed)"
  note i = blocks_invD [OF inv] and ls = lists_okD [OF blocks_invD(5) [OF inv]]
  note ok = role_okD [OF i(4) r]
  have nz: "off \<noteq> 0" using placed_nonzero [OF i(2) role_placed [OF i(4) r]] .
  have tz: "delayed_large_tail a = 0 \<longleftrightarrow> L = []" using ls(8) tail_zero [OF ls(6)] by simp
  have fl: "hdrs ?a = (hdrs a)(off := (hdrs a off)\<lparr>hb_flags := kFlagDelayed\<rparr>)" "class_count ?a = class_count a" "tlc ?a = tlc a"
    "delayed_large_head ?a = (if L = [] then off else delayed_large_head a)" "delayed_large_tail ?a = off" "classes ?a = classes a"
    using tz by (simp_all add: free_large_delayed_def Let_def mark_delayed_def upd_hdr_def count_delayed_def)
  have lk: "link ?a = app_link (link a) L off"
    using tz ls(8) by (simp add: free_large_delayed_def Let_def mark_delayed_def upd_hdr_def count_delayed_def app_link_def tail_of_def)
  have sl: "same_layout a ?a"
    by (simp add: same_layout_def free_large_delayed_def Let_def mark_delayed_def upd_hdr_def count_delayed_def)
  have "roles_ok ?a own ?role"
    by (rule roles_ok_set [OF i(4) sl _ fl(1)]) (use ok in \<open>simp_all add: role_ok_def\<close>)
  moreover have "lists_ok ?a ?role F D (L @ [off])"
  proof (rule lists_okI)
    fix c' assume "c' < class_count ?a"
    then have c': "c' < class_count a" by (simp add: fl)
    have "off \<notin> set (F c')" "off \<notin> set (D c')" using holds_notin [OF ls(2) [OF c']] holds_notin [OF ls(4) [OF c']] r by simp_all
    then show "linked (link ?a) (free_head (klass ?a c')) (F c')" "linked (link ?a) (delayed_head (klass ?a c')) (D c')"
      using linked_app_other [of off "F c'" L] linked_app_other [of off "D c'" L] holds_disjoint [OF ls(7) ls(2) [OF c']]
        holds_disjoint [OF ls(7) ls(4) [OF c']] ls(1,3) [OF c'] by (simp_all add: lk fl)
    show "holds ?role (RFree c') (F c')" "holds ?role (RDelayed c') (D c')" using ls(2,4) [OF c'] r by (auto intro: holds_move_other)
    show "delayed_tail (klass ?a c') = tail_of (D c')" using ls(5) [OF c'] by (simp add: fl)
  next
    have "off \<notin> set L" "distinct L" using holds_notin [OF ls(7)] r ls(7) by (simp_all add: holds_def)
    then show "linked (link ?a) (delayed_large_head ?a) (L @ [off])" using linked_app [OF ls(6) _ nz] by (simp add: lk fl)
    show "holds ?role RLargeDelayed (L @ [off])" using ls(7) r by (auto intro: holds_move_to_end)
    show "delayed_large_tail ?a = tail_of (L @ [off])" by (simp add: fl tail_of_def)
    show "holds ?role (RCached t c') (tlc ?a t c')" for t c' using ls(9) [of t c'] r by (auto simp: fl intro: holds_move_other)
  qed
  ultimately show ?thesis using i same_layout_inv [OF sl] by (simp add: blocks_inv_def)
qed

section \<open>Returning the pages of a large block\<close>

lemma free_region:
  assumes inv: "pages_inv a" and ow: "owns a own" "own s = Some (s, LargeRun n)" and off: "off = page_addr a s" and n: "0 < n"
  shows "\<exists>b. free_pages off n a = (None, a\<lparr>bm := b, free_page_count := free_page_count a + n\<rparr>) \<and> length b = length (bm a) \<and>
    (\<forall>q < 64 * length (bm a). used b q \<longleftrightarrow> used (bm a) q \<and> \<not> (s \<le> q \<and> q < s + n))"
proof -
  have reg: "q < page_count a \<and> used (bm a) q" if "s \<le> q" "q < s + n" for q
    using ow that unfolding owns_def by (metis rlen.simps(2))
  have ps: "0 < page_size a" "page_count a \<le> 64 * length (bm a)" using inv by (simp_all add: pages_inv_def)
  have st: "(off - data_offset a) mod page_size a = 0" "(off - data_offset a) div page_size a = s" "\<not> off < data_offset a"
    using off ps by (simp_all add: page_addr_def)
  have "s + n - 1 < page_count a" using conjunct1 [OF reg [of "s + n - 1"]] n by linarith
  then have le: "s + n \<le> page_count a" by simp
  obtain okb b where cl: "clear_pages [s..<s + n] (bm a) = (okb, b)" by (cases "clear_pages [s..<s + n] (bm a)")
  have sp: "length b = length (bm a) \<and> (okb \<longleftrightarrow> (\<forall>p \<in> set [s..<s + n]. used (bm a) p)) \<and>
    (okb \<longrightarrow> (\<forall>q < 64 * length (bm a). used b q \<longleftrightarrow> used (bm a) q \<and> q \<notin> set [s..<s + n]))"
    by (rule clear_pages_spec [OF _ _ cl]) (use le ps in auto)
  have "okb" using sp reg by auto
  then show ?thesis using sp cl st le by (intro exI [of _ b]) (simp add: free_pages_def Let_def)
qed

definition drop_region :: "nat \<Rightarrow> nat \<Rightarrow> ownership \<Rightarrow> ownership" where
  "drop_region s n own = (\<lambda>q. if s \<le> q \<and> q < s + n then None else own q)"

lemma release_large:
  assumes inv: "blocks_inv a own role F D L" and none: "role off = None" and pl: "placed a own None off"
  shows "\<exists>a'. free_pages (off - kLargeExtSize) (exts a (off - kLargeExtSize)) a = (None, a') \<and> arena_size a' = arena_size a \<and>
    (\<exists>own'. blocks_inv a' own' role F D L)"
proof -
  note i = blocks_invD [OF inv]
  obtain s n where s: "own s = Some (s, LargeRun n)" "off = page_addr a s + kLargeExtSize" "exts a (page_addr a s) = n" "kLargeHdrSize \<le> n * page_size a"
    using pl by (auto simp: placed_def)
  have off: "off - kLargeExtSize = page_addr a s" using s(2) by simp
  have n: "0 < n" using s(4) by (cases n) (auto simp: size_consts)
  obtain b where b: "free_pages (page_addr a s) n a = (None, a\<lparr>bm := b, free_page_count := free_page_count a + n\<rparr>)" (is "_ = (None, ?a)")
      "length b = length (bm a)" "\<forall>q < 64 * length (bm a). used b q \<longleftrightarrow> used (bm a) q \<and> \<not> (s \<le> q \<and> q < s + n)"
    using free_region [OF i(1,3) s(1) refl n] by blast
  let ?own = "drop_region s n own"
  have pi: "pages_inv ?a" using free_pages_exact [OF i(1) b(1)] by blast
  have pc: "page_count a \<le> 64 * length (bm a)" using i(1) by (simp add: pages_inv_def)
  have reg: "own q = Some (s, LargeRun n)" if "s \<le> q" "q < s + n" for q using i(3) s(1) that unfolding owns_def by (metis rlen.simps(2))
  have keep: "?own q = own q" if "own q \<noteq> Some (s, LargeRun n)" for q using reg that by (auto simp: drop_region_def)
  have "owns ?a ?own" unfolding owns_def
  proof (intro allI impI)
    fix q s' g assume q: "?own q = Some (s', g)"
    then have oq: "own q = Some (s', g)" "\<not> (s \<le> q \<and> q < s + n)" by (auto simp: drop_region_def split: if_splits)
    then have g: "q < page_count a \<and> used (bm a) q \<and> s' \<le> q \<and> q < s' + rlen g \<and> (\<forall>q'. s' \<le> q' \<and> q' < s' + rlen g \<longrightarrow> own q' = Some (s', g))"
      using i(3) unfolding owns_def by blast
    have "(s', g) \<noteq> (s, LargeRun n)" using oq(2) g by auto
    then have "\<forall>q'. s' \<le> q' \<and> q' < s' + rlen g \<longrightarrow> ?own q' = Some (s', g)" using g keep by auto
    moreover have "used b q" using b(3) g oq(2) pc by auto
    ultimately show "q < page_count ?a \<and> used (bm ?a) q \<and> s' \<le> q \<and> q < s' + rlen g \<and> (\<forall>q'. s' \<le> q' \<and> q' < s' + rlen g \<longrightarrow> ?own q' = Some (s', g))"
      using g by simp
  qed
  moreover have "roles_ok ?a ?own role"
  proof -
    have "role_ok ?a ?own y g" if y: "role y = Some g" for y g
    proof -
      have ok: "role_ok a own y g" using i(4) y by (rule role_okD)
      have ne: "y \<noteq> off" using y none by auto
      have pl: "placed a own (role_class g) y" using ok by (simp add: role_ok_def)
      have "placed ?a ?own (role_class g) y"
      proof (rule placed_mono [OF pl])
        fix s' m assume s': "own s' = Some (s', LargeRun m)" "y = page_addr a s' + kLargeExtSize"
        then have "s' \<noteq> s" using ne s(2) by auto
        then show "?own s' = Some (s', LargeRun m) \<and> exts ?a (page_addr a s') = exts a (page_addr a s')" using keep [of s'] s'(1) by simp
      next
        fix s' c assume "own s' = Some (s', Slab c)"
        then show "?own s' = Some (s', Slab c)" using keep [of s'] by simp
      qed simp_all
      then show ?thesis using ok by (simp add: role_ok_def)
    qed
    moreover have "hb_flags (hdrs ?a y) = 0" if "role y = None" for y
      using i(4) that by (auto simp: roles_ok_def dest: spec [of _ y])
    ultimately show ?thesis by (auto simp: roles_ok_def split: option.splits)
  qed
  moreover have "layout ?a" using i(2) by (simp add: layout_def)
  moreover have "lists_ok ?a role F D L" using i(5) by (simp add: lists_ok_def)
  ultimately have "blocks_inv ?a ?own role F D L" using pi by (simp add: blocks_inv_def)
  moreover have "arena_size ?a = arena_size a" by simp
  ultimately show ?thesis unfolding off s(3) using b(1) by blast
qed

lemma roles_ok_clear:
  assumes "roles_ok a own role" "same_layout a a'" "hdrs a' = (hdrs a)(x := h)" "hb_flags h = 0"
  shows "roles_ok a' own (role(x := None))"
  unfolding roles_ok_def
proof
  fix y
  have "case role y of Some r \<Rightarrow> role_ok a own y r | None \<Rightarrow> hb_flags (hdrs a y) = 0" using assms(1) by (simp add: roles_ok_def)
  then show "case (role(x := None)) y of None \<Rightarrow> hb_flags (hdrs a' y) = 0 | Some r \<Rightarrow> role_ok a' own y r"
    using assms(3,4) same_layout_inv(4) [OF assms(2)] by (cases "y = x") (simp_all add: role_ok_def split: option.splits)
qed

lemma holds_clear_from: "holds role r (x # xs) \<Longrightarrow> holds (role(x := None)) r xs"
  by (auto simp: holds_def)

lemma holds_clear_other: "holds role q xs \<Longrightarrow> role x \<noteq> Some q \<Longrightarrow> holds (role(x := None)) q xs"
  by (auto simp: holds_def)

lemma lv_clear: "lv (role(x := None)) = lv role - {x}"
  by (auto simp: lv_def)

lemma free_large_immediate_spec:
  assumes inv: "blocks_inv a own role F D L" and r: "role off = Some RLargeLive"
  shows "\<exists>a'. free_large_immediate off a = (None, a') \<and> arena_inv a' \<and> live a' = live a - {off}"
proof -
  note i = blocks_invD [OF inv] and ls = lists_okD [OF blocks_invD(5) [OF inv]]
  let ?n = "exts a (off - kLargeExtSize)"
  let ?a = "upd_hdr off (\<lambda>h. h\<lparr>hb_flags := 0\<rparr>) (count_free (?n * page_size a) a)" and ?role = "role(off := None)"
  have sl: "same_layout a ?a" by (simp add: same_layout_def upd_hdr_def count_free_def)
  have "roles_ok ?a own ?role"
    by (rule roles_ok_clear [OF i(4) sl, where h = "(hdrs a off)\<lparr>hb_flags := 0\<rparr>"]) (simp_all add: upd_hdr_def count_free_def)
  moreover have "lists_ok ?a ?role F D L"
    by (rule lists_okI) (use ls r in \<open>auto simp: upd_hdr_def count_free_def intro: holds_clear_other\<close>)
  ultimately have b: "blocks_inv ?a own ?role F D L" using i same_layout_inv [OF sl] by (simp add: blocks_inv_def)
  have pl: "placed ?a own None off" using role_placed [OF i(4) r] same_layout_inv(4) [OF sl] by simp
  have ex: "exts ?a = exts a" by (simp add: upd_hdr_def count_free_def)
  obtain a' own' where f: "free_pages (off - kLargeExtSize) ?n ?a = (None, a')" "blocks_inv a' own' ?role F D L"
    using release_large [OF b _ pl] ex by auto
  have "free_large_immediate off a = (None, a')" using f(1) by (simp add: free_large_immediate_def Let_def)
  then show ?thesis using arena_invI [OF f(2)] blocks_invD(6) [OF f(2)] i(6) by (simp add: lv_clear)
qed

section \<open>Reclamation\<close>

lemma reclaim_step_inv:
  assumes inv: "blocks_inv a own role F D L" and c: "cid < class_count a" and d: "D cid = d # ys"
    and a': "a' = uncount_delayed (push_free cid d (upd_class cid
      (\<lambda>k. k\<lparr>delayed_head := link a d, delayed_tail := (if link a d = 0 then 0 else delayed_tail k)\<rparr>) a))"
  shows "blocks_inv a' own (role(d \<mapsto> RFree cid)) (F(cid := d # F cid)) (D(cid := ys)) L \<and> lv (role(d \<mapsto> RFree cid)) = lv role \<and> same_layout a a'"
proof -
  note i = blocks_invD [OF inv] and ls = lists_okD [OF blocks_invD(5) [OF inv]]
  have r: "role d = Some (RDelayed cid)" using ls(4) [OF c] d by (auto simp: holds_def)
  note ok = role_okD [OF i(4) r]
  have ly: "linked (link a) (link a d) ys" using ls(3) [OF c] d by simp
  have z: "link a d = 0 \<longleftrightarrow> ys = []" using ly by (cases ys) auto
  have cl: "classes a' = (classes a)[cid := (klass a cid)\<lparr>delayed_head := link a d, delayed_tail := (if ys = [] then 0 else delayed_tail (klass a cid)), free_head := d\<rparr>]"
    using z class_lt [OF i(2) c] by (simp add: a' uncount_delayed_def push_free_def upd_hdr_def upd_class_def)
  note kl = klass_upd_class [OF i(2) c cl]
  have fl: "link a' = (link a)(d := free_head (klass a cid))" "hdrs a' = (hdrs a)(d := (hdrs a d)\<lparr>hb_flags := 0, hb_class := of_nat cid\<rparr>)"
    "delayed_large_head a' = delayed_large_head a" "delayed_large_tail a' = delayed_large_tail a" "tlc a' = tlc a"
    using class_lt [OF i(2) c] by (simp_all add: a' uncount_delayed_def push_free_def upd_hdr_def upd_class_def)
  have sl: "same_layout a a'" using cl
    by (simp add: same_layout_def map_upd_same) (simp add: a' uncount_delayed_def push_free_def upd_hdr_def upd_class_def)
  have "blocks_inv a' own (role(d \<mapsto> RFree cid)) (F(cid := d # F cid)) (D(cid := ys)) L"
  proof (rule to_free [OF i(4,1,2,3) _ _ _ _ sl fl(2)])
    show "linked (link a) (delayed_head (klass a' c')) ((D(cid := ys)) c') \<and> holds (role(d \<mapsto> RFree cid)) (RDelayed c') ((D(cid := ys)) c') \<and>
        delayed_tail (klass a' c') = tail_of ((D(cid := ys)) c')" if "c' < class_count a" for c'
      using ls(3,4,5) [OF that] r ly d by (auto simp: kl tail_of_def intro: holds_move_from holds_move_other)
    show "holds (role(d \<mapsto> RFree cid)) RLargeDelayed L" using ls(7) r by (auto intro: holds_move_other)
    show "holds (role(d \<mapsto> RFree cid)) (RCached t' c') (tlc a' t' c')" for t' c'
      using ls(9) [of t' c'] r by (auto simp: fl intro: holds_move_other)
    show "placed a own (Some cid) d" using role_placed [OF i(4) r] by simp
  qed (use ls r kl fl ok in \<open>simp_all add: role_ok_def class_word_def\<close>)
  moreover have "lv (role(d \<mapsto> RFree cid)) = lv role" by (rule lv_same [where role = role and x = d, OF r]) simp_all
  ultimately show ?thesis using sl by blast
qed

lemma delayed_flags:
  assumes inv: "blocks_inv a own role F D L" and c: "cid < class_count a" and d: "D cid = d # ys"
  shows "hb_flags (hdrs a d) = kFlagDelayed"
proof -
  note i = blocks_invD [OF inv]
  have "role d = Some (RDelayed cid)" using lists_okD(4) [OF i(5) c] d by (auto simp: holds_def)
  from role_okD [OF i(4) this] show ?thesis by (simp add: role_ok_def)
qed

text \<open>What every sweep promises: it leaves alone the times, the headers of live blocks and of the blocks
  that are still too young, and what fixes the size of a block.\<close>

definition spares :: "u64 \<Rightarrow> arena \<Rightarrow> arena \<Rightarrow> bool" where
  "spares cutoff a a' \<longleftrightarrow> stamp a' = stamp a \<and> (\<forall>x. cutoff < stamp a x \<or> x \<in> live a \<longrightarrow> hdrs a' x = hdrs a x) \<and>
     arena_size a' = arena_size a \<and> class_count a' = class_count a \<and> page_size a' = page_size a \<and> exts a' = exts a \<and>
     map block_size (classes a') = map block_size (classes a)"

lemma spares_refl [simp]: "spares cutoff a a" by (simp add: spares_def)

lemma spares_trans:
  assumes "spares cutoff a b" "spares cutoff b c"
  shows "spares cutoff a c"
proof -
  have "hdrs c x = hdrs a x" if "cutoff < stamp a x \<or> x \<in> live a" for x
  proof -
    have h: "hdrs b x = hdrs a x" "stamp b = stamp a" using assms(1) that unfolding spares_def by blast+
    then have "cutoff < stamp b x \<or> x \<in> live b" using that by (auto simp: live_def)
    then have "hdrs c x = hdrs b x" using assms(2) unfolding spares_def by blast
    then show ?thesis using h by simp
  qed
  then show ?thesis using assms by (simp add: spares_def)
qed

lemma spares_one:
  assumes "hdrs a' = (hdrs a)(d := h)" "hb_flags (hdrs a d) = kFlagDelayed" "\<not> cutoff < stamp a d" "stamp a' = stamp a"
    "arena_size a' = arena_size a" "class_count a' = class_count a" "page_size a' = page_size a" "exts a' = exts a"
    "map block_size (classes a') = map block_size (classes a)"
  shows "spares cutoff a a'"
proof -
  have "kFlagDelayed AND kFlagAllocated = 0" by (simp add: kFlagDelayed_def kFlagAllocated_def)
  then have "d \<notin> live a" using assms(2) by (simp add: live_def)
  then show ?thesis using assms by (auto simp: spares_def)
qed

definition old :: "u64 \<Rightarrow> arena \<Rightarrow> nat \<Rightarrow> bool" where
  "old cutoff a x \<longleftrightarrow> \<not> cutoff < stamp a x"

lemma reclaim_class_spec:
  assumes "blocks_inv a own role F D L" "cid < class_count a" "length (D cid) < fuel"
  shows "\<exists>n' a' role' F'. reclaim_class cutoff cid fuel n a = (Inr n', a') \<and> spares cutoff a a' \<and>
    blocks_inv a' own role' F' (D(cid := dropWhile (old cutoff a) (D cid))) L \<and> lv role' = lv role"
  using assms
proof (induction fuel arbitrary: n a role F D)
  case (Suc fuel)
  let ?d = "delayed_head (klass a cid)"
  have lk: "linked (link a) ?d (D cid)" using lists_okD(3) [OF blocks_invD(5) [OF Suc.prems(1)] Suc.prems(2)] .
  show ?case
  proof (cases "?d = 0")
    case True
    then have "D cid = []" using lk by simp
    then have "D(cid := dropWhile (old cutoff a) (D cid)) = D" by auto
    moreover have "reclaim_class cutoff cid (Suc fuel) n a = (Inr n, a)" using True by simp
    ultimately show ?thesis using Suc.prems(1) spares_refl by metis
  next
    case False
    then obtain ys where ys: "D cid = ?d # ys" using linked_nonzero [OF lk] by auto
    show ?thesis
    proof (cases "cutoff < stamp a ?d")
      case True
      then have "dropWhile (old cutoff a) (D cid) = D cid" using ys by (metis dropWhile.simps(2) old_def)
      then have "D(cid := dropWhile (old cutoff a) (D cid)) = D" by auto
      moreover have "reclaim_class cutoff cid (Suc fuel) n a = (Inr n, a)" using True False by (simp add: Let_def)
      ultimately show ?thesis using Suc.prems(1) spares_refl by metis
    next
      case young: False
      let ?a = "uncount_delayed (push_free cid ?d (upd_class cid
        (\<lambda>k. k\<lparr>delayed_head := link a ?d, delayed_tail := (if link a ?d = 0 then 0 else delayed_tail k)\<rparr>) a))"
      let ?role = "role(?d \<mapsto> RFree cid)" and ?F = "F(cid := ?d # F cid)" and ?D = "D(cid := ys)"
      have st: "blocks_inv ?a own ?role ?F ?D L \<and> lv ?role = lv role \<and> same_layout a ?a" by (rule reclaim_step_inv [OF Suc.prems(1,2) ys refl])
      have sp: "spares cutoff a ?a"
      proof (rule spares_one [where h = "(hdrs a ?d)\<lparr>hb_flags := 0, hb_class := of_nat cid\<rparr>"])
        show "hb_flags (hdrs a ?d) = kFlagDelayed" by (rule delayed_flags [OF Suc.prems(1,2) ys])
        show "hdrs ?a = (hdrs a)(?d := (hdrs a ?d)\<lparr>hb_flags := 0, hb_class := of_nat cid\<rparr>)" "stamp ?a = stamp a"
          by (simp_all add: uncount_delayed_def push_free_def upd_hdr_def upd_class_def)
      qed (use young st [unfolded same_layout_def] in blast)+
      have ol: "old cutoff ?a = old cutoff a" using sp by (simp add: spares_def old_def fun_eq_iff)
      have dw: "?D(cid := dropWhile (old cutoff ?a) (?D cid)) = D(cid := dropWhile (old cutoff a) (D cid))"
        using ys young by (metis dropWhile.simps(2) fun_upd_same fun_upd_upd ol old_def)
      have un: "reclaim_class cutoff cid (Suc fuel) n a = reclaim_class cutoff cid fuel (n + 1) ?a"
        using False young by (simp only: reclaim_class.simps Let_def if_False)
      have "\<exists>n' a' role' F'. reclaim_class cutoff cid fuel (n + 1) ?a = (Inr n', a') \<and> spares cutoff ?a a' \<and>
          blocks_inv a' own role' F' (?D(cid := dropWhile (old cutoff ?a) (?D cid))) L \<and> lv role' = lv ?role"
      proof (rule Suc.IH [OF conjunct1 [OF st]])
        show "cid < class_count ?a" using Suc.prems(2) sp by (simp add: spares_def)
        show "length (?D cid) < fuel" using Suc.prems(3) ys by (metis Suc_less_eq fun_upd_same length_Cons)
      qed
      then obtain n' a' role' F' where ih: "reclaim_class cutoff cid fuel (n + 1) ?a = (Inr n', a')" "spares cutoff ?a a'"
          "blocks_inv a' own role' F' (D(cid := dropWhile (old cutoff a) (D cid))) L" "lv role' = lv ?role"
        unfolding dw by blast
      show ?thesis unfolding un
        by (rule exI [of _ n'], rule exI [of _ a'], rule exI [of _ role'], rule exI [of _ F'])
          (intro conjI ih(1,3) spares_trans [OF sp ih(2)] trans [OF ih(4) conjunct1 [OF conjunct2 [OF st]]])
    qed
  qed
qed simp

text \<open>Blocks have distinct offsets below the arena size, so the fuel of the sweeps is enough.\<close>

lemma region_below:
  assumes inv: "blocks_inv a own role F D L" and s: "own s = Some (s, g)" "x \<in> region_bytes a s g"
  shows "x < arena_size a"
proof -
  note i = blocks_invD [OF inv]
  have ps: "0 < page_size a" using i(1) by (simp add: pages_inv_def)
  let ?p = "(x - data_offset a) div page_size a"
  have "?p < page_count a" using i(3) s(1) page_in_region(2,3) [OF s(2) ps] unfolding owns_def by blast
  then have "(?p + 1) * page_size a \<le> page_count a * page_size a" by (intro mult_le_mono1) simp
  moreover have "x - data_offset a < (?p + 1) * page_size a" using ps dividend_less_div_times [of "page_size a" "x - data_offset a"] by simp
  ultimately have "x - data_offset a < page_count a * page_size a" by (rule less_le_trans [rotated])
  moreover have "data_offset a + page_count a * page_size a \<le> arena_size a" using i(2) by (simp add: layout_def)
  ultimately show ?thesis using page_in_region(1) [OF s(2) ps] by linarith
qed

lemma role_below:
  assumes inv: "blocks_inv a own role F D L" and r: "role x = Some r"
  shows "x < arena_size a"
proof -
  note i = blocks_invD [OF inv]
  obtain s g where "own s = Some (s, g)" "x \<in> region_bytes a s g"
    using extent_in_region [OF i(2) role_okD [OF i(4) r]] by blast
  then show ?thesis by (rule region_below [OF inv])
qed

lemma holds_length:
  assumes "blocks_inv a own role F D L" "holds role r xs"
  shows "length xs \<le> arena_size a"
proof -
  have "set xs \<subseteq> {..<arena_size a}" using role_below [OF assms(1)] assms(2) by (auto simp: holds_def)
  then have "card (set xs) \<le> card {..<arena_size a}" by (rule card_mono [OF finite_lessThan])
  moreover have "card (set xs) = length xs" using assms(2) unfolding holds_def by (intro distinct_card) blast
  ultimately show ?thesis by simp
qed

definition sweep :: "u64 \<Rightarrow> arena \<Rightarrow> nat list \<Rightarrow> (nat \<Rightarrow> nat list) \<Rightarrow> nat \<Rightarrow> nat list" where
  "sweep cutoff a cids D = (\<lambda>c. if c \<in> set cids then dropWhile (old cutoff a) (D c) else D c)"

lemma reclaim_classes_spec:
  assumes "blocks_inv a own role F D L" "\<forall>c \<in> set cids. c < class_count a" "distinct cids"
  shows "\<exists>n' a' role' F'. reclaim_classes cutoff cids n a = (Inr n', a') \<and> spares cutoff a a' \<and>
    blocks_inv a' own role' F' (sweep cutoff a cids D) L \<and> lv role' = lv role"
  using assms
proof (induction cids arbitrary: n a role F D)
  case Nil
  have "sweep cutoff a [] D = D" by (simp add: sweep_def)
  then show ?case using Nil.prems(1) spares_refl by (metis reclaim_classes.simps(1))
next
  case (Cons cid cids)
  have c: "cid < class_count a" using Cons.prems(2) by simp
  have len: "length (D cid) < Suc (arena_size a)"
    using holds_length [OF Cons.prems(1) lists_okD(4) [OF blocks_invD(5) [OF Cons.prems(1)] c]] by simp
  obtain n1 a1 role1 F1 where s1: "reclaim_class cutoff cid (Suc (arena_size a)) n a = (Inr n1, a1)" "spares cutoff a a1"
      "blocks_inv a1 own role1 F1 (D(cid := dropWhile (old cutoff a) (D cid))) L" "lv role1 = lv role"
    using reclaim_class_spec [OF Cons.prems(1) c len] by metis
  have cc: "\<forall>c \<in> set cids. c < class_count a1" using Cons.prems(2) s1(2) by (simp add: spares_def)
  obtain n2 a2 role2 F2 where s2: "reclaim_classes cutoff cids n1 a1 = (Inr n2, a2)" "spares cutoff a1 a2"
      "blocks_inv a2 own role2 F2 (sweep cutoff a1 cids (D(cid := dropWhile (old cutoff a) (D cid)))) L" "lv role2 = lv role1"
    using Cons.IH [OF s1(3) cc] Cons.prems(3) by (metis distinct.simps(2))
  have eq: "old cutoff a1 = old cutoff a" using s1(2) by (simp add: spares_def old_def fun_eq_iff)
  have sw: "sweep cutoff a1 cids (D(cid := dropWhile (old cutoff a) (D cid))) = sweep cutoff a (cid # cids) D"
    using Cons.prems(3) by (intro ext) (auto simp: sweep_def eq)
  have un: "reclaim_classes cutoff (cid # cids) n a = (Inr n2, a2)" using s1(1) s2(1) by (simp del: reclaim_class.simps)
  show ?case unfolding un using s2(3,4) s1(4) spares_trans [OF s1(2) s2(2)] sw by metis
qed

lemma reclaim_large_spec:
  assumes "blocks_inv a own role F D L" "length L < fuel"
  shows "\<exists>n' a' own' role'. reclaim_large cutoff fuel n a = (Inr n', a') \<and> spares cutoff a a' \<and>
    blocks_inv a' own' role' F D (dropWhile (old cutoff a) L) \<and> lv role' = lv role"
  using assms
proof (induction fuel arbitrary: n a own role L)
  case (Suc fuel)
  let ?d = "delayed_large_head a"
  note i = blocks_invD [OF Suc.prems(1)] and ls = lists_okD [OF blocks_invD(5) [OF Suc.prems(1)]]
  show ?case
  proof (cases "?d = 0 \<or> cutoff < stamp a ?d")
    case True
    have "dropWhile (old cutoff a) L = L" using True ls(6) by (cases L) (auto simp: old_def)
    moreover have "reclaim_large cutoff (Suc fuel) n a = (Inr n, a)" using True by (auto simp: Let_def)
    ultimately show ?thesis using Suc.prems(1) spares_refl by metis
  next
    case False
    then obtain ys where ys: "L = ?d # ys" "linked (link a) (link a ?d) ys" using linked_nonzero [OF ls(6)] by auto
    have r: "role ?d = Some RLargeDelayed" using ls(7) ys(1) by (auto simp: holds_def)
    let ?a = "uncount_delayed (upd_hdr ?d (\<lambda>h. h\<lparr>hb_flags := 0\<rparr>)
      (a\<lparr>delayed_large_head := link a ?d, delayed_large_tail := (if link a ?d = 0 then 0 else delayed_large_tail a)\<rparr>))"
    let ?role = "role(?d := None)"
    have z: "link a ?d = 0 \<longleftrightarrow> ys = []" using ys(2) by (cases ys) auto
    have fl: "link ?a = link a" "classes ?a = classes a" "tlc ?a = tlc a" "class_count ?a = class_count a"
      "delayed_large_head ?a = link a ?d" "delayed_large_tail ?a = (if ys = [] then 0 else delayed_large_tail a)" "exts ?a = exts a"
      using z by (simp_all add: uncount_delayed_def upd_hdr_def)
    have sl: "same_layout a ?a" by (simp add: same_layout_def uncount_delayed_def upd_hdr_def)
    have "roles_ok ?a own ?role"
      by (rule roles_ok_clear [OF i(4) sl, where h = "(hdrs a ?d)\<lparr>hb_flags := 0\<rparr>"]) (simp_all add: upd_hdr_def uncount_delayed_def)
    moreover have "lists_ok ?a ?role F D ys"
    proof (rule lists_okI)
      show "holds ?role RLargeDelayed ys" using ls(7) ys(1) holds_clear_from by metis
      show "delayed_large_tail ?a = tail_of ys" using ls(8) ys(1) unfolding fl(6) by (metis last_ConsR list.distinct(1) tail_of_def)
      show "linked (link ?a) (delayed_large_head ?a) ys" using ys(2) by (simp add: fl)
    qed (use ls r in \<open>auto simp: fl intro: holds_clear_other\<close>)
    ultimately have b: "blocks_inv ?a own ?role F D ys" using i same_layout_inv [OF sl] by (simp add: blocks_inv_def)
    have pl: "placed ?a own None ?d" using role_placed [OF i(4) r] same_layout_inv(4) [OF sl] by simp
    obtain a1 own1 where f: "free_pages (?d - kLargeExtSize) (exts ?a (?d - kLargeExtSize)) ?a = (None, a1)" "blocks_inv a1 own1 ?role F D ys"
      using release_large [OF b _ pl] by auto
    have fr: "stamp a1 = stamp ?a \<and> hdrs a1 = hdrs ?a \<and> arena_size a1 = arena_size ?a \<and> class_count a1 = class_count ?a \<and>
        page_size a1 = page_size ?a \<and> exts a1 = exts ?a \<and> classes a1 = classes ?a"
      using f(1) by (auto simp: free_pages_def Let_def split: if_splits prod.splits bool.splits)
    have sp: "spares cutoff a a1"
    proof (rule spares_one [where h = "(hdrs a ?d)\<lparr>hb_flags := 0\<rparr>"])
      show "hb_flags (hdrs a ?d) = kFlagDelayed" using role_okD [OF i(4) r] by (simp add: role_ok_def)
    qed (use fr False in \<open>simp_all add: uncount_delayed_def upd_hdr_def\<close>)
    have eq: "old cutoff a1 = old cutoff a" using sp by (simp add: spares_def old_def fun_eq_iff)
    have lv1: "lv ?role = lv role" using r by (auto simp: lv_clear) (auto simp: lv_def)
    have un: "reclaim_large cutoff (Suc fuel) n a = reclaim_large cutoff fuel (n + 1) a1"
      using False f(1) by (simp add: Let_def)
    have "length ys < fuel" using Suc.prems(2) ys(1) by (metis Suc_less_eq length_Cons)
    from Suc.IH [OF f(2) this, of "n + 1"]
    obtain n' a' own' role' where ih: "reclaim_large cutoff fuel (n + 1) a1 = (Inr n', a')" "spares cutoff a1 a'"
      "blocks_inv a' own' role' F D (dropWhile (old cutoff a) ys)" "lv role' = lv role" unfolding eq lv1 by metis
    have "dropWhile (old cutoff a) L = dropWhile (old cutoff a) ys"
      using ys(1) False by (metis dropWhile.simps(2) old_def)
    then show ?thesis unfolding un using ih spares_trans [OF sp ih(2)] by metis
  qed
qed simp

lemma reclaim_with_cutoff_spec:
  assumes inv: "blocks_inv a own role F D L"
  shows "\<exists>n a' own' role' F'. reclaim_with_cutoff cutoff a = (Inr n, a') \<and> spares cutoff a a' \<and> lv role' = lv role \<and>
    blocks_inv a' own' role' F' (sweep cutoff a [0..<class_count a] D) (dropWhile (old cutoff a) L)"
proof -
  have "\<forall>c \<in> set [0..<class_count a]. c < class_count a" "distinct [0..<class_count a]" by auto
  from reclaim_classes_spec [OF inv this, of cutoff 0]
  obtain n1 a1 role1 F1 where s1: "reclaim_classes cutoff [0..<class_count a] 0 a = (Inr n1, a1)" "spares cutoff a a1"
      "blocks_inv a1 own role1 F1 (sweep cutoff a [0..<class_count a] D) L" "lv role1 = lv role" by metis
  have len: "length L < Suc (arena_size a1)"
    using holds_length [OF s1(3) lists_okD(7) [OF blocks_invD(5) [OF s1(3)]]] by simp
  have eq: "old cutoff a1 = old cutoff a" using s1(2) by (simp add: spares_def old_def fun_eq_iff)
  obtain n2 a2 own2 role2 where s2: "reclaim_large cutoff (Suc (arena_size a1)) n1 a1 = (Inr n2, a2)" "spares cutoff a1 a2"
      "blocks_inv a2 own2 role2 F1 (sweep cutoff a [0..<class_count a] D) (dropWhile (old cutoff a) L)" "lv role2 = lv role1"
    using reclaim_large_spec [OF s1(3) len, of cutoff n1] unfolding eq by metis
  have "reclaim_with_cutoff cutoff a = (Inr n2, a2)"
    using s1(1) s2(1) by (simp add: reclaim_with_cutoff_def del: reclaim_large.simps)
  then show ?thesis using s1(4) s2(3,4) spares_trans [OF s1(2) s2(2)] by metis
qed

lemma reclaim_keeps:
  assumes "arena_inv a"
  shows "\<exists>n a'. reclaim_with_cutoff cutoff a = (Inr n, a') \<and> arena_inv a' \<and> live a' = live a \<and> spares cutoff a a'"
proof -
  from assms obtain own role F D L where b: "blocks_inv a own role F D L" by (rule arena_invE)
  from reclaim_with_cutoff_spec [OF b, of cutoff]
  obtain n a' own' role' F' D' L' where s: "reclaim_with_cutoff cutoff a = (Inr n, a')" "spares cutoff a a'" "lv role' = lv role"
    "blocks_inv a' own' role' F' D' L'" by metis
  show ?thesis using s arena_invI [OF s(4)] blocks_invD(6) [OF b] blocks_invD(6) [OF s(4)] by simp
qed


end
