(* ===== verification/Allocator.thy ===== *)
theory Allocator
  imports AllocFree
begin

text \<open>
  The public operations of the arena allocator keep the ownership invariant, and the properties that
  follow: memory handed out was not in use and is large enough, live blocks never overlap, free gives
  back exactly its block and a second free is detected, delayed blocks survive their grace period.
  The hypothesis that the number of pages is a multiple of 64 is part of the invariant, because the
  page search is unsound without it.
\<close>

section \<open>A fresh arena\<close>

lemma init_classes_nth:
  "cid < length sizes \<Longrightarrow> cid < kMaxSizeClasses \<Longrightarrow>
   init_classes sizes ! cid = zero_class\<lparr>block_size := sizes ! cid, pages_per_slab := kDefaultSlabPages\<rparr>"
  by (simp add: init_classes_def)

lemma fresh_arena_inv:
  fixes a :: arena and opts :: AllocatorOptions
  defines "ps \<equiv> opt_page_size opts" and "p \<equiv> fresh_pages (opt_page_size opts) (mapping a)"
  assumes "kLargeHdrSize \<le> ps" "ps dvd 2 ^ 64" "data_offset p \<le> virtual_size (mapping a)" "page_count p mod 64 = 0" "page_count p < 2 ^ 32"
    "0 < data_offset p" "\<And>x. hb_flags (hdrs a x) = 0" "\<And>u c. tlc a u c = []"
  shows "arena_inv (fresh_arena t opts (size_table ps) a)" "live (fresh_arena t opts (size_table ps) a) = {}"
proof -
  let ?a = "fresh_arena t opts (size_table ps) a"
  have fl: "page_size ?a = ps" "arena_size ?a = virtual_size (mapping a)" "data_offset ?a = data_offset p" "bitmap_words ?a = bitmap_words p"
    "page_count ?a = page_count p" "free_page_count ?a = page_count p" "bm ?a = bm p" "is_open ?a" "class_count ?a = length (size_table ps)"
    "classes ?a = init_classes (size_table ps)" "class_sizes ?a = size_table ps" "delayed_large_head ?a = 0" "delayed_large_tail ?a = 0"
    "hdrs ?a = hdrs a" "tlc ?a = (tlc a)(t := (\<lambda>_. []))"
    by (simp_all add: fresh_arena_def Let_def clear_tlc_def p_def ps_def fresh_pages_fields(5-7))
  have len: "length (size_table ps) \<le> kMaxSizeClasses" by (simp add: length_size_table kMaxSizeClasses_def)
  have sh: "kLargeHdrSize \<le> page_size ?a" using assms(3) by (simp add: fl)
  have "free_set ?a = free_set p" by (simp add: free_set_def fl)
  then have "pages_inv ?a" using fresh_enough_words [of ps "mapping a"] fresh_free_set [of ps "mapping a"] assms(3)
    unfolding pages_inv_def fl by (simp add: p_def ps_def fresh_pages_fields(4) size_consts)
  moreover have "layout ?a"
  proof -
    have "page_count p * ps \<le> virtual_size (mapping a) - data_offset p"
      unfolding p_def fresh_pages_fields(3) ps_def by (rule div_times_less_eq_dividend)
    then have "data_offset p + page_count p * ps \<le> virtual_size (mapping a)" using assms(5) by linarith
    moreover have "block_size (klass ?a cid) = size_table ps ! cid \<and> pages_per_slab (klass ?a cid) = kDefaultSlabPages"
      if "cid < length (size_table ps)" for cid
      using init_classes_nth [OF that] that len by (simp add: fl)
    ultimately show ?thesis using assms(3-8) len fl(8) unfolding layout_def fl(1-7) fl(9-11) by (simp add: init_classes_def)
  qed
  moreover have "owns ?a (\<lambda>_. None)" by (simp add: owns_def)
  moreover have "roles_ok ?a (\<lambda>_. None) (\<lambda>_. None)" using assms(9) by (simp add: roles_ok_def fl)
  moreover have "lists_ok ?a (\<lambda>_. None) (\<lambda>_. []) (\<lambda>_. []) []"
    using assms(10) init_classes_nth len by (simp add: lists_ok_def fl holds_def tail_of_def zero_class_def)
  ultimately have b: "blocks_inv ?a (\<lambda>_. None) (\<lambda>_. None) (\<lambda>_. []) (\<lambda>_. []) []" by (simp add: blocks_inv_def)
  show "arena_inv ?a" by (rule arena_invI [OF b])
  show "live ?a = {}" using blocks_invD(6) [OF b] by (simp add: lv_def)
qed

section \<open>Malloc and Free\<close>

lemma blocks_inv_frame:
  assumes inv: "blocks_inv a own role F D L" and eq: "same_layout a a'" "hdrs a' = hdrs a" "link a' = link a" "classes a' = classes a"
    "tlc a' = tlc a" "delayed_large_head a' = delayed_large_head a" "delayed_large_tail a' = delayed_large_tail a"
  shows "blocks_inv a' own role F D L"
proof -
  note i = blocks_invD [OF inv]
  have "role_ok a' own x r = role_ok a own x r" for x r using same_layout_inv(4) [OF eq(1)] eq(2) by (simp only: role_ok_def)
  then have "roles_ok a' own role = roles_ok a own role" by (simp only: roles_ok_def eq(2))
  then have "roles_ok a' own role" using i(4) by simp
  moreover have cc: "class_count a' = class_count a" using eq(1) by (simp add: same_layout_def)
  have "lists_ok a' role F D L = lists_ok a role F D L" by (simp only: lists_ok_def eq cc)
  then have "lists_ok a' role F D L" using i(5) by simp
  ultimately show ?thesis using i same_layout_inv [OF eq(1)] by (simp add: blocks_inv_def)
qed

lemma maybe_reclaim_keeps:
  assumes "arena_inv a"
  shows "\<exists>a' cutoff. maybe_reclaim_expired now a = (None, a') \<and> arena_inv a' \<and> live a' = live a \<and> spares cutoff a a'"
proof -
  have cnt: "arena_inv (b\<lparr>malloc_counter := c\<rparr>) \<and> live (b\<lparr>malloc_counter := c\<rparr>) = live b" if "arena_inv b" for b c
  proof -
    from that obtain own role F D L where b: "blocks_inv b own role F D L" by (rule arena_invE)
    have "blocks_inv (b\<lparr>malloc_counter := c\<rparr>) own role F D L"
      by (rule blocks_inv_frame [OF b]) (simp_all add: same_layout_def)
    then show ?thesis using arena_invI by (simp add: live_def)
  qed
  have sp: "spares cutoff b (b\<lparr>malloc_counter := c\<rparr>)" for cutoff b c by (simp add: spares_def)
  let ?a1 = "a\<lparr>malloc_counter := 0\<rparr>"
  show ?thesis
  proof (cases "malloc_counter a + 1 < kReclaimInterval \<or> now < reclaim_delay_ns a")
    case True
    then have "maybe_reclaim_expired now a =
        (None, a\<lparr>malloc_counter := (if malloc_counter a + 1 < kReclaimInterval then malloc_counter a + 1 else 0)\<rparr>)"
      by (auto simp: maybe_reclaim_expired_def Let_def)
    then show ?thesis using assms cnt sp by blast
  next
    case False
    let ?c = "now - reclaim_delay_ns a"
    obtain n a' where r: "reclaim_with_cutoff ?c ?a1 = (Inr n, a')" "arena_inv a'" "live a' = live ?a1" "spares ?c ?a1 a'"
      using reclaim_keeps [of ?a1 ?c] assms cnt by blast
    have "maybe_reclaim_expired now a = (None, a')" using False r(1) by (simp add: maybe_reclaim_expired_def Let_def)
    moreover have "live a' = live a" using r(3) cnt [OF assms, of 0] by simp
    ultimately show ?thesis using r(2) spares_trans [OF sp r(4)] by blast
  qed
qed

lemma spares_extent:
  assumes "arena_inv a" "x \<in> live a" "spares cutoff a a'"
  shows "extent a' x = extent a x"
proof -
  from assms(1) obtain own role F D L where b: "blocks_inv a own role F D L" by (rule arena_invE)
  note i = blocks_invD [OF b]
  obtain r where r: "role x = Some r" using assms(2) i(6) by (auto simp: lv_def)
  note ok = role_okD [OF i(4) r]
  have s: "hdrs a' x = hdrs a x" "page_size a' = page_size a" "exts a' = exts a" "map block_size (classes a') = map block_size (classes a)"
    using assms(2,3) unfolding spares_def by blast+
  have "block_size (klass a' (unat (hb_class (hdrs a x)))) = block_size (klass a (unat (hb_class (hdrs a x))))"
    if nl: "hb_class (hdrs a x) \<noteq> kLargeClassId"
  proof -
    obtain cid where c: "role_class r = Some cid" using ok nl by (cases "role_class r") (auto simp: role_ok_def class_word_def)
    from live_small_class [OF i(2) ok c] class_lt [OF i(2)] show ?thesis
      using map_nth_eq [OF s(4), of cid] by simp
  qed
  then show ?thesis using s by (simp add: extent_def)
qed

lemma large_total_ge:
  assumes "unat user_size + kLargeHdrSize < 2 ^ 64" "0 < ps" "large_total ps user_size \<noteq> 0" "ps dvd 2 ^ 64"
  shows "unat user_size + kLargeHdrSize \<le> large_total ps user_size"
proof -
  have u: "unat (of_nat kLargeHdrSize + user_size) = unat user_size + kLargeHdrSize"
    using assms(1) by (simp add: unat_word_ariths size_consts)
  let ?v = "AlignUp (unat user_size + kLargeHdrSize) ps"
  have b: "unat user_size + kLargeHdrSize \<le> ?v" "?v < unat user_size + kLargeHdrSize + ps" "ps dvd ?v" using AlignUp_bounds [OF assms(2)] by auto
  have "?v < 2 ^ 64"
  proof (rule ccontr)
    assume "\<not> ?v < 2 ^ 64"
    then have g: "2 ^ 64 \<le> ?v" by simp
    have "ps dvd ?v - 2 ^ 64" using b(3) assms(4) by (rule dvd_diff_nat)
    moreover have "?v - 2 ^ 64 < ps" using b(2) assms(1) g by linarith
    ultimately have "?v = 2 ^ 64" using g by (metis dvd_imp_le le_antisym diff_is_0_eq not_gr_zero not_less)
    then show False using assms(3) unfolding large_total_def u by simp
  qed
  then show ?thesis using b(1) unfolding large_total_def u by simp
qed

lemma alloc_pages_zero: "alloc_pages os ub 0 a = (Inl BadAlloc, a)"
  by (simp add: alloc_pages_def Let_def)

lemma flush_n_class: "hb_class (hdrs (flush_n t cid n a) x) = hb_class (hdrs a x)"
  by (induction n arbitrary: a) (auto simp: give_back_def upd_hdr_def upd_class_def set_tlc_def split: list.splits)

lemma Malloc_spec:
  assumes inv: "arena_inv a" and m: "Malloc os 1 t now user_size a = (r, a')" and sz: "unat user_size + kLargeHdrSize < 2 ^ 64"
  shows "arena_inv a' \<and> (case r of Inl e \<Rightarrow> live a' = live a
    | Inr p \<Rightarrow> \<exists>x. p = x + kHeaderSize \<and> x \<notin> live a \<and> live a' = insert x (live a) \<and> {p..<p + unat user_size} \<subseteq> extent a' x)"
proof -
  from inv obtain own role F D L where b: "blocks_inv a own role F D L" by (rule arena_invE)
  note i = blocks_invD [OF b]
  have lay: "is_open a" "class_sizes a = size_table (page_size a)" "class_count a = length (size_table (page_size a))"
    "page_size a dvd 2 ^ 64" "kLargeHdrSize \<le> page_size a" using i(2) by (simp_all add: layout_def)
  have need: "unat (user_size + 8) = unat user_size + kHeaderSize"
    using sz by (simp add: unat_word_ariths size_consts)
  define al where "al = (case find_class (class_sizes a) user_size of Some cid \<Rightarrow> malloc_small os 1 t cid a | None \<Rightarrow> malloc_large os 1 user_size a)"
  obtain r1 a1 where al1: "al = (r1, a1)" by (cases al)
  have alspec: "arena_inv a1 \<and> (case r1 of Inl e \<Rightarrow> live a1 = live a
    | Inr p \<Rightarrow> \<exists>x. p = x + kHeaderSize \<and> x \<notin> live a \<and> live a1 = insert x (live a) \<and> {p..<p + unat user_size} \<subseteq> extent a1 x)"
  proof (cases "find_class (class_sizes a) user_size")
    case (Some cid)
    have f: "cid < length (size_table (page_size a))" "unat user_size + kHeaderSize \<le> size_table (page_size a) ! cid"
      using find_class_total [of "page_size a" user_size] Some need by (simp_all add: lay)
    have "malloc_small os 1 t cid a = (r1, a1)" using al1 Some by (simp add: al_def)
    from malloc_small_spec [OF inv _ this] f show ?thesis by (cases r1) (auto simp: lay(3))
  next
    case None
    have ml: "malloc_large os 1 user_size a = (r1, a1)" using al1 None by (simp add: al_def)
    note sp = malloc_large_spec [OF inv ml]
    show ?thesis
    proof (cases r1)
      case (Inl e)
      then show ?thesis using sp by simp
    next
      case (Inr p)
      have "large_total (page_size a) user_size \<noteq> 0"
      proof
        assume "large_total (page_size a) user_size = 0"
        then show False using ml Inr by (simp add: malloc_large_def alloc_pages_zero)
      qed
      then have ge: "unat user_size + kLargeHdrSize \<le> large_total (page_size a) user_size"
        using large_total_ge [OF sz _ _ lay(4)] lay(5) by (simp add: size_consts)
      obtain x where x: "p = x + kHeaderSize" "kLargeExtSize \<le> x" "x \<notin> live a" "live a1 = insert x (live a)"
          "extent a1 x = {x - kLargeExtSize..<x - kLargeExtSize + large_total (page_size a) user_size}"
        using sp Inr by auto
      have "{p..<p + unat user_size} \<subseteq> extent a1 x" unfolding x(5) using x(1,2) ge by (auto simp: size_consts)
      then show ?thesis using sp Inr x by auto
    qed
  qed
  show ?thesis
  proof (cases r1)
    case (Inl e)
    then have "r = Inl e" "a' = a1" using m al1 lay(1) by (simp_all add: Malloc_def al_def [symmetric])
    then show ?thesis using alspec Inl by simp
  next
    case (Inr p)
    obtain x where x: "p = x + kHeaderSize" "x \<notin> live a" "live a1 = insert x (live a)" "{p..<p + unat user_size} \<subseteq> extent a1 x"
      using alspec Inr by auto
    have i1: "arena_inv a1" using alspec by blast
    obtain a2 cutoff where m2: "maybe_reclaim_expired now a1 = (None, a2)" "arena_inv a2" "live a2 = live a1" "spares cutoff a1 a2"
      using maybe_reclaim_keeps [OF i1] by blast
    have "r = Inr p" "a' = a2" using m al1 Inr m2(1) lay(1) by (simp_all add: Malloc_def al_def [symmetric])
    moreover have "extent a2 x = extent a1 x" using spares_extent [OF i1 _ m2(4)] x(3) by simp
    ultimately show ?thesis using x m2 by auto
  qed
qed

lemma push_tlc_spec:
  assumes inv: "arena_inv a" and x: "x \<in> live a" "unat (hb_class (hdrs a x)) = cid" "hb_class (hdrs a x) \<noteq> kLargeClassId"
  shows "arena_inv (push_tlc t cid x a) \<and> live (push_tlc t cid x a) = live a - {x} \<and> hb_magic (hdrs (push_tlc t cid x a) x) = kBlockMagic"
proof -
  from inv obtain own role F D L where b: "blocks_inv a own role F D L" by (rule arena_invE)
  note i = blocks_invD [OF b]
  obtain r where r: "role x = Some r" "live_role r" using x(1) i(6) by (auto simp: lv_def)
  note ok = role_okD [OF i(4) r(1)]
  obtain c where rc: "r = RLive c"
    using r(2) ok x(3) by (cases r) (auto simp: role_ok_def class_word_def)
  then have "c = cid" using live_small_class [OF i(2) ok] x(2) by simp
  then have r1: "role x = Some (RLive cid)" using r(1) rc by simp
  let ?a = "push_tlc t cid x a"
  have b': "blocks_inv ?a own (role(x \<mapsto> RCached t cid)) F D L"
    by (rule live_to_cached [OF b r1]) (simp_all add: push_tlc_def set_tlc_def upd_hdr_def same_layout_def)
  have "hb_magic (hdrs ?a x) = kBlockMagic" using ok by (simp add: role_ok_def push_tlc_def set_tlc_def upd_hdr_def)
  then show ?thesis using arena_invI [OF b'] blocks_invD(6) [OF b'] i(6) by (simp add: lv_upd)
qed

lemma Free_spec:
  assumes inv: "arena_inv a" and x: "x \<in> live a"
  shows "\<exists>a'. Free t now (x + kHeaderSize) mode a = (None, a') \<and> arena_inv a' \<and> live a' = live a - {x} \<and>
    hb_magic (hdrs a' x) = kBlockMagic \<and> is_open a'"
proof -
  from inv obtain own role F D L where b: "blocks_inv a own role F D L" by (rule arena_invE)
  note i = blocks_invD [OF b]
  obtain r where r: "role x = Some r" "live_role r" using x i(6) by (auto simp: lv_def)
  note ok = role_okD [OF i(4) r(1)]
  have op: "is_open a" using i(2) by (simp add: layout_def)
  have mg: "hb_magic (hdrs a x) = kBlockMagic" and fg: "hb_flags (hdrs a x) AND kFlagAllocated \<noteq> 0"
    using ok x by (simp_all add: role_ok_def live_def)
  have fr: "Free t now (x + kHeaderSize) mode a =
    (case mode of
       Delayed \<Rightarrow> (None, if hb_class (hdrs a x) = kLargeClassId then free_large_delayed now x a else free_small_delayed now x a)
     | Immediate \<Rightarrow> (if hb_class (hdrs a x) = kLargeClassId then free_large_immediate x a else (None, free_small_immediate t x a)))"
    using op mg fg by (simp add: Free_def header_from_payload_def size_consts split: FreeMode.splits)
  have opn: "is_open a'" if "arena_inv a'" for a' using that by (auto simp: layout_def elim!: arena_invE dest!: blocks_invD(2))
  show ?thesis
  proof (cases r)
    case (RLive cid)
    note r1 = r(1) [unfolded RLive]
    have c: "cid < class_count a" "unat (hb_class (hdrs a x)) = cid" "hb_class (hdrs a x) \<noteq> kLargeClassId"
      using live_small_class [OF i(2) ok] RLive by simp_all
    show ?thesis
    proof (cases mode)
      case Delayed
      let ?a = "free_small_delayed now x a"
      note b' = free_small_delayed_inv [OF b r1, of now]
      have "hb_magic (hdrs ?a x) = kBlockMagic"
        using mg by (simp add: free_small_delayed_def Let_def mark_delayed_def upd_hdr_def upd_class_def count_delayed_def)
      moreover have "live ?a = live a - {x}" using blocks_invD(6) [OF b'] i(6) by (simp add: lv_upd)
      ultimately show ?thesis using fr Delayed c(3) arena_invI [OF b'] opn by simp
    next
      case Immediate
      let ?a1 = "count_free (block_size (klass a cid)) a"
      have b1: "blocks_inv ?a1 own role F D L" by (rule blocks_inv_frame [OF b]) (simp_all add: same_layout_def count_free_def)
      have live1: "live ?a1 = live a" by (simp add: live_def count_free_def)
      define a2 where "a2 = (if length (tlc ?a1 t cid) < kTlcCapacity then ?a1 else flush_n t cid (kTlcCapacity div 2) ?a1)"
      have a2: "arena_inv a2" "live a2 = live a" "hb_class (hdrs a2 x) = hb_class (hdrs a x)"
        using flush_n_keeps [of ?a1 t cid "kTlcCapacity div 2"] flush_n_class [of t cid "kTlcCapacity div 2" ?a1 x] arena_invI [OF b1] live1
        by (simp_all add: a2_def keeps_def count_free_def)
      have un: "free_small_immediate t x a = push_tlc t cid x a2"
        using c(2) by (simp add: free_small_immediate_def Let_def a2_def)
      from push_tlc_spec [OF a2(1), of x cid t] x a2(2,3) c(2,3)
      show ?thesis using fr Immediate c(3) opn unfolding un by simp
    qed
  next
    case RLargeLive
    note r1 = r(1) [unfolded RLargeLive]
    have c: "hb_class (hdrs a x) = kLargeClassId" using ok RLargeLive by (simp add: role_ok_def class_word_def)
    show ?thesis
    proof (cases mode)
      case Delayed
      let ?a = "free_large_delayed now x a"
      note b' = free_large_delayed_inv [OF b r1, of now]
      have "hb_magic (hdrs ?a x) = kBlockMagic"
        using mg by (simp add: free_large_delayed_def Let_def mark_delayed_def upd_hdr_def count_delayed_def)
      moreover have "live ?a = live a - {x}" using blocks_invD(6) [OF b'] i(6) by (simp add: lv_upd)
      ultimately show ?thesis using fr Delayed c arena_invI [OF b'] opn by simp
    next
      case Immediate
      obtain a' where f: "free_large_immediate x a = (None, a')" "arena_inv a'" "live a' = live a - {x}"
        using free_large_immediate_spec [OF b r1] by blast
      have "hdrs a' = (hdrs a)(x := (hdrs a x)\<lparr>hb_flags := 0\<rparr>)"
        using f(1) by (auto simp: free_large_immediate_def Let_def free_pages_def upd_hdr_def count_free_def split: if_splits prod.splits bool.splits)
      then show ?thesis using fr Immediate c f mg opn by simp
    qed
  qed (use r(2) in simp_all)
qed

section \<open>Properties\<close>

text \<open>An anonymous arena of 258 pages of 4 KiB: one page of metadata, one of bitmap, 256 of data.\<close>

definition demo_opts :: AllocatorOptions where
  "demo_opts = \<lparr>opt_path = [], opt_arena_size = 1056768, opt_segment_size = 0, opt_max_arena_size = 0, opt_page_size = 4096,
     opt_concurrent = True, opt_create_if_missing = True, opt_reclaim_delay_ns = 5\<rparr>"

definition blank_arena :: arena where
  "blank_arena = \<lparr>mapping = \<lparr>path = [], base_set = True, virtual_size = 1056768, segment_size = 0, seg_mapped = []\<rparr>,
     page_size = 0, arena_size = 0, data_offset = 0, bitmap_offset = 0, bitmap_words = 0, page_count = 0, free_page_count = 0,
     next_page_cursor = 0, bm = [], is_open = False, meta_magic = 0, meta_version = 0, class_count = 0, classes = [], class_sizes = [],
     hdrs = (\<lambda>_. \<lparr>hb_magic = 0, hb_class = 0, hb_flags = 0, hb_pad = 0\<rparr>), link = (\<lambda>_. 0), stamp = (\<lambda>_. 0), exts = (\<lambda>_. 0),
     delayed_large_head = 0, delayed_large_tail = 0, current_epoch = 0, concurrent = True, reclaim_delay_ns = 5, malloc_counter = 0,
     stat_used_bytes = 0, stat_alloc_count = 0, stat_free_count = 0, stat_delayed_count = 0, tlc = (\<lambda>_ _. [])\<rparr>"

definition demo_heap :: arena where
  "demo_heap = fresh_arena 0 demo_opts (size_table 4096) blank_arena"

lemma demo_pages:
  "bitmap_words (fresh_pages 4096 (mapping blank_arena)) = 5" "data_offset (fresh_pages 4096 (mapping blank_arena)) = 8192"
  "page_count (fresh_pages 4096 (mapping blank_arena)) = 256" "virtual_size (mapping blank_arena) = 1056768"
proof -
  let ?m = "mapping blank_arena"
  show m: "virtual_size ?m = 1056768" by (simp add: blank_arena_def)
  show w: "bitmap_words (fresh_pages 4096 ?m) = 5" unfolding fresh_pages_fields(1) meta_4096 m by simp
  show d: "data_offset (fresh_pages 4096 ?m) = 8192" unfolding fresh_pages_fields(2) w meta_4096 by (simp add: AlignUp_def)
  show "page_count (fresh_pages 4096 ?m) = 256" by (simp only: fresh_pages_fields(3) d m)
qed

lemma demo_heap_inv: "arena_inv demo_heap" "live demo_heap = {}"
proof -
  have o: "opt_page_size demo_opts = 4096" by (simp add: demo_opts_def)
  have "(4096 :: nat) dvd 2 ^ 64" by simp
  note f = fresh_arena_inv [of demo_opts blank_arena 0, unfolded o demo_pages, OF _ this]
  show "arena_inv demo_heap" unfolding demo_heap_def by (rule f(1)) (auto simp: size_consts blank_arena_def)
  show "live demo_heap = {}" unfolding demo_heap_def by (rule f(2)) (auto simp: size_consts blank_arena_def)
qed

lemma demo_heap_fields:
  "page_size demo_heap = 4096" "data_offset demo_heap = 8192" "page_count demo_heap = 256" "free_page_count demo_heap = 256"
  "next_page_cursor demo_heap = 0" "bm demo_heap = replicate 5 0" "is_open demo_heap" "class_sizes demo_heap = size_table 4096"
  "mapping demo_heap = mapping blank_arena" "malloc_counter demo_heap = 0" "reclaim_delay_ns demo_heap = 5"
  by (simp_all add: demo_heap_def fresh_arena_def Let_def clear_tlc_def demo_opts_def demo_pages fresh_pages_fields(4-7))
    (simp_all add: blank_arena_def)




text \<open>Two large allocations, of two pages each, on the fresh arena.\<close>

definition demo_heap1 :: arena where "demo_heap1 = snd (Malloc (\<lambda>_ _. True) 1 0 0 5000 demo_heap)"
definition demo_heap2 :: arena where "demo_heap2 = snd (Malloc (\<lambda>_ _. True) 1 0 0 6000 demo_heap1)"

lemma demo_step:
  assumes "is_open a" "class_sizes a = size_table 4096" "page_size a = 4096" "data_offset a = 8192" "page_count a = 256"
    "2 \<le> free_page_count a" "fast_words (bm a) 256 (next_page_cursor a div 64 mod length (bm a)) 2 [0..<length (bm a)] = Some p"
    "mapping a = mapping blank_arena" "malloc_counter a < 8" "find_class (size_table 4096) user_size = None" "large_total 4096 user_size = 8192"
  shows "\<exists>a'. Malloc (\<lambda>_ _. True) 1 0 0 user_size a = (Inr (8192 + p * 4096 + 16), a') \<and> is_open a' \<and> class_sizes a' = size_table 4096 \<and>
    page_size a' = 4096 \<and> data_offset a' = 8192 \<and> page_count a' = 256 \<and> free_page_count a' = free_page_count a - 2 \<and>
    bm a' = mark_fast p 2 (bm a) \<and> next_page_cursor a' = (p + 2) mod 256 \<and> mapping a' = mapping blank_arena \<and>
    malloc_counter a' = malloc_counter a + 1"
proof -
  have e: "EnsureMapped (\<lambda>_ _. True) off n (mapping blank_arena) = (None, mapping blank_arena)" for off n
    by (simp add: EnsureMapped_def blank_arena_def)
  have lt: "malloc_counter a + 1 < kReclaimInterval"
  proof -
    have "unat (malloc_counter a) < 8" using assms(9) by (simp add: word_less_nat_alt)
    then show ?thesis by (simp add: word_less_nat_alt kReclaimInterval_def unat_word_ariths)
  qed
  show ?thesis
    using assms lt by (simp add: Malloc_def malloc_large_def alloc_pages_def take_pages_def e Let_def maybe_reclaim_expired_def
        count_alloc_def upd_hdr_def size_consts)
qed

lemma demo_run: "fst (Malloc (\<lambda>_ _. True) 1 0 0 5000 demo_heap) = Inr 8208" "fst (Malloc (\<lambda>_ _. True) 1 0 0 6000 demo_heap1) = Inr 16400"
proof -
  have fc: "find_class (size_table 4096) 5000 = None" "find_class (size_table 4096) 6000 = None" by (code_simp, code_simp)
  have lt: "large_total 4096 5000 = 8192" "large_total 4096 6000 = 8192" by (code_simp, code_simp)
  have "fast_words (replicate 5 0) 256 0 2 [0..<5] = Some 0" by code_simp
  then have f1: "fast_words (bm demo_heap) 256 (next_page_cursor demo_heap div 64 mod length (bm demo_heap)) 2 [0..<length (bm demo_heap)] = Some 0"
    by (simp add: demo_heap_fields)
  obtain a' where a': "Malloc (\<lambda>_ _. True) 1 0 0 5000 demo_heap = (Inr (8192 + 0 * 4096 + 16), a')" "is_open a'" "class_sizes a' = size_table 4096"
    "page_size a' = 4096" "data_offset a' = 8192" "page_count a' = 256" "free_page_count a' = free_page_count demo_heap - 2"
    "bm a' = mark_fast 0 2 (bm demo_heap)" "next_page_cursor a' = (0 + 2) mod 256" "mapping a' = mapping blank_arena"
    "malloc_counter a' = malloc_counter demo_heap + 1"
    using demo_step [OF demo_heap_fields(7,8,1,2,3) _ f1 demo_heap_fields(9) _ fc(1) lt(1)] by (auto simp: demo_heap_fields)
  show "fst (Malloc (\<lambda>_ _. True) 1 0 0 5000 demo_heap) = Inr 8208" using a'(1) by simp
  have h1: "demo_heap1 = a'" using a'(1) by (simp add: demo_heap1_def)
  have b: "bm a' = [3, 0, 0, 0, 0]" unfolding a'(8) demo_heap_fields by code_simp
  have cu: "(0 + 2) mod 256 div 64 mod 5 = (0 :: nat)" and le: "length [3 :: u64, 0, 0, 0, 0] = 5" by simp_all
  have "fast_words [3, 0, 0, 0, 0] 256 0 2 [0..<5] = Some 2" by code_simp
  then have f2: "fast_words (bm a') 256 (next_page_cursor a' div 64 mod length (bm a')) 2 [0..<length (bm a')] = Some 2"
    unfolding b a'(9) le cu .
  have g: "2 \<le> free_page_count a'" "malloc_counter a' < 8" by (simp_all add: a' demo_heap_fields)
  show "fst (Malloc (\<lambda>_ _. True) 1 0 0 6000 demo_heap1) = Inr 16400"
    unfolding h1 using demo_step [OF a'(2-6) g(1) f2 a'(10) g(2) fc(2) lt(2)] by auto
qed

lemma demo_heaps: "arena_inv demo_heap1" "live demo_heap1 = {8200}" "arena_inv demo_heap2" "live demo_heap2 = {8200, 16392}"
proof -
  have s: "unat (5000 :: u64) + kLargeHdrSize < 2 ^ 64" "unat (6000 :: u64) + kLargeHdrSize < 2 ^ 64" by (simp_all add: size_consts)
  have e1: "Malloc (\<lambda>_ _. True) 1 0 0 5000 demo_heap = (Inr 8208, demo_heap1)" using demo_run(1) by (simp add: prod_eq_iff demo_heap1_def)
  have e2: "Malloc (\<lambda>_ _. True) 1 0 0 6000 demo_heap1 = (Inr 16400, demo_heap2)" using demo_run(2) by (simp add: prod_eq_iff demo_heap2_def)
  note m1 = Malloc_spec [OF demo_heap_inv(1) e1 s(1)]
  show i1: "arena_inv demo_heap1" and l1: "live demo_heap1 = {8200}" using m1 by (auto simp: demo_heap_inv(2) size_consts)
  note m2 = Malloc_spec [OF i1 e2 s(2)]
  show "arena_inv demo_heap2" and "live demo_heap2 = {8200, 16392}" using m2 by (auto simp: l1 size_consts)
qed


text \<open>(C3) Free is exact and a second free is detected. Freeing a live block, immediately or delayed, succeeds,
  keeps the invariant and removes exactly that block from the live ones; freeing the same pointer
  again, in any mode and by any thread, is refused as a double free and changes nothing.\<close>

theorem Free_exact:
  assumes "arena_inv a" "x \<in> live a"
  shows "\<exists>a'. Free t now (x + kHeaderSize) mode a = (None, a') \<and> arena_inv a' \<and> live a' = live a - {x} \<and>
    Free t' now' (x + kHeaderSize) mode' a' = (Some (RuntimeError ''double free detected''), a')"
proof -
  obtain a' where f: "Free t now (x + kHeaderSize) mode a = (None, a')" "arena_inv a'" "live a' = live a - {x}"
      "hb_magic (hdrs a' x) = kBlockMagic" "is_open a'"
    using Free_spec [OF assms] by blast
  have "hb_flags (hdrs a' x) AND kFlagAllocated = 0" using f(3) by (auto simp: live_def)
  then have "Free t' now' (x + kHeaderSize) mode' a' = (Some (RuntimeError ''double free detected''), a')"
    using f(4,5) by (simp add: Free_def header_from_payload_def size_consts)
  then show ?thesis using f by blast
qed

theorem Free_exact_witness: "\<exists>a'. Free 0 7 8208 Delayed demo_heap2 = (None, a') \<and> live a' = {16392}"
  using Free_exact [OF demo_heaps(3), of 8200 0 7 Delayed 0 8 Immediate] by (auto simp: demo_heaps(4) size_consts)

text \<open>(C4) The sweep over the delayed lists returns, keeps the invariant and the live blocks, and respects the
  grace period: a block freed within the last \<open>reclaim_delay_ns\<close> keeps its header and so stays on its
  delayed list. So the memory of a retired block is not handed out again before the delay has passed.\<close>

theorem ReclaimExpired_grace:
  assumes "arena_inv a" "reclaim_delay_ns a \<le> now"
  shows "\<exists>n a'. ReclaimExpired now a = (Inr n, a') \<and> arena_inv a' \<and> live a' = live a \<and>
    (\<forall>x. now - reclaim_delay_ns a < stamp a x \<longrightarrow> hdrs a' x = hdrs a x)"
proof -
  have "is_open a" using assms(1) by (auto simp: layout_def elim!: arena_invE dest!: blocks_invD(2))
  then have "ReclaimExpired now a = reclaim_with_cutoff (now - reclaim_delay_ns a) a"
    using assms(2) by (auto simp: ReclaimExpired_def)
  moreover obtain n a' where "reclaim_with_cutoff (now - reclaim_delay_ns a) a = (Inr n, a')" "arena_inv a'" "live a' = live a"
      "spares (now - reclaim_delay_ns a) a a'"
    using reclaim_keeps [OF assms(1)] by blast
  ultimately show ?thesis unfolding spares_def by auto
qed

theorem ReclaimExpired_grace_witness: "\<exists>n a'. ReclaimExpired 9 demo_heap = (Inr n, a') \<and> live a' = {}"
  using ReclaimExpired_grace [OF demo_heap_inv(1), of 9] by (auto simp: demo_heap_fields demo_heap_inv(2))

lemma free_pages_stat: "free_pages off n a = (r, a') \<Longrightarrow> stat_delayed_count a' = stat_delayed_count (a :: arena)"
  by (auto simp: free_pages_def Let_def split: if_splits prod.splits bool.splits)

lemma reclaim_class_stat:
  "reclaim_class cutoff cid fuel n a = (Inr n', a') \<Longrightarrow> stat_delayed_count a' + of_nat n' = stat_delayed_count a + of_nat n"
proof (induction fuel arbitrary: n a)
  case (Suc fuel)
  show ?case
  proof (cases "delayed_head (klass a cid) = 0 \<or> cutoff < stamp a (delayed_head (klass a cid))")
    case True
    then show ?thesis using Suc.prems by (auto simp: Let_def split: if_splits)
  next
    case False
    let ?b = "uncount_delayed (push_free cid (delayed_head (klass a cid)) (upd_class cid
      (\<lambda>k. k\<lparr>delayed_head := link a (delayed_head (klass a cid)), delayed_tail := (if link a (delayed_head (klass a cid)) = 0 then 0 else delayed_tail k)\<rparr>) a))"
    have "reclaim_class cutoff cid fuel (n + 1) ?b = (Inr n', a')" using Suc.prems False by (simp add: Let_def)
    from Suc.IH [OF this] have "stat_delayed_count a' + of_nat n' = stat_delayed_count ?b + of_nat (n + 1)" .
    moreover have "stat_delayed_count ?b = stat_delayed_count a - 1"
      by (simp add: uncount_delayed_def push_free_def upd_hdr_def upd_class_def)
    ultimately show ?thesis by (simp add: algebra_simps)
  qed
qed simp

lemma reclaim_classes_stat:
  "reclaim_classes cutoff cids n a = (Inr n', a') \<Longrightarrow> stat_delayed_count a' + of_nat n' = stat_delayed_count a + of_nat n"
proof (induction cids arbitrary: n a)
  case (Cons cid cids)
  obtain r1 a1 where r1: "reclaim_class cutoff cid (Suc (arena_size a)) n a = (r1, a1)"
    by (cases "reclaim_class cutoff cid (Suc (arena_size a)) n a")
  show ?case
  proof (cases r1)
    case (Inr n1)
    then have "reclaim_classes cutoff cids n1 a1 = (Inr n', a')" using Cons.prems r1 by (simp del: reclaim_class.simps)
    from Cons.IH [OF this] reclaim_class_stat [OF r1 [unfolded Inr]] show ?thesis by simp
  qed (use Cons.prems r1 in \<open>simp del: reclaim_class.simps\<close>)
qed simp

lemma reclaim_large_stat:
  "reclaim_large cutoff fuel n a = (Inr n', a') \<Longrightarrow> stat_delayed_count a' + of_nat n' = stat_delayed_count a + of_nat n"
proof (induction fuel arbitrary: n a)
  case (Suc fuel)
  let ?d = "delayed_large_head a"
  show ?case
  proof (cases "?d = 0 \<or> cutoff < stamp a ?d")
    case True
    then show ?thesis using Suc.prems by (auto simp: Let_def split: if_splits)
  next
    case False
    let ?b = "uncount_delayed (upd_hdr ?d (\<lambda>h. h\<lparr>hb_flags := 0\<rparr>)
      (a\<lparr>delayed_large_head := link a ?d, delayed_large_tail := (if link a ?d = 0 then 0 else delayed_large_tail a)\<rparr>))"
    obtain e a1 where f: "free_pages (?d - kLargeExtSize) (exts ?b (?d - kLargeExtSize)) ?b = (e, a1)"
      by (cases "free_pages (?d - kLargeExtSize) (exts ?b (?d - kLargeExtSize)) ?b")
    have "e = None" and rl: "reclaim_large cutoff fuel (n + 1) a1 = (Inr n', a')"
      using Suc.prems False f by (auto simp: Let_def split: option.splits)
    have "stat_delayed_count a1 = stat_delayed_count a - 1"
      using free_pages_stat [OF f] by (simp add: uncount_delayed_def upd_hdr_def)
    then show ?thesis using Suc.IH [OF rl] by (simp add: algebra_simps)
  qed
qed simp

text \<open>The counter of delayed blocks is wrong after a reopen. Reclamation subtracts every block it frees
  from the in-memory counter, but the counter starts at 0 in a new process while the delayed lists
  are read back from the file: reclaiming \<open>n\<close> blocks there leaves the counter at \<open>- n\<close>, that is
  \<open>2 ^ 64 - n\<close>.\<close>

theorem delayed_count_wraps:
  assumes "stat_delayed_count a = 0" "reclaim_with_cutoff cutoff a = (Inr n, a')"
  shows "stat_delayed_count a' = - of_nat n"
proof -
  obtain r1 a1 where r1: "reclaim_classes cutoff [0..<class_count a] 0 a = (r1, a1)"
    by (cases "reclaim_classes cutoff [0..<class_count a] 0 a")
  then obtain n1 where n1: "r1 = Inr n1" "reclaim_large cutoff (Suc (arena_size a1)) n1 a1 = (Inr n, a')"
    using assms(2) by (cases r1) (auto simp: reclaim_with_cutoff_def simp del: reclaim_large.simps)
  have "stat_delayed_count a' + of_nat n = 0"
    using reclaim_classes_stat [OF r1 [unfolded n1(1)]] reclaim_large_stat [OF n1(2)] assms(1) by simp
  then show ?thesis by (simp add: eq_neg_iff_add_eq_0)
qed

text \<open>One block of the first class on its delayed list, left by an earlier process.\<close>

definition demo_stale :: arena where
  "demo_stale = blank_arena\<lparr>arena_size := 3, class_count := 1,
     classes := [\<lparr>block_size = 24, pages_per_slab = 4, free_head = 0, delayed_head = 100, delayed_tail = 100\<rparr>]\<rparr>"

theorem delayed_count_wraps_witness: "stat_delayed_count (snd (reclaim_with_cutoff (- 1) demo_stale)) = - 1"
proof -
  have z: "stat_delayed_count demo_stale = 0" by (simp add: demo_stale_def blank_arena_def)
  have "fst (reclaim_with_cutoff (- 1) demo_stale) = Inr 1" by code_simp
  then have "reclaim_with_cutoff (- 1) demo_stale = (Inr 1, snd (reclaim_with_cutoff (- 1) demo_stale))" by (simp add: prod_eq_iff)
  from delayed_count_wraps [OF z this] show ?thesis by simp
qed

text \<open>A delayed free writes into the block at once. The second word of the payload, which in a block of
  the hash map is the link to the next block, holds the clock value as soon as the delayed free
  returns, although the delay is there for readers that may still be in the block.\<close>

theorem delayed_free_overwrites_payload:
  assumes "arena_inv a" "x \<in> live a"
  shows "\<exists>a'. Free t now (x + kHeaderSize) Delayed a = (None, a') \<and> stamp a' x = now"
proof -
  obtain a' where f: "Free t now (x + kHeaderSize) Delayed a = (None, a')" using Free_spec [OF assms] by blast
  have "is_open a" using assms(1) by (auto simp: layout_def elim!: arena_invE dest!: blocks_invD(2))
  moreover have "stamp (free_large_delayed now x a) x = now" "stamp (free_small_delayed now x a) x = now"
    by (simp_all add: free_large_delayed_def free_small_delayed_def Let_def mark_delayed_def upd_hdr_def upd_class_def count_delayed_def)
  ultimately have "stamp a' x = now" using f
    by (auto simp: Free_def header_from_payload_def Let_def size_consts split: if_splits)
  then show ?thesis using f by blast
qed

theorem delayed_free_overwrites_payload_witness: "\<exists>a'. Free 0 7 8208 Delayed demo_heap1 = (None, a') \<and> stamp a' 8200 = 7"
  using delayed_free_overwrites_payload [OF demo_heaps(1), of 8200 0 7] by (simp add: demo_heaps(2) size_consts)

end
