(* ===== verification/DocStrings.thy ===== *)
theory DocStrings
  imports DocCorrect
begin

text \<open>
  String arrays of a document: the block format (header, length table, byte area) and the
  operations that store, extend and read it.
\<close>

section \<open>The block format\<close>

lemma splice_extend:
  assumes "i + length xs + length ys \<le> length zs"
  shows "splice_at (i + length xs) ys (splice_at i xs zs) = splice_at i (xs @ ys) zs"
  by (rule nth_equalityI) (use assms in \<open>auto simp: nth_splice_at nth_append\<close>)

lemma splice_swap:
  assumes "i + length xs \<le> j" "j + length ys \<le> length zs"
  shows "splice_at j ys (splice_at i xs zs) = splice_at i xs (splice_at j ys zs)"
  by (rule nth_equalityI) (use assms in \<open>auto simp: nth_splice_at\<close>)

lemma splice_Nil [simp]: "splice_at i [] xs = xs"
  by (simp add: splice_at_def)

definition lens :: "bytes list \<Rightarrow> bytes" where
  "lens ps = concat (map (\<lambda>p. le_bytes 4 (length p)) ps)"

lemma lens_simps [simp]: "lens [] = []" "lens (p # ps) = le_bytes 4 (length p) @ lens ps"
  "lens (ps @ qs) = lens ps @ lens qs" "length (lens ps) = 4 * length ps"
  by (simp_all add: lens_def) (induction ps; simp)

definition tot :: "bytes list \<Rightarrow> nat" where
  "tot ps = sum_list (map length ps)"

lemma tot_simps [simp]: "tot [] = 0" "tot (p # ps) = length p + tot ps" "tot (ps @ qs) = tot ps + tot qs"
  "length (concat ps) = tot ps"
  by (simp_all add: tot_def length_concat)

definition header :: "nat \<Rightarrow> nat \<Rightarrow> nat \<Rightarrow> nat \<Rightarrow> bytes" where
  "header cc cb n u = le_bytes 4 cc @ le_bytes 4 cb @ le_bytes 4 n @ le_bytes 4 u"

lemma length_header [simp]: "length (header cc cb n u) = 16"
  by (simp add: header_def)

definition str_data :: "nat \<Rightarrow> nat \<Rightarrow> bytes list \<Rightarrow> bytes \<Rightarrow> bool" where
  "str_data cc cb ps bs \<longleftrightarrow> cc < 2 ^ 32 \<and> cb < 2 ^ 32 \<and> length bs = 16 + 4 * cc + cb
     \<and> length ps \<le> cc \<and> tot ps \<le> cb
     \<and> slice 16 (4 * length ps) bs = lens ps \<and> slice (16 + 4 * cc) (tot ps) bs = concat ps"

definition str_block :: "bytes list \<Rightarrow> bytes \<Rightarrow> bool" where
  "str_block ps bs \<longleftrightarrow> (\<exists>cc cb. str_data cc cb ps bs \<and> slice 0 16 bs = header cc cb (length ps) (tot ps))"

definition strs_field :: "'st heap \<Rightarrow> nat \<Rightarrow> nat \<Rightarrow> bytes list \<Rightarrow> bool" where
  "strs_field h d f ps \<longleftrightarrow> sa (hp_mem h d) f = length ps \<and>
     (if sb (hp_mem h d) f = 0 then ps = [] else str_block ps (hp_mem h (sb (hp_mem h d) f)))"

lemma str_blockI:
  "str_data cc cb ps bs \<Longrightarrow> slice 0 16 bs = header cc cb (length ps) (tot ps) \<Longrightarrow> str_block ps bs"
  by (auto simp: str_block_def)

text \<open>The bytes the loop \<open>write_parts\<close> leaves.\<close>

definition written :: "nat \<Rightarrow> nat \<Rightarrow> nat \<Rightarrow> bytes list \<Rightarrow> bytes \<Rightarrow> bytes" where
  "written cc i q ps bs = splice_at (16 + 4 * cc + q) (concat ps) (splice_at (16 + 4 * i) (lens ps) bs)"

lemma length_written:
  "length bs = 16 + 4 * cc + cb \<Longrightarrow> i + length ps \<le> cc \<Longrightarrow> q + tot ps \<le> cb \<Longrightarrow>
     length (written cc i q ps bs) = 16 + 4 * cc + cb"
  by (simp add: written_def)

lemma written_Cons:
  assumes "length bs = 16 + 4 * cc + cb" "i + length (p # ps) \<le> cc" "q + tot (p # ps) \<le> cb"
  shows "written cc (Suc i) (q + length p) ps
      (splice_at (16 + 4 * cc + q) p (splice_at (16 + 4 * i) (le_bytes 4 (length p)) bs)) =
    written cc i q (p # ps) bs"
proof -
  let ?l = "le_bytes 4 (length p)"
  have "splice_at (16 + 4 * Suc i) (lens ps) (splice_at (16 + 4 * cc + q) p (splice_at (16 + 4 * i) ?l bs)) =
      splice_at (16 + 4 * cc + q) p (splice_at (16 + 4 * Suc i) (lens ps) (splice_at (16 + 4 * i) ?l bs))"
    by (rule splice_swap [symmetric]) (use assms in simp_all)
  also have "splice_at (16 + 4 * Suc i) (lens ps) (splice_at (16 + 4 * i) ?l bs) =
      splice_at (16 + 4 * i) (?l @ lens ps) bs"
    using splice_extend [of "16 + 4 * i" ?l "lens ps" bs] assms by (simp add: add.assoc)
  finally show ?thesis
    using splice_extend [of "16 + 4 * cc + q" p "concat ps" "splice_at (16 + 4 * i) (?l @ lens ps) bs"] assms
    by (simp add: written_def add.assoc)
qed

lemma write_parts_ok:
  assumes "length (hp_mem h b) = 16 + 4 * cc + cb" "i + length ps \<le> cc" "q + tot ps \<le> cb"
  shows "write_parts b cc i q ps h = (Inr (), h\<lparr>hp_mem := (hp_mem h)(b := written cc i q ps (hp_mem h b))\<rparr>)"
  using assms
proof (induction ps arbitrary: i q h)
  case Nil
  then show ?case by (simp add: written_def)
next
  case (Cons p ps)
  let ?bs = "hp_mem h b"
  let ?bs2 = "splice_at (16 + 4 * cc + q) p (splice_at (16 + 4 * i) (le_bytes 4 (length p)) ?bs)"
  let ?h1 = "h\<lparr>hp_mem := (hp_mem h)(b := splice_at (16 + 4 * i) (le_bytes 4 (length p)) ?bs)\<rparr>"
  let ?h2 = "h\<lparr>hp_mem := (hp_mem h)(b := ?bs2)\<rparr>"
  have s1: "store_nat 4 b (16 + 4 * i) (length p) h = (Inr (), ?h1)"
    using Cons.prems by (simp add: store_nat_ok)
  have s2: "(if p \<noteq> [] then store b (StrArrPayloadOff cc + q) p else hret ()) ?h1 = (Inr (), ?h2)"
    using Cons.prems by (simp add: store_ok StrArrPayloadOff_def add.assoc)
  have "write_parts b cc (Suc i) (q + length p) ps ?h2 =
      (Inr (), ?h2\<lparr>hp_mem := (hp_mem ?h2)(b := written cc (Suc i) (q + length p) ps (hp_mem ?h2 b))\<rparr>)"
    by (rule Cons.IH) (use Cons.prems in simp_all)
  also have "hp_mem ?h2 b = ?bs2" by simp
  also have "written cc (Suc i) (q + length p) ps ?bs2 = written cc i q (p # ps) ?bs"
    by (rule written_Cons [OF Cons.prems])
  also have "?h2\<lparr>hp_mem := (hp_mem ?h2)(b := written cc i q (p # ps) ?bs)\<rparr> =
      h\<lparr>hp_mem := (hp_mem h)(b := written cc i q (p # ps) ?bs)\<rparr>" by simp
  finally have "write_parts b cc (Suc i) (q + length p) ps ?h2 =
      (Inr (), h\<lparr>hp_mem := (hp_mem h)(b := written cc i q (p # ps) ?bs)\<rparr>)" .
  moreover have "write_parts b cc i q (p # ps) h = write_parts b cc (Suc i) (q + length p) ps ?h2"
    using s1 s2 by simp
  ultimately show ?case by (rule trans [rotated])
qed

lemma str_data_written:
  assumes d: "str_data cc cb ps bs" and le: "length ps + length qs \<le> cc" "tot ps + tot qs \<le> cb"
  shows "str_data cc cb (ps @ qs) (written cc (length ps) (tot ps) qs bs)"
    and "slice 0 16 (written cc (length ps) (tot ps) qs bs) = slice 0 16 bs"
proof -
  let ?m = "splice_at (16 + 4 * length ps) (lens qs) bs"
  have len: "length bs = 16 + 4 * cc + cb" "length ?m = 16 + 4 * cc + cb"
    using d le by (simp_all add: str_data_def)
  have l1: "slice 16 (4 * length ps) bs = lens ps" and c1: "slice (16 + 4 * cc) (tot ps) bs = concat ps"
    using d by (simp_all add: str_data_def)
  let ?w = "splice_at (16 + 4 * cc + tot ps) (concat qs) ?m"
  have "slice 16 (4 * length ps + 4 * length qs) ?w = lens ps @ lens qs"
    using slice_splice_same [of "16 + 4 * length ps" "lens qs" bs] len le l1
    by (simp add: slice_append_split slice_splice_other)
  moreover have "slice (16 + 4 * cc) (tot ps + tot qs) ?w = concat ps @ concat qs"
    using slice_splice_same [of "16 + 4 * cc + tot ps" "concat qs" ?m] len le c1
    by (simp add: slice_append_split slice_splice_other)
  moreover have "slice 0 16 ?w = slice 0 16 bs" "length ?w = 16 + 4 * cc + cb"
    using len le by (simp_all add: slice_splice_other)
  ultimately show "str_data cc cb (ps @ qs) (written cc (length ps) (tot ps) qs bs)"
    "slice 0 16 (written cc (length ps) (tot ps) qs bs) = slice 0 16 bs"
    using d le by (simp_all add: written_def str_data_def)
qed

lemma str_data_header:
  assumes "str_data cc cb ps bs"
  shows "str_data cc cb ps (splice_at 0 (header cc cb (length ps) (tot ps)) bs)"
    and "str_block ps (splice_at 0 (header cc cb (length ps) (tot ps)) bs)"
proof -
  let ?bs = "splice_at 0 (header cc cb (length ps) (tot ps)) bs"
  show d: "str_data cc cb ps ?bs" using assms by (simp add: str_data_def slice_splice_other)
  have "slice 0 16 ?bs = header cc cb (length ps) (tot ps)"
    using slice_splice_same [of 0 "header cc cb (length ps) (tot ps)" bs] assms by (simp add: str_data_def)
  with d show "str_block ps ?bs" by (auto simp: str_block_def)
qed

lemma StrArrWriteHeader_ok:
  assumes "16 \<le> length (hp_mem h b)"
  shows "StrArrWriteHeader b cc cb n u h =
    (Inr (), h\<lparr>hp_mem := (hp_mem h)(b := splice_at 0 (header cc cb n u) (hp_mem h b))\<rparr>)"
proof -
  note ext = splice_extend [where i = 0 and zs = "hp_mem h b", simplified]
  show ?thesis
    using assms ext [of "le_bytes 4 cc" "le_bytes 4 cb"] ext [of "le_bytes 4 cc @ le_bytes 4 cb" "le_bytes 4 n"]
      ext [of "le_bytes 4 cc @ le_bytes 4 cb @ le_bytes 4 n" "le_bytes 4 u"]
    by (simp add: StrArrWriteHeader_def store_nat_ok header_def)
qed

lemma StrArrReadHeader_ok:
  assumes "slice 0 16 (hp_mem h b) = header cc cb n u" "16 \<le> length (hp_mem h b)"
    and "cc < 2 ^ 32" "cb < 2 ^ 32" "n < 2 ^ 32" "u < 2 ^ 32"
  shows "StrArrReadHeader b h = (Inr (cc, cb, n, u), h)"
proof -
  have s: "slice i 4 (hp_mem h b) = slice i 4 (header cc cb n u)" if "i + 4 \<le> 16" for i
    using slice_slice [OF that, of 0 "hp_mem h b"] assms(1) by simp
  show ?thesis
    using assms(2-6)
    by (simp add: StrArrReadHeader_def load_nat_ok s) (simp add: header_def slice_def le_nat_bytes)
qed

text \<open>Reading an element: its length from the table, its bytes from the byte area.\<close>

lemma str_data_nth:
  assumes d: "str_data cc cb ps bs" and i: "i < length ps"
  shows "slice (16 + 4 * i) 4 bs = le_bytes 4 (length (ps ! i))"
    and "slice (16 + 4 * cc + tot (take i ps)) (length (ps ! i)) bs = ps ! i"
    and "16 + 4 * i + 4 \<le> length bs" "16 + 4 * cc + tot (take i ps) + length (ps ! i) \<le> length bs"
    and "length (ps ! i) < 2 ^ 32"
proof -
  define us vs where "us = take i ps" and "vs = drop (Suc i) ps"
  have ps: "ps = us @ ps ! i # vs" and lu: "length us = i"
    using id_take_nth_drop [OF i] i by (simp_all add: us_def vs_def)
  let ?p = "ps ! i"
  have l: "slice 16 (4 * length ps) bs = lens us @ le_bytes 4 (length ?p) @ lens vs"
    and c: "slice (16 + 4 * cc) (tot ps) bs = concat us @ ?p @ concat vs"
    using d ps unfolding str_data_def by (metis lens_simps(2,3), metis concat.simps(2) concat_append)
  have t: "tot ps = tot us + length ?p + tot vs" by (subst ps) simp
  have "slice (4 * i) 4 (slice 16 (4 * length ps) bs) = slice (16 + 4 * i) 4 bs"
    using i by (intro slice_slice) simp
  then show "slice (16 + 4 * i) 4 bs = le_bytes 4 (length ?p)"
    unfolding l by (simp add: slice_def lu)
  have "slice (tot us) (length ?p) (slice (16 + 4 * cc) (tot ps) bs) = slice (16 + 4 * cc + tot us) (length ?p) bs"
    using t by (intro slice_slice) simp
  then show "slice (16 + 4 * cc + tot (take i ps)) (length ?p) bs = ?p"
    unfolding c us_def [symmetric] by (simp add: slice_def)
  show "16 + 4 * i + 4 \<le> length bs" "16 + 4 * cc + tot (take i ps) + length ?p \<le> length bs"
    "length ?p < 2 ^ 32"
    using d t i by (auto simp: str_data_def us_def)
qed

lemma load_len:
  assumes "str_data cc cb ps (hp_mem h b)" "i < length ps"
  shows "load_nat 4 b (16 + 4 * i) h = (Inr (length (ps ! i)), h)"
  using str_data_nth [OF assms] by (simp add: load_nat_ok le_nat_bytes)

lemma view_parts_ok:
  assumes d: "str_data cc cb ps (hp_mem h b)" and "i + k = length ps"
  shows "view_parts b cc i (tot (take i ps)) k h = (Inr (drop i ps), h)"
  using assms(2)
proof (induction k arbitrary: i)
  case (Suc k)
  then have i: "i < length ps" by simp
  note e = str_data_nth [OF d i]
  have "tot (take (Suc i) ps) = tot (take i ps) + length (ps ! i)"
    using i by (simp add: take_Suc_conv_app_nth)
  then show ?case
    using Suc.IH [of "Suc i"] Suc.prems e load_len [OF d i] Cons_nth_drop_Suc [OF i]
    by (simp add: load_ok StrArrPayloadOff_def)
qed simp

lemma sum_lens_ok:
  assumes d: "str_data cc cb ps (hp_mem h b)" and "j + k \<le> length ps"
  shows "sum_lens b j k h = (Inr (tot (take k (drop j ps))), h)"
  using assms(2)
proof (induction k arbitrary: j)
  case (Suc k)
  then have j: "j < length ps" by simp
  have "take (Suc k) (drop j ps) = ps ! j # take k (drop (Suc j) ps)"
    using Cons_nth_drop_Suc [OF j] by (metis take_Suc_Cons)
  then show ?case using Suc load_len [OF d j] by simp
qed simp

lemma strs_header:
  assumes "str_data cc cb ps (hp_mem h b)" "slice 0 16 (hp_mem h b) = header cc cb (length ps) (tot ps)"
  shows "StrArrReadHeader b h = (Inr (cc, cb, length ps, tot ps), h)"
  by (rule StrArrReadHeader_ok [OF assms(2)]) (use assms(1) in \<open>auto simp: str_data_def\<close>)

lemma array_view_string_field:
  assumes "length (hp_mem h d) = 8 + 16 * n" "f < n" "strs_field h d f ps"
  shows "array_view_string d f h = (Inr ps, h)"
proof (cases "sb (hp_mem h d) f = 0")
  case True
  then show ?thesis
    using assms by (simp add: array_view_string_def array_size_def slot_a_ok strs_field_def)
next
  case False
  let ?b = "sb (hp_mem h d) f"
  have sa: "sa (hp_mem h d) f = length ps" using assms(3) by (simp add: strs_field_def)
  obtain cc cb where dat: "str_data cc cb ps (hp_mem h ?b)"
    and hd: "slice 0 16 (hp_mem h ?b) = header cc cb (length ps) (tot ps)"
    using assms(3) False by (auto simp: strs_field_def str_block_def)
  have "length ps < 2 ^ 32" using dat by (simp add: str_data_def)
  then show ?thesis
    using assms(1,2) sa False strs_header [OF dat hd] view_parts_ok [OF dat, of 0]
    by (cases "ps = []") (simp_all add: array_view_string_def array_size_def slot_a_ok slot_b_ok)
qed

lemma array_get_string_field:
  assumes "length (hp_mem h d) = 8 + 16 * n" "f < n" "strs_field h d f ps"
  shows "array_get_string d f i h = (Inr (if i < length ps then ps ! i else []), h)"
proof (cases "sb (hp_mem h d) f = 0")
  case True
  then show ?thesis
    using assms by (simp add: array_get_string_def array_size_def slot_a_ok strs_field_def)
next
  case False
  let ?b = "sb (hp_mem h d) f"
  have sa: "sa (hp_mem h d) f = length ps" using assms(3) by (simp add: strs_field_def)
  obtain cc cb where dat: "str_data cc cb ps (hp_mem h ?b)"
    and hd: "slice 0 16 (hp_mem h ?b) = header cc cb (length ps) (tot ps)"
    using assms(3) False by (auto simp: strs_field_def str_block_def)
  have len: "length ps < 2 ^ 32" using dat by (simp add: str_data_def)
  show ?thesis
  proof (cases "i < length ps")
    case True
    show ?thesis
      using assms(1,2) sa False len True strs_header [OF dat hd] sum_lens_ok [OF dat, of 0 i]
        load_len [OF dat True] str_data_nth [OF dat True]
      by (simp add: array_get_string_def array_size_def slot_a_ok slot_b_ok load_ok StrArrPayloadOff_def)
  qed (use assms(1,2) sa len in \<open>simp add: array_get_string_def array_size_def slot_a_ok\<close>)
qed

section \<open>Storing and extending\<close>

lemma GrowCap32_bounds:
  "need < 2 ^ 32 \<Longrightarrow> need \<le> GrowCap32 need \<and> GrowCap32 need < 2 ^ 32 \<and> 0 < GrowCap32 need"
  by (auto simp: GrowCap32_def Let_def)

lemma field_cleared:
  assumes wf: "doc_wf L mem d n" and f: "f < n" and "0 \<notin> L"
    and L': "L' = L - {sb (mem d) f}" and root: "mem' d = put_slot f 0 0 (mem d)"
    and others: "\<forall>q\<in>L. q \<noteq> d \<longrightarrow> q \<noteq> sb (mem d) f \<longrightarrow> mem' q = mem q"
  shows "doc_wf L' mem' d n" "kept L mem L' mem' d n f" "sa (mem' d) f = 0" "sb (mem' d) f = 0"
proof -
  have len: "length (mem d) = 8 + 16 * n" by (rule doc_wf_length [OF wf])
  note reads = put_slot_reads [OF len f, where a = 0 and b = 0]
  have dL: "d \<in> L" "d \<noteq> sb (mem d) f" using wf f assms(3) by (auto simp: doc_wf_def)
  show "sa (mem' d) f = 0" "sb (mem' d) f = 0" using reads(1,2) root by simp_all
  show "kept L mem L' mem' d n f" using reads(3,4) others by (auto simp: kept_def root L')
  have sbs: "sb (mem' d) g = (if g = f then 0 else sb (mem d) g)" if "g < n" for g
    using reads(2,4) that by (simp add: root)
  have "le_nat (slice 4 4 (mem' d)) = n" "length (mem' d) = 8 + 16 * n"
    using wf reads(5) [of 4 4] f by (simp_all add: root doc_wf_def)
  moreover have "sb (mem' d) g \<in> L' - {d}" if "g < n" "sb (mem' d) g \<noteq> 0" for g
    using that wf f by (auto simp: sbs L' doc_wf_def split: if_splits)
  moreover have "sb (mem' d) g \<noteq> sb (mem' d) k" if "g < n" "k < n" "g \<noteq> k" "sb (mem' d) g \<noteq> 0" for g k
    using that wf by (auto simp: sbs doc_wf_def split: if_splits)
  ultimately show "doc_wf L' mem' d n" unfolding doc_wf_def using dL by (simp add: L')
qed

context block_allocator
begin

lemma new_strings_cases:
  assumes g: "good (hp_st h)" and cap: "cc < 2 ^ 32" "cb < 2 ^ 32"
    and act: "act = hthen (hmalloc A (StrArrAllocBytes cc cb)) (\<lambda>mem.
       hthen (store mem 0 (replicate (StrArrAllocBytes cc cb) 0)) (\<lambda>_.
       hthen (StrArrWriteHeader mem cc cb m u) (\<lambda>_. k mem)))"
  obtains (thrown) e h' where "act h = (Inl (Thrown e), h')"
    | (block) p h' where "act h = k p h'" "good (hp_st h')" "p \<notin> live (hp_st h)"
      "0 < p" "p < 2 ^ 64" "live (hp_st h') = insert p (live (hp_st h))"
      "\<And>q. q \<noteq> p \<Longrightarrow> hp_mem h' q = hp_mem h q" "str_data cc cb [] (hp_mem h' p)"
      "slice 0 16 (hp_mem h' p) = header cc cb m u"
proof -
  have m: "StrArrAllocBytes cc cb = 16 + 4 * cc + cb" "StrArrAllocBytes cc cb < 2 ^ 63"
    using cap by (simp_all add: StrArrAllocBytes_def StrArrPayloadOff_def)
  show ?thesis
  proof (cases rule: hmalloc_cases [OF g m(2)])
    case (1 e s')
    then show ?thesis using thrown [of e] by (simp add: act)
  next
    case (2 p s')
    let ?z = "replicate (16 + 4 * cc + cb) (0 :: u8)"
    let ?bs = "splice_at 0 (header cc cb m u) ?z"
    let ?h1 = "h\<lparr>hp_st := s', hp_mem := (hp_mem h)(p := ?z)\<rparr>"
    let ?h' = "h\<lparr>hp_st := s', hp_mem := (hp_mem h)(p := ?bs)\<rparr>"
    have "StrArrWriteHeader p cc cb m u ?h1 = (Inr (), ?h')"
      by (simp add: StrArrWriteHeader_ok)
    then have "act h = k p ?h'"
      using 2(1) by (simp add: act m(1) store_ok splice_all)
    moreover have "str_data cc cb [] ?bs" using cap by (simp add: str_data_def slice_def)
    moreover have "slice 0 16 ?bs = header cc cb m u"
      using slice_splice_same [of 0 "header cc cb m u" ?z] by simp
    ultimately show ?thesis using block [of p ?h'] 2 by simp
  qed
qed

lemma array_put_string_ok:
  assumes ok: "doc_ok good live h d n" and f: "f < n"
    and ps: "ps \<noteq> []" "length ps < 2 ^ 32" "tot ps < 2 ^ 32"
  obtains (stored) h' where "array_put_string A d f (Some ps) (length ps) h = (Inr (), h')"
      "doc_ok good live h' d n" "field_kept live h h' d n f" "strs_field h' d f ps"
    | (thrown) e h' where "array_put_string A d f (Some ps) (length ps) h = (Inl (Thrown e), h')"
proof -
  let ?b = "sb (hp_mem h d) f"
  let ?cc = "GrowCap32 (length ps)"
  let ?cb = "GrowCap32 (tot ps)"
  note r = root_other [OF ok f]
  obtain h1 where h1: "free_if A ?b h = (Inr (), h1)" "good (hp_st h1)"
    "live (hp_st h1) = live (hp_st h) - {?b}" "\<And>q. q \<noteq> ?b \<Longrightarrow> hp_mem h1 q = hp_mem h q"
    using free_if_ok [OF ok f refl] by blast
  have t: "total_size ps mod 2 ^ 32 = tot ps" using ps(3) by (simp add: total_size_def tot_def)
  note cap = GrowCap32_bounds [OF ps(2)] GrowCap32_bounds [OF ps(3)]
  define act where "act = hthen (hmalloc A (StrArrAllocBytes ?cc ?cb)) (\<lambda>mem.
       hthen (store mem 0 (replicate (StrArrAllocBytes ?cc ?cb) 0)) (\<lambda>_.
       hthen (StrArrWriteHeader mem ?cc ?cb (length ps) (tot ps)) (\<lambda>_.
       hthen (write_parts mem ?cc 0 0 ps) (\<lambda>_. set_slot d f (length ps) mem))))"
  have eq: "array_put_string A d f (Some ps) (length ps) h = act h1"
    using ps(1) by (simp add: array_put_string_def r(4) h1(1) act_def Let_def t [simplified])
  have caps: "?cc < 2 ^ 32" "?cb < 2 ^ 32" using cap by auto
  show ?thesis
  proof (cases rule: new_strings_cases [OF h1(2) caps act_def])
    case (1 e h')
    then show ?thesis using thrown [of e h'] eq by simp
  next
    case (2 p h2)
    let ?bs = "written ?cc 0 0 ps (hp_mem h2 p)"
    let ?h3 = "h2\<lparr>hp_mem := (hp_mem h2)(p := ?bs)\<rparr>"
    note dat = str_data_written [OF 2(8), of ps, simplified]
    have st: "write_parts p ?cc 0 0 ps h2 = (Inr (), ?h3)"
      by (rule write_parts_ok [where cb = ?cb]) (use cap 2(8) in \<open>auto simp: str_data_def\<close>)
    have blk: "str_block ps ?bs"
      by (rule str_blockI [of ?cc ?cb]) (use dat 2(9) cap in auto)
    have "\<exists>h4. set_slot d f (length ps) p ?h3 = (Inr (), h4) \<and> doc_ok good live h4 d n
        \<and> field_kept live h h4 d n f \<and> sa (hp_mem h4 d) f = length ps \<and> sb (hp_mem h4 d) f = p
        \<and> hp_mem h4 p = hp_mem ?h3 p"
      by (rule install [OF ok f]) (use 2 h1 ps(2) in auto)
    then obtain h4 where h4: "set_slot d f (length ps) p ?h3 = (Inr (), h4)" "doc_ok good live h4 d n"
      "field_kept live h h4 d n f" "sa (hp_mem h4 d) f = length ps" "sb (hp_mem h4 d) f = p"
      "hp_mem h4 p = ?bs" by auto
    have "array_put_string A d f (Some ps) (length ps) h = (Inr (), h4)"
      using eq 2(1) st h4(1) by simp
    moreover have "strs_field h4 d f ps" using h4(4-6) 2(4) blk by (simp add: strs_field_def)
    ultimately show ?thesis using stored h4(2,3) by blast
  qed
qed


text \<open>Appending in place.\<close>

lemma strings_in_place:
  assumes ok: "doc_ok good live h d n" and f: "f < n"
    and b: "b = sb (hp_mem h d) f" "b \<noteq> 0"
    and dat: "str_data cc cb ps (hp_mem h b)"
    and le: "length ps + length qs \<le> cc" "tot ps + tot qs \<le> cb"
  shows "\<exists>h'. hthen (write_parts b cc (length ps) (tot ps) qs) (\<lambda>_.
         hthen (StrArrWriteHeader b cc cb (length ps + length qs) (tot ps + tot qs)) (\<lambda>_.
         set_slot_a d f (length ps + length qs))) h = (Inr (), h')
      \<and> doc_ok good live h' d n \<and> field_kept live h h' d n f \<and> strs_field h' d f (ps @ qs)"
proof -
  note r = root_other [OF ok f]
  let ?w = "written cc (length ps) (tot ps) qs (hp_mem h b)"
  let ?bs = "splice_at 0 (header cc cb (length (ps @ qs)) (tot (ps @ qs))) ?w"
  let ?h2 = "h\<lparr>hp_mem := (hp_mem h)(b := ?w)\<rparr>"
  let ?h3 = "h\<lparr>hp_mem := (hp_mem h)(b := ?bs)\<rparr>"
  note dw = str_data_written [OF dat le]
  have s1: "write_parts b cc (length ps) (tot ps) qs h = (Inr (), ?h2)"
    by (rule write_parts_ok [where cb = cb]) (use dat le in \<open>auto simp: str_data_def\<close>)
  have "16 \<le> length (hp_mem ?h2 b)" using dw(1) by (simp add: str_data_def)
  then have s2: "StrArrWriteHeader b cc cb (length ps + length qs) (tot ps + tot qs) ?h2 = (Inr (), ?h3)"
    using StrArrWriteHeader_ok [of ?h2 b] by simp
  have blive: "b \<in> live (hp_st h)" using r(7) b by simp
  have lens: "length ps + length qs < 2 ^ 64" using le dat by (simp add: str_data_def)
  have "\<exists>h4. set_slot d f (length ps + length qs) b ?h3 = (Inr (), h4) \<and> doc_ok good live h4 d n
      \<and> field_kept live h h4 d n f \<and> sa (hp_mem h4 d) f = length ps + length qs
      \<and> sb (hp_mem h4 d) f = b \<and> hp_mem h4 b = hp_mem ?h3 b"
    by (rule install [OF ok f]) (use b blive r(6) ok lens in \<open>auto simp: doc_ok_def\<close>)
  then obtain h4 where h4: "set_slot d f (length ps + length qs) b ?h3 = (Inr (), h4)"
    "doc_ok good live h4 d n" "field_kept live h h4 d n f" "sa (hp_mem h4 d) f = length ps + length qs"
    "sb (hp_mem h4 d) f = b" "hp_mem h4 b = ?bs" by auto
  have root3: "hp_mem ?h3 d = hp_mem h d" using r(1) b(1) by simp
  have "set_slot_a d f (length ps + length qs) ?h3 = set_slot d f (length ps + length qs) b ?h3"
    using set_slot_a_ok [of ?h3 d n f] set_slot_ok [of ?h3 d n f _ b] r(3) f b(1) root3 by simp
  moreover have "str_block (ps @ qs) ?bs" by (rule str_data_header(2) [OF dw(1)])
  ultimately show ?thesis using s1 s2 h4 b(2) by (auto simp: strs_field_def)
qed

text \<open>Appending into a larger block.\<close>

lemma strings_grow:
  assumes ok: "doc_ok good live h d n" and f: "f < n"
    and b: "b = sb (hp_mem h d) f" "b \<noteq> 0"
    and dat: "str_data cc cb ps (hp_mem h b)"
    and le: "length ps + length qs \<le> cc'" "tot ps + tot qs \<le> cb'" and cap: "cc' < 2 ^ 32" "cb' < 2 ^ 32"
    and act: "act = hthen (hmalloc A (StrArrAllocBytes cc' cb')) (\<lambda>mem.
       hthen (store mem 0 (replicate (StrArrAllocBytes cc' cb') 0)) (\<lambda>_.
       hthen (StrArrWriteHeader mem cc' cb' (length ps + length qs) (tot ps + tot qs)) (\<lambda>_.
       hthen (if 0 < length ps
              then hthen (load b 16 (4 * length ps)) (\<lambda>l. store mem 16 l) else hret ()) (\<lambda>_.
       hthen (if 0 < tot ps
              then hthen (load b (StrArrPayloadOff cc) (tot ps))
                (\<lambda>bs. store mem (StrArrPayloadOff cc') bs) else hret ()) (\<lambda>_.
       hthen (write_parts mem cc' (length ps) (tot ps) qs) (\<lambda>_.
       hthen (hfree A b) (\<lambda>_.
       set_slot d f (length ps + length qs) mem)))))))"
  obtains (stored) h' where "act h = (Inr (), h')"
      "doc_ok good live h' d n" "field_kept live h h' d n f" "strs_field h' d f (ps @ qs)"
    | (thrown) e h' where "act h = (Inl (Thrown e), h')"
proof -
  note r = root_other [OF ok f]
  have g: "good (hp_st h)" using ok by (simp add: doc_ok_def)
  have old: "slice 16 (4 * length ps) (hp_mem h b) = lens ps"
    "slice (16 + 4 * cc) (tot ps) (hp_mem h b) = concat ps" "16 + 4 * length ps \<le> length (hp_mem h b)"
    "16 + 4 * cc + tot ps \<le> length (hp_mem h b)"
    using dat by (simp_all add: str_data_def)
  show ?thesis
  proof (cases rule: new_strings_cases [OF g cap act])
    case (1 e h')
    then show ?thesis using thrown by blast
  next
    case (2 p h2)
    have pb: "p \<noteq> b" using 2(3) r(7) b by auto
    have memb: "hp_mem h2 b = hp_mem h b" using 2(7) pb by simp
    have len: "length (hp_mem h2 p) = 16 + 4 * cc' + cb'" using 2(8) by (simp add: str_data_def)
    let ?b1 = "splice_at 16 (lens ps) (hp_mem h2 p)"
    let ?b2 = "written cc' 0 0 ps (hp_mem h2 p)"
    let ?bs = "written cc' (length ps) (tot ps) qs ?b2"
    let ?h3 = "h2\<lparr>hp_mem := (hp_mem h2)(p := ?b1)\<rparr>"
    let ?h4 = "h2\<lparr>hp_mem := (hp_mem h2)(p := ?b2)\<rparr>"
    let ?h5 = "h2\<lparr>hp_mem := (hp_mem h2)(p := ?bs)\<rparr>"
    have s1: "(if 0 < length ps then hthen (load b 16 (4 * length ps)) (\<lambda>l. store p 16 l) else hret ()) h2
        = (Inr (), ?h3)"
      using old le len by (auto simp: load_ok store_ok memb fun_upd_idem)
    have s2: "(if 0 < tot ps then hthen (load b (StrArrPayloadOff cc) (tot ps))
          (\<lambda>bs. store p (StrArrPayloadOff cc') bs) else hret ()) ?h3 = (Inr (), ?h4)"
    proof (cases "tot ps = 0")
      case True
      then have nil: "concat ps = []" using tot_simps(4) [of ps] by (metis length_0_conv)
      have "?b2 = ?b1" unfolding written_def nil by simp
      then show ?thesis using True by simp
    next
      case False
      then show ?thesis
        using old le len pb by (simp add: load_ok store_ok memb StrArrPayloadOff_def written_def)
    qed
    have le0: "length [] + length ps \<le> cc'" "tot [] + tot ps \<le> cb'" using le by simp_all
    note d2 = str_data_written [OF 2(8) le0, simplified]
    note d3 = str_data_written [OF d2(1) le]
    have s3: "write_parts p cc' (length ps) (tot ps) qs ?h4 = (Inr (), ?h5)"
      using write_parts_ok [of ?h4 p cc' cb' "length ps" qs "tot ps"] d2(1) le
      by (simp add: str_data_def)
    have blive: "good (hp_st ?h5)" "b \<in> live (hp_st ?h5)" using 2(2,6) r(7) b by auto
    obtain s' where h6: "hfree A b ?h5 = (Inr (), ?h5\<lparr>hp_st := s', hp_mem := (hp_mem ?h5)(b := [])\<rparr>)"
      "good s'" "live s' = live (hp_st ?h5) - {b}" using hfree_ok [OF blive] by blast
    let ?h6 = "?h5\<lparr>hp_st := s', hp_mem := (hp_mem ?h5)(b := [])\<rparr>"
    have lens: "length ps + length qs < 2 ^ 64" using le cap by simp
    have "\<exists>h7. set_slot d f (length ps + length qs) p ?h6 = (Inr (), h7) \<and> doc_ok good live h7 d n
        \<and> field_kept live h h7 d n f \<and> sa (hp_mem h7 d) f = length ps + length qs
        \<and> sb (hp_mem h7 d) f = p \<and> hp_mem h7 p = hp_mem ?h6 p"
      by (rule install [OF ok f]) (use 2 h6 lens b pb in auto)
    then obtain h7 where h7: "set_slot d f (length ps + length qs) p ?h6 = (Inr (), h7)"
      "doc_ok good live h7 d n" "field_kept live h h7 d n f"
      "sa (hp_mem h7 d) f = length ps + length qs" "sb (hp_mem h7 d) f = p" "hp_mem h7 p = ?bs"
      using pb by auto
    have "act h = (Inr (), h7)"
      unfolding 2(1) using s1 s2 s3 h6(1) h7(1) by simp
    moreover have "str_block (ps @ qs) ?bs"
      by (rule str_blockI [OF d3(1)]) (use d3(2) d2(2) 2(9) in simp)
    ultimately show ?thesis using stored h7 2(4) by (simp add: strs_field_def)
  qed
qed


lemma array_append_strings_ok:
  assumes ok: "doc_ok good live h d n" and f: "f < n" and fld: "strs_field h d f ps"
    and qs: "length ps + length qs < 2 ^ 32" "tot ps + tot qs < 2 ^ 32"
  obtains (stored) h' where "array_append_strings A d f (Some qs) (length qs) h = (Inr (), h')"
      "doc_ok good live h' d n" "field_kept live h h' d n f" "strs_field h' d f (ps @ qs)"
    | (thrown) e h' where "array_append_strings A d f (Some qs) (length qs) h = (Inl (Thrown e), h')"
proof -
  let ?b = "sb (hp_mem h d) f"
  note r = root_other [OF ok f]
  consider "qs = []" | "qs \<noteq> []" "?b = 0" | "qs \<noteq> []" "?b \<noteq> 0" by blast
  then show ?thesis
  proof cases
    case 1
    then show ?thesis
      using stored [of h] ok fld by (simp add: array_append_strings_def field_kept_def kept_def)
  next
    case 2
    then have ps: "ps = []" using fld by (simp add: strs_field_def)
    have eq: "array_append_strings A d f (Some qs) (length qs) h = array_put_string A d f (Some qs) (length qs) h"
      using 2 by (simp add: array_append_strings_def r(4))
    have b: "length qs < 2 ^ 32" "tot qs < 2 ^ 32" using qs by auto
    show ?thesis
      by (rule array_put_string_ok [OF ok f 2(1) b]) (use stored thrown eq ps in auto)
  next
    case 3
    obtain cc cb where dat: "str_data cc cb ps (hp_mem h ?b)"
      and hd: "slice 0 16 (hp_mem h ?b) = header cc cb (length ps) (tot ps)"
      using fld 3(2) by (auto simp: strs_field_def str_block_def)
    have need: "total_size qs = tot qs" "(tot ps + tot qs) mod 2 ^ 64 = tot ps + tot qs"
      "(length ps + length qs) mod 2 ^ 32 = length ps + length qs" "(tot ps + tot qs) mod 2 ^ 32 = tot ps + tot qs"
      using qs by (simp_all add: total_size_def tot_def)
    let ?cc = "if cc < length ps + length qs then GrowCap32 (length ps + length qs) else cc"
    let ?cb = "if cb < tot ps + tot qs then GrowCap32 (tot ps + tot qs) else cb"
    show ?thesis
    proof (cases "length ps + length qs \<le> cc \<and> tot ps + tot qs \<le> cb")
      case True
      then show ?thesis
        using strings_in_place [OF ok f refl 3(2) dat, of qs] stored 3
        by (auto simp: array_append_strings_def r(4) strs_header [OF dat hd] Let_def need [simplified])
    next
      case False
      have caps: "length ps + length qs \<le> ?cc" "tot ps + tot qs \<le> ?cb" "?cc < 2 ^ 32" "?cb < 2 ^ 32"
        using GrowCap32_bounds [OF qs(1)] GrowCap32_bounds [OF qs(2)] dat by (auto simp: str_data_def)
      define act where "act = hthen (hmalloc A (StrArrAllocBytes ?cc ?cb)) (\<lambda>mem.
         hthen (store mem 0 (replicate (StrArrAllocBytes ?cc ?cb) 0)) (\<lambda>_.
         hthen (StrArrWriteHeader mem ?cc ?cb (length ps + length qs) (tot ps + tot qs)) (\<lambda>_.
         hthen (if 0 < length ps
                then hthen (load ?b 16 (4 * length ps)) (\<lambda>l. store mem 16 l) else hret ()) (\<lambda>_.
         hthen (if 0 < tot ps
                then hthen (load ?b (StrArrPayloadOff cc) (tot ps))
                  (\<lambda>bs. store mem (StrArrPayloadOff ?cc) bs) else hret ()) (\<lambda>_.
         hthen (write_parts mem ?cc (length ps) (tot ps) qs) (\<lambda>_.
         hthen (hfree A ?b) (\<lambda>_.
         set_slot d f (length ps + length qs) mem)))))))"
      have eq: "array_append_strings A d f (Some qs) (length qs) h = act h"
        using False 3 unfolding act_def
        by (simp only: array_append_strings_def option.case if_False length_0_conv
            hthen_ret(1) [where m = "slot_b d f" and h = h, OF r(4)] Let_def take_all order_refl need
            hthen_ret(1) [where m = "StrArrReadHeader ?b" and h = h, OF strs_header [OF dat hd]] case_prod_conv)
      show ?thesis
        by (rule strings_grow [OF ok f refl 3(2) dat caps(1,2) caps(3,4) act_def])
          (use stored thrown eq in auto)
    qed
  qed
qed

end

end
