(* ===== verification/DocArena.thy ===== *)
theory DocArena
  imports Allocator DocStrings
begin

text \<open>
  Documents in the modelled arena: the allocator of \<open>Blocks\<close> keeps the contract documents rely
  on, so the guarantees of \<open>DocCorrect\<close> and \<open>DocStrings\<close> hold for documents in an arena.
\<close>

section \<open>The arena as a block allocator\<close>

definition arena_allocator :: "(string \<Rightarrow> bool \<Rightarrow> bool) \<Rightarrow> nat \<Rightarrow> u64 \<Rightarrow> (nat \<Rightarrow> nat \<Rightarrow> u8) \<Rightarrow> arena Allocator" where
  "arena_allocator os t now junk =
     \<lparr>al_malloc = (\<lambda>n. Malloc os 1 t now (of_nat n)), al_free = (\<lambda>p. Free t now p Delayed), al_junk = junk\<rparr>"

definition arena_good :: "arena \<Rightarrow> bool" where
  "arena_good a \<longleftrightarrow> arena_inv a \<and> arena_size a + kHeaderSize \<le> 2 ^ 64"

definition payloads :: "arena \<Rightarrow> nat set" where
  "payloads a = (\<lambda>x. x + kHeaderSize) ` live a"

text \<open>The size of the arena never changes after it is opened.\<close>

lemma arena_size_upd [simp]:
  "arena_size (upd_class cid g a) = arena_size a" "arena_size (upd_hdr off k a) = arena_size a"
  "arena_size (set_tlc t cid xs a) = arena_size a" "arena_size (count_alloc n a) = arena_size a"
  "arena_size (count_delayed n a) = arena_size a" "arena_size (uncount_delayed a) = arena_size a"
  "arena_size (push_free cid off a) = arena_size a" "arena_size (init_block cid off a) = arena_size a"
  "arena_size (mark_delayed now off a) = arena_size a"
  by (simp_all add: upd_class_def upd_hdr_def set_tlc_def count_alloc_def count_delayed_def
      uncount_delayed_def push_free_def init_block_def mark_delayed_def)

lemma arena_size_refill [simp]: "arena_size (refill t cid n a) = arena_size a"
  by (induction n arbitrary: a) (simp_all add: Let_def)

lemma arena_size_alloc_pages: "alloc_pages os ub n (a :: arena) = (r, a1) \<Longrightarrow> arena_size a1 = arena_size a"
  by (drule alloc_pages_frame) auto

lemma arena_size_fold_init [simp]: "arena_size (fold (\<lambda>i. init_block cid (g i)) xs a) = arena_size a"
  by (induction xs arbitrary: a) simp_all

lemma arena_size_fill:
  assumes "fill_class os ub cid a = (e, a')"
  shows "arena_size a' = arena_size a"
proof -
  obtain r a1 where al: "alloc_pages os ub (pages_per_slab (klass a cid)) a = (r, a1)"
    by (cases "alloc_pages os ub (pages_per_slab (klass a cid)) a")
  note sz = arena_size_alloc_pages [OF al]
  show ?thesis
  proof (cases r)
    case (Inl err)
    then show ?thesis using assms al sz by (simp add: fill_class_def)
  next
    case (Inr off)
    have "arena_size (snd (fill_class os ub cid a)) = arena_size a1"
      by (simp add: fill_class_def al Inr Let_def)
    then show ?thesis using assms sz by simp
  qed
qed

lemma arena_size_malloc_small: "malloc_small os ub t cid a = (r, a1) \<Longrightarrow> arena_size a1 = arena_size a"
  by (auto simp: malloc_small_def Let_def dest!: arena_size_fill
      split: list.splits prod.splits option.splits if_splits)

lemma arena_size_malloc_large: "malloc_large os ub sz a = (r, a1) \<Longrightarrow> arena_size a1 = arena_size a"
  by (auto simp: malloc_large_def Let_def dest!: arena_size_alloc_pages split: prod.splits sum.splits)

lemma arena_size_reclaim_class: "arena_size (snd (reclaim_class cutoff cid k n a)) = arena_size a"
  by (induction cutoff cid k n a rule: reclaim_class.induct) (simp_all add: Let_def)

lemma arena_size_reclaim_classes:
  "reclaim_classes cutoff cids n a = (r, a') \<Longrightarrow> arena_size a' = arena_size a"
proof (induction cids arbitrary: n a)
  case (Cons cid cids)
  obtain r1 a1 where r1: "reclaim_class cutoff cid (Suc (arena_size a)) n a = (r1, a1)"
    by (cases "reclaim_class cutoff cid (Suc (arena_size a)) n a")
  have "arena_size a1 = arena_size a"
    using arena_size_reclaim_class [of cutoff cid "Suc (arena_size a)" n a] r1 by simp
  then show ?case using Cons r1 by (cases r1) (auto simp del: reclaim_class.simps)
qed simp

lemma arena_size_free_pages: "free_pages off c (a :: arena) = (e, a1) \<Longrightarrow> arena_size a1 = arena_size a"
  by (auto simp: free_pages_def Let_def split: if_splits prod.splits bool.splits)

lemma arena_size_reclaim_large: "reclaim_large cutoff k n a = (r, a') \<Longrightarrow> arena_size a' = arena_size a"
proof (induction cutoff k n a rule: reclaim_large.induct)
  case (2 cutoff fuel n a)
  let ?d = "delayed_large_head a"
  let ?a2 = "uncount_delayed (upd_hdr ?d (\<lambda>h. h\<lparr>hb_flags := 0\<rparr>) (a\<lparr>delayed_large_head := link a ?d,
      delayed_large_tail := (if link a ?d = 0 then 0 else delayed_large_tail a)\<rparr>))"
  obtain e a3 where fp: "free_pages (?d - kLargeExtSize) (exts ?a2 (?d - kLargeExtSize)) ?a2 = (e, a3)"
    by (cases "free_pages (?d - kLargeExtSize) (exts ?a2 (?d - kLargeExtSize)) ?a2")
  have sz: "arena_size a3 = arena_size a" using arena_size_free_pages [OF fp] by simp
  consider "?d = 0 \<or> cutoff < stamp a ?d" | "?d \<noteq> 0" "\<not> cutoff < stamp a ?d" by blast
  then show ?case
  proof cases
    case 1
    then show ?thesis using 2(2) by (auto simp: Let_def split: if_splits)
  next
    case c: 2
    show ?thesis
    proof (cases e)
      case None
      have "reclaim_large cutoff fuel (n + 1) a3 = (r, a')"
        using 2(2) c by (simp add: Let_def fp None)
      then show ?thesis using 2(1) [OF refl c refl refl refl fp [symmetric] None] sz by simp
    next
      case (Some err)
      then show ?thesis using 2(2) c sz by (simp add: Let_def fp)
    qed
  qed
qed simp

lemma arena_size_maybe_reclaim: "maybe_reclaim_expired now a = (e, a') \<Longrightarrow> arena_size a' = arena_size a"
  by (auto simp: maybe_reclaim_expired_def reclaim_with_cutoff_def Let_def
      dest!: arena_size_reclaim_classes arena_size_reclaim_large simp del: reclaim_large.simps
      split: if_splits prod.splits sum.splits)

lemma arena_size_Malloc:
  assumes "Malloc os ub t now sz a = (r, a')"
  shows "arena_size a' = arena_size a"
proof -
  define m where "m = (case find_class (class_sizes a) sz of
      Some cid \<Rightarrow> malloc_small os ub t cid a | None \<Rightarrow> malloc_large os ub sz a)"
  obtain r1 a1 where m1: "m = (r1, a1)" by (cases m)
  have "arena_size a1 = arena_size a"
    using m1 arena_size_malloc_small arena_size_malloc_large by (fastforce simp: m_def split: option.splits)
  then show ?thesis
    using assms m1 arena_size_maybe_reclaim
    by (fastforce simp: Malloc_def m_def split: if_splits sum.splits prod.splits option.splits)
qed

lemma arena_size_Free: "Free t now p Delayed a = (e, a') \<Longrightarrow> arena_size a' = arena_size a"
  by (auto simp: Free_def free_small_delayed_def free_large_delayed_def Let_def
      split: if_splits sum.splits)

lemma live_below:
  assumes "arena_inv a" "x \<in> live a"
  shows "x < arena_size a"
proof -
  from assms(1) obtain own role F D L where b: "blocks_inv a own role F D L" by (rule arena_invE)
  obtain r where "role x = Some r" using assms(2) blocks_invD(6) [OF b] by (auto simp: lv_def)
  then show ?thesis by (rule role_below [OF b])
qed

lemma header_8: "kHeaderSize = 8" "kLargeHdrSize < 2 ^ 32"
  by (simp_all add: size_consts)

lemma request_size:
  assumes "n < 2 ^ 63"
  shows "unat (of_nat n :: u64) = n" "unat (of_nat n :: u64) + kLargeHdrSize < 2 ^ 64"
proof -
  show un: "unat (of_nat n :: u64) = n" using assms by (simp add: unat_of_nat take_bit_nat_eq_self)
  then show "unat (of_nat n :: u64) + kLargeHdrSize < 2 ^ 64" using assms header_8 by simp
qed

interpretation arena_docs: block_allocator "arena_allocator os t now junk" arena_good payloads
proof unfold_locales
  fix a n p a'
  assume g: "arena_good a" and n: "n < 2 ^ 63" and m: "al_malloc (arena_allocator os t now junk) n a = (Inr p, a')"
  have inv: "arena_inv a" and m': "Malloc os 1 t now (of_nat n) a = (Inr p, a')"
    using g m by (simp_all add: arena_good_def arena_allocator_def)
  obtain x where x: "arena_inv a'" "p = x + kHeaderSize" "x \<notin> live a" "live a' = insert x (live a)"
    "{p..<p + n} \<subseteq> extent a' x"
    using Malloc_spec [OF inv m' request_size(2) [OF n]] request_size(1) [OF n] by auto
  have s: "arena_size a' = arena_size a" by (rule arena_size_Malloc [OF m'])
  have "x < arena_size a'" using live_below [OF x(1), of x] x(4) by simp
  then have "p < 2 ^ 64" using g s x(2) by (simp add: arena_good_def)
  then show "arena_good a' \<and> p \<notin> payloads a \<and> p < 2 ^ 64 \<and> payloads a' = insert p (payloads a)"
    using x g s by (auto simp: arena_good_def payloads_def)
next
  fix a n e a'
  assume g: "arena_good a" and n: "n < 2 ^ 63" and m: "al_malloc (arena_allocator os t now junk) n a = (Inl e, a')"
  have inv: "arena_inv a" and m': "Malloc os 1 t now (of_nat n) a = (Inl e, a')"
    using g m by (simp_all add: arena_good_def arena_allocator_def)
  from Malloc_spec [OF inv m' request_size(2) [OF n]] arena_size_Malloc [OF m'] g
  show "arena_good a' \<and> payloads a' = payloads a" by (simp add: arena_good_def payloads_def)
next
  fix a p assume g: "arena_good a" and p: "p \<in> payloads a"
  then obtain x where x: "x \<in> live a" "p = x + kHeaderSize" by (auto simp: payloads_def)
  obtain a' where a': "Free t now p Delayed a = (None, a')" "arena_inv a'" "live a' = live a - {x}"
    using Free_spec [of a x t now Delayed] g x unfolding arena_good_def by blast
  have "payloads a' = payloads a - {p}" unfolding payloads_def a'(3) x(2) by auto
  then show "\<exists>a'. al_free (arena_allocator os t now junk) p a = (None, a') \<and> arena_good a' \<and> payloads a' = payloads a - {p}"
    using a' g arena_size_Free [OF a'(1)] by (simp add: arena_allocator_def arena_good_def)
next
  fix a assume "arena_good a"
  then show "0 \<notin> payloads a" by (auto simp: payloads_def header_8)
qed

section \<open>Properties\<close>

text \<open>
  (C32) Strings are stored safely.  In an arena that satisfies its invariant, storing a string in a
  field of a well-formed document never touches memory outside its blocks: it either throws
  what the allocator threw, or the document is well formed afterwards, the field reads back
  as the string stored, every other field reads as before and every other live block of the
  arena is still live with the same bytes.
\<close>

theorem doc_string_roundtrip:
  assumes "doc_ok arena_good payloads h d n" "f < n" "length v < 2 ^ 63"
    and "put_string (arena_allocator os t now junk) d f v h = (r, h')"
  shows "case r of
      Inl e \<Rightarrow> \<exists>e'. e = Thrown e'
    | Inr _ \<Rightarrow> doc_ok arena_good payloads h' d n \<and> get_string d f h' = (Inr v, h')
        \<and> (\<forall>g<n. g \<noteq> f \<longrightarrow> fst (get_string d g h') = fst (get_string d g h))
        \<and> field_kept payloads h h' d n f"
proof (cases rule: arena_docs.put_string_ok [OF assms(1-3), of os t now junk])
  case (1 h1)
  then have h1: "r = Inr ()" "h1 = h'" using assms(4) by simp_all
  have len: "length (hp_mem h' d) = 8 + 16 * n" using 1(2) by (simp add: h1 doc_ok_def doc_wf_def)
  have "get_string d f h' = (Inr v, h')" using get_string_field [OF len assms(2)] 1(4) by (simp add: h1)
  then show ?thesis
    using 1 assms(1,2) kept_get_string [of payloads h h' d n f, OF _ _ len assms(2)] by (simp add: h1 doc_ok_def)
next
  case (2 e h1)
  then show ?thesis using assms(4) by simp
qed

definition demo_root :: bytes where
  "demo_root = splice_at 4 (le_bytes 4 312) (splice_at 0 (le_bytes 4 7) (replicate (8 + 16 * 312) 0))"

text \<open>A document with 312 empty slots in the block at 8208 of the example arena.\<close>

definition demo_docs :: "arena heap" where
  "demo_docs = \<lparr>hp_st = demo_heap2, hp_mem = (\<lambda>_. [])(8208 := demo_root)\<rparr>"

lemma demo_root_fields:
  "length demo_root = 8 + 16 * 312" "le_nat (slice 4 4 demo_root) = 312"
  "f < 312 \<Longrightarrow> sa demo_root f = 0 \<and> sb demo_root f = 0"
  using new_root [where n = 312 and i = 7] unfolding demo_root_def by auto

lemma demo_size: "arena_size demo_heap2 = 1056768"
proof -
  have "arena_size demo_heap = 1056768"
    by (simp add: demo_heap_def fresh_arena_def Let_def clear_tlc_def demo_opts_def demo_pages fresh_pages_fields(7))
  moreover have "arena_size demo_heap2 = arena_size demo_heap1" "arena_size demo_heap1 = arena_size demo_heap"
    unfolding demo_heap1_def demo_heap2_def by (rule arena_size_Malloc, rule surjective_pairing)+
  ultimately show ?thesis by simp
qed

lemma demo_arena_good: "arena_good demo_heap2"
  using demo_heaps(3) demo_size by (simp add: arena_good_def size_consts)

lemma demo_payloads: "payloads demo_heap2 = {8208, 16400}"
  by (simp add: payloads_def demo_heaps(4) size_consts insert_commute)

lemma demo_docs_ok: "doc_ok arena_good payloads demo_docs 8208 312"
  using demo_arena_good demo_root_fields
  by (simp add: doc_ok_def doc_wf_def demo_docs_def demo_payloads)

theorem doc_string_roundtrip_witness:
  "case put_string (arena_allocator (\<lambda>_ _. True) 0 0 (\<lambda>_ _. 0)) 8208 3 [104, 105] demo_docs of
     (Inl e, h') \<Rightarrow> e \<noteq> OutOfBounds
   | (Inr _, h') \<Rightarrow> get_string 8208 3 h' = (Inr [104, 105], h')"
  using doc_string_roundtrip [where f = 3 and v = "[104, 105]" and os = "\<lambda>_ _. True" and t = 0 and now = 0
      and junk = "\<lambda>_ _. 0", OF demo_docs_ok _ _ surjective_pairing]
  by (auto split: prod.splits sum.splits)

text \<open>
  (C33) Appending to an array appends.  On a field that holds the elements \<open>xs\<close> of an element
  type of up to 8 bytes, the single append, in place or into a larger block, gives \<open>xs @ [v]\<close> and the
  batch append gives \<open>xs @ ys\<close>: the array view then reads exactly these bytes, the capacity stored in the
  block covers them, everything else is kept, and only the allocator can make either fail.
\<close>

theorem doc_array_append:
  assumes "doc_ok arena_good payloads h d n" "f < n" "array_field w h d f xs"
    and "0 < w" "w \<le> 8" "length xs + length ys < 2 ^ 32" "\<forall>y\<in>set ys. length y = w" "length v = w"
    and "array_append_batch_impl (arena_allocator os t now junk) w d f (Some ys) (length ys) h = (r, h')"
    and "array_append_impl (arena_allocator os t now junk) w d f v h = (r1, h1)"
  shows "(case r of
      Inl e \<Rightarrow> \<exists>e'. e = Thrown e'
    | Inr _ \<Rightarrow> doc_ok arena_good payloads h' d n \<and> array_field w h' d f (xs @ ys)
        \<and> array_view w d f h' = (Inr (concat (xs @ ys)), h') \<and> field_kept payloads h h' d n f)
    \<and> (case r1 of
      Inl e \<Rightarrow> \<exists>e'. e = Thrown e'
    | Inr _ \<Rightarrow> doc_ok arena_good payloads h1 d n \<and> array_field w h1 d f (xs @ [v])
        \<and> field_kept payloads h h1 d n f)"
proof
  have b: "length ys < 2 ^ 32" "length xs < 2 ^ 54" "length xs < 2 ^ 55" using assms(6) by simp_all
  show "case r of
      Inl e \<Rightarrow> \<exists>e'. e = Thrown e'
    | Inr _ \<Rightarrow> doc_ok arena_good payloads h' d n \<and> array_field w h' d f (xs @ ys)
        \<and> array_view w d f h' = (Inr (concat (xs @ ys)), h') \<and> field_kept payloads h h' d n f"
  proof (cases rule: arena_docs.array_append_batch_ok [OF assms(1-3,7,4,5) b(1,2), of os t now junk])
    case (1 h2)
    have "length (hp_mem h2 d) = 8 + 16 * n" using 1(2) by (simp add: doc_ok_def doc_wf_def)
    then have "array_view w d f h2 = (Inr (concat (xs @ ys)), h2)"
      using array_view_field [OF _ assms(2) 1(4)] assms(6) by simp
    then show ?thesis using 1 assms(9) by simp
  next
    case (2 e h2)
    then show ?thesis using assms(9) by simp
  qed
  show "case r1 of
      Inl e \<Rightarrow> \<exists>e'. e = Thrown e'
    | Inr _ \<Rightarrow> doc_ok arena_good payloads h1 d n \<and> array_field w h1 d f (xs @ [v])
        \<and> field_kept payloads h h1 d n f"
    by (cases rule: arena_docs.array_append_ok [OF assms(1-3,8,5) b(3), of os t now junk])
      (use assms(10) in simp_all)
qed

lemma demo_empty_field: "f < 312 \<Longrightarrow> array_field w demo_docs 8208 f []" "f < 312 \<Longrightarrow> strs_field demo_docs 8208 f []"
  using demo_root_fields(3) by (simp_all add: array_field_def strs_field_def demo_docs_def)

theorem doc_array_append_witness:
  "case array_append_batch_impl (arena_allocator (\<lambda>_ _. True) 0 0 (\<lambda>_ _. 0)) 4 8208 3
      (Some [le_bytes 4 7, le_bytes 4 9]) (Suc (Suc 0)) demo_docs of
     (Inl e, h') \<Rightarrow> e \<noteq> OutOfBounds
   | (Inr _, h') \<Rightarrow> array_field 4 h' 8208 3 [le_bytes 4 7, le_bytes 4 9]"
  using doc_array_append [where f = 3 and w = 4 and xs = "[]" and ys = "[le_bytes 4 7, le_bytes 4 9]"
      and v = "le_bytes 4 7" and os = "\<lambda>_ _. True" and t = 0 and now = 0 and junk = "\<lambda>_ _. 0",
      OF demo_docs_ok _ demo_empty_field(1) _ _ _ _ _ surjective_pairing surjective_pairing]
  by (auto split: prod.splits sum.splits)

text \<open>
  (C34) String arrays: appending strings to a field that holds \<open>ps\<close> gives \<open>ps @ qs\<close>, as long as count and
  bytes stay below the 32-bit limits of the block header; the view returns exactly these
  strings, element access returns the element (and the empty string past the end), and
  everything else is kept.
\<close>

theorem doc_strings_append:
  assumes "doc_ok arena_good payloads h d n" "f < n" "strs_field h d f ps"
    and "length ps + length qs < 2 ^ 32" "tot ps + tot qs < 2 ^ 32"
    and "array_append_strings (arena_allocator os t now junk) d f (Some qs) (length qs) h = (r, h')"
  shows "case r of
      Inl e \<Rightarrow> \<exists>e'. e = Thrown e'
    | Inr _ \<Rightarrow> doc_ok arena_good payloads h' d n \<and> strs_field h' d f (ps @ qs)
        \<and> array_view_string d f h' = (Inr (ps @ qs), h')
        \<and> array_get_string d f i h' = (Inr (if i < length (ps @ qs) then (ps @ qs) ! i else []), h')
        \<and> field_kept payloads h h' d n f"
proof (cases rule: arena_docs.array_append_strings_ok [OF assms(1-5), of os t now junk])
  case (1 h2)
  have "length (hp_mem h2 d) = 8 + 16 * n" using 1(2) by (simp add: doc_ok_def doc_wf_def)
  then have "array_view_string d f h2 = (Inr (ps @ qs), h2)"
    "array_get_string d f i h2 = (Inr (if i < length (ps @ qs) then (ps @ qs) ! i else []), h2)"
    using array_view_string_field [OF _ assms(2) 1(4)] array_get_string_field [OF _ assms(2) 1(4)] by auto
  then show ?thesis using 1 assms(6) by simp
next
  case (2 e h2)
  then show ?thesis using assms(6) by simp
qed

theorem doc_strings_append_witness:
  "case array_append_strings (arena_allocator (\<lambda>_ _. True) 0 0 (\<lambda>_ _. 0)) 8208 3
      (Some [[104, 105], []]) (Suc (Suc 0)) demo_docs of
     (Inl e, h') \<Rightarrow> e \<noteq> OutOfBounds
   | (Inr _, h') \<Rightarrow> array_view_string 8208 3 h' = (Inr [[104, 105], []], h')"
  using doc_strings_append [where f = 3 and ps = "[]" and qs = "[[104, 105], []]" and i = 0
      and os = "\<lambda>_ _. True" and t = 0 and now = 0 and junk = "\<lambda>_ _. 0",
      OF demo_docs_ok _ demo_empty_field(2) _ _ surjective_pairing]
  by (auto split: prod.splits sum.splits)

text \<open>
  A failed allocation leaves a dangling slot.  \<^verbatim>\<open>put_string\<close> frees the old payload before it
  allocates the new one; when the allocation throws, the slot still holds the offset of the
  freed block, which is no longer live, so a later read, overwrite or \<^verbatim>\<open>Retire\<close> uses it again.
\<close>

theorem put_string_failure_dangles:
  assumes "doc_ok arena_good payloads h d n" "f < n" "length v < 2 ^ 63"
    and "sb (hp_mem h d) f \<noteq> 0" "put_string (arena_allocator os t now junk) d f v h = (Inl e, h')"
  shows "sb (hp_mem h' d) f = sb (hp_mem h d) f \<and> sb (hp_mem h' d) f \<notin> payloads (hp_st h')"
  by (rule arena_docs.put_string_thrown [OF assms])

text \<open>A request larger than the arena cannot succeed.\<close>

lemma Malloc_too_large:
  assumes "arena_inv a" "arena_size a \<le> n" "n < 2 ^ 63"
  shows "\<exists>e a'. Malloc os 1 t now (of_nat n) a = (Inl e, a')"
proof (rule ccontr)
  assume "\<not> ?thesis"
  then obtain p a' where m: "Malloc os 1 t now (of_nat n) a = (Inr p, a')"
    by (metis old.sum.exhaust surj_pair)
  obtain x where y: "arena_inv a'" "p = x + kHeaderSize" "live a' = insert x (live a)" "{p..<p + n} \<subseteq> extent a' x"
    using Malloc_spec [OF assms(1) m request_size(2) [OF assms(3)]] request_size(1) [OF assms(3)] by auto
  then have x: "arena_inv a'" "x \<in> live a'" "{p..<p + n} \<subseteq> extent a' x" "0 < p" by (auto simp: header_8)
  from x(1) obtain own role F D L where b: "blocks_inv a' own role F D L" by (rule arena_invE)
  note i = blocks_invD [OF b]
  obtain r where r: "role x = Some r" using x(2) i(6) by (auto simp: lv_def)
  obtain s g where s: "own s = Some (s, g)" "extent a' x \<subseteq> region_bytes a' s g"
    using extent_in_region [OF i(2) role_okD [OF i(4) r]] by blast
  have "z < arena_size a'" if "z \<in> extent a' x" for z using region_below [OF b s(1)] s(2) that by auto
  moreover have "n \<noteq> 0 \<Longrightarrow> p + n - 1 \<in> extent a' x" using x(3) by auto
  moreover have "n \<noteq> 0" using assms(1,2) live_below [OF x(1,2)] arena_size_Malloc [OF m] by auto
  ultimately show False using assms(2) arena_size_Malloc [OF m] x(4) by fastforce
qed

text \<open>The same document with a string in slot 3, stored in the block at 16400.\<close>

definition demo_docs2 :: "arena heap" where
  "demo_docs2 = \<lparr>hp_st = demo_heap2, hp_mem = (\<lambda>_. [])(8208 := put_slot 3 2 16400 demo_root, 16400 := [104, 105])\<rparr>"

lemma demo_docs2_ok: "doc_ok arena_good payloads demo_docs2 8208 312" "sb (hp_mem demo_docs2 8208) 3 = 16400"
proof -
  have wf: "doc_wf (payloads demo_heap2) (hp_mem demo_docs) 8208 312" and z: "0 \<notin> payloads demo_heap2"
    using demo_docs_ok by (simp_all add: doc_ok_def demo_docs_def demo_payloads)
  have sb0: "sb (hp_mem demo_docs 8208) 3 = 0" using demo_root_fields(3) [of 3] by (simp add: demo_docs_def)
  have wf': "doc_wf {8208} (hp_mem demo_docs) 8208 312"
    using demo_root_fields by (simp add: doc_wf_def demo_docs_def)
  have L: "payloads demo_heap2 = insert 16400 ({8208} - {sb (hp_mem demo_docs 8208) 3})"
    by (simp add: demo_payloads sb0 insert_commute)
  have root: "hp_mem demo_docs2 8208 = put_slot 3 2 16400 (hp_mem demo_docs 8208)"
    by (simp add: demo_docs2_def demo_docs_def)
  note rep = field_replaced [where L = "{8208}" and mem = "hp_mem demo_docs" and mem' = "hp_mem demo_docs2"
      and d = 8208 and n = 312 and f = 3 and a = 2 and p = 16400, OF wf' _ _ _ _ _ L root]
  show "doc_ok arena_good payloads demo_docs2 8208 312" "sb (hp_mem demo_docs2 8208) 3 = 16400"
    using rep(1,4) demo_arena_good sb0 by (simp_all add: doc_ok_def demo_docs2_def)
qed

theorem put_string_failure_dangles_witness:
  "\<exists>e h'. put_string (arena_allocator (\<lambda>_ _. True) 0 0 (\<lambda>_ _. 0)) 8208 3 (replicate 2000000 0) demo_docs2 = (Inl e, h')
     \<and> sb (hp_mem h' 8208) 3 = 16400 \<and> 16400 \<notin> payloads (hp_st h')"
proof -
  let ?A = "arena_allocator (\<lambda>_ _. True) 0 0 (\<lambda>_ _. 0)"
  have "\<exists>e h'. put_string ?A 8208 3 (replicate 2000000 0) demo_docs2 = (Inl e, h')"
  proof -
    have good: "arena_inv demo_heap2" "16392 \<in> live demo_heap2" "arena_size demo_heap2 \<le> 2000000"
      using demo_heaps(3,4) demo_size by simp_all
    obtain a1 where a1: "Free 0 0 16400 Delayed demo_heap2 = (None, a1)" "arena_inv a1"
      using Free_spec [OF good(1,2), of 0 0 Delayed] by (auto simp: size_consts)
    have "arena_size a1 \<le> 2000000" using arena_size_Free [OF a1(1)] good(3) by simp
    then obtain e a2 where a2: "Malloc (\<lambda>_ _. True) 1 0 0 (of_nat 2000000) a1 = (Inl e, a2)"
      using Malloc_too_large [OF a1(2), of 2000000 "\<lambda>_ _. True" 0 0] by auto
    have "slot_b 8208 3 demo_docs2 = (Inr 16400, demo_docs2)"
      using slot_b_ok [of demo_docs2 8208 312 3] demo_docs2_ok by (simp add: doc_ok_def doc_wf_def)
    then show ?thesis
      using a1(1) a2
      by (simp add: put_string_def free_if_def hfree_def hmalloc_def arena_allocator_def demo_docs2_def)
  qed
  then obtain e h' where e: "put_string ?A 8208 3 (replicate 2000000 0) demo_docs2 = (Inl e, h')" by blast
  then show ?thesis
    using put_string_failure_dangles [OF demo_docs2_ok(1) _ _ _ e] by (auto simp: demo_docs2_ok(2))
qed

end
