(* ===== verification/IndexArena.thy ===== *)
theory IndexArena
  imports IndexQuery DocArena
begin

text \<open>
  Both indexes on the modelled arena: the allocator of \<open>Blocks\<close> also keeps the upkeep contract, so
  what \<open>IndexKV\<close>, \<open>IndexInverted\<close> and \<open>IndexQuery\<close> show holds for indexes stored in an arena.
\<close>

section \<open>The arena as an upkept allocator\<close>

definition arena_upkeep :: "nat \<Rightarrow> u64 \<Rightarrow> arena upkeep" where
  "arena_upkeep t now = \<lparr>up_flush = FlushTlc t, up_reclaim = ReclaimExpired now\<rparr>"

lemma flush_classes_keeps: "keeps a (fold (flush_tlc_class t) cids a)"
proof (induction cids arbitrary: a)
  case (Cons cid cids)
  show ?case using keeps_trans [OF flush_n_keeps Cons.IH] by (simp add: flush_tlc_class_def)
qed simp

lemma arena_size_flush_n: "arena_size (flush_n t cid n a) = arena_size a"
  by (induction n arbitrary: a) (simp_all add: give_back_def split: list.split)

lemma arena_size_FlushTlc: "arena_size (FlushTlc t a) = arena_size a"
proof -
  have "arena_size (fold (flush_tlc_class t) cids a) = arena_size a" for cids
    by (induction cids arbitrary: a) (simp_all add: flush_tlc_class_def arena_size_flush_n)
  then show ?thesis by (simp add: FlushTlc_def)
qed

lemma arena_size_ReclaimExpired: "ReclaimExpired now a = (r, a') \<Longrightarrow> arena_size a' = arena_size a"
  by (auto simp: ReclaimExpired_def reclaim_with_cutoff_def Let_def
      dest!: arena_size_reclaim_classes arena_size_reclaim_large simp del: reclaim_large.simps
      split: if_splits prod.splits sum.splits)

lemma arena_open: "arena_inv a \<Longrightarrow> is_open a"
  by (auto simp: layout_def elim!: arena_invE dest!: blocks_invD(2))

interpretation arena_index: upkept_allocator "arena_allocator os t now junk" arena_good payloads "arena_upkeep t' now'"
proof unfold_locales
  fix a assume g: "arena_good a"
  then have inv: "arena_inv a" by (simp add: arena_good_def)
  have "keeps a (FlushTlc t' a)" using flush_classes_keeps by (simp add: FlushTlc_def)
  then show "arena_good (up_flush (arena_upkeep t' now') a) \<and> payloads (up_flush (arena_upkeep t' now') a) = payloads a"
    using g inv by (simp add: arena_upkeep_def arena_good_def keeps_def payloads_def arena_size_FlushTlc)
  have "\<exists>n a'. ReclaimExpired now' a = (Inr n, a') \<and> arena_inv a' \<and> live a' = live a"
    using reclaim_keeps [OF inv, of "now' - reclaim_delay_ns a"] arena_open [OF inv] inv
    by (cases "now' < reclaim_delay_ns a") (auto simp: ReclaimExpired_def)
  then show "\<exists>n a'. up_reclaim (arena_upkeep t' now') a = (Inr n, a') \<and> arena_good a' \<and> payloads a' = payloads a"
    using g arena_size_ReclaimExpired by (fastforce simp: arena_upkeep_def arena_good_def payloads_def)
qed

section \<open>Schemas\<close>

lemma fold_rebuild_max:
  "sc_max_field_id s \<le> sc_max_field_id (fold rebuild_step pfs s)
   \<and> (\<forall>(p, f)\<in>set pfs. fd_field_id f \<le> sc_max_field_id (fold rebuild_step pfs s))"
proof (induction pfs arbitrary: s)
  case (Cons pf pfs)
  obtain p f where pf: "pf = (p, f)" by (cases pf)
  have "sc_max_field_id s \<le> sc_max_field_id (rebuild_step pf s) \<and> fd_field_id f \<le> sc_max_field_id (rebuild_step pf s)"
    by (auto simp: pf Let_def)
  then show ?case using Cons.IH [of "rebuild_step pf s"] pf by (auto intro: order_trans)
qed simp

lemma RebuildMaps_schema_ok:
  assumes "wf_ptrs s"
  shows "schema_ok (RebuildMaps s)"
proof -
  let ?s = "s\<lparr>sc_field_map := (\<lambda>_. None), sc_field_id_map := (\<lambda>_. None), sc_max_field_id := 0\<rparr>"
  have "fd_field_id f \<le> sc_max_field_id (RebuildMaps s)" if "f \<in> set (Schema.fields (RebuildMaps s))" for f
    using fold_rebuild_max [of ?s "sc_fields s"] that
    by (auto simp: RebuildMaps_def Schema.fields_def)
  moreover have "deref (RebuildMaps s) p \<noteq> None" if "FindField (RebuildMaps s) nm = Some p" for nm p
    using RebuildMaps_live [OF assms] that by (auto simp: maps_live_def live_ptr_def)
  ultimately show ?thesis by (simp add: schema_ok_def)
qed

section \<open>An example\<close>

definition demo_fields :: "FieldDef list" where
  "demo_fields =
     [default_FieldDef\<lparr>fd_name := ''id'', fd_type := DInt64, fd_is_pk := True, fd_field_id := 1, fd_is_index := True\<rparr>,
      default_FieldDef\<lparr>fd_name := ''title'', fd_type := DString, fd_field_id := 2, fd_is_index := True\<rparr>]"

definition demo_schema :: Schema where
  "demo_schema = RebuildMaps (new_Schema\<lparr>sc_table_name := ''t'', sc_pk := ''id'',
     sc_fields := zip [0, 1] demo_fields, sc_fresh := 2\<rparr>)"

definition demo_row :: bytes where
  "demo_row = splice_at 4 (le_bytes 4 3) (splice_at 0 (le_bytes 4 7) (replicate (8 + 16 * 3) 0))"

definition demo_table :: "(string, nat) cmap" where
  "demo_table = \<lparr>cm_bits = 1, cm_heads = [[], []], cm_entry_count = 0, cm_counts = [0], cm_lock_free = False\<rparr>"

text \<open>An empty inverted index in the example arena, with a new document at 8208.\<close>

definition demo_index :: "arena inverted_index" where
  "demo_index = \<lparr>ix_heap = \<lparr>hp_st = demo_heap2, hp_mem = (\<lambda>_. [])(8208 := demo_row, 16400 := replicate 8 0)\<rparr>,
     ix_compiled = default_CompiledSchema, ix_hdr = 16400, ix_docs = (0, demo_table),
     iv_postings = (0, demo_table), iv_bitmaps = (\<lambda>_. None)\<rparr>"

abbreviation demo_alloc :: "arena Allocator" where
  "demo_alloc \<equiv> arena_allocator (\<lambda>_ _. True) 0 0 (\<lambda>_ _. 0)"

lemma demo_schema_ok: "schema_ok demo_schema"
  unfolding demo_schema_def by (rule RebuildMaps_schema_ok) (simp add: wf_ptrs_def demo_fields_def)

lemma demo_schema_parts: "Schema.fields demo_schema = demo_fields" "n_slots demo_schema = 3" "sc_pk demo_schema = ''id''"
proof -
  show "Schema.fields demo_schema = demo_fields"
    by (simp add: demo_schema_def demo_fields_def Schema.fields_def RebuildMaps_def)
  show "n_slots demo_schema = 3" "sc_pk demo_schema = ''id''"
    by (simp_all add: n_slots_def demo_schema_def RebuildMaps_def demo_fields_def new_Schema_def)
qed

lemma demo_table_created: "cm_create 1 0 = Inr demo_table"
  by (simp add: cm_create_def demo_table_def numeral_2_eq_2)

lemma demo_table_ok: "cm_inv hash demo_table" "cm_map demo_table = Map.empty" "\<not> cm_lock_free demo_table" "cm_bits demo_table = 1"
  using cm_create_spec [OF demo_table_created] by (simp_all add: demo_table_def)

lemma demo_row_fields:
  "length demo_row = 8 + 16 * 3" "le_nat (slice 4 4 demo_row) = 3" "le_nat (slice 0 4 demo_row) = 7"
  "f < 3 \<Longrightarrow> sa demo_row f = 0 \<and> sb demo_row f = 0"
  using new_root [where n = 3 and i = 7] unfolding demo_row_def by auto

lemma demo_index_parts:
  "hp_st (ix_heap demo_index) = demo_heap2" "mem_of demo_index 8208 = demo_row" "docs_map demo_index = Map.empty"
  "cm_bits (snd (ix_docs demo_index)) = 1" "reserved demo_index = {16400}" "posting demo_index = (\<lambda>_. {})"
  by (simp_all add: demo_index_def demo_table_ok reserved_def posting_def fun_eq_iff)

lemma demo_kv_inv: "kv_inv hash arena_good payloads demo_schema {16400} demo_index"
  using demo_schema_ok demo_arena_good demo_payloads
  by (simp add: kv_inv_def demo_index_def demo_table_ok rows_ok_def)

lemma demo_iv_inv: "iv_inv hash arena_good payloads demo_schema demo_index"
proof -
  have "post_ok hash demo_index" by (simp add: post_ok_def demo_index_def demo_table_ok)
  then show ?thesis
    using demo_kv_inv by (simp add: iv_inv_def iv_struct_def demo_index_parts term_docs_def fun_eq_iff)
qed

lemma demo_fresh: "fresh_row demo_schema (payloads (hp_st (ix_heap demo_index))) (mem_of demo_index) {16400} (docs_map demo_index) 8208"
proof -
  have b: "doc_blocks 3 (mem_of demo_index) 8208 = {8208}"
    using demo_row_fields(4) by (auto simp: doc_blocks_def demo_index_parts)
  have "doc_wf (payloads demo_heap2) (mem_of demo_index) 8208 3"
    using demo_row_fields by (simp add: doc_wf_def demo_index_parts demo_payloads)
  moreover have "readable (mem_of demo_index) 8208 f" if "f < 3" for f
    using demo_row_fields(4) [OF that] by (simp add: readable_def demo_index_parts)
  moreover have "unat (fd_field_id f) < 3" if "f \<in> set demo_fields" for f
    using field_slot [OF demo_schema_ok, of f] that by (simp add: demo_schema_parts)
  ultimately show ?thesis
    using b by (simp add: fresh_row_def row_ok_def demo_schema_parts demo_index_parts)
qed

lemma demo_pk: "pk_of demo_schema (mem_of demo_index) 8208 = ''0''"
proof -
  have f: "FindField demo_schema ''id'' = Some 0" "deref demo_schema 0 = Some (demo_fields ! 0)"
    by (simp_all add: demo_schema_def FindField_def deref_def RebuildMaps_def demo_fields_def)
  have "to_string64 0 = ''0''" by code_simp
  then show ?thesis using f demo_row_fields(4) [of 1]
    by (simp add: pk_of_def demo_schema_parts(3) demo_fields_def demo_index_parts(2))
qed

lemma finite_payloads: "arena_good a \<Longrightarrow> finite (payloads a)"
proof -
  assume "arena_good a"
  then have "live a \<subseteq> {..<arena_size a}" using live_below by (auto simp: arena_good_def)
  then show ?thesis by (simp add: payloads_def finite_subset)
qed

section \<open>Properties of the key-value index\<close>



text \<open>The example index after the document was stored.\<close>

definition demo_stored :: "arena inverted_index" where
  "demo_stored = snd (Upsert (\<lambda>_. 0) demo_alloc demo_schema 8208 demo_index)"

lemma demo_stored_ok:
  "kv_inv (\<lambda>_. 0) arena_good payloads demo_schema {16400} demo_stored" "docs_map demo_stored ''0'' = Some 8208"
  "8208 \<in> payloads (hp_st (ix_heap demo_stored))"
proof -
  have bits: "cm_bits (snd (ix_docs demo_index)) < 31" by (simp add: demo_index_parts)
  have "kv_inv (\<lambda>_. 0) arena_good payloads demo_schema {16400} demo_stored \<and> docs_map demo_stored ''0'' = Some 8208"
    by (rule arena_index.Upsert_ok [where hash = "\<lambda>_. 0" and os = "\<lambda>_ _. True" and t = 0 and now = 0
          and junk = "\<lambda>_ _. 0", OF demo_kv_inv bits demo_fresh refl])
      (simp add: demo_stored_def demo_pk)
  then show i: "kv_inv (\<lambda>_. 0) arena_good payloads demo_schema {16400} demo_stored" "docs_map demo_stored ''0'' = Some 8208"
    by simp_all
  show "8208 \<in> payloads (hp_st (ix_heap demo_stored))"
    using row_blocks_live [OF rows_okD(1) [OF kv_invD(6) [OF i(1)] i(2)]] by (auto simp: doc_blocks_def)
qed

text \<open>
  (C38) Delete.  On a consistent index \<^verbatim>\<open>Delete\<close> always returns: it reports whether the key was
  there, the key is gone and every other key finds what it found before, the blocks of the row are
  retired, and no byte of any other live block has changed.
\<close>

theorem delete_removes_row:
  assumes "kv_inv hash arena_good payloads sch R s"
  shows "\<exists>s'. Delete hash (arena_allocator os t now junk) k s = (Inr (Get hash k s \<noteq> None), s')
    \<and> kv_inv hash arena_good payloads sch R s'
    \<and> (\<forall>k'. Get hash k' s' = (if k' = k then None else Get hash k' s))
    \<and> payloads (hp_st (ix_heap s')) = payloads (hp_st (ix_heap s)) - old_blocks sch (mem_of s) (docs_map s) k
    \<and> (\<forall>q\<in>payloads (hp_st (ix_heap s')). mem_of s' q = mem_of s q)"
proof (rule arena_index.Delete_ok [OF assms])
  fix h m
  let ?s' = "s\<lparr>ix_heap := h, ix_docs := m\<rparr>"
  assume d: "Delete hash (arena_allocator os t now junk) k s = (Inr (k \<in> dom (docs_map s)), ?s')"
    "kv_inv hash arena_good payloads sch R ?s'" "cm_map (snd m) = (docs_map s)(k := None)"
    "payloads (hp_st h) = payloads (hp_st (ix_heap s)) - old_blocks sch (mem_of s) (docs_map s) k"
    "\<And>q. q \<in> payloads (hp_st h) \<Longrightarrow> hp_mem h q = mem_of s q"
  note g = kv_invD(3) [OF assms] kv_invD(3) [OF d(2)]
  have "Get hash k' ?s' = (if k' = k then None else Get hash k' s)" for k'
    using g d(3) by (simp add: Get_def cm_get_map)
  moreover have "k \<in> dom (docs_map s) \<longleftrightarrow> Get hash k s \<noteq> None" using g(1) by (auto simp: Get_def cm_get_map)
  ultimately show ?thesis using d by (intro exI [of _ ?s']) simp
qed

theorem delete_removes_row_witness:
  "\<exists>s'. Delete (\<lambda>_. 0) demo_alloc ''0'' demo_stored = (Inr True, s') \<and> Get (\<lambda>_. 0) ''0'' s' = None"
proof -
  have "Get (\<lambda>_. 0) ''0'' demo_stored = Some 8208"
    using demo_stored_ok(2) kv_invD(3) [OF demo_stored_ok(1)] by (simp add: Get_def cm_get_map)
  then show ?thesis using delete_removes_row [OF demo_stored_ok(1), of _ _ _ _ "''0''"] by fastforce
qed

text \<open>
  Batch insertion.  \<^verbatim>\<open>BatchPut\<close> of documents that are not stored yet, with new and distinct
  primary keys, stores every one of them and keeps everything else, whatever cache flushes and
  reclaims it makes on the way; it can fail only where the table would have to grow past
  \<open>2 ^ 31\<close> buckets.
\<close>

theorem batch_put_stores_all:
  assumes "kv_inv hash arena_good payloads sch R s"
    and "fresh_batch sch (payloads (hp_st (ix_heap s))) (mem_of s) R (docs_map s) ds"
  shows "case BatchPut hash (arena_upkeep t now) sch ds s of
      (Inl e, s') \<Rightarrow> e = MapError UndefinedShift
    | (Inr _, s') \<Rightarrow> kv_inv hash arena_good payloads sch R s' \<and> mem_of s' = mem_of s
        \<and> (\<forall>d\<in>set ds. Get hash (pk_of sch (mem_of s) d) s' = Some d)
        \<and> (\<forall>k. k \<notin> pk_of sch (mem_of s) ` set ds \<longrightarrow> Get hash k s' = Get hash k s)"
proof (cases rule: arena_index.BatchPut_cases [OF assms, of t now])
  case (1 s')
  let ?kv = "map (\<lambda>d. (pk_of sch (mem_of s) d, d)) ds"
  have get: "Get hash k s' = (docs_map s ++ map_of ?kv) k" "Get hash k s = docs_map s k" for k
    using kv_invD(3) [OF 1(4)] kv_invD(3) [OF assms(1)] 1(3) by (simp_all add: Get_def cm_get_map)
  have "distinct (map fst ?kv)" using assms(2) by (simp add: fresh_batch_def comp_def)
  then have "map_of ?kv (pk_of sch (mem_of s) d) = Some d" if "d \<in> set ds" for d
    using that by (simp add: map_of_eq_Some_iff)
  moreover have "map_of ?kv k = None" if "k \<notin> pk_of sch (mem_of s) ` set ds" for k
    using that by (simp add: map_of_eq_None_iff image_image)
  ultimately show ?thesis using 1 by (simp add: get map_add_def)
next
  case (2 s')
  then show ?thesis by simp
qed

theorem batch_put_stores_all_witness:
  "case BatchPut (\<lambda>_. 0) (arena_upkeep 0 0) demo_schema [8208] demo_index of
     (Inl e, s') \<Rightarrow> e = MapError UndefinedShift
   | (Inr _, s') \<Rightarrow> Get (\<lambda>_. 0) ''0'' s' = Some 8208"
proof -
  have "fresh_batch demo_schema (payloads (hp_st (ix_heap demo_index))) (mem_of demo_index) {16400} (docs_map demo_index) [8208]"
    using demo_fresh by (simp add: fresh_batch_def demo_index_parts(3))
  from batch_put_stores_all [OF demo_kv_inv this, of "\<lambda>_. 0" 0 0] show ?thesis
    by (auto simp: demo_pk split: prod.splits sum.splits)
qed

text \<open>
  (C40) A defect of \<^verbatim>\<open>Upsert\<close>: storing a document again that is already the row of its key (one
  that was obtained with \<^verbatim>\<open>Get\<close> and changed in place) first retires it and then stores it.  The call
  returns normally and the key leads to a document whose blocks are freed.
\<close>

theorem upsert_of_stored_row_dangles:
  assumes "kv_inv hash arena_good payloads sch R s" "cm_bits (snd (ix_docs s)) < 31" "Get hash k s = Some d"
  shows "\<exists>s'. Upsert hash (arena_allocator os t now junk) sch d s = (Inr (), s')
    \<and> Get hash k s' = Some d \<and> d \<notin> payloads (hp_st (ix_heap s'))"
proof -
  let ?A = "arena_allocator os t now junk"
  note i = kv_invD [OF assms(1)]
  have m: "docs_map s k = Some d" using assms(3) i(3) by (simp add: Get_def cm_get_map)
  note row = rows_okD(1,2) [OF i(6) m]
  have "\<exists>h. on_heap (Retire ?A d) s = (Inr (), s\<lparr>ix_heap := h\<rparr>)
      \<and> payloads (hp_st h) = payloads (hp_st (ix_heap s)) - old_blocks sch (mem_of s) (docs_map s) k"
    by (rule arena_index.retire_row [OF assms(1), of os t now junk k]) (use m in auto)
  then obtain h where h: "on_heap (Retire ?A d) s = (Inr (), s\<lparr>ix_heap := h\<rparr>)"
    "payloads (hp_st h) = payloads (hp_st (ix_heap s)) - old_blocks sch (mem_of s) (docs_map s) k" by blast
  have "cm_inv hash (snd (ix_docs (s\<lparr>ix_heap := h\<rparr>)))" "\<not> cm_lock_free (snd (ix_docs (s\<lparr>ix_heap := h\<rparr>)))"
    "cm_bits (snd (ix_docs (s\<lparr>ix_heap := h\<rparr>))) < 31" using i(3,4) assms(2) by simp_all
  then obtain m' where
    p: "docs_put hash k d (s\<lparr>ix_heap := h\<rparr>) = (Inr (), (s\<lparr>ix_heap := h\<rparr>)\<lparr>ix_docs := m'\<rparr>)" "cm_inv hash (snd m')"
      "cm_map (snd m') = (docs_map (s\<lparr>ix_heap := h\<rparr>))(k \<mapsto> d)" by (rule docs_put_ok) (rule that)
  have "Upsert hash ?A sch d s = (Inr (), s\<lparr>ix_heap := h, ix_docs := m'\<rparr>)"
    using h(1) p(1) row(2) m by (simp add: Upsert_def ExtractPk_ok [OF i(1) row(1)] docs_get_map [OF i(3)])
  moreover have "d \<notin> payloads (hp_st h)" using h(2) m by (simp add: old_blocks_def doc_blocks_def)
  ultimately show ?thesis using p(2,3) by (intro exI [of _ "s\<lparr>ix_heap := h, ix_docs := m'\<rparr>"]) (simp add: Get_def cm_get_map)
qed

lemma demo_stored_bits: "cm_bits (snd (ix_docs demo_stored)) = 1"
proof -
  have row: "row_ok demo_schema (payloads (hp_st (ix_heap demo_index))) (mem_of demo_index) 8208"
    using demo_fresh by (simp add: fresh_row_def)
  have d: "ix_docs demo_index = (0, demo_table)" by (simp add: demo_index_def)
  have "cm_put (\<lambda>_. 0) ''0'' 8208 (0, demo_table) = Inr (1, put_locked (\<lambda>_. 0) ''0'' 8208 demo_table)"
    by (simp add: cm_put_def demo_table_ok(3))
  then have "Upsert (\<lambda>_. 0) demo_alloc demo_schema 8208 demo_index =
      (Inr (), demo_index\<lparr>ix_docs := (1, put_locked (\<lambda>_. 0) ''0'' 8208 demo_table)\<rparr>)"
    by (simp add: Upsert_def ExtractPk_ok [OF demo_schema_ok row] demo_pk docs_get_map d demo_table_ok docs_put_def)
  then show ?thesis
    using put_locked_spec [OF demo_table_ok(1), of "\<lambda>_. 0" "''0''" 8208] by (simp add: demo_stored_def demo_table_ok(4))
qed

theorem upsert_of_stored_row_dangles_witness:
  "\<exists>s'. Upsert (\<lambda>_. 0) demo_alloc demo_schema 8208 demo_stored = (Inr (), s')
    \<and> Get (\<lambda>_. 0) ''0'' s' = Some 8208 \<and> 8208 \<in> payloads (hp_st (ix_heap demo_stored)) \<and> 8208 \<notin> payloads (hp_st (ix_heap s'))"
proof -
  have "cm_bits (snd (ix_docs demo_stored)) < 31" by (simp add: demo_stored_bits)
  moreover have "Get (\<lambda>_. 0) ''0'' demo_stored = Some 8208"
    using demo_stored_ok(2) kv_invD(3) [OF demo_stored_ok(1)] by (simp add: Get_def cm_get_map)
  ultimately show ?thesis
    using upsert_of_stored_row_dangles [OF demo_stored_ok(1), of "''0''" 8208 "\<lambda>_ _. True" 0 0 "\<lambda>_ _. 0"] demo_stored_ok(3) by blast
qed

text \<open>
  New documents.  \<^verbatim>\<open>NewDoc\<close> on a consistent index gives a document that can be stored: well
  formed with every field empty, sharing no block with any row, carrying the current document
  identifier, which is then advanced by one modulo \<open>2 ^ 32\<close>; the rows are untouched.  Only the
  allocator can make it fail.
\<close>

theorem new_doc_is_fresh:
  assumes "kv_inv hash arena_good payloads sch R s"
  shows "case NewDoc (arena_allocator os t now junk) sch s of
      (Inl e, s') \<Rightarrow> \<exists>a. e = DocError (Thrown a)
    | (Inr d, s') \<Rightarrow> kv_inv hash arena_good payloads sch R s' \<and> ix_docs s' = ix_docs s
        \<and> fresh_row sch (payloads (hp_st (ix_heap s'))) (mem_of s') R (docs_map s') d
        \<and> doc_id_of (mem_of s') d = next_id s \<and> next_id s' = (next_id s + 1) mod 2 ^ 32"
proof (cases rule: arena_index.NewDoc_ok [OF assms, of os t now junk])
  case (1 d h)
  then show ?thesis by simp
next
  case (2 e h)
  then show ?thesis by simp
qed

theorem new_doc_is_fresh_witness:
  "case NewDoc demo_alloc demo_schema demo_stored of
     (Inl e, s') \<Rightarrow> e \<noteq> DanglingField
   | (Inr d, s') \<Rightarrow> docs_map s' ''0'' = Some 8208 \<and> doc_id_of (mem_of s') d = next_id demo_stored"
  using new_doc_is_fresh [OF demo_stored_ok(1), of "\<lambda>_ _. True" 0 0 "\<lambda>_ _. 0"] demo_stored_ok(2)
  by (auto split: prod.splits sum.splits)

section \<open>Properties of the inverted index\<close>

lemma print_nat_inj: "m < 2 ^ 63 \<Longrightarrow> n < 2 ^ 63 \<Longrightarrow> print_nat m = print_nat n \<Longrightarrow> m = n"
  using int_body_print_nat [of m "[]"] int_body_print_nat [of n "[]"] by simp

lemma digits_split:
  assumes "xs @ CHR ''#'' # ys = xs' @ CHR ''#'' # ys'" "\<forall>c\<in>set xs. isdigit c" "\<forall>c\<in>set xs'. isdigit c"
  shows "xs = xs' \<and> ys = ys'"
proof -
  have hash: "\<not> isdigit (CHR ''#'')" by code_simp
  have "takeWhile isdigit (xs @ CHR ''#'' # ys) = xs" "takeWhile isdigit (xs' @ CHR ''#'' # ys') = xs'"
    using assms(2,3) hash by (simp_all add: takeWhile_append2)
  then show ?thesis using assms(1) by auto
qed

lemma filter_takeWhile_split: "filter P xs = takeWhile P xs @ filter P (dropWhile P xs)"
  by (induction xs) auto

lemma tolower_idem: "tolower (tolower c) = tolower c"
  by (auto simp: tolower_def Let_def of_char_of)

lemma isalnum_tolower: "isalnum c \<Longrightarrow> isalnum (tolower c)"
  by (auto simp: tolower_def isalnum_def Let_def of_char_of)

lemma Tokenize_spec:
  "concat (Tokenize tx) = Normalize (filter isalnum tx) \<and> [] \<notin> set (Tokenize tx)
   \<and> (\<forall>tok\<in>set (Tokenize tx). \<forall>c\<in>set tok. isalnum c \<and> tolower c = c)"
proof (induction tx rule: Tokenize.induct)
  case (1 tx)
  let ?r = "dropWhile (\<lambda>c. \<not> isalnum c) tx"
  have skip: "filter isalnum tx = filter isalnum ?r" by (induction tx) auto
  show ?case
  proof (cases "?r = []")
    case True
    then show ?thesis using skip by (simp add: Tokenize.simps [of tx] Normalize_def)
  next
    case False
    have run: "takeWhile isalnum ?r \<noteq> []" using False hd_dropWhile [OF False] by (cases ?r) auto
    have split: "filter isalnum ?r = takeWhile isalnum ?r @ filter isalnum (dropWhile isalnum ?r)"
      by (rule filter_takeWhile_split)
    have low: "isalnum c \<and> tolower c = c" if "c \<in> set (Normalize (takeWhile isalnum ?r))" for c
      using that by (auto simp: Normalize_def tolower_idem isalnum_tolower dest: set_takeWhileD)
    have step: "Tokenize tx = Normalize (takeWhile isalnum ?r) # Tokenize (dropWhile isalnum ?r)"
      using False by (simp add: Tokenize.simps [of tx] Let_def)
    note IH = 1 [OF refl False]
    have "concat (Tokenize tx) = Normalize (filter isalnum tx)"
      unfolding skip split step concat.simps conjunct1 [OF IH] by (simp only: Normalize_def map_append)
    moreover have "[] \<notin> set (Tokenize tx)" using conjunct1 [OF conjunct2 [OF IH]] run unfolding step by (simp add: Normalize_def)
    moreover have "\<forall>tok\<in>set (Tokenize tx). \<forall>c\<in>set tok. isalnum c \<and> tolower c = c"
    proof (intro ballI)
      fix tok c assume t: "tok \<in> set (Tokenize tx)" "c \<in> set tok"
      from t(1) consider "tok = Normalize (takeWhile isalnum ?r)" | "tok \<in> set (Tokenize (dropWhile isalnum ?r))"
        unfolding step by (simp only: list.set insert_iff) blast
      then show "isalnum c \<and> tolower c = c"
      proof cases
        case 1
        then show ?thesis using low t(2) by blast
      next
        case 2
        then show ?thesis using IH t(2) by blast
      qed
    qed
    ultimately show ?thesis by blast
  qed
qed

lemma PostingKey_inj:
  assumes "PostingKey f u = PostingKey g v"
  shows "f = g \<and> Normalize u = Normalize v"
proof -
  have "print_nat (unat f) = print_nat (unat g) \<and> Normalize u = Normalize v"
    by (rule digits_split) (use assms print_nat_digits in \<open>auto simp: PostingKey_def\<close>)
  moreover have "unat f < 2 ^ 63" "unat g < 2 ^ 63"
    using unsigned_less [of f, where ?'a = nat] unsigned_less [of g, where ?'a = nat] by simp_all
  ultimately show ?thesis using print_nat_inj by (metis word_unat_eq_iff)
qed

text \<open>
  Terms.  Tokenizing keeps exactly the letters and digits of a text, in order and in lower
  case, cut into maximal runs none of which is empty; and two terms share a posting list exactly
  if they belong to the same field and agree up to case.
\<close>

theorem terms_and_keys:
  "concat (Tokenize tx) = Normalize (filter isalnum tx)
   \<and> [] \<notin> set (Tokenize tx) \<and> (\<forall>tok\<in>set (Tokenize tx). \<forall>c\<in>set tok. isalnum c \<and> tolower c = c)
   \<and> (PostingKey f u = PostingKey g v \<longleftrightarrow> f = g \<and> Normalize u = Normalize v)"
proof (intro conjI)
  show "PostingKey f u = PostingKey g v \<longleftrightarrow> f = g \<and> Normalize u = Normalize v"
    using PostingKey_inj [of f u g v] by (auto simp: PostingKey_def)
qed (use Tokenize_spec [of tx] in blast)+

theorem terms_and_keys_witness:
  "PostingKey 2 ''Ab'' = PostingKey 2 ''aB'' \<and> PostingKey 2 ''1'' \<noteq> PostingKey 21 '''' \<and> concat (Tokenize ''a-B1'') = ''ab1''"
proof -
  have n: "Normalize ''Ab'' = Normalize ''aB''" "Normalize (filter isalnum ''a-B1'') = ''ab1''" by code_simp+
  show ?thesis
    using terms_and_keys [of "''a-B1''" 2 "''Ab''" 2 "''aB''"] terms_and_keys [of "''''" 2 "''1''" 21 "''''"] n by simp
qed

text \<open>
  (C35) Put keeps the posting lists exact.  On a consistent inverted index, in which the posting
  list of every term holds exactly the identifiers of the rows with that term, storing a new
  document under a fresh identifier gives such an index again, with the document under its key and
  every other row as it was; only an exhausted arena or a full table can make it fail.
\<close>

theorem inverted_put_exact:
  assumes "iv_inv hash arena_good payloads sch s" "cm_bits (snd (ix_docs s)) < 31"
    and "fresh_row sch (payloads (hp_st (ix_heap s))) (mem_of s) (reserved s) (docs_map s) d"
    and "doc_id_of (mem_of s) d \<notin> doc_id_of (mem_of s) ` ran ((docs_map s)(pk_of sch (mem_of s) d := None))"
  shows "case InvertedIndex_Put hash (arena_allocator os t now junk) sch d s of
      (Inl e, s') \<Rightarrow> exhausted e
    | (Inr _, s') \<Rightarrow> iv_inv hash arena_good payloads sch s'
        \<and> docs_map s' = (docs_map s)(pk_of sch (mem_of s) d \<mapsto> d)
        \<and> (\<forall>p. posting s' p = term_docs sch (mem_of s) ((docs_map s)(pk_of sch (mem_of s) d \<mapsto> d)) p)
        \<and> (\<forall>d'\<in>ran (docs_map s'). same_doc (n_slots sch) (mem_of s) (mem_of s') d')"
proof (cases rule: arena_index.InvertedIndex_Put_cases [OF assms(1-3) refl assms(4), of os t now junk])
  case (1 s')
  have "schema_ok sch" using assms(1) by (simp add: iv_inv_def iv_struct_def kv_inv_def)
  then have "term_docs sch (mem_of s') ((docs_map s)(pk_of sch (mem_of s) d \<mapsto> d)) =
      term_docs sch (mem_of s) ((docs_map s)(pk_of sch (mem_of s) d \<mapsto> d))"
    by (rule term_docs_same) (rule 1(4))
  moreover have "posting s' = term_docs sch (mem_of s') (docs_map s')" using 1(2) by (simp add: iv_inv_def)
  ultimately show ?thesis using 1 by simp
next
  case (2 e s')
  then show ?thesis by simp
qed

lemma demo_terms: "doc_terms demo_schema (mem_of demo_index) 8208 = [''1#0'']" "doc_id_of (mem_of demo_index) 8208 = 7"
proof -
  have str: "str_of (mem_of demo_index) 8208 2 = []" and sa: "sa (mem_of demo_index 8208) 1 = 0"
    using demo_row_fields(4) [of 2] demo_row_fields(4) [of 1] by (simp_all add: str_of_def demo_index_parts(2))
  have "Tokenize (as_string []) = []" "PostingKey 1 (to_string64 0) = ''1#0''" by code_simp+
  then show "doc_terms demo_schema (mem_of demo_index) 8208 = [''1#0'']"
    using str sa by (simp add: doc_terms_def demo_schema_parts(1) demo_fields_def field_terms_def)
  show "doc_id_of (mem_of demo_index) 8208 = 7" using demo_row_fields(3) by (simp add: doc_id_of_def demo_index_parts(2))
qed

theorem inverted_put_exact_witness:
  "case InvertedIndex_Put (\<lambda>_. 0) demo_alloc demo_schema 8208 demo_index of
     (Inl e, s') \<Rightarrow> exhausted e
   | (Inr _, s') \<Rightarrow> posting s' ''1#0'' = {7} \<and> posting s' ''1#1'' = {}"
proof -
  have "fresh_row demo_schema (payloads (hp_st (ix_heap demo_index))) (mem_of demo_index) (reserved demo_index) (docs_map demo_index) 8208"
    using demo_fresh by (simp add: demo_index_parts(5))
  from inverted_put_exact [OF demo_iv_inv _ this, of "\<lambda>_. 0" "\<lambda>_ _. True" 0 0 "\<lambda>_ _. 0"] show ?thesis
    by (auto simp: demo_index_parts(3,4) demo_pk demo_terms term_docs_def split: prod.splits sum.splits)
qed



text \<open>The identifiers of the rows with a term in a field.\<close>

definition hits :: "Schema \<Rightarrow> ('st, 'x) kv_index_scheme \<Rightarrow> u16 \<Rightarrow> string \<Rightarrow> nat set" where
  "hits sch s fid w = term_docs sch (mem_of s) (docs_map s) (PostingKey fid w)"

text \<open>
  (C36) Queries.  On a consistent inverted index the single-term query finds exactly the
  identifiers of the rows with the term, and says that there is none exactly if there is none;
  the conjunctive query gives the rows with all terms (and nothing for no terms) and the
  disjunctive one the rows with some term, whatever order the posting lists are combined in.
  The index stays consistent, with the same rows.
\<close>

theorem queries_exact:
  assumes "iv_inv hash arena_good payloads sch s"
  shows "(\<exists>r. Query hash fid w s = (Inr r, s) \<and>
        (case r of None \<Rightarrow> hits sch s fid w = {} | Some (off, b) \<Rightarrow> bm_inv b \<and> bm_set b = hits sch s fid w \<and> hits sch s fid w \<noteq> {}))
    \<and> (case QueryAnd hash (arena_allocator os t now junk) fid terms s of
        (Inl e, s') \<Rightarrow> exhausted e
      | (Inr r, s') \<Rightarrow> iv_inv hash arena_good payloads sch s' \<and> ix_docs s' = ix_docs s
          \<and> (\<exists>b. iv_bitmaps s' r = Some b \<and> bm_inv b \<and> bm_set b = (if terms = [] then {} else \<Inter>u\<in>set terms. hits sch s fid u)))
    \<and> (case QueryOr hash (arena_allocator os t now junk) fid terms s of
        (Inl e, s') \<Rightarrow> exhausted e
      | (Inr r, s') \<Rightarrow> iv_inv hash arena_good payloads sch s' \<and> ix_docs s' = ix_docs s
          \<and> (\<exists>b. iv_bitmaps s' r = Some b \<and> bm_inv b \<and> bm_set b = (\<Union>u\<in>set terms. hits sch s fid u)))"
proof -
  have st: "iv_struct hash arena_good payloads sch s" and hits: "hits sch s fid u = posting s (PostingKey fid u)" for u
    using assms by (simp_all add: iv_inv_def hits_def)
  have fin: "finite (payloads (hp_st (ix_heap s)))"
    using st by (intro finite_payloads) (simp add: iv_struct_def kv_inv_def)
  note kept = arena_index.quiet_iv_inv [OF assms(1)]
  have "\<exists>r. Query hash fid w s = (Inr r, s) \<and>
        (case r of None \<Rightarrow> hits sch s fid w = {} | Some (off, b) \<Rightarrow> bm_inv b \<and> bm_set b = hits sch s fid w \<and> hits sch s fid w \<noteq> {})"
    using Query_ok [OF st quiet_refl, of fid w] by (auto simp: found_ok_def hits split: option.splits)
  moreover have "case QueryAnd hash (arena_allocator os t now junk) fid terms s of
        (Inl e, s') \<Rightarrow> exhausted e
      | (Inr r, s') \<Rightarrow> iv_inv hash arena_good payloads sch s' \<and> ix_docs s' = ix_docs s
          \<and> (\<exists>b. iv_bitmaps s' r = Some b \<and> bm_inv b \<and> bm_set b = (if terms = [] then {} else \<Inter>u\<in>set terms. hits sch s fid u))"
    using arena_index.QueryAnd_queried [where fid = fid and terms = "terms" and os = os and t = t and now = now
        and junk = junk, OF st] kept
    by (auto simp: queried_def hits quiet_def split: prod.splits sum.splits)
  moreover have "case QueryOr hash (arena_allocator os t now junk) fid terms s of
        (Inl e, s') \<Rightarrow> exhausted e
      | (Inr r, s') \<Rightarrow> iv_inv hash arena_good payloads sch s' \<and> ix_docs s' = ix_docs s
          \<and> (\<exists>b. iv_bitmaps s' r = Some b \<and> bm_inv b \<and> bm_set b = (\<Union>u\<in>set terms. hits sch s fid u))"
    using arena_index.QueryOr_queried [where fid = fid and terms = "terms" and os = os and t = t and now = now
        and junk = junk, OF st fin] kept
    by (auto simp: queried_def hits quiet_def split: prod.splits sum.splits)
  ultimately show ?thesis by blast
qed

theorem queries_exact_witness:
  "case QueryOr (\<lambda>_. 0) demo_alloc 1 [''0'', ''5''] demo_index of
     (Inl e, s') \<Rightarrow> exhausted e
   | (Inr r, s') \<Rightarrow> \<exists>b. iv_bitmaps s' r = Some b \<and> bm_set b = {}"
  using queries_exact [where hash = "\<lambda>_. 0" and fid = 1 and w = "''0''" and terms = "[''0'', ''5'']" and os = "\<lambda>_ _. True" and t = 0
      and now = 0 and junk = "\<lambda>_ _. 0", OF demo_iv_inv]
  by (auto simp: demo_index_parts(3) term_docs_def hits_def split: prod.splits sum.splits)

text \<open>
  A defect of the queries: they only read, but each allocates in the arena and nothing is
  freed again, since a bitmap object has no destructor that would.  A disjunctive query over \<open>n\<close>
  terms leaves \<open>n + 1\<close> more root blocks allocated; all but one of them, the roots made for the
  terms, are referred to by nothing.
\<close>

theorem query_leaks:
  assumes "iv_inv hash arena_good payloads sch s"
  shows "case QueryOr hash (arena_allocator os t now junk) fid terms s of
      (Inl e, s') \<Rightarrow> exhausted e
    | (Inr r, s') \<Rightarrow> card (payloads (hp_st (ix_heap s'))) = card (payloads (hp_st (ix_heap s))) + length terms + 1
        \<and> posting_map s' = posting_map s \<and> docs_map s' = docs_map s"
proof -
  have st: "iv_struct hash arena_good payloads sch s" using assms(1) by (simp add: iv_inv_def)
  have fin: "finite (payloads (hp_st (ix_heap s)))"
    using st by (intro finite_payloads) (simp add: iv_struct_def kv_inv_def)
  show ?thesis
    using arena_index.QueryOr_queried [where fid = fid and terms = "terms" and os = os and t = t and now = now
        and junk = junk, OF st fin]
    by (auto simp: queried_def quiet_def live_count_def split: prod.splits sum.splits)
qed

theorem query_leaks_witness:
  "case QueryOr (\<lambda>_. 0) demo_alloc 1 [''0'', ''5''] demo_index of
     (Inl e, s') \<Rightarrow> exhausted e
   | (Inr r, s') \<Rightarrow> card (payloads (hp_st (ix_heap s'))) = 5"
  using query_leaks [where hash = "\<lambda>_. 0" and fid = 1 and terms = "[''0'', ''5'']" and os = "\<lambda>_ _. True" and t = 0
      and now = 0 and junk = "\<lambda>_ _. 0", OF demo_iv_inv]
  by (auto simp: demo_index_parts(1) demo_payloads split: prod.splits sum.splits)

end
