(* ===== verification/RoaringWire.thy ===== *)
theory RoaringWire
  imports PostingSet
begin

text \<open>
  The portable export format of the bitmap (src/libs/yikv/container/bitmap.cc, \<^verbatim>\<open>Serialize\<close> and
  \<^verbatim>\<open>Deserialize\<close>). Bytes are 8-bit words; integers are little-endian, as \<^verbatim>\<open>memcpy\<close> leaves them on the
  supported hosts. The decoder is modelled with its position in the input. A read past the end of
  the input, which the sources do not prevent, is an error value of its own, and \<open>mem n\<close> says whether
  a vector of \<open>n\<close> elements can be allocated.
\<close>

definition kWireMagic :: nat where "kWireMagic = 827146834"
definition kWireVersion :: nat where "kWireVersion = 1"

datatype wire_error = WireError string | WireBadAlloc | OutOfBoundsRead

section \<open>Writing\<close>





section \<open>Reading\<close>

text \<open>\<^verbatim>\<open>read_u16\<close>, \<^verbatim>\<open>read_u32\<close> and the element reads: \<open>k\<close> bytes at a position.\<close>

definition read_le :: "nat \<Rightarrow> u8 list \<Rightarrow> nat \<Rightarrow> nat" where
  "read_le k data pos = le_nat (take k (drop pos data))"

text \<open>The loop that checks that an array payload ascends; it reads elements \<open>j\<close> and \<open>j - 1\<close>.\<close>

fun check_ascending :: "u8 list \<Rightarrow> nat \<Rightarrow> nat list \<Rightarrow> wire_error option" where
  "check_ascending data pos [] = None"
| "check_ascending data pos (j # js) =
     (if length data < pos + 2 * j + 2 then Some OutOfBoundsRead
      else if read_le 2 data (pos + 2 * j) \<le> read_le 2 data (pos + 2 * (j - 1))
      then Some (WireError ''Bitmap::Deserialize: array not sorted'')
      else check_ascending data pos js)"

definition read_array :: "(nat \<Rightarrow> bool) \<Rightarrow> u8 list \<Rightarrow> nat \<Rightarrow> nat \<Rightarrow> nat \<Rightarrow> nat \<Rightarrow> wire_error + nat list" where
  "read_array mem data pos hi crd pay_bytes =
     (if pay_bytes \<noteq> crd * 2 mod 2 ^ 32 then Inl (WireError ''Bitmap::Deserialize: array payload size mismatch'')
      else if \<not> mem crd then Inl WireBadAlloc
      else case check_ascending data pos [1..<crd] of
             Some err \<Rightarrow> Inl err
           | None \<Rightarrow> Inr (map (\<lambda>j. hi * 65536 + read_le 2 data (pos + 2 * j)) [0..<crd]))"

definition read_words :: "(nat \<Rightarrow> bool) \<Rightarrow> u8 list \<Rightarrow> nat \<Rightarrow> nat \<Rightarrow> nat \<Rightarrow> nat \<Rightarrow> wire_error + nat list" where
  "read_words mem data pos hi crd pay_bytes =
     (if pay_bytes \<noteq> kBitmapWords * 8 then Inl (WireError ''Bitmap::Deserialize: bitmap payload size mismatch'')
      else
        let words = map (\<lambda>j. word_of_nat (read_le 8 data (pos + 8 * j))) [0..<kBitmapWords] in
        if sum_list (map popcount words) \<noteq> crd then Inl (WireError ''Bitmap::Deserialize: cardinality mismatch'')
        else if \<not> mem crd then Inl WireBadAlloc
        else Inr (map (\<lambda>k. hi * 65536 + k) (words_list words)))"

fun read_chunks :: "(nat \<Rightarrow> bool) \<Rightarrow> u8 list \<Rightarrow> nat \<Rightarrow> nat \<Rightarrow> nat option \<Rightarrow> bitmap \<Rightarrow> wire_error + nat \<times> bitmap" where
  "read_chunks mem data 0 pos prev_hi bm = Inr (pos, bm)"
| "read_chunks mem data (Suc n) pos prev_hi bm =
     (if length data < pos + 12 then Inl (WireError ''Bitmap::Deserialize: truncated chunk header'')
      else
        let hi = read_le 2 data pos;
            type = read_le 1 data (pos + 2);
            crd = read_le 4 data (pos + 4);
            pay_bytes = read_le 4 data (pos + 8);
            pos' = pos + 12
        in if (case prev_hi of None \<Rightarrow> False | Some p \<Rightarrow> hi \<le> p)
           then Inl (WireError ''Bitmap::Deserialize: unsorted chunks'')
           else if 1 < type then Inl (WireError ''Bitmap::Deserialize: invalid chunk type'')
           else if length data < pos' + pay_bytes then Inl (WireError ''Bitmap::Deserialize: truncated chunk payload'')
           else case (if type = 0 then read_array mem data pos' hi crd pay_bytes
                      else read_words mem data pos' hi crd pay_bytes) of
                  Inl err \<Rightarrow> Inl err
                | Inr vals \<Rightarrow> read_chunks mem data n (pos' + pay_bytes) (Some hi) (BulkAdd vals bm))"

definition Deserialize :: "(nat \<Rightarrow> bool) \<Rightarrow> u8 list option \<Rightarrow> wire_error + bitmap" where
  "Deserialize mem input = (case input of
     None \<Rightarrow> Inl (WireError ''Bitmap::Deserialize: null data'')
   | Some data \<Rightarrow>
       if length data < 12 then Inl (WireError ''Bitmap::Deserialize: payload too small'')
       else if read_le 4 data 0 \<noteq> kWireMagic then Inl (WireError ''Bitmap::Deserialize: bad magic'')
       else if read_le 2 data 4 \<noteq> kWireVersion then Inl (WireError ''Bitmap::Deserialize: unsupported version'')
       else case read_chunks mem data (read_le 4 data 8) 12 None bm_new of
              Inl err \<Rightarrow> Inl err
            | Inr (pos, bm) \<Rightarrow>
                if pos \<noteq> length data then Inl (WireError ''Bitmap::Deserialize: trailing bytes'') else Inr bm)"

section \<open>Reading back what was written\<close>













text \<open>(C11) A defect of the decoder: the payload size of an array chunk is compared with \<^verbatim>\<open>card * 2u\<close>, which
  wraps around in 32 bits. A 24-byte input that declares a chunk of \<open>2 ^ 31\<close> elements and no payload
  passes every check and makes the decoder read past the end of its input.\<close>

theorem Deserialize_reads_past_end:
  assumes "mem (2 ^ 31)"
  shows "Deserialize mem (Some (le_bytes 4 kWireMagic @ le_bytes 2 kWireVersion @ le_bytes 2 0 @ le_bytes 4 1 @
      le_bytes 2 0 @ le_bytes 1 0 @ le_bytes 1 0 @ le_bytes 4 (2 ^ 31) @ le_bytes 4 0)) = Inl OutOfBoundsRead"
proof -
  define d where "d = le_bytes 4 kWireMagic @ le_bytes 2 kWireVersion @ le_bytes 2 0 @ le_bytes 4 1 @
      le_bytes 2 0 @ le_bytes 1 0 @ le_bytes 1 0 @ le_bytes 4 (2 ^ 31) @ le_bytes 4 0"
  have r: "read_le 4 d 0 = kWireMagic" "read_le 2 d 4 = kWireVersion" "read_le 4 d 8 = 1"
    "read_le 2 d 12 = 0" "read_le 1 d (12 + 2) = 0" "read_le 4 d (12 + 4) = 2 ^ 31" "read_le 4 d (12 + 8) = 0"
    by (simp_all add: d_def read_le_def le_nat_bytes kWireMagic_def kWireVersion_def)
  have l: "length d = 24" by (simp add: d_def)
  have u: "[1..<2 ^ 31] = 1 # [Suc 1..<2 ^ 31]" by (rule upt_conv_Cons) simp
  have "check_ascending d 24 [1..<2 ^ 31] = Some OutOfBoundsRead" unfolding u check_ascending.simps l by simp
  moreover have "(2 ^ 31 :: nat) * 2 mod 2 ^ 32 = 0" by simp
  ultimately have a: "read_array mem d (12 + 12) 0 (2 ^ 31) 0 = Inl OutOfBoundsRead"
    using assms unfolding read_array_def by (simp only: simp_thms if_True if_False option.case) simp
  have "read_chunks mem d 1 12 None bm_new = Inl OutOfBoundsRead"
    unfolding One_nat_def read_chunks.simps Let_def l r [unfolded One_nat_def] a by simp
  then show ?thesis unfolding d_def [symmetric] Deserialize_def option.case l r by simp
qed

theorem Deserialize_reads_past_end_witness:
  "Deserialize (\<lambda>_. True) (Some (le_bytes 4 kWireMagic @ le_bytes 2 kWireVersion @ le_bytes 2 0 @ le_bytes 4 1 @
      le_bytes 2 0 @ le_bytes 1 0 @ le_bytes 1 0 @ le_bytes 4 (2 ^ 31) @ le_bytes 4 0)) = Inl OutOfBoundsRead"
  by (rule Deserialize_reads_past_end) simp

end
