(* ===== verification/SeqLock.thy ===== *)
theory SeqLock
  imports ConcMap
begin

text \<open>
  The locking protocol of src/libs/yikv/container/concurrent_hashmap.h: the sequence counter of the
  table, the mutexes of the stripes and the mutex of the rehash. Any number of threads call \<^verbatim>\<open>get\<close>,
  \<^verbatim>\<open>put\<close> and \<^verbatim>\<open>erase\<close>; a step of the relation below is one access of one thread to the shared state,
  and the steps of the threads interleave in any order (sequential consistency).

  Three reads of the sources are not synchronised, and the model lets them give more than the
  current value. The bucket count is read before the stripe is locked, while a rehash may be
  writing it: then the read gives any number. The counters are summed without their stripes
  being locked, for the first two calls of \<^verbatim>\<open>needs_rehash\<close>: the answer is open. Waiting (the branch that
  yields, a mutex that is taken) is the absence of a step. The counter of the table is a 32-bit word
  in the sources; \<open>sl_seq\<close> counts its increments and the threads save and compare the word.

  What the rest of the development takes for granted when it treats a call as one step on the table
  is proved here: every interleaving is equivalent to a sequence of calls on a finite map.
\<close>

section \<open>Threads and the shared state\<close>

datatype ('k, 'v) call = GetCall 'k | PutCall 'k 'v | EraseCall 'k

datatype 'v reply = Found "'v option" | Stored | Erased bool | Thrown

primrec call_key :: "('k, 'v) call \<Rightarrow> 'k" where
  "call_key (GetCall k) = k"
| "call_key (PutCall k v) = k"
| "call_key (EraseCall k) = k"

primrec is_get :: "('k, 'v) call \<Rightarrow> bool" where
  "is_get (GetCall k) = True"
| "is_get (PutCall k v) = False"
| "is_get (EraseCall k) = False"

primrec is_put :: "('k, 'v) call \<Rightarrow> bool" where
  "is_put (GetCall k) = False"
| "is_put (PutCall k v) = True"
| "is_put (EraseCall k) = False"

text \<open>
  Where a thread is. \<open>Spin\<close> is the head of the retry loop, then the sequence number is saved, the
  bucket computed, the stripe locked and the number compared again; \<open>Body\<close>, \<open>Writing\<close> and \<open>Leave\<close> are
  the critical section, with the chain that was read. From \<open>WantRehash\<close> on the thread is in
  \<^verbatim>\<open>trigger_rehash\<close>; the numbers there count the stripes locked or released so far.
\<close>

datatype ('k, 'v) pc =
    Idle
  | Spin "('k, 'v) call"
  | HaveSeq "('k, 'v) call" u32
  | HaveBucket "('k, 'v) call" u32 nat
  | Locked "('k, 'v) call" u32 nat
  | Body "('k, 'v) call" nat
  | Writing "('k, 'v) call" nat "('k, 'v) chain"
  | Leave nat "'v reply"
  | FreeRead 'k nat
  | WantRehash "('k, 'v) call"
  | HaveMutex "('k, 'v) call"
  | Unstable "('k, 'v) call" nat
  | Rehashed "('k, 'v) call"
  | Releasing "('k, 'v) call" nat

record ('k, 'v) shared =
  sl_map :: "('k, 'v) cmap"
  sl_seq :: nat
  sl_stripes :: "nat \<Rightarrow> nat option"
  sl_mutex :: "nat option"
  sl_pc :: "nat \<Rightarrow> ('k, 'v) pc"
  sl_puts :: "nat \<Rightarrow> u32"
  sl_log :: "(nat \<times> ('k, 'v) call \<times> 'v reply) list"
  sl_failed :: bool

text \<open>\<open>sl_log\<close> (the calls in the order they took effect, with the answers) and \<open>sl_failed\<close> (a rehash has
  thrown) are history variables; no step reads them.\<close>

abbreviation n_stripes :: "('k, 'v) shared \<Rightarrow> nat" where
  "n_stripes s \<equiv> length (cm_counts (sl_map s))"

abbreviation table_seq :: "('k, 'v) shared \<Rightarrow> u32" where
  "table_seq s \<equiv> word_of_nat (sl_seq s)"

definition goto :: "nat \<Rightarrow> ('k, 'v) pc \<Rightarrow> ('k, 'v) shared \<Rightarrow> ('k, 'v) shared" where
  "goto t p s = s\<lparr>sl_pc := (sl_pc s)(t := p)\<rparr>"

definition take_stripe :: "nat \<Rightarrow> nat \<Rightarrow> ('k, 'v) shared \<Rightarrow> ('k, 'v) shared" where
  "take_stripe t i s = s\<lparr>sl_stripes := (sl_stripes s)(i := Some t)\<rparr>"

definition drop_stripe :: "nat \<Rightarrow> ('k, 'v) shared \<Rightarrow> ('k, 'v) shared" where
  "drop_stripe i s = s\<lparr>sl_stripes := (sl_stripes s)(i := None)\<rparr>"

definition add_log :: "nat \<Rightarrow> ('k, 'v) call \<Rightarrow> 'v reply \<Rightarrow> ('k, 'v) shared \<Rightarrow> ('k, 'v) shared" where
  "add_log t c r s = s\<lparr>sl_log := sl_log s @ [(t, c, r)]\<rparr>"

definition count_put :: "nat \<Rightarrow> ('k, 'v) call \<Rightarrow> ('k, 'v) shared \<Rightarrow> ('k, 'v) shared" where
  "count_put t c s = (if is_put c then s\<lparr>sl_puts := (sl_puts s)(t := sl_puts s t + 1)\<rparr> else s)"

text \<open>The critical section, on the bucket number and the chain the thread holds.\<close>

definition apply_call :: "('k \<Rightarrow> u64) \<Rightarrow> ('k, 'v) call \<Rightarrow> nat \<Rightarrow> ('k, 'v) chain \<Rightarrow> ('k, 'v) cmap
    \<Rightarrow> 'v reply \<times> ('k, 'v) cmap" where
  "apply_call hash c bidx ch m =
     (case c of
        GetCall k \<Rightarrow> (Found (chain_get (hash k) k ch), m)
      | PutCall k v \<Rightarrow>
          (Stored,
           case chain_update (hash k) k v ch of
             Some ch' \<Rightarrow> m\<lparr>cm_heads := (cm_heads m)[bidx := ch']\<rparr>
           | None \<Rightarrow> (add_count (stripe_index m bidx) 1 m)
               \<lparr>cm_heads := (cm_heads m)[bidx := append_entry (make_entry (hash k) k v) ch],
                cm_entry_count := cm_entry_count m + 1\<rparr>)
      | EraseCall k \<Rightarrow>
          (case chain_erase (hash k) k ch of
             None \<Rightarrow> (Erased False, m)
           | Some ch' \<Rightarrow> (Erased True, (add_count (stripe_index m bidx) (- 1) m)
               \<lparr>cm_heads := (cm_heads m)[bidx := ch'], cm_entry_count := cm_entry_count m - 1\<rparr>)))"

text \<open>
  What a rehash leaves behind when an allocation throws: only the counters are cleared if it was
  the region of the new table, and the new table has the first \<open>j\<close> entries if it was a block.
\<close>

definition rehash_region_thrown :: "('k, 'v) cmap \<Rightarrow> ('k, 'v) cmap" where
  "rehash_region_thrown m = m\<lparr>cm_counts := replicate (length (cm_counts m)) 0\<rparr>"

definition rehash_block_thrown :: "nat \<Rightarrow> ('k, 'v) cmap \<Rightarrow> ('k, 'v) cmap" where
  "rehash_block_thrown j m =
     m\<lparr>cm_bits := cm_bits m + 1,
       cm_heads := fold (place (cm_bits m + 1)) (take j (concat (concat (cm_heads m)))) (replicate (2 ^ (cm_bits m + 1)) []),
       cm_entry_count := 0,
       cm_counts := replicate (length (cm_counts m)) 0\<rparr>"

definition unwind_rehash :: "nat \<Rightarrow> ('k, 'v) cmap \<Rightarrow> ('k, 'v) shared \<Rightarrow> ('k, 'v) shared" where
  "unwind_rehash t m s = goto t Idle
     (s\<lparr>sl_map := m, sl_stripes := (\<lambda>i. if i < n_stripes s then None else sl_stripes s i), sl_mutex := None, sl_failed := True\<rparr>)"

text \<open>A thread has the table to itself: all stripes are its own.\<close>

definition rehashing :: "('k, 'v) shared \<Rightarrow> bool" where
  "rehashing s \<longleftrightarrow> (\<exists>u d. sl_pc s u = Unstable d (n_stripes s))"

text \<open>
  Lock-free reads may be enabled when no \<^verbatim>\<open>put\<close>, \<^verbatim>\<open>erase\<close> or rehash is going on, as the sources
  demand of the caller, and disabled when no lock-free read is.
\<close>

fun reading :: "('k, 'v) pc \<Rightarrow> bool" where
  "reading Idle = True"
| "reading (Spin c) = is_get c"
| "reading (HaveSeq c q) = is_get c"
| "reading (HaveBucket c q b) = is_get c"
| "reading (Locked c q b) = is_get c"
| "reading (Body c b) = is_get c"
| "reading (Writing c b ch) = is_get c"
| "reading (Leave b r) = (case r of Found x \<Rightarrow> True | _ \<Rightarrow> False)"
| "reading (FreeRead k b) = True"
| "reading _ = False"

fun free_reading :: "('k, 'v) pc \<Rightarrow> bool" where
  "free_reading (FreeRead k b) = True"
| "free_reading _ = False"

section \<open>The steps\<close>

inductive rehash_throws :: "('k, 'v) shared \<Rightarrow> ('k, 'v) shared \<Rightarrow> bool" where
  region: "sl_pc s t = Unstable c (n_stripes s) \<Longrightarrow> needs_rehash (sl_map s) \<Longrightarrow> cm_bits (sl_map s) < 31 \<Longrightarrow>
    rehash_throws s (unwind_rehash t (rehash_region_thrown (sl_map s)) s)"
| block: "sl_pc s t = Unstable c (n_stripes s) \<Longrightarrow> needs_rehash (sl_map s) \<Longrightarrow> cm_bits (sl_map s) < 31 \<Longrightarrow>
    rehash_throws s (unwind_rehash t (rehash_block_thrown j (sl_map s)) s)"

inductive step :: "('k \<Rightarrow> u64) \<Rightarrow> ('k, 'v) shared \<Rightarrow> ('k, 'v) shared \<Rightarrow> bool" for hash where
  invoke: "sl_pc s t = Idle \<Longrightarrow> \<not> cm_lock_free (sl_map s) \<Longrightarrow> step hash s (goto t (Spin c) s)"
| invoke_free: "sl_pc s t = Idle \<Longrightarrow> cm_lock_free (sl_map s) \<Longrightarrow>
    step hash s (goto t (FreeRead k (bucket_index (cm_bits (sl_map s)) (hash k))) s)"
| invoke_refused: "sl_pc s t = Idle \<Longrightarrow> cm_lock_free (sl_map s) \<Longrightarrow> \<not> is_get c \<Longrightarrow> step hash s (add_log t c Thrown s)"
| free_read: "sl_pc s t = FreeRead k b \<Longrightarrow>
    step hash s (add_log t (GetCall k) (Found (chain_get (hash k) k (cm_heads (sl_map s) ! b))) (goto t Idle s))"
| load_seq: "sl_pc s t = Spin c \<Longrightarrow> table_seq s AND 1 = 0 \<Longrightarrow> step hash s (goto t (HaveSeq c (table_seq s)) s)"
| bucket: "sl_pc s t = HaveSeq c q \<Longrightarrow> b = bucket_index (cm_bits (sl_map s)) (hash (call_key c)) \<or> rehashing s \<Longrightarrow>
    step hash s (goto t (HaveBucket c q b) s)"
| lock: "sl_pc s t = HaveBucket c q b \<Longrightarrow> sl_stripes s (b mod n_stripes s) = None \<Longrightarrow>
    step hash s (goto t (Locked c q b) (take_stripe t (b mod n_stripes s) s))"
| recheck_fails: "sl_pc s t = Locked c q b \<Longrightarrow> table_seq s \<noteq> q \<Longrightarrow>
    step hash s (goto t (Spin c) (drop_stripe (b mod n_stripes s) s))"
| recheck_ok: "sl_pc s t = Locked c q b \<Longrightarrow> table_seq s = q \<Longrightarrow> step hash s (goto t (Body c b) (count_put t c s))"
| want_rehash: "sl_pc s t = Locked c q b \<Longrightarrow> table_seq s = q \<Longrightarrow> is_put c \<Longrightarrow> (sl_puts s t + 1) AND 63 = 0 \<Longrightarrow>
    step hash s (goto t (WantRehash c) (drop_stripe (b mod n_stripes s) (count_put t c s)))"
| read_chain: "sl_pc s t = Body c b \<Longrightarrow> step hash s (goto t (Writing c b (cm_heads (sl_map s) ! b)) s)"
| commit: "sl_pc s t = Writing c b ch \<Longrightarrow> apply_call hash c b ch (sl_map s) = (r, m) \<Longrightarrow>
    step hash s (add_log t c r (goto t (Leave b r) (s\<lparr>sl_map := m\<rparr>)))"
| put_throws: "sl_pc s t = Writing c b ch \<Longrightarrow> is_put c \<Longrightarrow> step hash s (add_log t c Thrown (goto t (Leave b Thrown) s))"
| leave: "sl_pc s t = Leave b r \<Longrightarrow> step hash s (goto t Idle (drop_stripe (b mod n_stripes s) s))"
| lock_mutex: "sl_pc s t = WantRehash c \<Longrightarrow> sl_mutex s = None \<Longrightarrow> step hash s (goto t (HaveMutex c) (s\<lparr>sl_mutex := Some t\<rparr>))"
| not_needed: "sl_pc s t = HaveMutex c \<Longrightarrow> step hash s (goto t (Spin c) (s\<lparr>sl_mutex := None\<rparr>))"
| make_odd: "sl_pc s t = HaveMutex c \<Longrightarrow> step hash s (goto t (Unstable c 0) (s\<lparr>sl_seq := sl_seq s + 1\<rparr>))"
| lock_next: "sl_pc s t = Unstable c n \<Longrightarrow> n < n_stripes s \<Longrightarrow> sl_stripes s n = None \<Longrightarrow>
    step hash s (goto t (Unstable c (Suc n)) (take_stripe t n s))"
| rehash: "sl_pc s t = Unstable c (n_stripes s) \<Longrightarrow> trigger_rehash (sl_map s) = Inr m \<Longrightarrow>
    step hash s (goto t (Rehashed c) (s\<lparr>sl_map := m\<rparr>))"
| rehash_thrown: "rehash_throws s s' \<Longrightarrow> step hash s s'"
| make_even: "sl_pc s t = Rehashed c \<Longrightarrow> step hash s (goto t (Releasing c 0) (s\<lparr>sl_seq := sl_seq s + 1\<rparr>))"
| release_next: "sl_pc s t = Releasing c n \<Longrightarrow> n < n_stripes s \<Longrightarrow> step hash s (goto t (Releasing c (Suc n)) (drop_stripe n s))"
| unlock_mutex: "sl_pc s t = Releasing c (n_stripes s) \<Longrightarrow> step hash s (goto t (Spin c) (s\<lparr>sl_mutex := None\<rparr>))"
| enable: "\<forall>t. reading (sl_pc s t) \<Longrightarrow> step hash s (s\<lparr>sl_map := enable_lock_free_reads (sl_map s)\<rparr>)"
| disable: "\<forall>t. \<not> free_reading (sl_pc s t) \<Longrightarrow> step hash s (s\<lparr>sl_map := disable_lock_free_reads (sl_map s)\<rparr>)"

definition start :: "('k, 'v) cmap \<Rightarrow> ('k, 'v) shared" where
  "start m = \<lparr>sl_map = m, sl_seq = 0, sl_stripes = (\<lambda>_. None), sl_mutex = None, sl_pc = (\<lambda>_. Idle),
     sl_puts = (\<lambda>_. 0), sl_log = [], sl_failed = False\<rparr>"

inductive reach :: "('k \<Rightarrow> u64) \<Rightarrow> ('k, 'v) cmap \<Rightarrow> ('k, 'v) shared \<Rightarrow> bool" for hash m where
  reach_start: "reach hash m (start m)"
| reach_step: "reach hash m s \<Longrightarrow> step hash s s' \<Longrightarrow> reach hash m s'"

inductive_cases rehash_throwsE: "rehash_throws s s'"

lemmas step_updates = goto_def take_stripe_def drop_stripe_def add_log_def count_put_def

lemma updates_simps [simp]:
  "sl_map (goto t p s) = sl_map s" "sl_map (take_stripe t i s) = sl_map s" "sl_map (drop_stripe i s) = sl_map s"
  "sl_map (add_log t c r s) = sl_map s" "sl_map (count_put t c s) = sl_map s"
  "sl_seq (goto t p s) = sl_seq s" "sl_seq (take_stripe t i s) = sl_seq s" "sl_seq (drop_stripe i s) = sl_seq s"
  "sl_seq (add_log t c r s) = sl_seq s" "sl_seq (count_put t c s) = sl_seq s"
  "sl_stripes (goto t p s) = sl_stripes s" "sl_stripes (take_stripe t i s) = (sl_stripes s)(i := Some t)"
  "sl_stripes (drop_stripe i s) = (sl_stripes s)(i := None)"
  "sl_stripes (add_log t c r s) = sl_stripes s" "sl_stripes (count_put t c s) = sl_stripes s"
  "sl_mutex (goto t p s) = sl_mutex s" "sl_mutex (take_stripe t i s) = sl_mutex s" "sl_mutex (drop_stripe i s) = sl_mutex s"
  "sl_mutex (add_log t c r s) = sl_mutex s" "sl_mutex (count_put t c s) = sl_mutex s"
  "sl_pc (goto t p s) = (sl_pc s)(t := p)" "sl_pc (take_stripe t i s) = sl_pc s" "sl_pc (drop_stripe i s) = sl_pc s"
  "sl_pc (add_log t c r s) = sl_pc s" "sl_pc (count_put t c s) = sl_pc s"
  "sl_log (goto t p s) = sl_log s" "sl_log (take_stripe t i s) = sl_log s" "sl_log (drop_stripe i s) = sl_log s"
  "sl_log (add_log t c r s) = sl_log s @ [(t, c, r)]" "sl_log (count_put t c s) = sl_log s"
  "sl_failed (goto t p s) = sl_failed s" "sl_failed (take_stripe t i s) = sl_failed s" "sl_failed (drop_stripe i s) = sl_failed s"
  "sl_failed (add_log t c r s) = sl_failed s" "sl_failed (count_put t c s) = sl_failed s"
  by (simp_all add: step_updates)

section \<open>What every state satisfies\<close>

text \<open>The stripes a thread holds, by where it is.\<close>

fun holding :: "nat \<Rightarrow> ('k, 'v) pc \<Rightarrow> nat set" where
  "holding N (Locked c q b) = {b mod N}"
| "holding N (Body c b) = {b mod N}"
| "holding N (Writing c b ch) = {b mod N}"
| "holding N (Leave b r) = {b mod N}"
| "holding N (Unstable c n) = {..<n}"
| "holding N (Rehashed c) = {..<N}"
| "holding N (Releasing c n) = {n..<N}"
| "holding N _ = {}"

fun in_rehash :: "('k, 'v) pc \<Rightarrow> bool" where
  "in_rehash (HaveMutex c) = True"
| "in_rehash (Unstable c n) = True"
| "in_rehash (Rehashed c) = True"
| "in_rehash (Releasing c n) = True"
| "in_rehash _ = False"

fun unstable :: "('k, 'v) pc \<Rightarrow> bool" where
  "unstable (Unstable c n) = True"
| "unstable (Rehashed c) = True"
| "unstable _ = False"

definition locks_ok :: "('k, 'v) shared \<Rightarrow> bool" where
  "locks_ok s \<longleftrightarrow> (\<forall>t i. sl_stripes s i = Some t \<longleftrightarrow> i \<in> holding (n_stripes s) (sl_pc s t))
     \<and> (\<forall>t. sl_mutex s = Some t \<longleftrightarrow> in_rehash (sl_pc s t))"

definition parity_ok :: "('k, 'v) shared \<Rightarrow> bool" where
  "parity_ok s \<longleftrightarrow> (odd (sl_seq s) \<longleftrightarrow> (\<exists>t. unstable (sl_pc s t)))"

text \<open>
  What a thread knows. A saved sequence number is that of an even moment, and if the table is still
  at that moment then the bucket is the one of the key; in the critical section it is, and the
  chain is the one in the table.
\<close>

definition right_bucket :: "('k \<Rightarrow> u64) \<Rightarrow> ('k, 'v) cmap \<Rightarrow> ('k, 'v) call \<Rightarrow> nat \<Rightarrow> bool" where
  "right_bucket hash m c b \<longleftrightarrow> b = bucket_index (cm_bits m) (hash (call_key c))"

definition saved :: "nat \<Rightarrow> u32 \<Rightarrow> bool \<Rightarrow> bool" where
  "saved seq q current \<longleftrightarrow> (\<exists>n. even n \<and> n \<le> seq \<and> q = word_of_nat n \<and> (n = seq \<longrightarrow> current))"

fun knows :: "('k \<Rightarrow> u64) \<Rightarrow> ('k, 'v) cmap \<Rightarrow> nat \<Rightarrow> ('k, 'v) pc \<Rightarrow> bool" where
  "knows hash m seq (HaveSeq c q) = saved seq q True"
| "knows hash m seq (HaveBucket c q b) = saved seq q (right_bucket hash m c b)"
| "knows hash m seq (Locked c q b) = saved seq q (right_bucket hash m c b)"
| "knows hash m seq (Body c b) = right_bucket hash m c b"
| "knows hash m seq (Writing c b ch) = (right_bucket hash m c b \<and> ch = cm_heads m ! b)"
| "knows hash m seq (FreeRead k b) = (cm_lock_free m \<and> b = bucket_index (cm_bits m) (hash k))"
| "knows hash m seq (Unstable c n) = (n \<le> length (cm_counts m))"
| "knows hash m seq (Releasing c n) = (n \<le> length (cm_counts m))"
| "knows hash m seq _ = True"

definition threads_ok :: "('k \<Rightarrow> u64) \<Rightarrow> ('k, 'v) shared \<Rightarrow> bool" where
  "threads_ok hash s \<longleftrightarrow>
     (\<forall>t. knows hash (sl_map s) (sl_seq s) (sl_pc s t) \<and> (cm_lock_free (sl_map s) \<longrightarrow> reading (sl_pc s t)))"

text \<open>The calls of a history, one after the other on a finite map: \<open>None\<close> if an answer is not the map's.\<close>

definition answer :: "('k, 'v) call \<Rightarrow> 'v reply \<Rightarrow> ('k \<rightharpoonup> 'v) \<Rightarrow> ('k \<rightharpoonup> 'v) option" where
  "answer c r M =
     (if r = Thrown then (if is_get c then None else Some M)
      else case c of
        GetCall k \<Rightarrow> if r = Found (M k) then Some M else None
      | PutCall k v \<Rightarrow> if r = Stored then Some (M(k \<mapsto> v)) else None
      | EraseCall k \<Rightarrow> if r = Erased (k \<in> dom M) then Some (M(k := None)) else None)"

fun replay :: "(nat \<times> ('k, 'v) call \<times> 'v reply) list \<Rightarrow> ('k \<rightharpoonup> 'v) \<Rightarrow> ('k \<rightharpoonup> 'v) option" where
  "replay [] M = Some M"
| "replay ((t, c, r) # log) M = Option.bind (answer c r M) (replay log)"

definition history_ok :: "('k \<Rightarrow> u64) \<Rightarrow> ('k, 'v) cmap \<Rightarrow> ('k, 'v) shared \<Rightarrow> bool" where
  "history_ok hash m s \<longleftrightarrow> cm_inv hash (sl_map s) \<and> replay (sl_log s) (cm_map m) = Some (cm_map (sl_map s))"

definition sl_inv :: "('k \<Rightarrow> u64) \<Rightarrow> ('k, 'v) cmap \<Rightarrow> ('k, 'v) shared \<Rightarrow> bool" where
  "sl_inv hash m s \<longleftrightarrow> locks_ok s \<and> parity_ok s \<and> threads_ok hash s \<and> history_ok hash m s"

section \<open>The critical section is the sequential operation\<close>

lemma apply_call_spec:
  assumes "cm_inv hash m" "right_bucket hash m c b" "apply_call hash c b (cm_heads m ! b) m = (r, m')"
    and "is_get c \<or> \<not> cm_lock_free m"
  shows "cm_inv hash m'" "answer c r (cm_map m) = Some (cm_map m')" "cm_bits m' = cm_bits m"
    and "length (cm_counts m') = length (cm_counts m)" "cm_lock_free m' = cm_lock_free m"
    and "i \<noteq> b \<Longrightarrow> cm_heads m' ! i = cm_heads m ! i" "is_get c \<Longrightarrow> m' = m \<and> (\<exists>x. r = Found x)"
proof -
  have b: "b = bucket_index (cm_bits m) (hash (call_key c))" using assms(2) by (simp add: right_bucket_def)
  note put = put_locked_spec [OF assms(1)] and get = cm_get_map [OF assms(1)]
  have "cm_inv hash m' \<and> answer c r (cm_map m) = Some (cm_map m')"
  proof (cases c)
    case (GetCall k)
    then show ?thesis using assms(1,3) get [of k] b by (auto simp: apply_call_def answer_def cm_get_def)
  next
    case (PutCall k v)
    then have "m' = put_locked hash k v m" "r = Stored" using assms(3) b by (auto simp: apply_call_def put_locked_def Let_def)
    then show ?thesis using put [of k v] PutCall by (simp add: answer_def)
  next
    case (EraseCall k)
    obtain e where e: "r = Erased e" "cm_erase hash k m = Inr (e, m')"
      using assms(3,4) b EraseCall by (auto simp: apply_call_def cm_erase_def Let_def split: option.splits)
    then show ?thesis using cm_erase_spec [OF assms(1) e(2)] EraseCall by (simp add: answer_def)
  qed
  then show "cm_inv hash m'" "answer c r (cm_map m) = Some (cm_map m')" by blast+
  show "cm_bits m' = cm_bits m" "length (cm_counts m') = length (cm_counts m)" "cm_lock_free m' = cm_lock_free m"
    "i \<noteq> b \<Longrightarrow> cm_heads m' ! i = cm_heads m ! i" "is_get c \<Longrightarrow> m' = m \<and> (\<exists>x. r = Found x)"
    using assms(3) by (auto simp: apply_call_def add_count_def split: call.splits option.splits)
qed

lemma trigger_rehash_spec:
  assumes "cm_inv hash m" "trigger_rehash m = Inr m'"
  shows "cm_inv hash m'" "cm_map m' = cm_map m" "length (cm_counts m') = length (cm_counts m)" "cm_lock_free m' = cm_lock_free m"
  using rehash_locked_spec [OF assms(1), of m'] assms
  by (auto simp: trigger_rehash_def rehash_locked_def Let_def split: if_splits)

lemma replay_snoc: "replay (log @ [(t, c, r)]) M = Option.bind (replay log M) (answer c r)"
  by (induction log arbitrary: M) (auto split: Option.bind_splits)

section \<open>The steps keep it\<close>

lemma locks_goto:
  assumes "locks_ok s" "sl_pc s' = (sl_pc s)(t := p)" "n_stripes s' = n_stripes s"
    and "\<And>i. sl_stripes s' i = (if i \<in> holding (n_stripes s) p then Some t
           else if i \<in> holding (n_stripes s) (sl_pc s t) then None else sl_stripes s i)"
    and "\<And>i. i \<in> holding (n_stripes s) p \<Longrightarrow> i \<in> holding (n_stripes s) (sl_pc s t) \<or> sl_stripes s i = None"
    and "sl_mutex s' = (if in_rehash p then Some t else if in_rehash (sl_pc s t) then None else sl_mutex s)"
    and "in_rehash p \<Longrightarrow> in_rehash (sl_pc s t) \<or> sl_mutex s = None"
  shows "locks_ok s'"
proof -
  have st: "sl_stripes s i = Some u \<longleftrightarrow> i \<in> holding (n_stripes s) (sl_pc s u)" for u i using assms(1) by (simp add: locks_ok_def)
  have mu: "sl_mutex s = Some u \<longleftrightarrow> in_rehash (sl_pc s u)" for u using assms(1) by (simp add: locks_ok_def)
  have "sl_stripes s' i = Some u \<longleftrightarrow> i \<in> holding (n_stripes s') (sl_pc s' u)" for u i
    using assms(4,5) [of i] st [of i u] st [of i t] by (auto simp: assms(2,3))
  moreover have "sl_mutex s' = Some u \<longleftrightarrow> in_rehash (sl_pc s' u)" for u
    using assms(6,7) mu [of u] mu [of t] by (auto simp: assms(2))
  ultimately show ?thesis by (simp add: locks_ok_def)
qed

lemma apply_call_stripes: "apply_call hash c b ch m = (r, m') \<Longrightarrow> length (cm_counts m') = length (cm_counts m)"
  by (auto simp: apply_call_def add_count_def split: call.splits option.splits)

lemma trigger_rehash_stripes: "trigger_rehash m = Inr m' \<Longrightarrow> length (cm_counts m') = length (cm_counts m)"
  by (auto simp: trigger_rehash_def rehash_locked_def Let_def split: if_splits)

lemma thrown_stripes [simp]:
  "length (cm_counts (rehash_region_thrown m)) = length (cm_counts m)"
  "length (cm_counts (rehash_block_thrown j m)) = length (cm_counts m)"
  by (simp_all add: rehash_region_thrown_def rehash_block_thrown_def)

lemma flag_simps [simp]:
  "cm_counts (enable_lock_free_reads m) = cm_counts m" "cm_counts (disable_lock_free_reads m) = cm_counts m"
  "cm_bits (enable_lock_free_reads m) = cm_bits m" "cm_bits (disable_lock_free_reads m) = cm_bits m"
  "cm_heads (enable_lock_free_reads m) = cm_heads m" "cm_heads (disable_lock_free_reads m) = cm_heads m"
  "cm_lock_free (enable_lock_free_reads m)" "\<not> cm_lock_free (disable_lock_free_reads m)"
  "cm_map (enable_lock_free_reads m) = cm_map m" "cm_map (disable_lock_free_reads m) = cm_map m"
  "cm_inv hash (enable_lock_free_reads m) = cm_inv hash m" "cm_inv hash (disable_lock_free_reads m) = cm_inv hash m"
  by (simp_all add: enable_lock_free_reads_def disable_lock_free_reads_def cm_map_def cm_inv_def)

lemma locks_step:
  assumes "step hash s s'" "locks_ok s"
  shows "locks_ok s'"
proof -
  have own: "i \<in> holding (n_stripes s) (sl_pc s u) \<Longrightarrow> sl_stripes s i = Some u" "in_rehash (sl_pc s u) \<Longrightarrow> sl_mutex s = Some u" for i u
    using assms(2) by (simp_all add: locks_ok_def)
  note goto = locks_goto [OF assms(2)]
  show ?thesis using assms(1)
  proof cases
    case invoke_refused
    then show ?thesis using assms(2) by (simp add: locks_ok_def)
  next
    case enable
    then show ?thesis using assms(2) by (simp add: locks_ok_def)
  next
    case disable
    then show ?thesis using assms(2) by (simp add: locks_ok_def)
  next
    case rehash_thrown
    then show ?thesis
      by cases (rule goto, simp add: unwind_rehash_def, (auto intro: own simp: unwind_rehash_def)[5])+
  qed (rule goto, simp, (auto intro: own dest: apply_call_stripes trigger_rehash_stripes simp: less_Suc_eq)[5])+
qed

lemma mutex_unique: "locks_ok s \<Longrightarrow> in_rehash (sl_pc s t) \<Longrightarrow> in_rehash (sl_pc s u) \<Longrightarrow> t = u"
  unfolding locks_ok_def by (metis option.inject)

lemma stripe_unique:
  "locks_ok s \<Longrightarrow> i \<in> holding (n_stripes s) (sl_pc s t) \<Longrightarrow> i \<in> holding (n_stripes s) (sl_pc s u) \<Longrightarrow> t = u"
  unfolding locks_ok_def by (metis option.inject)

lemma unstable_in_rehash: "unstable p \<Longrightarrow> in_rehash p"
  by (cases p) auto

lemma parity_goto:
  assumes "parity_ok s" "sl_pc s' = (sl_pc s)(t := p)" "sl_seq s' = sl_seq s" "unstable p = unstable (sl_pc s t)"
  shows "parity_ok s'"
proof -
  have "(\<exists>u. unstable (sl_pc s' u)) \<longleftrightarrow> (\<exists>u. unstable (sl_pc s u))" using assms(2,4) by (metis fun_upd_apply)
  then show ?thesis using assms(1,3) by (simp add: parity_ok_def)
qed

lemma parity_step:
  assumes "step hash s s'" "locks_ok s" "parity_ok s" "\<not> sl_failed s'"
  shows "parity_ok s'"
  using assms(1)
proof cases
  case (make_odd t c)
  then have "\<not> unstable (sl_pc s u)" for u
    using mutex_unique [OF assms(2), of t u] unstable_in_rehash [of "sl_pc s u"] by (cases "u = t") auto
  then show ?thesis using make_odd assms(3) by (auto simp: parity_ok_def)
next
  case (make_even t c)
  then have "\<not> unstable (sl_pc s u)" if "u \<noteq> t" for u
    using mutex_unique [OF assms(2), of t u] unstable_in_rehash [of "sl_pc s u"] that by auto
  moreover have "odd (sl_seq s)" using make_even assms(3) unfolding parity_ok_def by (metis unstable.simps(2))
  ultimately show ?thesis using make_even by (auto simp: parity_ok_def)
next
  case rehash_thrown
  then show ?thesis using assms(4) by cases (simp_all add: unwind_rehash_def)
next
  case invoke_refused
  then show ?thesis using assms(3) by (simp add: parity_ok_def)
next
  case enable
  then show ?thesis using assms(3) by (simp add: parity_ok_def)
next
  case disable
  then show ?thesis using assms(3) by (simp add: parity_ok_def)
qed (rule parity_goto [OF assms(3)], simp, (simp_all)[2])+

lemma put_not_get [simp]: "is_put c \<Longrightarrow> \<not> is_get c"
  by (cases c) auto

lemma even_word: "(word_of_nat n :: u32) AND 1 = 0 \<longleftrightarrow> even n"
proof -
  have "(word_of_nat n :: u32) AND 1 = 0 \<longleftrightarrow> even (word_of_nat n :: u32)" by (simp add: and_one_eq even_iff_mod_2_eq_zero)
  also have "\<dots> \<longleftrightarrow> even n" by simp
  finally show ?thesis .
qed

lemma saved_now: "saved seq (word_of_nat seq) P \<Longrightarrow> seq < 2 ^ 32 \<Longrightarrow> P"
proof -
  assume s: "saved seq (word_of_nat seq) P" "seq < 2 ^ 32"
  then obtain n where n: "n \<le> seq" "(word_of_nat seq :: u32) = word_of_nat n" "n = seq \<longrightarrow> P" unfolding saved_def by blast
  have small: "unat (word_of_nat k :: u32) = k" if "k \<le> seq" for k using s(2) that by (simp only: unat_of_nat) simp
  have "n = unat (word_of_nat seq :: u32)" unfolding n(2) using small [OF n(1)] by (rule sym)
  then have "n = seq" using small [OF order_refl] by (rule trans)
  then show P using n(3) by simp
qed

lemma saved_later: "saved seq q P \<Longrightarrow> saved (Suc seq) q R"
  unfolding saved_def by (metis le_Suc_eq not_less_eq_eq)

lemma saved_odd: "saved seq q P \<Longrightarrow> odd seq \<Longrightarrow> saved seq q R"
  unfolding saved_def by metis

lemma knows_later: "knows hash m seq p \<Longrightarrow> knows hash m (Suc seq) p"
  by (cases p) (auto dest: saved_later)

lemma threads_goto:
  assumes "threads_ok hash s" "sl_pc s' = (sl_pc s)(t := p)"
    and "\<And>u. u \<noteq> t \<Longrightarrow> knows hash (sl_map s) (sl_seq s) (sl_pc s u) \<Longrightarrow> knows hash (sl_map s') (sl_seq s') (sl_pc s u)"
    and "knows hash (sl_map s') (sl_seq s') p" "cm_lock_free (sl_map s') = cm_lock_free (sl_map s)"
    and "cm_lock_free (sl_map s) \<Longrightarrow> reading (sl_pc s t) \<Longrightarrow> reading p"
  shows "threads_ok hash s'"
  using assms by (auto simp: threads_ok_def)

lemma threads_commit:
  assumes "threads_ok hash s" "locks_ok s" "cm_inv hash (sl_map s)" "sl_pc s t = Writing c b ch"
    and "apply_call hash c b ch (sl_map s) = (r, m)"
  shows "threads_ok hash (add_log t c r (goto t (Leave b r) (s\<lparr>sl_map := m\<rparr>)))"
proof -
  have k: "knows hash (sl_map s) (sl_seq s) (sl_pc s t)" "cm_lock_free (sl_map s) \<Longrightarrow> is_get c"
    using assms(1,4) unfolding threads_ok_def by (metis, metis reading.simps(7))
  then have "right_bucket hash (sl_map s) c b" "apply_call hash c b (cm_heads (sl_map s) ! b) (sl_map s) = (r, m)"
    "is_get c \<or> \<not> cm_lock_free (sl_map s)" using assms(4,5) by auto
  note a = apply_call_spec [OF assms(3) this]
  show ?thesis
  proof (rule threads_goto [OF assms(1)])
    show "sl_pc (add_log t c r (goto t (Leave b r) (s\<lparr>sl_map := m\<rparr>))) = (sl_pc s)(t := Leave b r)" by simp
    fix u assume u: "u \<noteq> t" and ku: "knows hash (sl_map s) (sl_seq s) (sl_pc s u)"
    have "b' mod n_stripes s \<noteq> b mod n_stripes s" if "sl_pc s u = Writing c' b' ch'" for c' b' ch'
      using stripe_unique [OF assms(2), of "b mod n_stripes s" t u] that u assms(4) by auto
    then have "b' \<noteq> b" if "sl_pc s u = Writing c' b' ch'" for c' b' ch' using that by blast
    then show "knows hash (sl_map (add_log t c r (goto t (Leave b r) (s\<lparr>sl_map := m\<rparr>))))
        (sl_seq (add_log t c r (goto t (Leave b r) (s\<lparr>sl_map := m\<rparr>)))) (sl_pc s u)"
      using ku a(3-6) by (cases "sl_pc s u") (auto simp: right_bucket_def)
  qed (use a(5,7) k(2) in auto)
qed

lemma threads_rehash:
  assumes "threads_ok hash s" "locks_ok s" "parity_ok s" "cm_inv hash (sl_map s)" "sl_pc s t = Unstable c (n_stripes s)"
    and "trigger_rehash (sl_map s) = Inr m"
  shows "threads_ok hash (goto t (Rehashed c) (s\<lparr>sl_map := m\<rparr>))"
proof (rule threads_goto [OF assms(1)])
  note r = trigger_rehash_spec [OF assms(4,6)]
  have odd: "odd (sl_seq s)" using assms(3,5) unfolding parity_ok_def by (metis unstable.simps(1))
  have flag: "\<not> cm_lock_free (sl_map s)" using assms(1,5) unfolding threads_ok_def by (metis reading.simps(12))
  show "cm_lock_free (sl_map s) \<Longrightarrow> reading (sl_pc s t) \<Longrightarrow> reading (Rehashed c)" using flag by simp
  have pos: "0 < n_stripes s" using assms(4) by (auto simp: cm_inv_def)
  show "sl_pc (goto t (Rehashed c) (s\<lparr>sl_map := m\<rparr>)) = (sl_pc s)(t := Rehashed c)" by simp
  fix u assume u: "u \<noteq> t" and ku: "knows hash (sl_map s) (sl_seq s) (sl_pc s u)"
  have "b mod n_stripes s \<notin> holding (n_stripes s) (sl_pc s u)" for b
    using stripe_unique [OF assms(2), of "b mod n_stripes s" t u] u assms(5) pos by auto
  then show "knows hash (sl_map (goto t (Rehashed c) (s\<lparr>sl_map := m\<rparr>))) (sl_seq (goto t (Rehashed c) (s\<lparr>sl_map := m\<rparr>))) (sl_pc s u)"
    using ku odd flag r(3,4) by (cases "sl_pc s u") (auto dest: saved_odd)
qed (use trigger_rehash_spec [OF assms(4,6)] in auto)

lemma threads_step:
  assumes "step hash s s'" "sl_inv hash m0 s" "\<not> sl_failed s'" "sl_seq s < 2 ^ 32"
  shows "threads_ok hash s'"
proof -
  have ok: "threads_ok hash s" "locks_ok s" "parity_ok s" "cm_inv hash (sl_map s)"
    using assms(2) by (simp_all add: sl_inv_def history_ok_def)
  have kn: "knows hash (sl_map s) (sl_seq s) (sl_pc s u)" for u using ok(1) by (simp add: threads_ok_def)
  then have known: "sl_pc s u = p \<Longrightarrow> knows hash (sl_map s) (sl_seq s) p" for u p by metis
  note goto = threads_goto [OF ok(1)]
  show ?thesis using assms(1)
  proof cases
    case (bucket t c q b)
    have "odd (sl_seq s)" if "rehashing s"
      using that ok(3) unfolding parity_ok_def rehashing_def by (metis unstable.simps(1))
    moreover have "saved (sl_seq s) q True" using kn [of t] bucket by simp
    ultimately have "saved (sl_seq s) q (right_bucket hash (sl_map s) c b)"
      using bucket(3) by (auto simp: right_bucket_def dest: saved_odd)
    then show ?thesis by (intro goto [of s' t "HaveBucket c q b"]) (use bucket in auto)
  next
    case (recheck_ok t c q b)
    then have "right_bucket hash (sl_map s) c b" using kn [of t] saved_now [OF _ assms(4)] by auto
    then show ?thesis by (intro goto [of s' t "Body c b"]) (use recheck_ok in auto)
  next
    case (commit t c b ch r m)
    then show ?thesis using threads_commit [OF ok(1,2,4)] by simp
  next
    case (rehash t c m)
    then show ?thesis using threads_rehash [OF ok] by simp
  next
    case rehash_thrown
    then show ?thesis using assms(3) by cases (simp_all add: unwind_rehash_def)
  next
    case (load_seq t c)
    then have "saved (sl_seq s) (table_seq s) True" unfolding saved_def even_word by blast
    then show ?thesis by (intro goto [of s' t "HaveSeq c (table_seq s)"]) (use load_seq in auto)
  next
    case invoke_refused
    then show ?thesis using ok(1) by (simp add: threads_ok_def)
  next
    case enable
    have "knows hash (enable_lock_free_reads (sl_map s)) (sl_seq s) (sl_pc s u)" for u
      using kn [of u] by (cases "sl_pc s u") (auto simp: right_bucket_def)
    then show ?thesis using enable by (simp add: threads_ok_def)
  next
    case disable
    have "knows hash (disable_lock_free_reads (sl_map s)) (sl_seq s) (sl_pc s u)" for u
      using kn [of u] disable(2) by (cases "sl_pc s u") (auto simp: right_bucket_def, metis free_reading.simps(1))
    then show ?thesis using disable by (simp add: threads_ok_def)
  qed (rule goto, simp, (auto intro: knows_later dest: known)[4])+
qed

lemma history_log:
  assumes "history_ok hash m0 s" "sl_log s' = sl_log s @ [(t, c, r)]" "cm_inv hash (sl_map s')"
    and "answer c r (cm_map (sl_map s)) = Some (cm_map (sl_map s'))"
  shows "history_ok hash m0 s'"
  using assms by (simp add: history_ok_def replay_snoc)

lemma history_step:
  assumes "step hash s s'" "sl_inv hash m0 s" "\<not> sl_failed s'"
  shows "history_ok hash m0 s'"
proof -
  have ok: "history_ok hash m0 s" "cm_inv hash (sl_map s)" using assms(2) by (simp_all add: sl_inv_def history_ok_def)
  have kn: "knows hash (sl_map s) (sl_seq s) (sl_pc s u)" "cm_lock_free (sl_map s) \<Longrightarrow> reading (sl_pc s u)" for u
    using assms(2) by (simp_all add: sl_inv_def threads_ok_def)
  show ?thesis using assms(1)
  proof cases
    case (invoke_refused t c)
    then show ?thesis using ok by (intro history_log [OF ok(1)]) (auto simp: answer_def)
  next
    case (free_read t k b)
    then have "chain_get (hash k) k (cm_heads (sl_map s) ! b) = cm_map (sl_map s) k"
      using kn(1) [of t] cm_get_map [OF ok(2), of k] by (simp add: cm_get_def)
    then show ?thesis using ok free_read by (intro history_log [OF ok(1)]) (auto simp: answer_def)
  next
    case (commit t c b ch r m)
    have get: "is_get c \<or> \<not> cm_lock_free (sl_map s)" using kn(2) [of t] commit(2) by auto
    have "right_bucket hash (sl_map s) c b" "apply_call hash c b (cm_heads (sl_map s) ! b) (sl_map s) = (r, m)"
      using kn(1) [of t] commit by auto
    note a = apply_call_spec(1,2) [OF ok(2) this get]
    show ?thesis by (rule history_log [OF ok(1)]) (use a commit in simp_all)
  next
    case (put_throws t c b ch)
    show ?thesis by (rule history_log [OF ok(1)]) (use ok put_throws in \<open>auto simp: answer_def\<close>)
  next
    case (rehash t c m)
    then show ?thesis using ok trigger_rehash_spec [OF ok(2)] by (simp add: history_ok_def)
  next
    case rehash_thrown
    then show ?thesis using assms(3) by cases (simp_all add: unwind_rehash_def)
  qed (use ok in \<open>simp_all add: history_ok_def\<close>)
qed

lemma seq_mono: "step hash s s' \<Longrightarrow> sl_seq s \<le> sl_seq s' \<and> (sl_failed s \<longrightarrow> sl_failed s')"
  by (induction rule: step.induct) (auto elim!: rehash_throwsE simp: unwind_rehash_def)

lemma sl_inv_step:
  assumes "step hash s s'" "sl_inv hash m0 s" "\<not> sl_failed s'" "sl_seq s < 2 ^ 32"
  shows "sl_inv hash m0 s'"
proof -
  have "locks_ok s" "parity_ok s" using assms(2) by (simp_all add: sl_inv_def)
  then show ?thesis
    using locks_step [OF assms(1)] parity_step [OF assms(1) _ _ assms(3)] threads_step [OF assms]
      history_step [OF assms(1-3)] by (simp add: sl_inv_def)
qed

lemma sl_inv_start: "cm_inv hash m \<Longrightarrow> sl_inv hash m (start m)"
  by (simp add: sl_inv_def locks_ok_def parity_ok_def threads_ok_def history_ok_def start_def)

lemma reach_inv:
  assumes "reach hash m s" "cm_inv hash m" "\<not> sl_failed s" "sl_seq s < 2 ^ 32"
  shows "sl_inv hash m s"
  using assms
proof (induction rule: reach.induct)
  case reach_start
  then show ?case by (simp add: sl_inv_start)
next
  case (reach_step s s')
  have "\<not> sl_failed s" "sl_seq s < 2 ^ 32" using seq_mono [OF reach_step.hyps(2)] reach_step.prems by auto
  then show ?case using sl_inv_step [OF reach_step.hyps(2)] reach_step by blast
qed

section \<open>A rehash that throws\<close>

fun outside :: "('k, 'v) pc \<Rightarrow> bool" where
  "outside (HaveSeq c q) = (q AND 1 = 0)"
| "outside (HaveBucket c q b) = (q AND 1 = 0)"
| "outside (Locked c q b) = (q AND 1 = 0)"
| "outside Idle = True"
| "outside (Spin c) = True"
| "outside (Leave b r) = True"
| "outside (FreeRead k b) = True"
| "outside _ = False"

definition stalled :: "('k, 'v) shared \<Rightarrow> bool" where
  "stalled s \<longleftrightarrow> odd (sl_seq s) \<and> (\<forall>t. outside (sl_pc s t))"

definition same_table :: "('k, 'v) cmap \<Rightarrow> ('k, 'v) cmap \<Rightarrow> bool" where
  "same_table m m' \<longleftrightarrow> cm_bits m' = cm_bits m \<and> cm_heads m' = cm_heads m"

lemma stalled_step:
  assumes "step hash s s'" "stalled s"
  shows "stalled s' \<and> same_table (sl_map s) (sl_map s') \<and> (\<forall>u c. sl_pc s u = Spin c \<longrightarrow> sl_pc s' u = Spin c)"
proof -
  have out: "outside (sl_pc s u)" and odd: "odd (sl_seq s)" for u using assms(2) by (simp_all add: stalled_def)
  then have ps: "sl_pc s u = p \<Longrightarrow> outside p" for u p by metis
  have neq: "table_seq s \<noteq> q" if "q AND 1 = 0" for q using odd even_word [of "sl_seq s"] that by metis
  show ?thesis using assms(1)
  proof cases
    case load_seq
    then show ?thesis using odd even_word by blast
  next
    case rehash_thrown
    then show ?thesis by cases (auto dest: ps)
  next
    case (recheck_ok t c q b)
    then show ?thesis using neq ps by fastforce
  next
    case (want_rehash t c q b)
    then show ?thesis using neq ps by fastforce
  qed (use assms(2) in \<open>(auto dest: ps simp: stalled_def same_table_def)\<close>)
qed

lemma saved_even: "saved seq q P \<Longrightarrow> q AND 1 = 0"
  unfolding saved_def using even_word by blast

lemma throws_stalled:
  assumes "sl_inv hash m s" "rehash_throws s s1" "\<And>u c. sl_pc s u \<noteq> WantRehash c"
  shows "stalled s1" "cm_size (sl_map s1) = 0"
proof -
  have ok: "locks_ok s" "parity_ok s" "0 < n_stripes s" and kn: "knows hash (sl_map s) (sl_seq s) (sl_pc s u)" for u
    using assms(1) by (auto simp: sl_inv_def threads_ok_def history_ok_def cm_inv_def)
  obtain t c where t: "sl_pc s t = Unstable c (n_stripes s)" and pc: "sl_pc s1 = (sl_pc s)(t := Idle)" and seq: "sl_seq s1 = sl_seq s"
    and size: "cm_size (sl_map s1) = 0"
    using assms(2)
    by cases (simp_all add: unwind_rehash_def cm_size_def rehash_region_thrown_def rehash_block_thrown_def sum_list_replicate)
  have "outside (sl_pc s u)" if "u \<noteq> t" for u
  proof -
    have "\<not> in_rehash (sl_pc s u)" using mutex_unique [OF ok(1), of t u] t that by auto
    moreover have "b mod n_stripes s \<notin> holding (n_stripes s) (sl_pc s u)" for b
      using stripe_unique [OF ok(1), of "b mod n_stripes s" t u] that t ok(3) by auto
    ultimately show ?thesis using kn [of u] assms(3) [of u] by (cases "sl_pc s u") (auto dest: saved_even)
  qed
  moreover have "odd (sl_seq s)" using ok(2) t unfolding parity_ok_def by (metis unstable.simps(1))
  ultimately show "stalled s1" by (simp add: stalled_def pc seq)
  show "cm_size (sl_map s1) = 0" by (rule size)
qed

lemma stalled_forever:
  assumes "rtranclp (step hash) s s'" "stalled s"
  shows "stalled s' \<and> same_table (sl_map s) (sl_map s') \<and> (\<forall>u c. sl_pc s u = Spin c \<longrightarrow> sl_pc s' u = Spin c)"
  using assms
proof (induction rule: rtranclp_induct)
  case base
  then show ?case by (simp add: same_table_def)
next
  case (step y z)
  then show ?case using stalled_step [OF step.hyps(2)] by (simp add: same_table_def)
qed

section \<open>A call without contention\<close>

text \<open>Nothing in the protocol blocks a call when the stripe is free and the table is stable.\<close>

lemma solo_approach:
  assumes "reach hash m0 s" "sl_pc s t = Idle" "\<not> cm_lock_free (sl_map s)" "even (sl_seq s)"
  shows "reach hash m0 (goto t (HaveBucket c (table_seq s) (bucket_index (cm_bits (sl_map s)) (hash (call_key c)))) s)"
proof -
  have go: "goto t p (goto t p' s) = goto t p s" for p p' by (simp add: goto_def)
  let ?s1 = "goto t (Spin c) s" and ?s2 = "goto t (HaveSeq c (table_seq s)) s"
  have "reach hash m0 ?s1" by (rule reach_step [OF assms(1) invoke [OF assms(2,3)]])
  then have "reach hash m0 ?s2"
    using reach_step load_seq [of ?s1 t c hash] assms(4) by (fastforce simp: go even_word)
  then show ?thesis using reach_step bucket [of ?s2 t c "table_seq s"] by (fastforce simp: go)
qed

lemma solo_section:
  assumes "reach hash m0 s" "sl_pc s t = HaveBucket c (table_seq s) b" "sl_stripes s (b mod n_stripes s) = None"
    and "apply_call hash c b (cm_heads (sl_map s) ! b) (sl_map s) = (r, m)"
  obtains s' where "reach hash m0 s'" "sl_map s' = m" "sl_log s' = sl_log s @ [(t, c, r)]" "sl_pc s' = (sl_pc s)(t := Idle)"
    "sl_stripes s' = sl_stripes s" "sl_seq s' = sl_seq s" "sl_failed s' = sl_failed s"
    "sl_mutex s' = sl_mutex s" "sl_puts s' = (if is_put c then (sl_puts s)(t := sl_puts s t + 1) else sl_puts s)"
proof -
  let ?i = "b mod n_stripes s"
  let ?s1 = "goto t (Locked c (table_seq s) b) (take_stripe t ?i s)"
  let ?s2 = "goto t (Body c b) (count_put t c ?s1)"
  let ?s3 = "goto t (Writing c b (cm_heads (sl_map s) ! b)) ?s2"
  let ?s4 = "add_log t c r (goto t (Leave b r) (?s3\<lparr>sl_map := m\<rparr>))"
  have n: "length (cm_counts m) = n_stripes s" by (rule apply_call_stripes [OF assms(4)])
  have "reach hash m0 ?s1" by (rule reach_step [OF assms(1) lock [OF assms(2,3)]])
  then have "reach hash m0 ?s2" by (rule reach_step) (rule recheck_ok, simp_all)
  then have "reach hash m0 ?s3" by (rule reach_step) (use read_chain [of ?s2 t c b hash] in simp)
  then have "reach hash m0 ?s4" by (rule reach_step) (rule commit, use assms(4) in simp_all)
  then have "reach hash m0 (goto t Idle (drop_stripe ?i ?s4))" by (rule reach_step) (use leave [of ?s4 t b r hash] n in simp)
  then show ?thesis by (rule that) (use assms(3) in \<open>auto simp: step_updates\<close>)
qed

section \<open>Properties\<close>

text \<open>
  (C13) Linearizability. In every interleaving of any number of threads in which no allocation
  of a rehash has failed and the sequence counter has not wrapped round, the table is consistent,
  and the answers of all calls are those of the same calls made one after the other, in the order
  of their critical sections, on the finite map the table held at the start; the table holds the
  result. Two threads are never in the critical section of the same bucket at the same time, and
  none is while another one rehashes.
\<close>

theorem concurrent_calls_linearizable:
  assumes "cm_inv hash m" "reach hash m s" "\<not> sl_failed s" "sl_seq s < 2 ^ 32"
  shows "cm_inv hash (sl_map s) \<and> replay (sl_log s) (cm_map m) = Some (cm_map (sl_map s))
    \<and> (sl_pc s t = Writing c b ch \<longrightarrow> sl_pc s u = Writing d b ch' \<longrightarrow> t = u)
    \<and> (sl_pc s t = Writing c b ch \<longrightarrow> \<not> rehashing s)"
proof -
  have inv: "sl_inv hash m s" by (rule reach_inv [OF assms(2,1,3,4)])
  then have ok: "locks_ok s" "cm_inv hash (sl_map s)" "replay (sl_log s) (cm_map m) = Some (cm_map (sl_map s))"
    by (simp_all add: sl_inv_def history_ok_def)
  have "0 < n_stripes s" using ok(2) by (auto simp: cm_inv_def)
  then have "sl_pc s v \<noteq> Unstable e (n_stripes s)" if "sl_pc s t = Writing c b ch" for v e
    using stripe_unique [OF ok(1), of "b mod n_stripes s" t v] that by auto
  then have "sl_pc s t = Writing c b ch \<longrightarrow> \<not> rehashing s" by (simp add: rehashing_def)
  then show ?thesis using ok stripe_unique [OF ok(1), of "b mod n_stripes s" t u] by auto
qed

lemma tiny_bucket: "bucket_index (Suc 0) 4 = 0"
  by code_simp

text \<open>A run of two threads: the second has saved the sequence number and the bucket when the first
  one stores a value, and then reads that value.\<close>

lemma demo_race:
  obtains s r where "reach (\<lambda>k. k) tiny_map s" "sl_log s = [(0, PutCall 4 9, Stored), (1, GetCall 4, r)]" "\<not> sl_failed s" "sl_seq s = 0"
proof -
  let ?h = "\<lambda>k :: u64. k"
  let ?s0 = "start tiny_map"
  let ?s1 = "goto 1 (HaveBucket (GetCall 4) 0 0) ?s0"
  let ?s2 = "goto 0 (HaveBucket (PutCall 4 9) 0 0) ?s1"
  have s0: "sl_map ?s0 = tiny_map" "sl_seq ?s0 = 0" "sl_pc ?s0 = (\<lambda>_. Idle)" "sl_log ?s0 = []" "\<not> sl_failed ?s0" "sl_stripes ?s0 = (\<lambda>_. None)"
    by (simp_all add: start_def)
  note tm = tiny_map_inv(2,3)
  have "reach ?h tiny_map ?s1"
    using solo_approach [OF reach_start [of ?h tiny_map], of 1 "GetCall 4"] by (simp add: s0 tm tiny_bucket)
  then have r2: "reach ?h tiny_map ?s2"
    using solo_approach [of ?h tiny_map ?s1 0 "PutCall 4 9"] by (simp add: s0 tm tiny_bucket)
  obtain m where ap: "apply_call ?h (PutCall 4 9) 0 (cm_heads tiny_map ! 0) tiny_map = (Stored, m)" by (simp add: apply_call_def)
  obtain s3 where s3: "reach ?h tiny_map s3" "sl_log s3 = [(0, PutCall 4 9, Stored)]"
      "sl_pc s3 = (sl_pc ?s2)(0 := Idle)" "sl_stripes s3 = (\<lambda>_. None)" "sl_seq s3 = 0" "\<not> sl_failed s3"
    by (rule solo_section [of ?h tiny_map ?s2 0 "PutCall 4 9" 0 Stored m]) (use r2 ap in \<open>auto simp: s0\<close>)
  obtain r m' where "apply_call ?h (GetCall 4) 0 (cm_heads (sl_map s3) ! 0) (sl_map s3) = (r, m')" by (metis surj_pair)
  from solo_section [OF s3(1) _ _ this, of 1] show ?thesis using that s3 by auto
qed

theorem concurrent_calls_linearizable_witness:
  "\<exists>s. reach (\<lambda>k. k) tiny_map s \<and> sl_log s = [(0, PutCall 4 9, Stored), (1, GetCall 4, Found (Some 9))]"
proof -
  obtain s r where s: "reach (\<lambda>k. k) tiny_map s" "sl_log s = [(0, PutCall 4 9, Stored), (1, GetCall 4, r)]" "\<not> sl_failed s" "sl_seq s = 0"
    by (rule demo_race)
  have "replay (sl_log s) (cm_map tiny_map) = Some (cm_map (sl_map s))"
    using concurrent_calls_linearizable [OF tiny_map_inv(1) s(1,3)] s(4) by simp
  then have "r = Found (Some 9)" using s(2) by (auto simp: answer_def split: if_splits)
  then show ?thesis using s by auto
qed

text \<open>
  (C14) A defect of the rehash. When an allocation in the rehash throws, the locks are released but
  the sequence counter stays odd. If no other thread is waiting to rehash, then in every
  continuation each call that is at the head of its loop stays there for ever, no call changes the
  table any more, and the size is reported as 0 right after the failure.
\<close>

theorem failed_rehash_stalls:
  assumes "cm_inv hash m" "reach hash m s" "\<not> sl_failed s" "sl_seq s < 2 ^ 32"
    and "rehash_throws s s1" "\<And>u c. sl_pc s u \<noteq> WantRehash c" "rtranclp (step hash) s1 s2"
  shows "(sl_pc s1 u = Spin c \<longrightarrow> sl_pc s2 u = Spin c) \<and> sl_pc s2 u \<noteq> Body c b
    \<and> same_table (sl_map s1) (sl_map s2) \<and> cm_size (sl_map s1) = 0"
proof -
  note st = throws_stalled [OF reach_inv [OF assms(2,1,3,4)] assms(5,6)]
  note fw = stalled_forever [OF assms(7) st(1)]
  then have "outside (sl_pc s2 u)" by (simp add: stalled_def)
  then show ?thesis using fw st(2) by auto
qed

text \<open>One thread stores the keys of a list while no other thread is active.\<close>

definition quiet_state :: "(u64, nat) shared \<Rightarrow> u64 list \<Rightarrow> bool" where
  "quiet_state s ks \<longleftrightarrow> sl_pc s = (\<lambda>_. Idle) \<and> sl_stripes s = (\<lambda>_. None) \<and> sl_mutex s = None \<and> sl_seq s = 0 \<and> \<not> sl_failed s
     \<and> cm_inv (\<lambda>k. k) (sl_map s) \<and> \<not> cm_lock_free (sl_map s) \<and> cm_bits (sl_map s) = 1 \<and> n_stripes s = 1
     \<and> dom (cm_map (sl_map s)) = set ks \<and> sl_puts s 0 = word_of_nat (length ks)"

lemma demo_puts: "\<exists>s. reach (\<lambda>k. k) tiny_map s \<and> quiet_state s ks"
proof (induction ks)
  case Nil
  have "cm_map tiny_map = Map.empty" "length (cm_counts tiny_map) = 1" by (simp_all add: tiny_map_def cm_map_def entries_def)
  then have "quiet_state (start tiny_map) []" using tiny_map_inv by (simp add: quiet_state_def start_def)
  then show ?case using reach_start by blast
next
  case (Cons k ks)
  let ?h = "\<lambda>k :: u64. k" and ?c = "PutCall k 0 :: (u64, nat) call"
  from Cons obtain s where s: "reach ?h tiny_map s" "quiet_state s ks" by blast
  let ?b = "bucket_index 1 k"
  let ?s = "goto 0 (HaveBucket ?c 0 ?b) s"
  have q: "cm_inv ?h (sl_map s)" "cm_bits (sl_map s) = 1" "\<not> cm_lock_free (sl_map s)" using s(2) by (simp_all add: quiet_state_def)
  obtain r m where a: "apply_call ?h ?c ?b (cm_heads (sl_map s) ! ?b) (sl_map s) = (r, m)" by (metis surj_pair)
  have "right_bucket ?h (sl_map s) ?c ?b" by (simp add: right_bucket_def q(2))
  note m = apply_call_spec [OF q(1) this a disjI2 [OF q(3)]]
  have "reach ?h tiny_map ?s" using solo_approach [OF s(1), of 0 ?c] s(2) by (simp add: quiet_state_def)
  then obtain s' where s': "reach ?h tiny_map s'" "sl_map s' = m" "sl_pc s' = (sl_pc ?s)(0 := Idle)" "sl_stripes s' = sl_stripes ?s"
      "sl_seq s' = sl_seq ?s" "sl_failed s' = sl_failed ?s" "sl_mutex s' = sl_mutex ?s" "sl_puts s' = (sl_puts ?s)(0 := sl_puts ?s 0 + 1)"
    by (rule solo_section [of ?h tiny_map ?s 0 ?c ?b r m]) (use s(2) a in \<open>auto simp: quiet_state_def\<close>)
  have "sl_puts ?s = sl_puts s" by (simp add: goto_def)
  moreover have "r = Stored" using a by (simp add: apply_call_def)
  then have "(cm_map (sl_map s))(k \<mapsto> 0) = cm_map m" using m(2) by (simp add: answer_def)
  then have "dom (cm_map m) = insert k (set ks)" using s(2) by (metis dom_fun_upd option.distinct(1) quiet_state_def)
  ultimately have "quiet_state s' (k # ks)" using s' s(2) m(1,3-5) by (auto simp: quiet_state_def add.commute fun_eq_iff)
  then show ?case using s'(1) by blast
qed

lemma demo_rehash:
  obtains s where "reach (\<lambda>k. k) tiny_map s" "sl_pc s = (\<lambda>_. Idle)(0 := Unstable (PutCall 4 9) (n_stripes s), 1 := Spin (GetCall 4))"
    "\<not> sl_failed s" "sl_seq s = 1" "needs_rehash (sl_map s)" "cm_bits (sl_map s) = 1"
proof -
  let ?h = "\<lambda>k :: u64. k" and ?c = "PutCall 4 9 :: (u64, nat) call"
  let ?ks = "[0, 1, 2, 3] @ replicate 59 (0 :: u64)"
  obtain s where s: "reach ?h tiny_map s" and q: "quiet_state s ?ks" using demo_puts by blast
  let ?s0 = "goto 1 (Spin (GetCall 4)) s"
  let ?s1 = "goto 0 (HaveBucket ?c 0 0) ?s0"
  let ?s2 = "goto 0 (Locked ?c 0 0) (take_stripe 0 0 ?s1)"
  let ?s3 = "goto 0 (WantRehash ?c) (drop_stripe 0 (count_put 0 ?c ?s2))"
  let ?s4 = "goto 0 (HaveMutex ?c) (?s3\<lparr>sl_mutex := Some 0\<rparr>)"
  let ?s5 = "goto 0 (Unstable ?c 0) (?s4\<lparr>sl_seq := sl_seq ?s4 + 1\<rparr>)"
  let ?s6 = "goto 0 (Unstable ?c (Suc 0)) (take_stripe 0 0 ?s5)"
  have n: "n_stripes s = 1" "sl_pc s = (\<lambda>_. Idle)" "sl_seq s = 0" "sl_stripes s = (\<lambda>_. None)" "sl_mutex s = None" "\<not> cm_lock_free (sl_map s)"
    "cm_bits (sl_map s) = 1" "\<not> sl_failed s"
    using q by (simp_all add: quiet_state_def)
  have puts: "sl_puts ?s2 0 + 1 AND 63 = 0" using q by (simp add: quiet_state_def step_updates)
  have "reach ?h tiny_map ?s0" by (rule reach_step [OF s invoke]) (simp_all add: n)
  then have "reach ?h tiny_map ?s1" using solo_approach [of ?h tiny_map ?s0 0 ?c] by (simp add: n tiny_bucket)
  then have "reach ?h tiny_map ?s2" by (rule reach_step) (use lock [of ?s1 0 ?c 0 0] in \<open>simp add: n\<close>)
  then have "reach ?h tiny_map ?s3" by (rule reach_step) (use want_rehash [of ?s2 0 ?c 0 0] puts in \<open>simp add: n\<close>)
  then have "reach ?h tiny_map ?s4" by (rule reach_step) (rule lock_mutex, simp_all add: n)
  then have "reach ?h tiny_map ?s5" by (rule reach_step) (rule make_odd, simp)
  then have r: "reach ?h tiny_map ?s6" by (rule reach_step) (rule lock_next, simp_all add: n)
  have "cm_inv ?h (sl_map s)" "dom (cm_map (sl_map s)) = {0, 1, 2, 3}" using q by (auto simp: quiet_state_def)
  then have "cm_size (sl_map s) = 4" using cm_size_card [of ?h "sl_map s"] by simp
  then have "needs_rehash (sl_map s)" using n(7) by (auto simp: cm_size_def needs_rehash_def kLoadFactor_def Let_def split: if_splits)
  then show ?thesis using that [OF r] n by (auto simp: fun_eq_iff)
qed

theorem failed_rehash_stalls_witness:
  "\<exists>s1. \<forall>s2. rtranclp (step (\<lambda>k :: u64. k)) s1 s2 \<longrightarrow> sl_pc s2 1 = (Spin (GetCall 4) :: (u64, nat) pc) \<and> cm_size (sl_map s1) = 0"
proof -
  obtain s where s: "reach (\<lambda>k. k) tiny_map s" "sl_pc s = (\<lambda>_. Idle)(0 := Unstable (PutCall 4 9) (n_stripes s), 1 := Spin (GetCall 4))"
    "\<not> sl_failed s" "sl_seq s = 1" "needs_rehash (sl_map s)" "cm_bits (sl_map s) = 1"
    by (rule demo_rehash)
  let ?s1 = "unwind_rehash 0 (rehash_region_thrown (sl_map s)) s"
  have "rehash_throws s ?s1" by (rule region [of _ _ "PutCall 4 9"]) (use s in auto)
  moreover have "sl_pc s u \<noteq> WantRehash c" for u c by (simp add: s(2))
  moreover have "sl_pc ?s1 1 = Spin (GetCall 4)" by (simp add: unwind_rehash_def s(2))
  ultimately have "sl_pc s2 1 = Spin (GetCall 4) \<and> cm_size (sl_map ?s1) = 0" if "rtranclp (step (\<lambda>k. k)) ?s1 s2" for s2
    using failed_rehash_stalls [OF tiny_map_inv(1) s(1,3), of ?s1 s2 1 "GetCall 4"] s(4) that by auto
  then show ?thesis by blast
qed

end
