(* ===== verification/CowMap.thy ===== *)
theory CowMap
  imports ConcMap
begin

text \<open>
  The copy-on-write hash map for one writer and many readers, src/libs/yikv/container/hashmap.h. The
  arena is a heap of nodes by offset: roots, arrays of offsets (the two levels of the chunk
  directory, the chunks and the segments) and blocks of entries with the offset of the next block.
  \<^verbatim>\<open>put\<close> and \<^verbatim>\<open>erase\<close> copy the nodes on the path from a bucket to the root and leave every node that is
  there as it is; \<^verbatim>\<open>publish\<close> makes the new root visible and frees nodes that were replaced long enough
  ago.

  \<open>pick\<close> is what \<^verbatim>\<open>Malloc\<close> answers, an offset that is not in use or nothing when it throws, and \<open>now\<close> the
  clock. A state change that came before an exception stays. Entries hold keys and values
  themselves, as in \<open>ConcMap\<close>; what the codecs store in the arena is not part of the heap. Reading a node
  that is not there or not of the right kind is undefined in C++ and the error \<open>HmCorrupt\<close> here; a
  chain that does not end has no blocks (\<open>None\<close>). The number of buckets is the power of two given by
  \<open>bucket_bits\<close>.
\<close>

section \<open>Nodes and state\<close>

definition kBucketsPerSeg :: nat where "kBucketsPerSeg = 64"
definition kSegsPerChunk :: nat where "kSegsPerChunk = 64"
definition kMaxDirChunks :: nat where "kMaxDirChunks = 262144"
definition kChunkDirLeafSlots :: nat where "kChunkDirLeafSlots = 256"

record HmRoot =
  entry_count :: nat
  bucket_bits :: nat
  chunk_count :: nat
  chunk_dir_off :: nat

text \<open>The stable header holds the offset of the current root, kept here in the field \<open>hdr_root\<close> of the state.\<close>

datatype ('k, 'v) hm_node = RootNode HmRoot | Offsets "nat list" | BlockNode "('k, 'v) entry list" nat | HeaderNode

type_synonym ('k, 'v) hm_heap = "nat \<rightharpoonup> ('k, 'v) hm_node"

datatype hm_error = HmOverflow string | HmRuntimeError string | HmInvalidArgument string | HmBadAlloc | HmCorrupt

record ('k, 'v) hashmap =
  hm_nodes :: "('k, 'v) hm_heap"
  pub_root :: nat
  staged_root :: nat
  hdr_root :: nat
  hdr_off :: nat
  retire :: "nat list"
  retired_batches :: "(nat \<times> nat list) list"
  bulk_mode :: bool

definition bucket_count :: "HmRoot \<Rightarrow> nat" where
  "bucket_count r = 2 ^ bucket_bits r"

definition root_chunk_dir_slots :: "nat \<Rightarrow> nat" where
  "root_chunk_dir_slots bc = (let n = bc div (kBucketsPerSeg * kSegsPerChunk) in if n \<noteq> 0 then n else 1)"

definition chunk_dir_num_leaves :: "nat \<Rightarrow> nat" where
  "chunk_dir_num_leaves dir_slots = (dir_slots + kChunkDirLeafSlots - 1) div kChunkDirLeafSlots"

definition chunk_dir_leaf_width :: "nat \<Rightarrow> nat \<Rightarrow> nat" where
  "chunk_dir_leaf_width leaf_i dir_slots =
     (let rem = dir_slots - leaf_i * kChunkDirLeafSlots in if rem < kChunkDirLeafSlots then rem else kChunkDirLeafSlots)"

section \<open>Reading\<close>

definition offsets :: "('k, 'v) hm_heap \<Rightarrow> nat \<Rightarrow> nat list" where
  "offsets h off = (case h off of Some (Offsets xs) \<Rightarrow> xs | _ \<Rightarrow> [])"

definition slot :: "('k, 'v) hm_heap \<Rightarrow> nat \<Rightarrow> nat \<Rightarrow> nat" where
  "slot h off i = (if i < length (offsets h off) then offsets h off ! i else 0)"

definition chunk_dir_get :: "('k, 'v) hm_heap \<Rightarrow> nat \<Rightarrow> nat \<Rightarrow> nat \<Rightarrow> nat" where
  "chunk_dir_get h l1_off chunk_idx dir_slots =
     (if l1_off = 0 \<or> dir_slots \<le> chunk_idx then 0
      else
        let leaf_i = chunk_idx div kChunkDirLeafSlots;
            leaf = slot h l1_off leaf_i
        in if leaf = 0 then 0 else slot h leaf (chunk_idx - leaf_i * kChunkDirLeafSlots))"

definition chunk_at :: "('k, 'v) hm_heap \<Rightarrow> HmRoot \<Rightarrow> nat \<Rightarrow> nat" where
  "chunk_at h r c = chunk_dir_get h (chunk_dir_off r) c (root_chunk_dir_slots (bucket_count r))"

definition seg_at :: "('k, 'v) hm_heap \<Rightarrow> HmRoot \<Rightarrow> nat \<Rightarrow> nat \<Rightarrow> nat" where
  "seg_at h r c g = (let ch = chunk_at h r c in if ch = 0 then 0 else slot h ch g)"

text \<open>The three numbers a bucket index is made of.\<close>

definition b_chunk :: "nat \<Rightarrow> nat" where "b_chunk b = b div (kBucketsPerSeg * kSegsPerChunk)"
definition b_seg :: "nat \<Rightarrow> nat" where "b_seg b = b div kBucketsPerSeg mod kSegsPerChunk"
definition b_local :: "nat \<Rightarrow> nat" where "b_local b = b mod kBucketsPerSeg"

definition bkt_at :: "('k, 'v) hm_heap \<Rightarrow> HmRoot \<Rightarrow> nat \<Rightarrow> nat" where
  "bkt_at h r b = (let sg = seg_at h r (b_chunk b) (b_seg b) in if sg = 0 then 0 else slot h sg (b_local b))"

partial_function (option) chain_blocks :: "('k, 'v) hm_heap \<Rightarrow> nat \<Rightarrow> (nat \<times> ('k, 'v) entry list) list option" where
  "chain_blocks h off =
     (if off = 0 then Some []
      else case h off of
        Some (BlockNode es nxt) \<Rightarrow> Option.bind (chain_blocks h nxt) (\<lambda>bs. Some ((off, es) # bs))
      | _ \<Rightarrow> None)"

definition root_of :: "('k, 'v) hm_heap \<Rightarrow> nat \<Rightarrow> HmRoot option" where
  "root_of h off = (case h off of Some (RootNode r) \<Rightarrow> Some r | _ \<Rightarrow> None)"

definition first_block :: "('k, 'v) hm_heap \<Rightarrow> HmRoot \<Rightarrow> u64 \<Rightarrow> nat" where
  "first_block h r hsh = bkt_at h r (bucket_index (bucket_bits r) hsh)"

text \<open>\<^verbatim>\<open>Snapshot::get\<close> from the root at an offset; the outer \<open>None\<close> is a read of something that is not there.\<close>

definition snapshot_get :: "('k \<Rightarrow> u64) \<Rightarrow> 'k \<Rightarrow> ('k, 'v) hm_heap \<Rightarrow> nat \<Rightarrow> 'v option option" where
  "snapshot_get hash k h root =
     (if root = 0 then Some None
      else Option.bind (root_of h root) (\<lambda>r.
        map_option (\<lambda>bs. chain_get (hash k) k (map snd bs)) (chain_blocks h (first_block h r (hash k)))))"

section \<open>Actions\<close>

type_synonym ('k, 'v, 'a) hm_act = "('k, 'v) hashmap \<Rightarrow> (hm_error + 'a) \<times> ('k, 'v) hashmap"

definition hm_ret :: "'a \<Rightarrow> ('k, 'v, 'a) hm_act" where
  "hm_ret x s = (Inr x, s)"

definition hm_throw :: "hm_error \<Rightarrow> ('k, 'v, 'a) hm_act" where
  "hm_throw e s = (Inl e, s)"

definition hm_then :: "('k, 'v, 'a) hm_act \<Rightarrow> ('a \<Rightarrow> ('k, 'v, 'b) hm_act) \<Rightarrow> ('k, 'v, 'b) hm_act" where
  "hm_then m f s = (case m s of (Inl e, s') \<Rightarrow> (Inl e, s') | (Inr x, s') \<Rightarrow> f x s')"

definition hm_gets :: "(('k, 'v) hashmap \<Rightarrow> 'a) \<Rightarrow> ('k, 'v, 'a) hm_act" where
  "hm_gets f s = (Inr (f s), s)"

definition hm_new :: "(nat set \<Rightarrow> nat option) \<Rightarrow> ('k, 'v) hm_node \<Rightarrow> ('k, 'v, nat) hm_act" where
  "hm_new pick nd s =
     (case pick (dom (hm_nodes s)) of
        None \<Rightarrow> (Inl HmBadAlloc, s)
      | Some off \<Rightarrow> (Inr off, s\<lparr>hm_nodes := (hm_nodes s)(off \<mapsto> nd)\<rparr>))"

definition hm_link :: "nat \<Rightarrow> nat \<Rightarrow> ('k, 'v, unit) hm_act" where
  "hm_link prev off s =
     (case hm_nodes s prev of
        Some (BlockNode es nxt) \<Rightarrow> (Inr (), s\<lparr>hm_nodes := (hm_nodes s)(prev \<mapsto> BlockNode es off)\<rparr>)
      | _ \<Rightarrow> (Inl HmCorrupt, s))"

definition hm_retire :: "nat list \<Rightarrow> ('k, 'v, unit) hm_act" where
  "hm_retire offs s = (Inr (), s\<lparr>retire := retire s @ offs\<rparr>)"

definition hm_opt :: "'a option \<Rightarrow> ('k, 'v, 'a) hm_act" where
  "hm_opt x = (case x of None \<Rightarrow> hm_throw HmCorrupt | Some y \<Rightarrow> hm_ret y)"

section \<open>Copy on write\<close>

fun build_rest :: "(nat set \<Rightarrow> nat option) \<Rightarrow> nat \<Rightarrow> nat \<Rightarrow> ('k, 'v) entry list \<Rightarrow> ('k, 'v, unit) hm_act" where
  "build_rest pick 0 prev ents = hm_ret ()"
| "build_rest pick (Suc n) prev ents =
     (if ents = [] then hm_ret ()
      else hm_then (hm_new pick (BlockNode (take kBlockCap ents) 0)) (\<lambda>off.
        hm_then (hm_link prev off) (\<lambda>_. build_rest pick n off (drop kBlockCap ents))))"

text \<open>The loop makes a block of each \<^verbatim>\<open>kBlockCap\<close> entries, so one round per entry is enough.\<close>

definition build_chain :: "(nat set \<Rightarrow> nat option) \<Rightarrow> ('k, 'v) entry list \<Rightarrow> ('k, 'v, nat) hm_act" where
  "build_chain pick ents =
     (if ents = [] then hm_ret 0
      else hm_then (hm_new pick (BlockNode (take kBlockCap ents) 0)) (\<lambda>head.
        hm_then (build_rest pick (length ents) head (drop kBlockCap ents)) (\<lambda>_. hm_ret head)))"

definition cow_bucket_put :: "(nat set \<Rightarrow> nat option) \<Rightarrow> nat \<Rightarrow> u64 \<Rightarrow> 'k \<Rightarrow> 'v \<Rightarrow> ('k, 'v, bool \<times> nat) hm_act" where
  "cow_bucket_put pick old_head hsh k v =
     hm_then (hm_gets (\<lambda>s. chain_blocks (hm_nodes s) old_head)) (\<lambda>c.
     hm_then (hm_opt c) (\<lambda>bs.
     hm_then (hm_retire (map fst bs)) (\<lambda>_.
       let ents = concat (map snd bs) in
       case block_update hsh k v ents of
         Some ents' \<Rightarrow> hm_then (build_chain pick ents') (\<lambda>head. hm_ret (False, head))
       | None \<Rightarrow> hm_then (build_chain pick (ents @ [make_entry hsh k v])) (\<lambda>head. hm_ret (True, head)))))"

definition cow_bucket_erase :: "(nat set \<Rightarrow> nat option) \<Rightarrow> nat \<Rightarrow> u64 \<Rightarrow> 'k \<Rightarrow> ('k, 'v, bool \<times> nat) hm_act" where
  "cow_bucket_erase pick old_head hsh k =
     hm_then (hm_gets (\<lambda>s. chain_blocks (hm_nodes s) old_head)) (\<lambda>c.
     hm_then (hm_opt c) (\<lambda>bs.
     hm_then (hm_retire (map fst bs)) (\<lambda>_.
       let ents = concat (map snd bs) in
       case block_erase hsh k ents of
         Some ents' \<Rightarrow> hm_then (build_chain pick ents') (\<lambda>head. hm_ret (True, head))
       | None \<Rightarrow> hm_then (build_chain pick ents) (\<lambda>head. hm_ret (False, head)))))"

text \<open>A copy of an array (of zeros if there is none) with one slot changed.\<close>

definition cow_array :: "('k, 'v) hm_heap \<Rightarrow> nat \<Rightarrow> nat \<Rightarrow> nat \<Rightarrow> nat \<Rightarrow> nat list" where
  "cow_array h old_off width i new = (if old_off \<noteq> 0 then offsets h old_off else replicate width 0)[i := new]"

definition cow_segment :: "(nat set \<Rightarrow> nat option) \<Rightarrow> nat \<Rightarrow> nat \<Rightarrow> nat \<Rightarrow> ('k, 'v, nat) hm_act" where
  "cow_segment pick old_off local new_bkt =
     hm_then (hm_gets (\<lambda>s. cow_array (hm_nodes s) old_off kBucketsPerSeg local new_bkt)) (\<lambda>xs.
     hm_then (hm_new pick (Offsets xs)) (\<lambda>seg.
     hm_then (hm_retire (if old_off \<noteq> 0 then [old_off] else [])) (\<lambda>_. hm_ret seg)))"

definition cow_chunk :: "(nat set \<Rightarrow> nat option) \<Rightarrow> nat \<Rightarrow> nat \<Rightarrow> nat \<Rightarrow> ('k, 'v, nat) hm_act" where
  "cow_chunk pick old_off seg_idx new_seg =
     hm_then (hm_gets (\<lambda>s. cow_array (hm_nodes s) old_off kSegsPerChunk seg_idx new_seg)) (\<lambda>xs.
     hm_then (hm_new pick (Offsets xs)) (\<lambda>chunk.
     hm_then (hm_retire (if old_off \<noteq> 0 then [old_off] else [])) (\<lambda>_. hm_ret chunk)))"

definition updated_root :: "HmRoot \<Rightarrow> nat \<Rightarrow> int \<Rightarrow> nat \<Rightarrow> HmRoot" where
  "updated_root old chunk_idx delta n1 =
     old\<lparr>entry_count := nat (int (entry_count old) + delta),
         chunk_count := (if chunk_count old < chunk_idx + 1 then chunk_idx + 1 else chunk_count old),
         chunk_dir_off := n1\<rparr>"

definition cow_root :: "(nat set \<Rightarrow> nat option) \<Rightarrow> nat \<Rightarrow> HmRoot \<Rightarrow> nat \<Rightarrow> nat \<Rightarrow> int \<Rightarrow> ('k, 'v, nat) hm_act" where
  "cow_root pick old_off old chunk_idx new_chunk delta =
     (let slots = root_chunk_dir_slots (bucket_count old);
          num_leaves = chunk_dir_num_leaves slots;
          leaf_i = chunk_idx div kChunkDirLeafSlots;
          sub = chunk_idx - leaf_i * kChunkDirLeafSlots;
          old_l1 = chunk_dir_off old;
          leaf_w = chunk_dir_leaf_width leaf_i slots
      in if slots \<le> chunk_idx then hm_throw (HmRuntimeError ''HashMap: chunk index out of range'')
         else
           hm_then (hm_gets (\<lambda>s. if old_l1 \<noteq> 0 then slot (hm_nodes s) old_l1 leaf_i else 0)) (\<lambda>old_leaf.
           hm_then (hm_gets (\<lambda>s. cow_array (hm_nodes s) old_leaf leaf_w sub new_chunk)) (\<lambda>xs.
           hm_then (hm_new pick (Offsets xs)) (\<lambda>nl.
           hm_then (hm_gets (\<lambda>s. cow_array (hm_nodes s) old_l1 num_leaves leaf_i nl)) (\<lambda>ys.
           hm_then (hm_new pick (Offsets ys)) (\<lambda>n1.
           hm_then (hm_new pick (RootNode (updated_root old chunk_idx delta n1))) (\<lambda>r.
           hm_then (hm_retire ([old_off] @ (if old_l1 \<noteq> 0 then [old_l1] else []) @ (if old_leaf \<noteq> 0 then [old_leaf] else []))) (\<lambda>_.
             hm_ret r))))))))"

definition set_staged :: "nat \<Rightarrow> ('k, 'v, unit) hm_act" where
  "set_staged off s = (Inr (), s\<lparr>staged_root := off\<rparr>)"

definition staged :: "('k, 'v, nat \<times> HmRoot) hm_act" where
  "staged s = (case root_of (hm_nodes s) (staged_root s) of None \<Rightarrow> (Inl HmCorrupt, s) | Some r \<Rightarrow> (Inr (staged_root s, r), s))"

definition do_put :: "(nat set \<Rightarrow> nat option) \<Rightarrow> u64 \<Rightarrow> 'k \<Rightarrow> 'v \<Rightarrow> ('k, 'v, bool) hm_act" where
  "do_put pick hsh k v =
     hm_then staged (\<lambda>(off, root).
       let b = bucket_index (bucket_bits root) hsh in
       hm_then (hm_gets (\<lambda>s. (chunk_at (hm_nodes s) root (b_chunk b), seg_at (hm_nodes s) root (b_chunk b) (b_seg b),
                              bkt_at (hm_nodes s) root b))) (\<lambda>(old_chunk, old_seg, old_bkt).
       hm_then (cow_bucket_put pick old_bkt hsh k v) (\<lambda>(inserted, new_bkt).
       hm_then (cow_segment pick (if old_chunk \<noteq> 0 then old_seg else 0) (b_local b) new_bkt) (\<lambda>new_seg.
       hm_then (cow_chunk pick old_chunk (b_seg b) new_seg) (\<lambda>new_chunk.
       hm_then (cow_root pick off root (b_chunk b) new_chunk (if inserted then 1 else 0)) (\<lambda>new_root.
       hm_then (set_staged new_root) (\<lambda>_. hm_ret inserted)))))))"

section \<open>Rehash, put, erase\<close>

text \<open>The chains of all buckets that exist under a root, in the order of the loops.\<close>

definition root_chains :: "('k, 'v) hm_heap \<Rightarrow> HmRoot \<Rightarrow> (nat \<times> ('k, 'v) entry list) list option list" where
  "root_chains h r =
     concat (map (\<lambda>ci. if chunk_at h r ci = 0 then []
       else concat (map (\<lambda>si. if seg_at h r ci si = 0 then []
         else map (\<lambda>bi. chain_blocks h (slot h (seg_at h r ci si) bi)) [0..<kBucketsPerSeg]) [0..<kSegsPerChunk]))
       [0..<chunk_count r])"

definition for_each_in_root :: "('k, 'v) hm_heap \<Rightarrow> HmRoot \<Rightarrow> ('k, 'v) entry list option" where
  "for_each_in_root h r =
     (if None \<in> set (root_chains h r) then None
      else Some (concat (map (\<lambda>c. concat (map snd (the c))) (root_chains h r))))"

definition root_nodes :: "('k, 'v) hm_heap \<Rightarrow> nat \<Rightarrow> HmRoot \<Rightarrow> nat list" where
  "root_nodes h off r =
     concat (map (\<lambda>ci. if chunk_at h r ci = 0 then []
       else concat (map (\<lambda>si. if seg_at h r ci si = 0 then []
         else concat (map (\<lambda>bi. map fst (the (chain_blocks h (slot h (seg_at h r ci si) bi)))) [0..<kBucketsPerSeg])
              @ [seg_at h r ci si]) [0..<kSegsPerChunk]) @ [chunk_at h r ci])
       [0..<chunk_count r])
     @ (if chunk_dir_off r \<noteq> 0
        then filter (\<lambda>x. x \<noteq> 0) (map (slot h (chunk_dir_off r))
               [0..<chunk_dir_num_leaves (root_chunk_dir_slots (bucket_count r))]) @ [chunk_dir_off r]
        else [])
     @ [off]"

fun reinsert_all :: "(nat set \<Rightarrow> nat option) \<Rightarrow> ('k, 'v) entry list \<Rightarrow> ('k, 'v, unit) hm_act" where
  "reinsert_all pick [] = hm_ret ()"
| "reinsert_all pick (e # es) =
     hm_then (do_put pick (en_hash e) (en_key e) (en_val e)) (\<lambda>_. reinsert_all pick es)"

definition new_root :: "nat \<Rightarrow> nat \<Rightarrow> HmRoot" where
  "new_root bits dir = \<lparr>entry_count = 0, bucket_bits = bits, chunk_count = 0, chunk_dir_off = dir\<rparr>"

definition alloc_root :: "(nat set \<Rightarrow> nat option) \<Rightarrow> nat \<Rightarrow> ('k, 'v, nat) hm_act" where
  "alloc_root pick bits =
     hm_then (hm_new pick (Offsets (replicate (chunk_dir_num_leaves (root_chunk_dir_slots (2 ^ bits))) 0))) (\<lambda>dir.
       hm_new pick (RootNode (new_root bits dir)))"

definition rehash :: "(nat set \<Rightarrow> nat option) \<Rightarrow> ('k, 'v, unit) hm_act" where
  "rehash pick =
     hm_then staged (\<lambda>(old, r).
       if kMaxDirChunks < root_chunk_dir_slots (2 ^ (bucket_bits r + 1))
       then hm_throw (HmOverflow ''HashMap: max bucket count exceeded'')
       else
         hm_then (alloc_root pick (bucket_bits r + 1)) (\<lambda>root.
         hm_then (set_staged root) (\<lambda>_.
         hm_then (hm_gets (\<lambda>s. for_each_in_root (hm_nodes s) r)) (\<lambda>es.
         hm_then (hm_opt es) (\<lambda>es.
         hm_then (reinsert_all pick es) (\<lambda>_.
         hm_then (hm_gets (\<lambda>s. root_nodes (hm_nodes s) old r)) hm_retire))))))"

text \<open>The insertion of the bulk mode changes the nodes in place.\<close>

definition set_dir_slot :: "nat \<Rightarrow> nat \<Rightarrow> nat \<Rightarrow> ('k, 'v, unit) hm_act" where
  "set_dir_slot off i v s =
     (case hm_nodes s off of
        Some (Offsets xs) \<Rightarrow>
          if i < length xs then (Inr (), s\<lparr>hm_nodes := (hm_nodes s)(off \<mapsto> Offsets (xs[i := v]))\<rparr>) else (Inl HmCorrupt, s)
      | _ \<Rightarrow> (Inl HmCorrupt, s))"

definition set_root :: "nat \<Rightarrow> HmRoot \<Rightarrow> ('k, 'v, unit) hm_act" where
  "set_root off r s = (Inr (), s\<lparr>hm_nodes := (hm_nodes s)(off \<mapsto> RootNode r)\<rparr>)"

definition get_slot :: "nat \<Rightarrow> nat \<Rightarrow> ('k, 'v, nat) hm_act" where
  "get_slot off i = hm_gets (\<lambda>s. slot (hm_nodes s) off i)"

definition chunk_dir_set_inplace :: "(nat set \<Rightarrow> nat option) \<Rightarrow> nat \<Rightarrow> nat \<Rightarrow> nat \<Rightarrow> nat \<Rightarrow> ('k, 'v, unit) hm_act" where
  "chunk_dir_set_inplace pick l1_off chunk_idx dir_slots new_chunk =
     (let leaf_i = chunk_idx div kChunkDirLeafSlots;
          sub = chunk_idx mod kChunkDirLeafSlots
      in hm_then (get_slot l1_off leaf_i) (\<lambda>leaf.
         hm_then (if leaf = 0
                  then hm_then (hm_new pick (Offsets (replicate (chunk_dir_leaf_width leaf_i dir_slots) 0))) (\<lambda>lm.
                       hm_then (set_dir_slot l1_off leaf_i lm) (\<lambda>_. hm_ret lm))
                  else hm_ret leaf) (\<lambda>leaf.
         set_dir_slot leaf sub new_chunk)))"

definition add_in_place :: "(nat set \<Rightarrow> nat option) \<Rightarrow> nat \<Rightarrow> ('k, 'v) entry \<Rightarrow> ('k, 'v, unit) hm_act" where
  "add_in_place pick bkt_off e =
     hm_then (hm_gets (\<lambda>s. chain_blocks (hm_nodes s) bkt_off)) (\<lambda>c.
     hm_then (hm_opt c) (\<lambda>bs.
       case List.find (\<lambda>(off, es). length es < kBlockCap) bs of
         Some (off, es) \<Rightarrow>
           (\<lambda>s. case hm_nodes s off of
                  Some (BlockNode es nxt) \<Rightarrow> (Inr (), s\<lparr>hm_nodes := (hm_nodes s)(off \<mapsto> BlockNode (es @ [e]) nxt)\<rparr>)
                | _ \<Rightarrow> (Inl HmCorrupt, s))
       | None \<Rightarrow>
           hm_then (hm_new pick (BlockNode [e] 0)) (\<lambda>off. hm_link (fst (last bs)) off)))"

definition do_put_bulk :: "(nat set \<Rightarrow> nat option) \<Rightarrow> u64 \<Rightarrow> 'k \<Rightarrow> 'v \<Rightarrow> ('k, 'v, unit) hm_act" where
  "do_put_bulk pick hsh k v =
     hm_then staged (\<lambda>(off, root).
       let b = bucket_index (bucket_bits root) hsh;
           dir_slots = root_chunk_dir_slots (bucket_count root);
           e = make_entry hsh k v
       in
       hm_then (hm_gets (\<lambda>s. chunk_at (hm_nodes s) root (b_chunk b))) (\<lambda>chunk.
       hm_then (if chunk = 0
                then hm_then (hm_new pick (Offsets (replicate kSegsPerChunk 0))) (\<lambda>c.
                     hm_then (chunk_dir_set_inplace pick (chunk_dir_off root) (b_chunk b) dir_slots c) (\<lambda>_.
                     let root = root\<lparr>chunk_count := max (chunk_count root) (b_chunk b + 1)\<rparr> in
                     hm_then (set_root off root) (\<lambda>_. hm_ret (c, root))))
                else hm_ret (chunk, root)) (\<lambda>(chunk, root).
       hm_then (get_slot chunk (b_seg b)) (\<lambda>seg.
       hm_then (if seg = 0
                then hm_then (hm_new pick (Offsets (replicate kBucketsPerSeg 0))) (\<lambda>sg.
                     hm_then (set_dir_slot chunk (b_seg b) sg) (\<lambda>_. hm_ret sg))
                else hm_ret seg) (\<lambda>seg.
       hm_then (get_slot seg (b_local b)) (\<lambda>bkt.
       hm_then (if bkt = 0
                then hm_then (hm_new pick (BlockNode [e] 0)) (\<lambda>bl. set_dir_slot seg (b_local b) bl)
                else add_in_place pick bkt e) (\<lambda>_.
       set_root off (root\<lparr>entry_count := entry_count root + 1\<rparr>))))))))"

definition set_bulk :: "bool \<Rightarrow> ('k, 'v, unit) hm_act" where
  "set_bulk b s = (Inr (), s\<lparr>bulk_mode := b\<rparr>)"

definition hm_put :: "('k \<Rightarrow> u64) \<Rightarrow> (nat set \<Rightarrow> nat option) \<Rightarrow> 'k \<Rightarrow> 'v \<Rightarrow> ('k, 'v, unit) hm_act" where
  "hm_put hash pick k v =
     hm_then staged (\<lambda>(off, root).
     hm_then (if bucket_count root * kLoadFactor \<le> entry_count root
              then hm_then (hm_gets bulk_mode) (\<lambda>was_bulk.
                   hm_then (set_bulk False) (\<lambda>_.
                   hm_then (rehash pick) (\<lambda>_. set_bulk was_bulk)))
              else hm_ret ()) (\<lambda>_.
     hm_then (hm_gets bulk_mode) (\<lambda>bulk.
       if bulk then do_put_bulk pick (hash k) k v
       else hm_then (do_put pick (hash k) k v) (\<lambda>_. hm_ret ()))))"

definition hm_erase :: "('k \<Rightarrow> u64) \<Rightarrow> (nat set \<Rightarrow> nat option) \<Rightarrow> 'k \<Rightarrow> ('k, 'v, bool) hm_act" where
  "hm_erase hash pick k =
     hm_then staged (\<lambda>(off, root).
       let b = bucket_index (bucket_bits root) (hash k) in
       hm_then (hm_gets (\<lambda>s. (chunk_at (hm_nodes s) root (b_chunk b), seg_at (hm_nodes s) root (b_chunk b) (b_seg b),
                              bkt_at (hm_nodes s) root b))) (\<lambda>(old_chunk, old_seg, old_bkt).
       if old_chunk = 0 \<or> old_seg = 0 \<or> old_bkt = 0 then hm_ret False
       else
         hm_then (cow_bucket_erase pick old_bkt (hash k) k) (\<lambda>(erased, new_bkt).
         if \<not> erased then hm_ret False
         else
           hm_then (cow_segment pick old_seg (b_local b) new_bkt) (\<lambda>new_seg.
           hm_then (cow_chunk pick old_chunk (b_seg b) new_seg) (\<lambda>new_chunk.
           hm_then (cow_root pick off root (b_chunk b) new_chunk (- 1)) (\<lambda>new_root.
           hm_then (set_staged new_root) (\<lambda>_. hm_ret True)))))))"

section \<open>Construction, publishing, readers\<close>

definition hm_create :: "(nat set \<Rightarrow> nat option) \<Rightarrow> nat \<Rightarrow> ('k, 'v) hm_heap \<Rightarrow> (hm_error + unit) \<times> ('k, 'v) hashmap" where
  "hm_create pick bits h =
     (let s = \<lparr>hm_nodes = h, pub_root = 0, staged_root = 0, hdr_root = 0, hdr_off = 0, retire = [], retired_batches = [], bulk_mode = False\<rparr>
      in if kMaxDirChunks < root_chunk_dir_slots (2 ^ bits) then (Inl (HmInvalidArgument ''HashMap: too many buckets requested''), s)
         else hm_then (alloc_root pick bits) (\<lambda>root.
              hm_then (set_staged root) (\<lambda>_.
              hm_then (hm_new pick HeaderNode) (\<lambda>hdr s.
                (Inr (), s\<lparr>hdr_root := root, hdr_off := hdr, pub_root := root\<rparr>)))) s)"

definition hm_recover :: "bool \<Rightarrow> nat \<Rightarrow> nat \<Rightarrow> nat \<Rightarrow> ('k, 'v) hm_heap \<Rightarrow> hm_error + ('k, 'v) hashmap" where
  "hm_recover magic_ok version root_off hdr h =
     (if \<not> magic_ok then Inl (HmRuntimeError ''HashMap: bad magic on recovery'')
      else if version \<noteq> 5 then
        (if 1 \<le> version \<and> version < 5 then Inl (HmRuntimeError ''HashMap: older on-disk map format'')
         else Inl (HmRuntimeError ''HashMap: unsupported version''))
      else Inr \<lparr>hm_nodes = h, pub_root = root_off, staged_root = root_off, hdr_root = root_off, hdr_off = hdr, retire = [],
                retired_batches = [], bulk_mode = False\<rparr>)"

fun sweep_batches :: "nat \<Rightarrow> (nat \<times> nat list) list \<Rightarrow> ('k, 'v) hm_heap \<Rightarrow> (nat \<times> nat list) list \<times> ('k, 'v) hm_heap" where
  "sweep_batches cutoff [] h = ([], h)"
| "sweep_batches cutoff ((time, offs) # batches) h =
     (if time \<le> cutoff then sweep_batches cutoff batches (h |` (- set offs)) else ((time, offs) # batches, h))"

definition publish :: "nat \<Rightarrow> nat \<Rightarrow> nat \<Rightarrow> ('k, 'v) hashmap \<Rightarrow> ('k, 'v) hashmap" where
  "publish delay now1 now2 s =
     (let batches = (if retire s \<noteq> [] then retired_batches s @ [(now1, retire s)] else retired_batches s);
          cutoff = (if delay < now2 then now2 - delay else 0);
          (batches', h) = sweep_batches cutoff batches (hm_nodes s)
      in s\<lparr>hdr_root := staged_root s, pub_root := staged_root s, retire := [], retired_batches := batches', hm_nodes := h\<rparr>)"

definition staged_get :: "('k \<Rightarrow> u64) \<Rightarrow> 'k \<Rightarrow> ('k, 'v) hashmap \<Rightarrow> 'v option option" where
  "staged_get hash k s =
     Option.bind (root_of (hm_nodes s) (staged_root s)) (\<lambda>r.
       if entry_count r = 0 then Some None
       else map_option (\<lambda>bs. chain_get (hash k) k (map snd bs)) (chain_blocks (hm_nodes s) (first_block (hm_nodes s) r (hash k))))"

definition hm_size :: "('k, 'v) hashmap \<Rightarrow> nat option" where
  "hm_size s = map_option entry_count (root_of (hm_nodes s) (staged_root s))"

definition enable_bulk_mode :: "('k, 'v) hashmap \<Rightarrow> ('k, 'v) hashmap" where
  "enable_bulk_mode s = s\<lparr>bulk_mode := True\<rparr>"

definition root_offset :: "('k, 'v) hashmap \<Rightarrow> nat" where
  "root_offset s = hdr_off s"

definition snapshot_size :: "('k, 'v) hm_heap \<Rightarrow> nat \<Rightarrow> nat option" where
  "snapshot_size h root = (if root = 0 then Some 0 else map_option entry_count (root_of h root))"

definition snapshot_for_each :: "('k, 'v) hm_heap \<Rightarrow> nat \<Rightarrow> ('k \<times> 'v) list option" where
  "snapshot_for_each h root =
     (if root = 0 then Some []
      else Option.bind (root_of h root) (\<lambda>r. map_option (map (\<lambda>e. (en_key e, en_val e))) (for_each_in_root h r)))"

definition acquire_snapshot :: "('k, 'v) hashmap \<Rightarrow> nat" where
  "acquire_snapshot s = pub_root s"

end
