(* ===== verification/CowCorrect.thy ===== *)
theory CowCorrect
  imports CowMap
begin

text \<open>
  Correctness of the copy-on-write map: under the contract of the allocator every operation keeps
  all nodes that are there, the staged root describes a finite map that \<^verbatim>\<open>put\<close> and \<^verbatim>\<open>erase\<close> update, and a
  snapshot taken before is not affected by them.
\<close>

section \<open>Runs\<close>

text \<open>What every action leaves alone: the nodes of the heap, the published root and the batches.\<close>

definition frame :: "('k, 'v) hashmap \<Rightarrow> ('k, 'v) hashmap \<Rightarrow> bool" where
  "frame s s' \<longleftrightarrow> hm_nodes s \<subseteq>\<^sub>m hm_nodes s' \<and> pub_root s' = pub_root s \<and> hdr_root s' = hdr_root s
     \<and> retired_batches s' = retired_batches s"

definition kept :: "('k, 'v) hashmap \<Rightarrow> ('k, 'v) hashmap \<Rightarrow> bool" where
  "kept s s' \<longleftrightarrow> frame s s' \<and> staged_root s' = staged_root s \<and> bulk_mode s' = bulk_mode s"

text \<open>An action that can fail only for want of memory, and then leaves everything in place.\<close>

definition run :: "('k, 'v) hashmap \<Rightarrow> (hm_error + 'a) \<times> ('k, 'v) hashmap \<Rightarrow> ('a \<Rightarrow> ('k, 'v) hashmap \<Rightarrow> bool) \<Rightarrow> bool" where
  "run s out Q \<longleftrightarrow> (case out of (Inl e, s') \<Rightarrow> e = HmBadAlloc \<and> kept s s' | (Inr x, s') \<Rightarrow> kept s s' \<and> Q x s')"

lemma map_le_id [simp]: "m \<subseteq>\<^sub>m m"
  by (simp add: map_le_def)

lemma frame_refl [simp]: "frame s s"
  by (simp add: frame_def)

lemma kept_refl [simp]: "kept s s"
  by (simp add: kept_def)

lemma frame_trans: "frame s s' \<Longrightarrow> frame s' s'' \<Longrightarrow> frame s s''"
  by (auto simp: frame_def intro: map_le_trans)

lemma kept_trans: "kept s s' \<Longrightarrow> kept s' s'' \<Longrightarrow> kept s s''"
  by (auto simp: kept_def intro: frame_trans)

lemma run_ret: "Q x s \<Longrightarrow> run s (hm_ret x s) Q"
  by (simp add: run_def hm_ret_def)

lemma run_gets: "Q (f s) s \<Longrightarrow> run s (hm_gets f s) Q"
  by (simp add: run_def hm_gets_def)

lemma run_opt: "Q y s \<Longrightarrow> run s (hm_opt (Some y) s) Q"
  by (simp add: run_def hm_opt_def hm_ret_def)

lemma run_retire: "Q () (s\<lparr>retire := retire s @ offs\<rparr>) \<Longrightarrow> run s (hm_retire offs s) Q"
  by (simp add: run_def hm_retire_def kept_def frame_def)

lemma run_then:
  assumes "run s (m s) P" "\<And>x s'. kept s s' \<Longrightarrow> P x s' \<Longrightarrow> run s' (f x s') Q"
  shows "run s (hm_then m f s) Q"
proof (cases "m s")
  case (Pair out s')
  show ?thesis
  proof (cases out)
    case (Inl e)
    then show ?thesis using assms(1) Pair by (simp add: run_def hm_then_def)
  next
    case (Inr x)
    then have "kept s s'" "P x s'" using assms(1) Pair by (simp_all add: run_def)
    then have k: "kept s s'" "run s' (f x s') Q" using assms(2) by simp_all
    show ?thesis
      using k Pair Inr by (auto simp: run_def hm_then_def split: prod.splits sum.splits intro: kept_trans)
  qed
qed

lemma run_mono: "run s out P \<Longrightarrow> (\<And>x s'. kept s s' \<Longrightarrow> P x s' \<Longrightarrow> Q x s') \<Longrightarrow> run s out Q"
  by (auto simp: run_def split: prod.splits sum.splits)

lemma kept_node: "kept s s' \<Longrightarrow> hm_nodes s x = Some nd \<Longrightarrow> hm_nodes s' x = Some nd"
  unfolding kept_def frame_def map_le_def by (metis domI)

text \<open>The contract of the allocator.\<close>

locale offset_source =
  fixes pick :: "nat set \<Rightarrow> nat option"
  assumes picked: "pick A = Some off \<Longrightarrow> off \<notin> A \<and> off \<noteq> 0"
begin

lemma run_new:
  assumes "\<And>off. off \<notin> dom (hm_nodes s) \<Longrightarrow> off \<noteq> 0 \<Longrightarrow> Q off (s\<lparr>hm_nodes := (hm_nodes s)(off \<mapsto> nd)\<rparr>)"
  shows "run s (hm_new pick nd s) Q"
proof (cases "pick (dom (hm_nodes s))")
  case None
  then show ?thesis by (simp add: run_def hm_new_def)
next
  case (Some off)
  have off: "off \<notin> dom (hm_nodes s)" "off \<noteq> 0" using picked [OF Some] by simp_all
  then have "hm_nodes s \<subseteq>\<^sub>m (hm_nodes s)(off \<mapsto> nd)" by (auto simp: map_le_def)
  then show ?thesis using Some assms [OF off] by (simp add: run_def hm_new_def kept_def frame_def)
qed

end

section \<open>Chains\<close>

fun chain_at :: "('k, 'v) hm_heap \<Rightarrow> nat \<Rightarrow> ('k, 'v) chain \<Rightarrow> bool" where
  "chain_at h off [] \<longleftrightarrow> off = 0"
| "chain_at h off (b # bs) \<longleftrightarrow> off \<noteq> 0 \<and> (\<exists>nxt. h off = Some (BlockNode b nxt) \<and> chain_at h nxt bs)"

lemma chain_at_blocks: "chain_at h off c \<Longrightarrow> \<exists>bs. chain_blocks h off = Some bs \<and> map snd bs = c"
proof (induction c arbitrary: off)
  case Nil
  then show ?case by (simp add: chain_blocks.simps [of h 0])
next
  case (Cons b c)
  then obtain nxt bs where "off \<noteq> 0" "h off = Some (BlockNode b nxt)" "chain_blocks h nxt = Some bs" "map snd bs = c" by fastforce
  then show ?case by (simp add: chain_blocks.simps [of h off])
qed

lemma chain_at_mono: "chain_at h off c \<Longrightarrow> h \<subseteq>\<^sub>m h' \<Longrightarrow> chain_at h' off c"
proof (induction c arbitrary: off)
  case (Cons b c)
  then obtain nxt where n: "off \<noteq> 0" "h off = Some (BlockNode b nxt)" "chain_at h nxt c" by auto
  have "h' off = Some (BlockNode b nxt)" using Cons.prems(2) n(2) by (metis domI map_le_def)
  then show ?case using n Cons.IH [OF n(3) Cons.prems(2)] by simp
qed simp

context offset_source
begin

lemma build_rest_ok:
  assumes "hm_nodes s prev = Some (BlockNode es 0)" "prev \<noteq> 0" "length ents \<le> n"
    and "build_rest pick n prev ents s = (out, s')"
  shows "(\<forall>x\<in>dom (hm_nodes s). x \<noteq> prev \<longrightarrow> hm_nodes s' x = hm_nodes s x) \<and> s' = s\<lparr>hm_nodes := hm_nodes s'\<rparr>
    \<and> (case out of
         Inl e \<Rightarrow> e = HmBadAlloc
       | Inr _ \<Rightarrow> \<exists>nxt c. hm_nodes s' prev = Some (BlockNode es nxt) \<and> chain_at (hm_nodes s') nxt c \<and> concat c = ents \<and> chain_ok c)"
  using assms
proof (induction n arbitrary: s prev es ents)
  case 0
  then have "out = Inr ()" "s' = s" "ents = []" by (simp_all add: hm_ret_def)
  then show ?case using 0(1) by (simp add: chain_ok_def) (intro exI [of _ "[]"], simp)
next
  case (Suc n)
  show ?case
  proof (cases "ents = []")
    case True
    then have "out = Inr ()" "s' = s" using Suc.prems(4) by (simp_all add: hm_ret_def)
    then show ?thesis using Suc.prems(1) True by (simp add: chain_ok_def) (intro exI [of _ "[]"], simp)
  next
    case False
    note ents = False
    let ?b = "take kBlockCap ents"
    show ?thesis
    proof (cases "pick (dom (hm_nodes s))")
      case None
      then show ?thesis using Suc.prems(1,4) False by (auto simp: hm_then_def hm_new_def)
    next
      case (Some off)
      have off: "off \<notin> dom (hm_nodes s)" "off \<noteq> 0" using picked [OF Some] by simp_all
      have pd: "prev \<in> dom (hm_nodes s)" "prev \<noteq> off" using Suc.prems(1) off(1) by auto
      let ?s2 = "s\<lparr>hm_nodes := (hm_nodes s)(off \<mapsto> BlockNode ?b 0, prev \<mapsto> BlockNode es off)\<rparr>"
      have run: "build_rest pick n off (drop kBlockCap ents) ?s2 = (out, s')"
        using Suc.prems(1,4) False Some pd by (simp add: hm_then_def hm_new_def hm_link_def)
      have len: "length (drop kBlockCap ents) \<le> n" using Suc.prems(3) False by (cases ents) (auto simp: kBlockCap_def)
      have at: "hm_nodes ?s2 off = Some (BlockNode ?b 0)" using pd by simp
      note IH = Suc.IH [OF at off(2) len run]
      have keep: "\<forall>x\<in>dom (hm_nodes s). x \<noteq> prev \<longrightarrow> hm_nodes s' x = hm_nodes s x"
      proof (intro ballI impI)
        fix x assume x: "x \<in> dom (hm_nodes s)" "x \<noteq> prev"
        then have "x \<in> dom (hm_nodes ?s2)" "x \<noteq> off" using off(1) by auto
        then have "hm_nodes s' x = hm_nodes ?s2 x" using IH by blast
        then show "hm_nodes s' x = hm_nodes s x" using x(2) \<open>x \<noteq> off\<close> by simp
      qed
      have prev: "hm_nodes s' prev = Some (BlockNode es off)" using IH pd by auto
      have s': "s' = s\<lparr>hm_nodes := hm_nodes s'\<rparr>" using IH by simp
      show ?thesis
      proof (cases out)
        case (Inl e)
        then show ?thesis using IH keep s' by simp
      next
        case (Inr u)
        then obtain nxt c where c: "hm_nodes s' off = Some (BlockNode ?b nxt)" "chain_at (hm_nodes s') nxt c"
            "concat c = drop kBlockCap ents" "chain_ok c" using IH by auto
        have "chain_at (hm_nodes s') off (?b # c)" "concat (?b # c) = ents" "chain_ok (?b # c)"
          using c off(2) ents by (auto simp: chain_ok_def kBlockCap_def)
        then have "\<exists>nxt c. hm_nodes s' prev = Some (BlockNode es nxt) \<and> chain_at (hm_nodes s') nxt c \<and> concat c = ents \<and> chain_ok c"
          using prev by blast
        then show ?thesis using Inr keep s' by simp
      qed
    qed
  qed
qed

lemma build_chain_ok:
  "run s (build_chain pick ents s) (\<lambda>head s'. \<exists>c. chain_at (hm_nodes s') head c \<and> concat c = ents \<and> chain_ok c)"
proof (cases "ents = []")
  case True
  then have "run s (hm_ret 0 s) (\<lambda>head s'. \<exists>c. chain_at (hm_nodes s') head c \<and> concat c = ents \<and> chain_ok c)"
    by (intro run_ret exI [of _ "[]"]) (simp add: chain_ok_def)
  then show ?thesis using True by (simp add: build_chain_def)
next
  case False
  let ?b = "take kBlockCap ents"
  show ?thesis
  proof (cases "pick (dom (hm_nodes s))")
    case None
    then show ?thesis using False by (simp add: build_chain_def hm_then_def hm_new_def run_def)
  next
    case (Some off)
    have off: "off \<notin> dom (hm_nodes s)" "off \<noteq> 0" using picked [OF Some] by simp_all
    let ?s1 = "s\<lparr>hm_nodes := (hm_nodes s)(off \<mapsto> BlockNode ?b 0)\<rparr>"
    obtain out s' where r: "build_rest pick (length ents) off (drop kBlockCap ents) ?s1 = (out, s')" by fastforce
    have at: "hm_nodes ?s1 off = Some (BlockNode ?b 0)" by simp
    note b = build_rest_ok [OF at off(2) _ r]
    have keep: "hm_nodes s' x = hm_nodes s x" if "x \<in> dom (hm_nodes s)" for x
    proof -
      have "x \<noteq> off" "x \<in> dom (hm_nodes ?s1)" using that off(1) by auto
      then have "hm_nodes s' x = hm_nodes ?s1 x" using b by force
      then show ?thesis using \<open>x \<noteq> off\<close> by simp
    qed
    have s': "s' = ?s1\<lparr>hm_nodes := hm_nodes s'\<rparr>" using b by simp
    have k: "kept s s'" using keep by (subst s') (simp add: kept_def frame_def map_le_def)
    have out: "hm_then (hm_new pick (BlockNode ?b 0)) (\<lambda>head. hm_then (build_rest pick (length ents) head (drop kBlockCap ents)) (\<lambda>_. hm_ret head)) s
        = (case out of Inl e \<Rightarrow> (Inl e, s') | Inr _ \<Rightarrow> (Inr off, s'))"
      using Some r by (simp add: hm_then_def hm_new_def hm_ret_def split: sum.splits)
    show ?thesis
    proof (cases out)
      case (Inl e)
      then show ?thesis using b k out False by (simp add: build_chain_def run_def)
    next
      case (Inr u)
      then obtain nxt c where c: "hm_nodes s' off = Some (BlockNode ?b nxt)" "chain_at (hm_nodes s') nxt c"
          "concat c = drop kBlockCap ents" "chain_ok c" using b by auto
      have "chain_at (hm_nodes s') off (?b # c)" "concat (?b # c) = ents" "chain_ok (?b # c)"
        using c off(2) False by (auto simp: chain_ok_def kBlockCap_def)
      then have "\<exists>c. chain_at (hm_nodes s') off c \<and> concat c = ents \<and> chain_ok c" by blast
      then show ?thesis using Inr k out False by (simp add: build_chain_def run_def)
    qed
  qed
qed

lemma run_build_result:
  assumes "\<And>head s' c. kept s s' \<Longrightarrow> chain_at (hm_nodes s') head c \<Longrightarrow> concat c = ents \<Longrightarrow> chain_ok c \<Longrightarrow> Q (x, head) s'"
  shows "run s (hm_then (build_chain pick ents) (\<lambda>head. hm_ret (x, head)) s) Q"
  by (rule run_then [OF build_chain_ok]) (auto intro!: run_ret assms)

end

text \<open>What a bucket holds after a put and after an erase.\<close>

definition put_entries :: "u64 \<Rightarrow> 'k \<Rightarrow> 'v \<Rightarrow> ('k, 'v) entry list \<Rightarrow> ('k, 'v) entry list" where
  "put_entries hsh k v es = (case block_update hsh k v es of Some es' \<Rightarrow> es' | None \<Rightarrow> es @ [make_entry hsh k v])"

context offset_source
begin

lemma cow_bucket_put_ok:
  assumes "chain_at (hm_nodes s) old c"
  shows "run s (cow_bucket_put pick old hsh k v s) (\<lambda>(inserted, head) s'.
    (inserted \<longleftrightarrow> block_update hsh k v (concat c) = None)
    \<and> (\<exists>c'. chain_at (hm_nodes s') head c' \<and> concat c' = put_entries hsh k v (concat c) \<and> chain_ok c'))"
proof -
  obtain bs where bs: "chain_blocks (hm_nodes s) old = Some bs" "map snd bs = c" using chain_at_blocks [OF assms] by blast
  show ?thesis
    unfolding cow_bucket_put_def
    apply (rule run_then [where P = "\<lambda>x _. x = Some bs"])
     apply (rule run_gets, rule bs(1))
    apply (rule run_then [where P = "\<lambda>x _. x = bs"])
     apply (simp add: run_opt)
    apply (rule run_then [where P = "\<lambda>_ _. True"])
     apply (rule run_retire, simp)
    apply (cases "block_update hsh k v (concat c)")
     apply (auto simp: bs(2) put_entries_def intro!: run_build_result)
    done
qed

lemma cow_bucket_erase_ok:
  assumes "chain_at (hm_nodes s) old c"
  shows "run s (cow_bucket_erase pick old hsh k s) (\<lambda>(erased, head) s'.
    (erased \<longleftrightarrow> block_erase hsh k (concat c) \<noteq> None)
    \<and> (\<forall>es. block_erase hsh k (concat c) = Some es \<longrightarrow> (\<exists>c'. chain_at (hm_nodes s') head c' \<and> concat c' = es \<and> chain_ok c')))"
proof -
  obtain bs where bs: "chain_blocks (hm_nodes s) old = Some bs" "map snd bs = c" using chain_at_blocks [OF assms] by blast
  show ?thesis
    unfolding cow_bucket_erase_def
    apply (rule run_then [where P = "\<lambda>x _. x = Some bs"])
     apply (rule run_gets, rule bs(1))
    apply (rule run_then [where P = "\<lambda>x _. x = bs"])
     apply (simp add: run_opt)
    apply (rule run_then [where P = "\<lambda>_ _. True"])
     apply (rule run_retire, simp)
    apply (cases "block_erase hsh k (concat c)")
     apply (auto simp: bs(2) intro!: run_build_result)
    done
qed

text \<open>A copied array.\<close>

lemma run_copy:
  "run s (hm_then (hm_gets f) (\<lambda>xs. hm_then (hm_new pick (Offsets xs)) (\<lambda>off. hm_then (hm_retire offs) (\<lambda>_. hm_ret off))) s)
     (\<lambda>off s'. off \<notin> dom (hm_nodes s) \<and> off \<noteq> 0 \<and> hm_nodes s' off = Some (Offsets (f s)))"
  apply (rule run_then [where P = "\<lambda>xs s'. s' = s \<and> xs = f s"])
   apply (rule run_gets, simp)
  apply (rule run_then [where P = "\<lambda>off s'. off \<notin> dom (hm_nodes s) \<and> off \<noteq> 0 \<and> hm_nodes s' off = Some (Offsets (f s))"])
   apply (rule run_new, simp)
  apply (rule run_then [where P = "\<lambda>_ _. True"])
   apply (rule run_retire, simp)
  apply (rule run_ret)
  apply (auto dest: kept_node)
  done

lemma cow_segment_ok:
  "run s (cow_segment pick old i new s) (\<lambda>off s'. off \<notin> dom (hm_nodes s) \<and> off \<noteq> 0
     \<and> hm_nodes s' off = Some (Offsets (cow_array (hm_nodes s) old kBucketsPerSeg i new)))"
  unfolding cow_segment_def by (rule run_copy)

lemma cow_chunk_ok:
  "run s (cow_chunk pick old i new s) (\<lambda>off s'. off \<notin> dom (hm_nodes s) \<and> off \<noteq> 0
     \<and> hm_nodes s' off = Some (Offsets (cow_array (hm_nodes s) old kSegsPerChunk i new)))"
  unfolding cow_chunk_def by (rule run_copy)

text \<open>The new root, with the new leaf and the new first level of the directory.\<close>

lemma cow_root_ok:
  fixes old :: HmRoot
  defines "slots \<equiv> root_chunk_dir_slots (bucket_count old)"
  assumes "ci < slots" "chunk_dir_off old \<noteq> 0" "chunk_dir_off old \<in> dom (hm_nodes s)"
  shows "run s (cow_root pick off old ci new delta s) (\<lambda>root s'. \<exists>nl n1. root \<noteq> 0
     \<and> hm_nodes s' root = Some (RootNode (updated_root old ci delta n1))
     \<and> n1 \<noteq> 0 \<and> nl \<noteq> 0
     \<and> hm_nodes s' n1 = Some (Offsets ((offsets (hm_nodes s) (chunk_dir_off old))[ci div kChunkDirLeafSlots := nl]))
     \<and> hm_nodes s' nl = Some (Offsets (cow_array (hm_nodes s) (slot (hm_nodes s) (chunk_dir_off old) (ci div kChunkDirLeafSlots))
         (chunk_dir_leaf_width (ci div kChunkDirLeafSlots) slots) (ci - ci div kChunkDirLeafSlots * kChunkDirLeafSlots) new)))"
proof -
  let ?l1 = "chunk_dir_off old" and ?li = "ci div kChunkDirLeafSlots"
  let ?leaf = "slot (hm_nodes s) ?l1 ?li"
  let ?xs = "cow_array (hm_nodes s) ?leaf (chunk_dir_leaf_width ?li slots) (ci - ?li * kChunkDirLeafSlots) new"
  have ns: "\<not> slots \<le> ci" using assms(2) by simp
  have same: "offsets (hm_nodes s') ?l1 = offsets (hm_nodes s) ?l1" if "kept s s'" for s'
    using assms(4) kept_node [OF that] by (auto simp: offsets_def)
  define ys where "ys nl = (offsets (hm_nodes s) ?l1)[?li := nl]" for nl
  define A where "A nl s' \<longleftrightarrow> kept s s' \<and> nl \<noteq> 0 \<and> hm_nodes s' nl = Some (Offsets ?xs)" for nl s'
  define B where "B nl n1 s' \<longleftrightarrow> A nl s' \<and> n1 \<noteq> 0 \<and> hm_nodes s' n1 = Some (Offsets (ys nl))" for nl n1 s'
  define C where "C nl n1 root s' \<longleftrightarrow> B nl n1 s' \<and> root \<noteq> 0 \<and> hm_nodes s' root = Some (RootNode (updated_root old ci delta n1))" for nl n1 root s'
  have B_I: "B nl n1 s'" if "A nl s'" "n1 \<noteq> 0 \<and> hm_nodes s' n1 = Some (Offsets (ys nl))" for nl n1 s'
    using that by (simp only: B_def simp_thms)
  have C_I: "C nl n1 root s'" if "B nl n1 s'" "root \<noteq> 0 \<and> hm_nodes s' root = Some (RootNode (updated_root old ci delta n1))" for nl n1 root s'
    using that by (simp only: C_def simp_thms)
  have A_kept: "A nl s''" if "A nl s'" "kept s' s''" for nl s' s''
    using that kept_node [OF that(2)] kept_trans by (auto simp: A_def)
  have B_kept: "B nl n1 s''" if "B nl n1 s'" "kept s' s''" for nl n1 s' s''
    using that kept_node [OF that(2)] A_kept by (auto simp: B_def)
  have C_kept: "C nl n1 root s''" if "C nl n1 root s'" "kept s' s''" for nl n1 root s' s''
    using that kept_node [OF that(2)] B_kept by (auto simp: C_def)
  have ysA: "cow_array (hm_nodes s') ?l1 n ?li nl = ys nl" if "A nl s'" for n nl s'
    unfolding cow_array_def if_P [OF assms(3)] ys_def using that same by (simp only: A_def)
  have new: "run s1 (hm_new pick nd s1) (\<lambda>x s2. x \<noteq> 0 \<and> hm_nodes s2 x = Some nd)" for nd s1 by (rule run_new) simp
  have "run s (cow_root pick off old ci new delta s) (\<lambda>root s'. \<exists>nl n1. C nl n1 root s')"
    unfolding cow_root_def Let_def slots_def [symmetric] if_not_P [OF ns] if_P [OF assms(3)]
    apply (rule run_then [where P = "\<lambda>x s'. s' = s \<and> x = ?leaf"])
     apply (rule run_gets, simp)
    apply (rule run_then [where P = "\<lambda>x s'. s' = s \<and> x = ?xs"])
     apply (rule run_gets, simp)
    apply (rule run_then [where P = A])
     apply (rule run_mono [OF new], simp add: A_def)
    subgoal for _ _ _ _ nl s1
      apply (rule run_then [where P = "\<lambda>x s'. A nl s' \<and> x = ys nl"])
       apply (rule run_gets, simp only: ysA simp_thms)
      apply (rule run_then [where P = "\<lambda>n1 s'. B nl n1 s'"])
       apply (rule run_mono [OF new], blast intro: B_I A_kept)
      subgoal for _ _ n1
        apply (rule run_then [where P = "\<lambda>root s'. C nl n1 root s'"])
         apply (rule run_mono [OF new], blast intro: C_I B_kept)
        subgoal for root
          apply (rule run_then [where P = "\<lambda>_ s'. C nl n1 root s'"])
           apply (rule run_mono [where P = "\<lambda>_ _. True"], rule run_retire, simp, blast intro: C_kept)
          apply (rule run_ret, blast)
          done
        done
      done
    done
  then show ?thesis by (rule run_mono) (auto simp: A_def B_def C_def ys_def)
qed

end

section \<open>Trees\<close>

definition arr :: "('k, 'v) hm_heap \<Rightarrow> nat \<Rightarrow> nat \<Rightarrow> bool" where
  "arr h off w \<longleftrightarrow> off = 0 \<or> (\<exists>xs. h off = Some (Offsets xs) \<and> length xs = w)"

abbreviation root_slots :: "HmRoot \<Rightarrow> nat" where
  "root_slots r \<equiv> root_chunk_dir_slots (bucket_count r)"

definition shape :: "('k, 'v) hm_heap \<Rightarrow> HmRoot \<Rightarrow> bool" where
  "shape h r \<longleftrightarrow> chunk_dir_off r \<noteq> 0 \<and> arr h (chunk_dir_off r) (chunk_dir_num_leaves (root_slots r))
     \<and> (\<forall>i. arr h (slot h (chunk_dir_off r) i) (chunk_dir_leaf_width i (root_slots r)))
     \<and> (\<forall>c. arr h (chunk_at h r c) kSegsPerChunk) \<and> (\<forall>c g. arr h (seg_at h r c g) kBucketsPerSeg)
     \<and> (\<forall>c. chunk_at h r c \<noteq> 0 \<longrightarrow> c < chunk_count r)"

lemma map_le_node: "h \<subseteq>\<^sub>m h' \<Longrightarrow> h x = Some nd \<Longrightarrow> h' x = Some nd"
  by (metis domI map_le_def)

lemma arr_mono: "arr h off w \<Longrightarrow> h \<subseteq>\<^sub>m h' \<Longrightarrow> arr h' off w"
  by (auto simp: arr_def dest: map_le_node)

lemma arr_slot_mono: "arr h off w \<Longrightarrow> h \<subseteq>\<^sub>m h' \<Longrightarrow> off \<noteq> 0 \<Longrightarrow> slot h' off i = slot h off i"
  by (auto simp: arr_def slot_def offsets_def dest: map_le_node)

lemma slot_out: "arr h off w \<Longrightarrow> off \<noteq> 0 \<Longrightarrow> w \<le> i \<Longrightarrow> slot h off i = 0"
  by (auto simp: arr_def slot_def offsets_def)

lemma shape_mono:
  assumes "shape h r" "h \<subseteq>\<^sub>m h'"
  shows "chunk_at h' r c = chunk_at h r c" "seg_at h' r c g = seg_at h r c g" "bkt_at h' r b = bkt_at h r b"
proof -
  note sh = assms(1) [unfolded shape_def]
  have l1: "slot h' (chunk_dir_off r) i = slot h (chunk_dir_off r) i" for i using sh arr_slot_mono [OF _ assms(2)] by blast
  have leaf: "slot h' (slot h (chunk_dir_off r) i) j = slot h (slot h (chunk_dir_off r) i) j" if "slot h (chunk_dir_off r) i \<noteq> 0" for i j
    using sh arr_slot_mono [OF _ assms(2) that] by blast
  show c: "chunk_at h' r c = chunk_at h r c" for c by (simp add: chunk_at_def chunk_dir_get_def Let_def l1 leaf)
  show g: "seg_at h' r c g = seg_at h r c g" for c g
    using sh arr_slot_mono [OF _ assms(2), of "chunk_at h r c"] by (simp add: seg_at_def c Let_def) blast
  show "bkt_at h' r b = bkt_at h r b"
    using sh arr_slot_mono [OF _ assms(2), of "seg_at h r (b_chunk b) (b_seg b)"] by (simp add: bkt_at_def g Let_def) blast
qed

lemma shape_kept: "shape h r \<Longrightarrow> h \<subseteq>\<^sub>m h' \<Longrightarrow> shape h' r"
  using shape_mono [of h r h'] arr_mono [of h _ _ h'] arr_slot_mono [of h "chunk_dir_off r" _ h']
  unfolding shape_def by metis

lemma slot_cow:
  assumes "h' n = Some (Offsets (cow_array h old w i new))" "arr h old w" "i < w"
  shows "slot h' n j = (if j = i then new else if old = 0 then 0 else slot h old j)" "arr h' n w"
proof -
  have "length (offsets h old) = w" if "old \<noteq> 0" using assms(2) that by (auto simp: arr_def offsets_def)
  then show "slot h' n j = (if j = i then new else if old = 0 then 0 else slot h old j)" "arr h' n w"
    using assms(1,3) by (auto simp: slot_def offsets_def [of h'] cow_array_def arr_def)
qed

text \<open>The numbers of a bucket.\<close>

lemma leaf_index_less: "c < slots \<Longrightarrow> c div kChunkDirLeafSlots < chunk_dir_num_leaves slots"
  by (simp add: chunk_dir_num_leaves_def kChunkDirLeafSlots_def)

lemma leaf_slot_less:
  "c < slots \<Longrightarrow> c - c div kChunkDirLeafSlots * kChunkDirLeafSlots < chunk_dir_leaf_width (c div kChunkDirLeafSlots) slots"
proof -
  assume "c < slots"
  moreover have "c - c div kChunkDirLeafSlots * kChunkDirLeafSlots < kChunkDirLeafSlots"
    by (simp add: kChunkDirLeafSlots_def minus_div_mult_eq_mod)
  moreover have "c div kChunkDirLeafSlots * kChunkDirLeafSlots \<le> c" by simp
  ultimately show ?thesis by (simp add: chunk_dir_leaf_width_def Let_def diff_less_mono)
qed

lemma chunk_index_less: "b < bucket_count r \<Longrightarrow> b_chunk b < root_slots r"
proof -
  assume b: "b < bucket_count r"
  show ?thesis
  proof (cases "bucket_bits r < 12")
    case True
    then have "(2::nat) ^ bucket_bits r \<le> 2 ^ 11" by (intro power_increasing) auto
    then show ?thesis using b by (simp add: root_chunk_dir_slots_def b_chunk_def bucket_count_def kBucketsPerSeg_def kSegsPerChunk_def)
  next
    case False
    then obtain d where "bucket_bits r = 12 + d" by (metis le_Suc_ex not_less)
    then have "bucket_count r = 4096 * 2 ^ d" by (simp add: bucket_count_def power_add)
    then show ?thesis using b by (simp add: root_chunk_dir_slots_def b_chunk_def kBucketsPerSeg_def kSegsPerChunk_def less_mult_imp_div_less mult.commute)
  qed
qed

lemma bucket_split: "b = (b_chunk b * kSegsPerChunk + b_seg b) * kBucketsPerSeg + b_local b"
  by (simp add: b_chunk_def b_seg_def b_local_def div_mult2_eq)

lemma bucket_parts: "b_chunk b = b_chunk b' \<Longrightarrow> b_seg b = b_seg b' \<Longrightarrow> b_local b = b_local b' \<Longrightarrow> b = b'"
  using bucket_split [of b] bucket_split [of b'] by simp

lemma bucket_parts_less: "b_seg b < kSegsPerChunk" "b_local b < kBucketsPerSeg"
  by (simp_all add: b_seg_def b_local_def kBucketsPerSeg_def kSegsPerChunk_def)

text \<open>The path from the root to a bucket, copied with a new chain at its end.\<close>

definition path_copied :: "('k, 'v) hm_heap \<Rightarrow> HmRoot \<Rightarrow> nat \<Rightarrow> nat \<Rightarrow> int \<Rightarrow> ('k, 'v) hm_heap \<Rightarrow> HmRoot \<Rightarrow> bool" where
  "path_copied h r b new_bkt delta h' r' \<longleftrightarrow> (\<exists>n1 nl nc ns. 0 \<notin> {n1, nl, nc, ns} \<and> r' = updated_root r (b_chunk b) delta n1
     \<and> h' n1 = Some (Offsets ((offsets h (chunk_dir_off r))[b_chunk b div kChunkDirLeafSlots := nl]))
     \<and> h' nl = Some (Offsets (cow_array h (slot h (chunk_dir_off r) (b_chunk b div kChunkDirLeafSlots))
          (chunk_dir_leaf_width (b_chunk b div kChunkDirLeafSlots) (root_slots r))
          (b_chunk b - b_chunk b div kChunkDirLeafSlots * kChunkDirLeafSlots) nc))
     \<and> h' nc = Some (Offsets (cow_array h (chunk_at h r (b_chunk b)) kSegsPerChunk (b_seg b) ns))
     \<and> h' ns = Some (Offsets (cow_array h (seg_at h r (b_chunk b) (b_seg b)) kBucketsPerSeg (b_local b) new_bkt)))"

lemma path_copied:
  assumes "shape h r" "h \<subseteq>\<^sub>m h'" "b < bucket_count r" "path_copied h r b nb delta h' r'"
  shows "bkt_at h' r' x = (if x = b then nb else bkt_at h r x)" "shape h' r'"
proof -
  let ?bc = "b_chunk b" and ?bs = "b_seg b" and ?bl = "b_local b" and ?d = "chunk_dir_off r" and ?w = kChunkDirLeafSlots
  let ?li = "?bc div ?w"
  note sh = assms(1) [unfolded shape_def]
  obtain n1 nl nc ns where nz: "0 \<notin> {n1, nl, nc, ns}" and r': "r' = updated_root r ?bc delta n1"
    and n1: "h' n1 = Some (Offsets ((offsets h ?d)[?li := nl]))"
    and nl: "h' nl = Some (Offsets (cow_array h (slot h ?d ?li) (chunk_dir_leaf_width ?li (root_slots r)) (?bc - ?li * ?w) nc))"
    and nc: "h' nc = Some (Offsets (cow_array h (chunk_at h r ?bc) kSegsPerChunk ?bs ns))"
    and ns: "h' ns = Some (Offsets (cow_array h (seg_at h r ?bc ?bs) kBucketsPerSeg ?bl nb))"
    using assms(4) unfolding path_copied_def by blast
  have bc: "?bc < root_slots r" using chunk_index_less assms(3) by simp
  have f: "bucket_count r' = bucket_count r" "chunk_dir_off r' = n1" by (simp_all add: r' updated_root_def bucket_count_def)
  have cc: "chunk_count r \<le> chunk_count r'" "?bc < chunk_count r'" by (simp_all add: r' updated_root_def)
  have n1': "h' n1 = Some (Offsets (cow_array h ?d (chunk_dir_num_leaves (root_slots r)) ?li nl))" using n1 sh by (simp add: cow_array_def)
  have a: "arr h ?d (chunk_dir_num_leaves (root_slots r))" "arr h (slot h ?d ?li) (chunk_dir_leaf_width ?li (root_slots r))"
      "arr h (chunk_at h r ?bc) kSegsPerChunk" "arr h (seg_at h r ?bc ?bs) kBucketsPerSeg" using sh by simp_all
  note s1 = slot_cow [of h' n1, OF n1' a(1) leaf_index_less [OF bc]] and sl = slot_cow [of h' nl, OF nl a(2) leaf_slot_less [OF bc]]
  note sc = slot_cow [of h' nc, OF nc a(3) bucket_parts_less(1)] and ss = slot_cow [of h' ns, OF ns a(4) bucket_parts_less(2)]
  have l1: "slot h' n1 j = (if j = ?li then nl else slot h ?d j)" for j using s1(1) sh by simp
  have leaf: "slot h' (slot h ?d j) i = slot h (slot h ?d j) i" if "slot h ?d j \<noteq> 0" for i j
    using sh arr_slot_mono [OF _ assms(2) that] by blast
  have chunk: "slot h' (chunk_at h r c) i = slot h (chunk_at h r c) i" if "chunk_at h r c \<noteq> 0" for c i
    using sh arr_slot_mono [OF _ assms(2) that] by blast
  have seg: "slot h' (seg_at h r c g) i = slot h (seg_at h r c g) i" if "seg_at h r c g \<noteq> 0" for c g i
    using sh arr_slot_mono [OF _ assms(2) that] by blast
  have C: "chunk_at h' r' c = (if c = ?bc then nc else chunk_at h r c)" for c
  proof (cases "root_slots r \<le> c")
    case True
    then show ?thesis using bc by (simp add: chunk_at_def chunk_dir_get_def f)
  next
    case False
    have sub: "c = ?bc" if "c div ?w = ?li" "c - c div ?w * ?w = ?bc - ?li * ?w"
      using that div_mult_mod_eq [of c ?w] div_mult_mod_eq [of ?bc ?w] by (metis minus_div_mult_eq_mod)
    show ?thesis
      using False nz sh sl(1) sub leaf by (auto simp: chunk_at_def chunk_dir_get_def Let_def f l1)
  qed
  have G: "seg_at h' r' c g = (if c = ?bc \<and> g = ?bs then ns else seg_at h r c g)" for c g
    using nz sc(1) chunk by (auto simp: seg_at_def C Let_def)
  show "bkt_at h' r' x = (if x = b then nb else bkt_at h r x)"
    using nz ss(1) bucket_parts [of x b] seg by (auto simp: bkt_at_def G Let_def)
  have "arr h' (slot h' n1 i) (chunk_dir_leaf_width i (root_slots r))" for i
    using sl(2) sh arr_mono [OF _ assms(2)] by (simp add: l1)
  moreover have "arr h' (chunk_at h' r' c) kSegsPerChunk" for c using sc(2) sh arr_mono [OF _ assms(2)] by (simp add: C)
  moreover have "arr h' (seg_at h' r' c g) kBucketsPerSeg" for c g using ss(2) sh arr_mono [OF _ assms(2)] by (simp add: G)
  moreover have "c < chunk_count r'" if "chunk_at h' r' c \<noteq> 0" for c
  proof (cases "c = ?bc")
    case False
    then have "c < chunk_count r" using that sh C by metis
    then show ?thesis using cc by linarith
  qed (use cc in simp)
  ultimately show "shape h' r'" using nz s1(2) sh unfolding shape_def f by simp
qed


text \<open>A heap holds a table under a root.\<close>

definition tree :: "('k \<Rightarrow> u64) \<Rightarrow> ('k, 'v) hm_heap \<Rightarrow> nat \<Rightarrow> HmRoot \<Rightarrow> ('k, 'v) chain list \<Rightarrow> bool" where
  "tree hash h off r hs \<longleftrightarrow> off \<noteq> 0 \<and> h off = Some (RootNode r) \<and> bucket_bits r \<le> 30 \<and> shape h r
     \<and> table_ok hash (bucket_bits r) hs \<and> entry_count r = length (entries hs)
     \<and> (\<forall>b < bucket_count r. chain_at h (bkt_at h r b) (hs ! b)) \<and> (\<forall>b \<ge> bucket_count r. bkt_at h r b = 0)"

lemma tree_mono: "tree hash h off r hs \<Longrightarrow> h \<subseteq>\<^sub>m h' \<Longrightarrow> tree hash h' off r hs"
  unfolding tree_def using map_le_node [of h h' off] shape_mono(3) [of h r h'] shape_kept [of h r h'] chain_at_mono [of h _ _ h'] by metis

lemma tree_bucket:
  assumes "tree hash h off r hs"
  shows "bucket_index (bucket_bits r) hsh < bucket_count r" "length hs = bucket_count r"
  using assms bucket_index_less [of "bucket_bits r" hsh] by (auto simp: tree_def table_ok_def bucket_count_def)

lemma path_copied_tree:
  assumes "tree hash h off r hs" "h \<subseteq>\<^sub>m h'" "path_copied h r b nb delta h' r'" "b < bucket_count r"
    and "chain_at h' nb c" "bucket_ok hash (bucket_bits r) b c"
    and "h' off' = Some (RootNode r')" "off' \<noteq> 0" "int (length (entries (hs[b := c]))) = int (length (entries hs)) + delta"
  shows "tree hash h' off' r' (hs[b := c])"
proof -
  have t: "shape h r" "table_ok hash (bucket_bits r) hs" "length hs = bucket_count r" "bucket_bits r \<le> 30"
      "entry_count r = length (entries hs)" "\<forall>b < bucket_count r. chain_at h (bkt_at h r b) (hs ! b)"
    using assms(1) tree_bucket(2) [OF assms(1)] by (simp_all add: tree_def)
  note p = path_copied [OF t(1) assms(2,4,3)]
  have f: "bucket_bits r' = bucket_bits r" "bucket_count r' = bucket_count r" "entry_count r' = nat (int (entry_count r) + delta)"
    using assms(3) by (auto simp: path_copied_def updated_root_def bucket_count_def)
  have "chain_at h' (bkt_at h' r' x) (hs[b := c] ! x)" if "x < bucket_count r" for x
    using that t(3,6) assms(4,5) chain_at_mono [OF _ assms(2)] by (simp add: p(1) nth_list_update)
  moreover have "bkt_at h' r' x = 0" if "bucket_count r \<le> x" for x
    using that assms(1,4) by (simp add: p(1) tree_def)
  moreover have "table_ok hash (bucket_bits r) (hs[b := c])" using table_update_map(1) t assms(4,6) by metis
  moreover have "entry_count r' = length (entries (hs[b := c]))" using assms(9) t(5) f(3) by linarith
  ultimately show ?thesis using assms(7,8) p(2) t(4) by (simp add: tree_def f)
qed


lemma cow_array_mono: "arr h old w \<Longrightarrow> h \<subseteq>\<^sub>m h' \<Longrightarrow> cow_array h' old n i new = cow_array h old n i new"
  by (auto simp: cow_array_def arr_def offsets_def dest: map_le_node)

text \<open>An action that replaces the staged root.\<close>

definition stage :: "('k, 'v) hashmap \<Rightarrow> (hm_error + 'a) \<times> ('k, 'v) hashmap \<Rightarrow> ('a \<Rightarrow> ('k, 'v) hashmap \<Rightarrow> bool) \<Rightarrow> bool" where
  "stage s out Q \<longleftrightarrow> (case out of
     (Inl e, s') \<Rightarrow> e = HmBadAlloc \<and> kept s s'
   | (Inr x, s') \<Rightarrow> frame s s' \<and> bulk_mode s' = bulk_mode s \<and> Q x s')"

lemma run_stage:
  assumes "run s (m s) P" "\<And>x s'. kept s s' \<Longrightarrow> P x s' \<Longrightarrow> stage s' (f x s') Q"
  shows "stage s (hm_then m f s) Q"
proof (cases "m s")
  case (Pair out s')
  show ?thesis
  proof (cases out)
    case (Inl e)
    then show ?thesis using assms(1) Pair by (simp add: run_def stage_def hm_then_def)
  next
    case (Inr x)
    then have k: "kept s s'" and q: "stage s' (f x s') Q" using assms Pair by (auto simp: run_def)
    show ?thesis
      using q k Pair Inr kept_trans [OF k] frame_trans [of s s']
      by (auto simp: stage_def hm_then_def kept_def split: prod.splits sum.splits)
  qed
qed

lemma stage_ret: "Q x s \<Longrightarrow> stage s (hm_ret x s) Q"
  by (simp add: stage_def hm_ret_def)

lemma stage_mono: "stage s out P \<Longrightarrow> (\<And>x s'. frame s s' \<Longrightarrow> P x s' \<Longrightarrow> Q x s') \<Longrightarrow> stage s out Q"
  by (auto simp: stage_def split: prod.splits sum.splits)

lemma kept_nodes: "kept s s' \<Longrightarrow> hm_nodes s \<subseteq>\<^sub>m hm_nodes s'"
  by (simp add: kept_def frame_def)

context offset_source
begin

lemma copy_path_ok:
  assumes "tree hash (hm_nodes s) off r hs" "b < bucket_count r" "chain_at (hm_nodes s) nb c" "bucket_ok hash (bucket_bits r) b c"
    and "int (length (entries (hs[b := c]))) = int (length (entries hs)) + delta"
  shows "stage s
     (hm_then (cow_segment pick (seg_at (hm_nodes s) r (b_chunk b) (b_seg b)) (b_local b) nb) (\<lambda>new_seg.
      hm_then (cow_chunk pick (chunk_at (hm_nodes s) r (b_chunk b)) (b_seg b) new_seg) (\<lambda>new_chunk.
      hm_then (cow_root pick off r (b_chunk b) new_chunk delta) (\<lambda>new_root.
      hm_then (set_staged new_root) (\<lambda>_. hm_ret x)))) s)
     (\<lambda>y s'. y = x \<and> (\<exists>r'. tree hash (hm_nodes s') (staged_root s') r' (hs[b := c]) \<and> bucket_bits r' = bucket_bits r))"
proof -
  let ?bc = "b_chunk b" and ?h = "hm_nodes s"
  have sh: "shape ?h r" using assms(1) by (simp add: tree_def)
  have bc: "?bc < root_slots r" using chunk_index_less assms(2) by simp
  have d: "chunk_dir_off r \<noteq> 0" "arr ?h (chunk_dir_off r) (chunk_dir_num_leaves (root_slots r))"
      "arr ?h (chunk_at ?h r ?bc) kSegsPerChunk"
      "arr ?h (slot ?h (chunk_dir_off r) (?bc div kChunkDirLeafSlots)) (chunk_dir_leaf_width (?bc div kChunkDirLeafSlots) (root_slots r))"
    using sh by (simp_all add: shape_def)
  have fin: "stage s3 (hm_then (set_staged root) (\<lambda>_. hm_ret x) s3)
      (\<lambda>y s'. y = x \<and> (\<exists>r'. tree hash (hm_nodes s') (staged_root s') r' (hs[b := c]) \<and> bucket_bits r' = bucket_bits r))"
    if k: "kept s s1" "kept s1 s2" "kept s2 s3"
      and ns: "ns \<noteq> 0" "hm_nodes s1 ns = Some (Offsets (cow_array ?h (seg_at ?h r ?bc (b_seg b)) kBucketsPerSeg (b_local b) nb))"
      and nc: "nc \<noteq> 0" "hm_nodes s2 nc = Some (Offsets (cow_array (hm_nodes s1) (chunk_at ?h r ?bc) kSegsPerChunk (b_seg b) ns))"
      and nr: "root \<noteq> 0" "hm_nodes s3 root = Some (RootNode (updated_root r ?bc delta n1))" "n1 \<noteq> 0" "nl \<noteq> 0"
        "hm_nodes s3 n1 = Some (Offsets ((offsets (hm_nodes s2) (chunk_dir_off r))[?bc div kChunkDirLeafSlots := nl]))"
        "hm_nodes s3 nl = Some (Offsets (cow_array (hm_nodes s2) (slot (hm_nodes s2) (chunk_dir_off r) (?bc div kChunkDirLeafSlots))
           (chunk_dir_leaf_width (?bc div kChunkDirLeafSlots) (root_slots r)) (?bc - ?bc div kChunkDirLeafSlots * kChunkDirLeafSlots) nc))"
    for s1 s2 s3 ns nc root n1 nl
  proof -
    have m: "?h \<subseteq>\<^sub>m hm_nodes s1" "?h \<subseteq>\<^sub>m hm_nodes s2" "?h \<subseteq>\<^sub>m hm_nodes s3" "hm_nodes s1 \<subseteq>\<^sub>m hm_nodes s3" "hm_nodes s2 \<subseteq>\<^sub>m hm_nodes s3"
      using k by (meson kept_nodes kept_trans)+
    have dir: "offsets (hm_nodes s2) (chunk_dir_off r) = offsets ?h (chunk_dir_off r)"
      using d(1,2) map_le_node [OF m(2)] by (auto simp: arr_def offsets_def)
    have "path_copied ?h r b nb delta (hm_nodes s3) (updated_root r ?bc delta n1)"
      unfolding path_copied_def
    proof (intro exI conjI)
      show "0 \<notin> {n1, nl, nc, ns}" using ns nc nr by simp
      show "hm_nodes s3 n1 = Some (Offsets ((offsets ?h (chunk_dir_off r))[?bc div kChunkDirLeafSlots := nl]))" using nr(5) dir by simp
      show "hm_nodes s3 nl = Some (Offsets (cow_array ?h (slot ?h (chunk_dir_off r) (?bc div kChunkDirLeafSlots))
           (chunk_dir_leaf_width (?bc div kChunkDirLeafSlots) (root_slots r)) (?bc - ?bc div kChunkDirLeafSlots * kChunkDirLeafSlots) nc))"
        using nr(6) arr_slot_mono [OF d(2) m(2) d(1)] cow_array_mono [OF d(4) m(2)] by simp
      show "hm_nodes s3 nc = Some (Offsets (cow_array ?h (chunk_at ?h r ?bc) kSegsPerChunk (b_seg b) ns))"
        using map_le_node [OF m(5) nc(2)] cow_array_mono [OF d(3) m(1)] by simp
      show "hm_nodes s3 ns = Some (Offsets (cow_array ?h (seg_at ?h r ?bc (b_seg b)) kBucketsPerSeg (b_local b) nb))"
        by (rule map_le_node [OF m(4) ns(2)])
    qed simp
    from path_copied_tree [OF assms(1) m(3) this assms(2) chain_at_mono [OF assms(3) m(3)] assms(4) nr(2,1) assms(5)]
    show ?thesis by (simp add: stage_def hm_then_def set_staged_def hm_ret_def frame_def updated_root_def)
      (metis (no_types, lifting) HmRoot.select_convs(2) HmRoot.surjective HmRoot.update_convs)
  qed
  show ?thesis
    apply (rule run_stage [OF cow_segment_ok])
    apply (rule run_stage [OF cow_chunk_ok])
    subgoal for ns s1 nc s2
      apply (rule run_stage [OF cow_root_ok [OF bc d(1)]])
      using d(1,2) kept_nodes [of s s2] kept_trans [of s s1 s2] apply (auto simp: arr_def dest: map_le_node) [1]
      apply (elim exE conjE)
      apply (rule fin; assumption)
      done
    done
qed

end

section \<open>Put, erase and rehash\<close>

definition content :: "('k, 'v) chain list \<Rightarrow> 'k \<rightharpoonup> 'v" where
  "content hs = map_of (map kv (entries hs))"

lemma bucket_put:
  assumes "bucket_ok hash bits (bucket_index bits (hash k)) c" "chain_ok c'" "concat c' = put_entries (hash k) k v (concat c)"
  shows "bucket_ok hash bits (bucket_index bits (hash k)) c'" "map_of (map kv (concat c')) = (map_of (map kv (concat c)))(k \<mapsto> v)"
    "int (length (concat c')) = int (length (concat c)) + (if block_update (hash k) k v (concat c) = None then 1 else 0)"
    "block_update (hash k) k v (concat c) = None \<longleftrightarrow> map_of (map kv (concat c)) k = None"
proof -
  let ?e = "make_entry (hash k) k v"
  have e: "en_key ?e = k" "en_hash ?e = hash k" "en_val ?e = v" by (simp_all add: make_entry_def)
  have c: "hashed hash (concat c)" using assms(1) by (simp add: bucket_ok_def)
  note u = block_update_spec [OF c, of k v]
  show "block_update (hash k) k v (concat c) = None \<longleftrightarrow> map_of (map kv (concat c)) k = None"
    by (simp add: u map_of_eq_None_iff image_image)
  have eq: "concat c' = (if k \<in> en_key ` set (concat c) then upd_first k ?e (concat c) else concat c @ [?e])"
    using assms(3) by (simp add: put_entries_def u)
  show "bucket_ok hash bits (bucket_index bits (hash k)) c'"
  proof (cases "k \<in> en_key ` set (concat c)")
    case True
    then have eq': "concat c' = upd_first k ?e (concat c)" using eq by simp
    have "\<forall>x \<in> set (concat c'). x = ?e \<or> x \<in> set (concat c)" using set_upd_first [of k ?e "concat c"] eq' by auto
    moreover have "map en_key (concat c') = map en_key (concat c)" unfolding eq' by (rule upd_first_keys [OF e(1)])
    ultimately show ?thesis using assms(1,2) e unfolding bucket_ok_def hashed_def by metis
  next
    case False
    then show ?thesis using assms(1,2) eq e by (auto simp: bucket_ok_def hashed_def)
  qed
  show "map_of (map kv (concat c')) = (map_of (map kv (concat c)))(k \<mapsto> v)"
    unfolding eq using upd_first_map_of [OF e(1), of "concat c"] map_of_snoc [of k "map kv (concat c)" v] e by (simp add: image_image)
  show "int (length (concat c')) = int (length (concat c)) + (if block_update (hash k) k v (concat c) = None then 1 else 0)"
    unfolding eq u by simp
qed

lemma bucket_erase:
  assumes "bucket_ok hash bits (bucket_index bits (hash k)) c" "chain_ok c'" "block_erase (hash k) k (concat c) = Some (concat c')"
  shows "bucket_ok hash bits (bucket_index bits (hash k)) c'" "map_of (map kv (concat c')) = (map_of (map kv (concat c)))(k := None)"
    "int (length (concat c')) = int (length (concat c)) + (- 1)" "map_of (map kv (concat c)) k \<noteq> None"
proof -
  have c: "hashed hash (concat c)" "distinct (map en_key (concat c))" using assms(1) by (simp_all add: bucket_ok_def)
  have k: "k \<in> en_key ` set (concat c)" and eq: "concat c' = filter (\<lambda>e. en_key e \<noteq> k) (concat c)"
    using block_erase_spec [OF c, of k] assms(3) by (auto split: if_splits)
  show "bucket_ok hash bits (bucket_index bits (hash k)) c'"
    using assms(1,2) eq by (auto simp: bucket_ok_def hashed_def distinct_map_filter)
  show "map_of (map kv (concat c')) = (map_of (map kv (concat c)))(k := None)" unfolding eq by (rule ext) (simp add: map_of_filter_key)
  have "0 < length (concat c)" using k by (cases "concat c") auto
  then show "int (length (concat c')) = int (length (concat c)) + (- 1)" using length_filter_key [OF c(2) k] unfolding eq by linarith
  show "map_of (map kv (concat c)) k \<noteq> None" using k by (simp add: map_of_eq_None_iff image_image)
qed

lemma content_update:
  assumes "tree hash h off r hs" "bucket_ok hash (bucket_bits r) b c'" "b = bucket_index (bucket_bits r) (hash k)"
    and "map_of (map kv (concat c')) = (map_of (map kv (concat (hs ! b))))(k := x)"
  shows "content (hs[b := c']) = (content hs)(k := x)"
    "int (length (entries (hs[b := c']))) = int (length (entries hs)) + (int (length (concat c')) - int (length (concat (hs ! b))))"
proof -
  have t: "table_ok hash (bucket_bits r) hs" using assms(1) by (simp add: tree_def)
  have b: "b < length hs" using tree_bucket(1) [OF assms(1), of "hash k"] tree_bucket(2) [OF assms(1)] assms(3) by simp
  note up = table_update_map(2) [OF t assms(2) b]
  show "content (hs[b := c']) = (content hs)(k := x)"
    using up table_lookup [OF t] assms(3,4) by (auto simp: content_def fun_eq_iff)
  show "int (length (entries (hs[b := c']))) = int (length (entries hs)) + (int (length (concat c')) - int (length (concat (hs ! b))))"
    using length_entries_update [OF b, of c'] by linarith
qed

lemma tree_bucket_ok:
  assumes "tree hash h off r hs" "b = bucket_index (bucket_bits r) hsh"
  shows "bucket_ok hash (bucket_bits r) b (hs ! b)"
  using assms tree_bucket(1) [OF assms(1), of hsh] tree_bucket(2) [OF assms(1)] by (simp add: tree_def table_ok_def)

lemma erase_finds:
  assumes "tree hash h off r hs"
  shows "block_erase (hash k) k (concat (hs ! bucket_index (bucket_bits r) (hash k))) = None \<longleftrightarrow> content hs k = None"
  using tree_bucket_ok [OF assms refl, of "hash k"] table_lookup [of hash "bucket_bits r" hs k] assms
    block_erase_spec [of hash "concat (hs ! bucket_index (bucket_bits r) (hash k))" k]
  by (simp add: bucket_ok_def content_def tree_def map_of_eq_None_iff image_image)

lemma run_staged: "root_of (hm_nodes s) (staged_root s) = Some r \<Longrightarrow> Q (staged_root s, r) s \<Longrightarrow> run s (staged s) Q"
  by (simp add: run_def staged_def)

context offset_source
begin

lemma copy_path_later:
  assumes "tree hash (hm_nodes s) off r hs" "kept s s1" "b = bucket_index (bucket_bits r) (hash k)" "chain_at (hm_nodes s1) nb c'"
    and "bucket_ok hash (bucket_bits r) b c'" "map_of (map kv (concat c')) = (map_of (map kv (concat (hs ! b))))(k := y)"
    and "int (length (concat c')) = int (length (concat (hs ! b))) + delta"
  shows "stage s1
     (hm_then (cow_segment pick (seg_at (hm_nodes s) r (b_chunk b) (b_seg b)) (b_local b) nb) (\<lambda>new_seg.
      hm_then (cow_chunk pick (chunk_at (hm_nodes s) r (b_chunk b)) (b_seg b) new_seg) (\<lambda>new_chunk.
      hm_then (cow_root pick off r (b_chunk b) new_chunk delta) (\<lambda>new_root.
      hm_then (set_staged new_root) (\<lambda>_. hm_ret x)))) s1)
     (\<lambda>z s'. z = x \<and> (\<exists>r' hs'. tree hash (hm_nodes s') (staged_root s') r' hs' \<and> bucket_bits r' = bucket_bits r
        \<and> content hs' = (content hs)(k := y)))"
proof -
  have m: "hm_nodes s \<subseteq>\<^sub>m hm_nodes s1" using assms(2) by (rule kept_nodes)
  have t: "tree hash (hm_nodes s1) off r hs" by (rule tree_mono [OF assms(1) m])
  have sh: "shape (hm_nodes s) r" using assms(1) by (simp add: tree_def)
  note up = content_update [OF assms(1,5,3,6)]
  have "b < bucket_count r" using tree_bucket(1) [OF assms(1)] assms(3) by simp
  moreover have "int (length (entries (hs[b := c']))) = int (length (entries hs)) + delta" using up(2) assms(7) by simp
  ultimately have "stage s1
     (hm_then (cow_segment pick (seg_at (hm_nodes s1) r (b_chunk b) (b_seg b)) (b_local b) nb) (\<lambda>new_seg.
      hm_then (cow_chunk pick (chunk_at (hm_nodes s1) r (b_chunk b)) (b_seg b) new_seg) (\<lambda>new_chunk.
      hm_then (cow_root pick off r (b_chunk b) new_chunk delta) (\<lambda>new_root.
      hm_then (set_staged new_root) (\<lambda>_. hm_ret x)))) s1)
     (\<lambda>z s'. z = x \<and> (\<exists>r'. tree hash (hm_nodes s') (staged_root s') r' (hs[b := c']) \<and> bucket_bits r' = bucket_bits r))"
    by (intro copy_path_ok [OF t _ assms(4,5)])
  then show ?thesis unfolding shape_mono [OF sh m] by (rule stage_mono) (use up(1) in blast)
qed

lemma do_put_ok:
  assumes "tree hash (hm_nodes s) (staged_root s) r hs"
  shows "stage s (do_put pick (hash k) k v s) (\<lambda>inserted s'. (inserted \<longleftrightarrow> content hs k = None)
    \<and> (\<exists>r' hs'. tree hash (hm_nodes s') (staged_root s') r' hs' \<and> bucket_bits r' = bucket_bits r \<and> content hs' = (content hs)(k \<mapsto> v)))"
proof -
  let ?h = "hm_nodes s" and ?b = "bucket_index (bucket_bits r) (hash k)"
  let ?c = "hs ! ?b"
  have root: "root_of ?h (staged_root s) = Some r" using assms by (simp add: tree_def root_of_def)
  have b: "?b < bucket_count r" by (rule tree_bucket [OF assms])
  have c: "chain_at ?h (bkt_at ?h r ?b) ?c" using assms b by (simp add: tree_def)
  have bk: "bucket_ok hash (bucket_bits r) ?b ?c" by (rule tree_bucket_ok [OF assms refl])
  have lk: "content hs k = map_of (map kv (concat ?c)) k" using assms table_lookup by (auto simp: content_def tree_def)
  have seg: "(if chunk_at ?h r (b_chunk ?b) \<noteq> 0 then seg_at ?h r (b_chunk ?b) (b_seg ?b) else 0) = seg_at ?h r (b_chunk ?b) (b_seg ?b)"
    by (simp add: seg_at_def Let_def)
  show ?thesis
    unfolding do_put_def
    apply (rule run_stage [where P = "\<lambda>x s'. s' = s \<and> x = (staged_root s, r)"])
     apply (rule run_staged [OF root], simp)
    apply (clarify, unfold prod.case Let_def)
    apply (rule run_stage [where P = "\<lambda>x s'. s' = s \<and> x = (chunk_at ?h r (b_chunk ?b), seg_at ?h r (b_chunk ?b) (b_seg ?b), bkt_at ?h r ?b)"])
     apply (rule run_gets, simp)
    apply (clarify, unfold prod.case seg)
    apply (rule run_stage, rule cow_bucket_put_ok [OF c])
    apply clarify
    subgoal for _ _ _ inserted nb s1 c'
      by (rule stage_mono [OF copy_path_later [OF assms _ refl _ bucket_put(1,2,3) [OF bk]]])
         (auto simp: lk bucket_put(4) [OF bk])
    done
qed

end

context offset_source
begin

lemma hm_erase_ok:
  assumes "tree hash (hm_nodes s) (staged_root s) r hs"
  shows "stage s (hm_erase hash pick k s) (\<lambda>erased s'. (erased \<longleftrightarrow> content hs k \<noteq> None)
    \<and> (\<exists>r' hs'. tree hash (hm_nodes s') (staged_root s') r' hs' \<and> bucket_bits r' = bucket_bits r \<and> content hs' = (content hs)(k := None)))"
proof -
  let ?h = "hm_nodes s" and ?b = "bucket_index (bucket_bits r) (hash k)"
  let ?c = "hs ! ?b"
  have root: "root_of ?h (staged_root s) = Some r" using assms by (simp add: tree_def root_of_def)
  have b: "?b < bucket_count r" by (rule tree_bucket [OF assms])
  have c: "chain_at ?h (bkt_at ?h r ?b) ?c" using assms b by (simp add: tree_def)
  have bk: "bucket_ok hash (bucket_bits r) ?b ?c" by (rule tree_bucket_ok [OF assms refl])
  note es = erase_finds [OF assms, of k]
  let ?Q = "\<lambda>erased s'. (erased \<longleftrightarrow> content hs k \<noteq> None)
    \<and> (\<exists>r' hs'. tree hash (hm_nodes s') (staged_root s') r' hs' \<and> bucket_bits r' = bucket_bits r \<and> content hs' = (content hs)(k := None))"
  have absent: "?Q False s'" if "kept s s'" "content hs k = None" for s'
    using that tree_mono [OF assms kept_nodes [OF that(1)]] fun_upd_triv [of "content hs" k] unfolding kept_def by metis
  have zero: "content hs k = None"
    if "chunk_at ?h r (b_chunk ?b) = 0 \<or> seg_at ?h r (b_chunk ?b) (b_seg ?b) = 0 \<or> bkt_at ?h r ?b = 0"
  proof -
    have "bkt_at ?h r ?b = 0" using that by (auto simp: bkt_at_def seg_at_def Let_def)
    then have "?c = []" using c by (cases ?c) auto
    then show ?thesis using es by simp
  qed
  have found: "stage s1
     (hm_then (cow_segment pick (seg_at ?h r (b_chunk ?b) (b_seg ?b)) (b_local ?b) nb) (\<lambda>new_seg.
      hm_then (cow_chunk pick (chunk_at ?h r (b_chunk ?b)) (b_seg ?b) new_seg) (\<lambda>new_chunk.
      hm_then (cow_root pick (staged_root s) r (b_chunk ?b) new_chunk (- 1)) (\<lambda>new_root.
      hm_then (set_staged new_root) (\<lambda>_. hm_ret True)))) s1) ?Q"
    if k: "kept s s1" and e: "block_erase (hash k) k (concat ?c) \<noteq> None"
      and n: "\<forall>es. block_erase (hash k) k (concat ?c) = Some es \<longrightarrow>
        (\<exists>c'. chain_at (hm_nodes s1) nb c' \<and> concat c' = es \<and> chain_ok c')" for s1 nb
  proof -
    obtain c' where c': "chain_at (hm_nodes s1) nb c'" "block_erase (hash k) k (concat ?c) = Some (concat c')" "chain_ok c'"
      using e n by auto
    from copy_path_later [OF assms k refl c'(1) bucket_erase(1,2,3) [OF bk c'(3,2)], of True]
    show ?thesis by (rule stage_mono) (use e es in simp)
  qed
  show ?thesis
    unfolding hm_erase_def
    apply (rule run_stage [where P = "\<lambda>x s'. s' = s \<and> x = (staged_root s, r)"])
     apply (rule run_staged [OF root], simp)
    apply (clarify, unfold prod.case Let_def)
    apply (rule run_stage [where P = "\<lambda>x s'. s' = s \<and> x = (chunk_at ?h r (b_chunk ?b), seg_at ?h r (b_chunk ?b) (b_seg ?b), bkt_at ?h r ?b)"])
     apply (rule run_gets, simp)
    apply (elim conjE, hypsubst, unfold prod.case)
    apply (split if_split, intro conjI impI)
     apply (rule stage_ret, rule absent, simp, erule zero)
    apply (rule run_stage, rule cow_bucket_erase_ok [OF c])
    subgoal for _ _ _ _ _ x s1
      apply (cases x, hypsubst, unfold prod.case)
      apply (split if_split, intro conjI impI)
       apply (rule stage_ret, rule absent, assumption, simp add: es)
      apply (rule stage_mono, rule found, assumption, blast, blast, blast)
      done
    done
qed

end


text \<open>A new table is empty.\<close>

lemma slot_zeros: "h off = Some (Offsets (replicate n 0)) \<Longrightarrow> slot h off i = 0"
  by (simp add: slot_def offsets_def)

lemma new_tree:
  assumes "bits \<le> 30" "h off = Some (RootNode (new_root bits d))" "off \<noteq> 0" "d \<noteq> 0"
    and "h d = Some (Offsets (replicate (chunk_dir_num_leaves (root_chunk_dir_slots (2 ^ bits))) 0))"
  shows "tree hash h off (new_root bits d) (replicate (2 ^ bits) [])"
proof -
  have f: "bucket_bits (new_root bits d) = bits" "bucket_count (new_root bits d) = 2 ^ bits" "chunk_dir_off (new_root bits d) = d"
      "entry_count (new_root bits d) = 0" by (simp_all add: new_root_def bucket_count_def)
  have z: "chunk_at h (new_root bits d) c = 0" for c using slot_zeros [of h d, OF assms(5)] by (simp add: chunk_at_def chunk_dir_get_def f)
  have g: "seg_at h (new_root bits d) c i = 0" for c i by (simp add: seg_at_def z)
  have b: "bkt_at h (new_root bits d) x = 0" for x by (simp add: bkt_at_def g)
  have "shape h (new_root bits d)"
    using assms(4,5) slot_zeros [of h d, OF assms(5)] by (simp add: shape_def f z g arr_def)
  then show ?thesis using assms(1-3) empty_table(1) [of bits hash] by (auto simp: tree_def f b entries_def)
qed

context offset_source
begin

lemma alloc_root_ok:
  assumes "bits \<le> 30"
  shows "run s (alloc_root pick bits s) (\<lambda>off s'. \<exists>r. tree hash (hm_nodes s') off r (replicate (2 ^ bits) []) \<and> bucket_bits r = bits)"
proof -
  let ?z = "replicate (chunk_dir_num_leaves (root_chunk_dir_slots (2 ^ bits))) 0"
  have new: "run s1 (hm_new pick nd s1) (\<lambda>x s2. x \<noteq> 0 \<and> hm_nodes s2 x = Some nd)" for nd s1 by (rule run_new) simp
  show ?thesis
    unfolding alloc_root_def
    apply (rule run_then, rule new)
    apply (rule run_mono, rule new)
    subgoal for d s1 off s2
      using new_tree [OF assms, of "hm_nodes s2" off d hash] kept_node [of s1 s2 d]
      by (intro exI [of _ "new_root bits d"]) (simp add: new_root_def)
    done
qed

end

text \<open>The entries under a root, in the order of the buckets.\<close>

lemma concat_upt_nested:
  "concat (map (\<lambda>i. concat (map (\<lambda>j. f (i * n + j)) [0..<n])) [0..<m]) = concat (map f [0..<m * n])"
proof (induction m)
  case (Suc m)
  have "map (\<lambda>j. f (m * n + j)) [0..<n] = map f [m * n..<m * n + n]" by (intro nth_equalityI) simp_all
  moreover have "[0..<Suc m * n] = [0..<m * n] @ [m * n..<m * n + n]" using upt_add_eq_append [of 0 "m * n" n] by (simp add: add.commute)
  ultimately show ?case using Suc by simp
qed simp

lemma parts_of_triple:
  assumes "si < kSegsPerChunk" "bi < kBucketsPerSeg"
  shows "b_chunk ((ci * kSegsPerChunk + si) * kBucketsPerSeg + bi) = ci" "b_seg ((ci * kSegsPerChunk + si) * kBucketsPerSeg + bi) = si"
    "b_local ((ci * kSegsPerChunk + si) * kBucketsPerSeg + bi) = bi"
proof -
  let ?b = "(ci * kSegsPerChunk + si) * kBucketsPerSeg + bi"
  have d: "?b div kBucketsPerSeg = ci * kSegsPerChunk + si" and m: "?b mod kBucketsPerSeg = bi" using assms(2) by simp_all
  have d2: "(ci * kSegsPerChunk + si) div kSegsPerChunk = ci" and m2: "(ci * kSegsPerChunk + si) mod kSegsPerChunk = si"
    using assms(1) by simp_all
  show "b_chunk ?b = ci" unfolding b_chunk_def div_mult2_eq d d2 ..
  show "b_seg ?b = si" unfolding b_seg_def d m2 ..
  show "b_local ?b = bi" unfolding b_local_def m ..
qed

definition chains_of :: "('k, 'v) hm_heap \<Rightarrow> HmRoot \<Rightarrow> nat \<Rightarrow> (nat \<times> ('k, 'v) entry list) list option list" where
  "chains_of h r b = (if seg_at h r (b_chunk b) (b_seg b) = 0 then [] else [chain_blocks h (bkt_at h r b)])"

lemma concat_map_cong: "(\<And>i. i < n \<Longrightarrow> f i = g i) \<Longrightarrow> concat (map f [0..<n]) = concat (map g [0..<n])"
  by (intro arg_cong [of _ _ concat] map_cong) auto

lemma concat_singletons: "concat (map (\<lambda>x. [f x]) xs) = map f xs" "concat (map (\<lambda>x. []) xs) = []"
  by (induction xs) auto

lemma concat_map_nested: "concat (map f (concat (map g xs))) = concat (map (\<lambda>x. concat (map f (g x))) xs)"
  by (induction xs) auto

lemma root_chains_flat: "root_chains h r = concat (map (chains_of h r) [0..<chunk_count r * kSegsPerChunk * kBucketsPerSeg])"
proof -
  have seg: "(if seg_at h r ci si = 0 then [] else map (\<lambda>bi. chain_blocks h (slot h (seg_at h r ci si) bi)) [0..<kBucketsPerSeg])
      = concat (map (\<lambda>bi. chains_of h r ((ci * kSegsPerChunk + si) * kBucketsPerSeg + bi)) [0..<kBucketsPerSeg])"
    if "si < kSegsPerChunk" for ci si
  proof -
    have b: "chains_of h r ((ci * kSegsPerChunk + si) * kBucketsPerSeg + bi)
        = (if seg_at h r ci si = 0 then [] else [chain_blocks h (slot h (seg_at h r ci si) bi)])" if "bi < kBucketsPerSeg" for bi
      unfolding chains_of_def bkt_at_def parts_of_triple [OF \<open>si < kSegsPerChunk\<close> that] Let_def by simp
    show ?thesis by (subst concat_map_cong [OF b]) (simp_all add: concat_singletons)
  qed
  have chunk: "(if chunk_at h r ci = 0 then [] else concat (map (\<lambda>si. if seg_at h r ci si = 0 then []
         else map (\<lambda>bi. chain_blocks h (slot h (seg_at h r ci si) bi)) [0..<kBucketsPerSeg]) [0..<kSegsPerChunk]))
      = concat (map (\<lambda>si. concat (map (\<lambda>bi. chains_of h r ((ci * kSegsPerChunk + si) * kBucketsPerSeg + bi)) [0..<kBucketsPerSeg])) [0..<kSegsPerChunk])" for ci
  proof -
    have "(if chunk_at h r ci = 0 then [] else concat (map (\<lambda>si. if seg_at h r ci si = 0 then []
         else map (\<lambda>bi. chain_blocks h (slot h (seg_at h r ci si) bi)) [0..<kBucketsPerSeg]) [0..<kSegsPerChunk]))
      = concat (map (\<lambda>si. if seg_at h r ci si = 0 then []
         else map (\<lambda>bi. chain_blocks h (slot h (seg_at h r ci si) bi)) [0..<kBucketsPerSeg]) [0..<kSegsPerChunk])"
      by (simp add: seg_at_def concat_singletons)
    then show ?thesis using concat_map_cong [OF seg] by (simp only:)
  qed
  show ?thesis
    unfolding root_chains_def chunk concat_upt_nested [of "\<lambda>x. concat (map (\<lambda>bi. chains_of h r (x * kBucketsPerSeg + bi)) [0..<kBucketsPerSeg])"]
    by (rule concat_upt_nested)
qed

lemma for_each_entries:
  assumes "tree hash h off r hs"
  shows "for_each_in_root h r = Some (entries hs)"
proof -
  let ?n = "chunk_count r * kSegsPerChunk * kBucketsPerSeg" and ?C = "\<lambda>b. if b < bucket_count r then hs ! b else []"
  have C: "chain_at h (bkt_at h r b) (?C b)" for b using assms by (simp add: tree_def)
  have e: "None \<notin> set (chains_of h r b)" "concat (map (\<lambda>c. concat (map snd (the c))) (chains_of h r b)) = concat (?C b)" for b
  proof -
    obtain bs where bs: "chain_blocks h (bkt_at h r b) = Some bs" "map snd bs = ?C b" using chain_at_blocks [OF C] by blast
    then show "None \<notin> set (chains_of h r b)" by (simp add: chains_of_def)
    have "?C b = []" if "seg_at h r (b_chunk b) (b_seg b) = 0" using C [of b] that by (cases "?C b") (auto simp: bkt_at_def)
    then show "concat (map (\<lambda>c. concat (map snd (the c))) (chains_of h r b)) = concat (?C b)"
      by (cases "seg_at h r (b_chunk b) (b_seg b) = 0")
         (simp_all only: chains_of_def simp_thms if_True if_False list.map concat.simps bs option.sel append_Nil2)
  qed
  have out: "?C b = []" if "?n \<le> b" for b
  proof -
    have "chunk_count r \<le> b_chunk b" using that by (simp add: b_chunk_def kSegsPerChunk_def kBucketsPerSeg_def)
    then have "chunk_at h r (b_chunk b) = 0" using assms by (auto simp: tree_def shape_def not_less [symmetric])
    then show ?thesis using C [of b] by (cases "?C b") (auto simp: bkt_at_def seg_at_def)
  qed
  have flat: "concat (map (\<lambda>b. concat (?C b)) [0..<n]) = concat (map (\<lambda>b. concat (?C b)) [0..<n + d])" if "\<And>b. n \<le> b \<Longrightarrow> ?C b = []" for n d
    using that by (induction d) auto
  have "for_each_in_root h r = Some (concat (map (\<lambda>b. concat (?C b)) [0..<?n]))"
    using e unfolding for_each_in_root_def root_chains_flat concat_map_nested by auto
  also have "concat (map (\<lambda>b. concat (?C b)) [0..<?n]) = concat (map (\<lambda>b. concat (?C b)) [0..<bucket_count r])"
    by (rule trans [OF flat [of ?n "bucket_count r", OF out] trans [OF _ flat [of "bucket_count r" ?n, symmetric]]])
       (simp_all add: add.commute)
  also have "concat (map (\<lambda>b. concat (?C b)) [0..<bucket_count r]) = entries hs"
  proof -
    have "map (\<lambda>b. concat (?C b)) [0..<bucket_count r] = map concat hs"
      by (rule nth_equalityI) (simp_all add: tree_bucket(2) [OF assms])
    then show ?thesis by (simp only: entries_def)
  qed
  finally show ?thesis .
qed

text \<open>An action after which the nodes that were there are still there, also when it fails.\<close>

definition step :: "('k, 'v) hashmap \<Rightarrow> (hm_error + 'a) \<times> ('k, 'v) hashmap \<Rightarrow> ('a \<Rightarrow> ('k, 'v) hashmap \<Rightarrow> bool) \<Rightarrow> bool" where
  "step s out Q \<longleftrightarrow> (case out of (Inl e, s') \<Rightarrow> e \<in> {HmBadAlloc, HmOverflow ''HashMap: max bucket count exceeded''} \<and> frame s s' | (Inr x, s') \<Rightarrow> frame s s' \<and> Q x s')"

lemma stage_step: "stage s out Q \<Longrightarrow> step s out Q"
  by (auto simp: stage_def step_def kept_def split: prod.splits sum.splits)

lemma run_step: "run s out Q \<Longrightarrow> step s out Q"
  by (auto simp: run_def step_def kept_def split: prod.splits sum.splits)

lemma step_then:
  assumes "step s (m s) P" "\<And>x s'. frame s s' \<Longrightarrow> P x s' \<Longrightarrow> step s' (f x s') Q"
  shows "step s (hm_then m f s) Q"
proof (cases "m s")
  case (Pair out s')
  show ?thesis
  proof (cases out)
    case (Inl e)
    then show ?thesis using assms(1) Pair by (simp add: step_def hm_then_def)
  next
    case (Inr x)
    then have k: "frame s s'" and q: "step s' (f x s') Q" using assms Pair by (auto simp: step_def)
    show ?thesis using q k Pair Inr frame_trans [OF k] by (auto simp: step_def hm_then_def split: prod.splits sum.splits)
  qed
qed

lemma step_mono: "step s out P \<Longrightarrow> (\<And>x s'. frame s s' \<Longrightarrow> P x s' \<Longrightarrow> Q x s') \<Longrightarrow> step s out Q"
  by (auto simp: step_def split: prod.splits sum.splits)

lemma step_ret: "Q x s \<Longrightarrow> step s (hm_ret x s) Q"
  by (simp add: step_def hm_ret_def)

text \<open>A state whose staged root holds a map.\<close>

definition holds :: "('k \<Rightarrow> u64) \<Rightarrow> ('k, 'v) hashmap \<Rightarrow> ('k \<rightharpoonup> 'v) \<Rightarrow> bool" where
  "holds hash s m \<longleftrightarrow> (\<exists>r hs. tree hash (hm_nodes s) (staged_root s) r hs \<and> content hs = m)"

definition put_all :: "('k, 'v) entry list \<Rightarrow> ('k \<rightharpoonup> 'v) \<Rightarrow> 'k \<rightharpoonup> 'v" where
  "put_all es m = fold (\<lambda>e m. m(en_key e \<mapsto> en_val e)) es m"

lemma put_all_Cons: "put_all (e # es) m = put_all es (m(en_key e \<mapsto> en_val e))"
  by (simp add: put_all_def)

lemma put_all_distinct: "distinct (map en_key es) \<Longrightarrow> put_all es m = m ++ map_of (map kv es)"
proof (induction es arbitrary: m)
  case (Cons e es)
  have n: "map_of (map kv es) (en_key e) = None" using Cons.prems by (simp add: map_of_eq_None_iff image_image)
  have "put_all (e # es) m = m(en_key e \<mapsto> en_val e) ++ map_of (map kv es)" using Cons by (simp add: put_all_def)
  then show ?case using n by (auto simp: map_add_def fun_eq_iff split: option.splits)
qed (simp add: put_all_def)

context offset_source
begin

lemma do_put_holds:
  assumes "holds hash s m"
  shows "stage s (do_put pick (hash k) k v s) (\<lambda>inserted s'. (inserted \<longleftrightarrow> m k = None) \<and> holds hash s' (m(k \<mapsto> v)))"
proof -
  obtain r hs where t: "tree hash (hm_nodes s) (staged_root s) r hs" "content hs = m" using assms by (auto simp: holds_def)
  from do_put_ok [OF t(1), of k v] show ?thesis by (rule stage_mono) (use t(2) in \<open>auto simp: holds_def\<close>)
qed

lemma erase_holds:
  assumes "holds hash s m"
  shows "stage s (hm_erase hash pick k s) (\<lambda>erased s'. (erased \<longleftrightarrow> m k \<noteq> None) \<and> holds hash s' (m(k := None)))"
proof -
  obtain r hs where t: "tree hash (hm_nodes s) (staged_root s) r hs" "content hs = m" using assms by (auto simp: holds_def)
  from hm_erase_ok [OF t(1), of k] show ?thesis by (rule stage_mono) (use t(2) in \<open>auto simp: holds_def\<close>)
qed

lemma reinsert_all_ok:
  assumes "holds hash s m" "hashed hash es"
  shows "step s (reinsert_all pick es s) (\<lambda>_ s'. holds hash s' (put_all es m))"
  using assms
proof (induction es arbitrary: s m)
  case Nil
  then show ?case by (simp add: step_ret put_all_def)
next
  case (Cons e es)
  have e: "en_hash e = hash (en_key e)" "hashed hash es" using Cons.prems(2) by (simp_all add: hashed_def)
  show ?case
    unfolding reinsert_all.simps e(1)
    apply (rule step_then, rule stage_step, rule do_put_holds, rule Cons.prems(1))
    apply (rule step_mono, rule Cons.IH [OF _ e(2)])
     apply (elim conjE, assumption)
    apply (simp only: put_all_Cons)
    done
qed

lemma slots_bits: "\<not> kMaxDirChunks < root_chunk_dir_slots (2 ^ n) \<Longrightarrow> n \<le> 30"
proof (rule ccontr)
  assume s: "\<not> kMaxDirChunks < root_chunk_dir_slots (2 ^ n)" and "\<not> n \<le> 30"
  then have "(2::nat) ^ 31 \<le> 2 ^ n" by (intro power_increasing) auto
  then have "(2::nat) ^ 31 div 4096 \<le> 2 ^ n div 4096" by (rule div_le_mono)
  then show False using s by (simp add: root_chunk_dir_slots_def kMaxDirChunks_def kBucketsPerSeg_def kSegsPerChunk_def Let_def split: if_splits)
qed

lemma rehash_ok:
  assumes "holds hash s m"
  shows "step s (rehash pick s) (\<lambda>_ s'. holds hash s' m)"
proof -
  obtain r hs where t: "tree hash (hm_nodes s) (staged_root s) r hs" and m: "content hs = m" using assms by (auto simp: holds_def)
  have root: "root_of (hm_nodes s) (staged_root s) = Some r" using t by (simp add: tree_def root_of_def)
  have tab: "table_ok hash (bucket_bits r) hs" using t by (simp add: tree_def)
  have h: "hashed hash (entries hs)" using tab by (auto simp: hashed_def entries_nth table_ok_def bucket_ok_def)
  have all: "put_all (entries hs) Map.empty = m"
    using put_all_distinct [OF table_distinct [OF tab]] m by (simp add: content_def)
  have empty: "holds hash (s1\<lparr>staged_root := off\<rparr>) Map.empty"
    if "tree hash (hm_nodes s1) off r1 (replicate n [])" for s1 :: "('a, 'b) hashmap" and off r1 n
    using that empty_table(2) by (fastforce simp: holds_def content_def)
  have refill: "step s1 (reinsert_all pick (entries hs) s1) (\<lambda>_ s'. holds hash s' m)" if "holds hash s1 Map.empty" for s1
    using reinsert_all_ok [OF that h] by (simp only: all)
  have each: "for_each_in_root (hm_nodes s1) r = Some (entries hs)" if "frame s s1" for s1
    using that tree_mono [OF t, of "hm_nodes s1"] for_each_entries by (auto simp: frame_def)
  show ?thesis
    unfolding rehash_def
    apply (rule step_then [where P = "\<lambda>x s'. s' = s \<and> x = (staged_root s, r)"])
     apply (rule run_step, rule run_staged [OF root], simp)
    apply (elim conjE, hypsubst, unfold prod.case)
    apply (split if_split, intro conjI impI)
     apply (simp add: step_def hm_throw_def)
    apply (rule step_then, rule run_step, rule alloc_root_ok [where hash = hash], erule slots_bits)
    apply (erule exE)
    subgoal for _ _ root s1 r1
      apply (rule step_then [where P = "\<lambda>_ s'. frame s s' \<and> holds hash s' Map.empty"])
       apply (elim conjE, drule empty, simp add: step_def set_staged_def frame_def)
      apply (rule step_then [where P = "\<lambda>x s'. x = Some (entries hs) \<and> holds hash s' Map.empty"])
       apply (rule run_step, rule run_gets, simp add: each)
      apply (rule step_then [where P = "\<lambda>x s'. x = entries hs \<and> holds hash s' Map.empty"])
       apply (elim conjE, hypsubst, rule run_step, rule run_opt, simp)
      apply (rule step_then [where P = "\<lambda>_ s'. holds hash s' m"])
       apply (elim conjE, hypsubst, rule refill, assumption)
      apply (rule step_then [where P = "\<lambda>_ s'. holds hash s' m"])
       apply (rule run_step, rule run_gets, assumption)
      apply (rule run_step, rule run_retire, simp add: holds_def)
      done
    done
qed

end

end
