(* ===== verification/CowSnapshots.thy ===== *)
theory CowSnapshots
  imports CowCorrect
begin

text \<open>
  What the copy-on-write map of src/libs/yikv/container/hashmap.h promises its writer and its readers: the
  staged root is a finite map that \<^verbatim>\<open>put\<close> and \<^verbatim>\<open>erase\<close> update; a snapshot does not change under them, and
  \<^verbatim>\<open>publish\<close> makes the staged map the one readers see. The last section is about an \<^verbatim>\<open>erase\<close> that finds
  nothing and still hands the blocks of the bucket to the collector.
\<close>

section \<open>The operations of the writer\<close>

context offset_source
begin

lemma put_holds:
  assumes "holds hash s m" "\<not> bulk_mode s"
  shows "step s (hm_put hash pick k v s) (\<lambda>_ s'. holds hash s' (m(k \<mapsto> v)) \<and> \<not> bulk_mode s')"
proof -
  obtain r hs where t: "tree hash (hm_nodes s) (staged_root s) r hs" "content hs = m" using assms by (auto simp: holds_def)
  have root: "root_of (hm_nodes s) (staged_root s) = Some r" using t by (simp add: tree_def root_of_def)
  let ?P = "\<lambda>_ s'. holds hash s' m \<and> \<not> bulk_mode s'"
  have last: "step s1 (hm_then (hm_gets bulk_mode) (\<lambda>bulk. if bulk then do_put_bulk pick (hash k) k v
      else hm_then (do_put pick (hash k) k v) (\<lambda>_. hm_ret ())) s1) (\<lambda>_ s'. holds hash s' (m(k \<mapsto> v)) \<and> \<not> bulk_mode s')"
    if "holds hash s1 m" "\<not> bulk_mode s1" for s1
  proof -
    have "stage s1 (hm_then (do_put pick (hash k) k v) (\<lambda>_. hm_ret ()) s1) (\<lambda>_ s'. holds hash s' (m(k \<mapsto> v)))"
      using do_put_holds [OF that(1), of k v] by (auto simp: stage_def hm_then_def hm_ret_def split: prod.splits sum.splits)
    then show ?thesis using that(2) by (auto simp: step_def stage_def kept_def hm_then_def hm_gets_def split: prod.splits sum.splits)
  qed
  have grown: "step s (hm_then (hm_gets bulk_mode) (\<lambda>was_bulk. hm_then (set_bulk False) (\<lambda>_.
      hm_then (rehash pick) (\<lambda>_. set_bulk was_bulk))) s) ?P"
    apply (rule step_then [where P = "\<lambda>x s'. s' = s \<and> \<not> x"])
     apply (rule run_step, rule run_gets, simp add: assms(2))
    apply (elim conjE, hypsubst)
    apply (rule step_then [where P = "\<lambda>_ s'. holds hash s' m"])
     apply (use assms(1) in \<open>simp add: step_def set_bulk_def frame_def holds_def\<close>)
    apply (rule step_then, rule rehash_ok, assumption)
    apply (simp add: step_def set_bulk_def frame_def holds_def)
    done
  show ?thesis
    unfolding hm_put_def
    apply (rule step_then [where P = "\<lambda>x s'. s' = s \<and> x = (staged_root s, r)"])
     apply (rule run_step, rule run_staged [OF root], simp)
    apply (elim conjE, hypsubst, unfold prod.case)
    apply (rule step_then [where P = ?P])
     apply (split if_split, intro conjI impI)
      apply (rule grown)
     apply (rule step_ret, simp add: assms)
    apply (rule last; simp)
    done
qed

lemma create_holds:
  assumes "hm_create pick bits h = (Inr (), s)"
  shows "holds hash s Map.empty" "\<not> bulk_mode s" "pub_root s = staged_root s" "h \<subseteq>\<^sub>m hm_nodes s"
proof -
  let ?s = "\<lparr>hm_nodes = h, pub_root = 0, staged_root = 0, hdr_root = 0, hdr_off = 0, retire = [], retired_batches = [], bulk_mode = False\<rparr> :: ('a, 'b) hashmap"
  have b: "bits \<le> 30" using assms by (intro slots_bits) (auto simp: hm_create_def Let_def split: if_splits)
  obtain root s1 hdr s2 where a: "alloc_root pick bits ?s = (Inr root, s1)" and n: "hm_new pick HeaderNode (s1\<lparr>staged_root := root\<rparr>) = (Inr hdr, s2)"
    and s: "s = s2\<lparr>hdr_root := root, hdr_off := hdr, pub_root := root\<rparr>"
    using assms by (auto simp: hm_create_def Let_def hm_then_def set_staged_def split: if_splits prod.splits sum.splits)
  obtain r where r: "kept ?s s1" "tree hash (hm_nodes s1) root r (replicate (2 ^ bits) [])"
    using alloc_root_ok [OF b, of ?s hash] a by (auto simp: run_def)
  have k: "kept (s1\<lparr>staged_root := root\<rparr>) s2"
    using run_new [of "s1\<lparr>staged_root := root\<rparr>" "\<lambda>_ _. True" HeaderNode] n by (simp add: run_def)
  then have st: "staged_root s2 = root" "bulk_mode s2 = bulk_mode s1" "hm_nodes s1 \<subseteq>\<^sub>m hm_nodes s2" by (auto simp: kept_def frame_def)
  have "tree hash (hm_nodes s2) root r (replicate (2 ^ bits) [])" by (rule tree_mono [OF r(2) st(3)])
  then show "holds hash s Map.empty" unfolding holds_def s using st(1) empty_table(2) by (fastforce simp: content_def)
  show "\<not> bulk_mode s" "pub_root s = staged_root s" using r(1) st by (auto simp: s kept_def)
  show "h \<subseteq>\<^sub>m hm_nodes s" using r(1) st(3) map_le_trans by (fastforce simp: s kept_def frame_def)
qed

end

section \<open>Reading\<close>

lemma tree_get:
  assumes "tree hash h off r hs"
  shows "map_option (\<lambda>bs. chain_get (hash k) k (map snd bs)) (chain_blocks h (first_block h r (hash k))) = Some (content hs k)"
proof -
  let ?b = "bucket_index (bucket_bits r) (hash k)"
  have b: "?b < bucket_count r" by (rule tree_bucket [OF assms])
  then obtain bs where bs: "chain_blocks h (bkt_at h r ?b) = Some bs" "map snd bs = hs ! ?b"
    using assms chain_at_blocks unfolding tree_def by metis
  have t: "table_ok hash (bucket_bits r) hs" using assms by (simp add: tree_def)
  have "hashed hash (concat (hs ! ?b))" using t b tree_bucket(2) [OF assms] by (simp add: table_ok_def bucket_ok_def)
  then show ?thesis
    using bs chain_get_map_of table_lookup [OF t, of k] by (simp add: first_block_def content_def)
qed

lemma snapshot_get_tree: "tree hash h off r hs \<Longrightarrow> snapshot_get hash k h off = Some (content hs k)"
  using tree_get [of hash h off r hs k] by (simp add: snapshot_get_def root_of_def tree_def)


lemma staged_get_holds: "holds hash s m \<Longrightarrow> staged_get hash k s = Some (m k)"
proof -
  assume "holds hash s m"
  then obtain r hs where t: "tree hash (hm_nodes s) (staged_root s) r hs" "content hs = m" by (auto simp: holds_def)
  have "m k = None" if "entry_count r = 0" using t that by (auto simp: tree_def content_def)
  then show ?thesis using t tree_get [OF t(1), of k] by (auto simp: staged_get_def root_of_def tree_def)
qed

lemma hm_size_holds: "holds hash s m \<Longrightarrow> hm_size s = Some (card (dom m))"
proof -
  assume "holds hash s m"
  then obtain r hs where t: "tree hash (hm_nodes s) (staged_root s) r hs" "content hs = m" by (auto simp: holds_def)
  have d: "distinct (map en_key (entries hs))" using t(1) table_distinct by (auto simp: tree_def)
  have "dom m = set (map en_key (entries hs))" using t(2) [symmetric] by (simp add: content_def dom_map_of_conv_image_fst image_image)
  then have "card (dom m) = length (entries hs)" using distinct_card [OF d] by simp
  then show ?thesis using t(1) by (simp add: hm_size_def root_of_def tree_def)
qed


section \<open>Sequences of writes and publishing\<close>

datatype ('k, 'v) hm_op = PutOp 'k 'v | EraseOp 'k

text \<open>A sequence of writes stops at the first exception.\<close>

fun hm_ops :: "('k \<Rightarrow> u64) \<Rightarrow> (nat set \<Rightarrow> nat option) \<Rightarrow> ('k, 'v) hm_op list \<Rightarrow> ('k, 'v, unit) hm_act" where
  "hm_ops hash pick [] = hm_ret ()"
| "hm_ops hash pick (PutOp k v # ops) = hm_then (hm_put hash pick k v) (\<lambda>_. hm_ops hash pick ops)"
| "hm_ops hash pick (EraseOp k # ops) = hm_then (hm_erase hash pick k) (\<lambda>_. hm_ops hash pick ops)"

fun map_ops :: "('k, 'v) hm_op list \<Rightarrow> ('k \<rightharpoonup> 'v) \<Rightarrow> 'k \<rightharpoonup> 'v" where
  "map_ops [] m = m"
| "map_ops (PutOp k v # ops) m = map_ops ops (m(k \<mapsto> v))"
| "map_ops (EraseOp k # ops) m = map_ops ops (m(k := None))"

definition published :: "('k \<Rightarrow> u64) \<Rightarrow> ('k, 'v) hashmap \<Rightarrow> ('k \<rightharpoonup> 'v) \<Rightarrow> bool" where
  "published hash s m \<longleftrightarrow> (\<exists>r hs. tree hash (hm_nodes s) (pub_root s) r hs \<and> content hs = m)"

lemma published_get: "published hash s m \<Longrightarrow> snapshot_get hash k (hm_nodes s) (acquire_snapshot s) = Some (m k)"
  using snapshot_get_tree by (auto simp: published_def acquire_snapshot_def)





lemma publish_root: "pub_root (publish delay now1 now2 s) = staged_root s"
  by (simp add: publish_def Let_def split: prod.splits)


context offset_source
begin

lemma ops_hold:
  assumes "holds hash s m" "\<not> bulk_mode s"
  shows "step s (hm_ops hash pick ops s) (\<lambda>_ s'. holds hash s' (map_ops ops m) \<and> \<not> bulk_mode s')"
  using assms
proof (induction ops arbitrary: s m)
  case Nil
  then show ?case by (simp add: step_ret)
next
  case (Cons op ops)
  show ?case
  proof (cases op)
    case (PutOp k v)
    show ?thesis unfolding PutOp hm_ops.simps map_ops.simps
      by (rule step_then, rule put_holds [OF Cons.prems], rule Cons.IH; elim conjE; assumption)
  next
    case (EraseOp k)
    have "stage s (hm_erase hash pick k s) (\<lambda>_ s'. holds hash s' (m(k := None)))"
      by (rule stage_mono [OF erase_holds [OF Cons.prems(1)]]) simp
    then have "step s (hm_erase hash pick k s) (\<lambda>_ s'. holds hash s' (m(k := None)) \<and> \<not> bulk_mode s')"
      using Cons.prems(2) by (auto simp: step_def stage_def kept_def split: prod.splits sum.splits)
    then show ?thesis unfolding EraseOp hm_ops.simps map_ops.simps by (rule step_then) (rule Cons.IH; elim conjE; assumption)
  qed
qed

end


text \<open>An allocator that hands out the offset behind the last one in use.\<close>

definition next_offset :: "nat set \<Rightarrow> nat option" where
  "next_offset A = (if finite A then Some (Suc (Max (insert 0 A))) else None)"

interpretation bump: offset_source next_offset
proof
  fix A :: "nat set" and off
  assume "next_offset A = Some off"
  then have f: "finite A" and off: "off = Suc (Max (insert 0 A))" by (auto simp: next_offset_def split: if_splits)
  have "x < off" if "x \<in> A" for x using f that unfolding off by (simp add: le_imp_less_Suc)
  then show "off \<notin> A \<and> off \<noteq> 0" by (auto simp: off)
qed

section \<open>A bucket handed to the collector by mistake\<close>

lemma build_rest_fields: "\<exists>h. snd (build_rest pick n prev ents s) = s\<lparr>hm_nodes := h\<rparr>"
proof (induction n arbitrary: prev ents s)
  case 0
  show ?case by (simp add: hm_ret_def) (metis (no_types) hashmap.surjective hashmap.update_convs(1))
next
  case (Suc n)
  have same: "\<exists>h. s = s\<lparr>hm_nodes := h\<rparr>" by (metis (no_types) hashmap.surjective hashmap.update_convs(1))
  show ?case
  proof (cases "ents = [] \<or> pick (dom (hm_nodes s)) = None")
    case True
    then show ?thesis using same by (auto simp: hm_ret_def hm_then_def hm_new_def)
  next
    case False
    then obtain off where off: "ents \<noteq> []" "pick (dom (hm_nodes s)) = Some off" by auto
    let ?s1 = "s\<lparr>hm_nodes := (hm_nodes s)(off \<mapsto> BlockNode (take kBlockCap ents) 0)\<rparr>"
    obtain out s2 where l: "hm_link prev off ?s1 = (out, s2)" by fastforce
    then obtain h where h: "s2 = s\<lparr>hm_nodes := h\<rparr>" by (auto simp: hm_link_def split: option.splits hm_node.splits)
    show ?thesis using off l h Suc.IH [of off "drop kBlockCap ents" s2]
      by (cases out) (auto simp: hm_then_def hm_new_def)
  qed
qed

lemma build_chain_fields: "\<exists>h. snd (build_chain pick ents s) = s\<lparr>hm_nodes := h\<rparr>"
proof -
  have same: "\<exists>h. s = s\<lparr>hm_nodes := h\<rparr>" by (metis (no_types) hashmap.surjective hashmap.update_convs(1))
  show ?thesis
  proof (cases "ents = [] \<or> pick (dom (hm_nodes s)) = None")
    case True
    then show ?thesis using same by (auto simp: build_chain_def hm_ret_def hm_then_def hm_new_def)
  next
    case False
    then obtain off where off: "ents \<noteq> []" "pick (dom (hm_nodes s)) = Some off" by auto
    let ?s1 = "s\<lparr>hm_nodes := (hm_nodes s)(off \<mapsto> BlockNode (take kBlockCap ents) 0)\<rparr>"
    obtain out s2 where r: "build_rest pick (length ents) off (drop kBlockCap ents) ?s1 = (out, s2)" by fastforce
    then obtain h where "s2 = s\<lparr>hm_nodes := h\<rparr>"
      using build_rest_fields [of pick "length ents" off "drop kBlockCap ents" ?s1] by auto
    then show ?thesis using off r by (cases out) (auto simp: build_chain_def hm_then_def hm_new_def hm_ret_def)
  qed
qed

lemma offsets_keep_blocks:
  assumes "\<forall>x \<in> B. \<exists>es n. h x = Some (BlockNode es n)"
  shows "offsets (h |` (- B)) x = offsets h x" "root_of (h |` (- B)) x = root_of h x" "bkt_at (h |` (- B)) r b = bkt_at h r b"
proof -
  show o: "offsets (h |` (- B)) x = offsets h x" for x
    using assms by (cases "x \<in> B") (auto simp: offsets_def restrict_map_def)
  have sl: "slot (h |` (- B)) x i = slot h x i" for x i by (simp add: slot_def o)
  show "root_of (h |` (- B)) x = root_of h x"
    using assms by (cases "x \<in> B") (auto simp: root_of_def restrict_map_def)
  show "bkt_at (h |` (- B)) r b = bkt_at h r b"
    unfolding bkt_at_def seg_at_def chunk_at_def chunk_dir_get_def sl ..
qed

lemma chain_blocks_nodes:
  assumes "chain_at h off c" "chain_blocks h off = Some bs"
  shows "\<forall>x \<in> set (map fst bs). \<exists>es n. h x = Some (BlockNode es n)" "off \<noteq> 0 \<Longrightarrow> off \<in> set (map fst bs)"
  using assms
proof (induction c arbitrary: off bs)
  case Nil
  { case 1 then show ?case using Nil by (simp add: chain_blocks.simps [of h 0]) }
  { case 2 then show ?case using Nil by simp }
next
  case (Cons b c)
  { case 1
    then obtain nxt bs' where "off \<noteq> 0" "h off = Some (BlockNode b nxt)" "chain_at h nxt c" "chain_blocks h nxt = Some bs'" "bs = (off, b) # bs'"
      by (auto simp: chain_blocks.simps [of h off] bind_eq_Some_conv)
    then show ?case using Cons.IH(1) by fastforce }
  { case 2
    then show ?case by (auto simp: chain_blocks.simps [of h off] bind_eq_Some_conv) }
qed


lemma chain_blocks_mono:
  assumes "chain_at h off c" "chain_blocks h off = Some bs" "h \<subseteq>\<^sub>m h'"
  shows "chain_blocks h' off = Some bs"
  using assms
proof (induction c arbitrary: off bs)
  case Nil
  then show ?case by (simp add: chain_blocks.simps [of _ 0])
next
  case (Cons b c)
  then obtain nxt bs' where "off \<noteq> 0" "h off = Some (BlockNode b nxt)" "chain_at h nxt c" "chain_blocks h nxt = Some bs'" "bs = (off, b) # bs'"
    by (auto simp: chain_blocks.simps [of h off] bind_eq_Some_conv)
  then show ?case using Cons.IH [of nxt bs'] Cons.prems(3) by (simp add: chain_blocks.simps [of h' off] map_le_node)
qed

lemma erase_absent:
  assumes "offset_source pick" "tree hash (hm_nodes s) (staged_root s) r hs" "content hs k = None"
    and "b = bucket_index (bucket_bits r) (hash k)" "hs ! b \<noteq> []" "hm_erase hash pick k s = (Inr False, s')"
  shows "\<exists>bs h. chain_blocks (hm_nodes s) (bkt_at (hm_nodes s) r b) = Some bs \<and> s' = s\<lparr>hm_nodes := h, retire := retire s @ map fst bs\<rparr>
    \<and> hm_nodes s \<subseteq>\<^sub>m h"
proof -
  let ?h = "hm_nodes s"
  have st: "staged s = (Inr (staged_root s, r), s)" using assms(2) by (simp add: staged_def root_of_def tree_def)
  have c: "chain_at ?h (bkt_at ?h r b) (hs ! b)" using assms(2) tree_bucket(1) [OF assms(2), of "hash k"] assms(4) by (simp add: tree_def)
  then have nz: "bkt_at ?h r b \<noteq> 0" using assms(5) by (cases "hs ! b") auto
  then have "seg_at ?h r (b_chunk b) (b_seg b) \<noteq> 0" "chunk_at ?h r (b_chunk b) \<noteq> 0" by (auto simp: bkt_at_def seg_at_def Let_def split: if_splits)
  note nz = nz this
  obtain bs where bs: "chain_blocks ?h (bkt_at ?h r b) = Some bs" "map snd bs = hs ! b" using chain_at_blocks [OF c] by blast
  have e: "block_erase (hash k) k (concat (hs ! b)) = None" using erase_finds [OF assms(2)] assms(3,4) by simp
  let ?s1 = "s\<lparr>retire := retire s @ map fst bs\<rparr>"
  obtain out s2 where b: "build_chain pick (concat (hs ! b)) ?s1 = (out, s2)" by fastforce
  have "hm_erase hash pick k s = (case out of Inl e \<Rightarrow> (Inl e, s2) | Inr _ \<Rightarrow> (Inr False, s2))"
    using st nz bs e b
    by (simp add: hm_erase_def cow_bucket_erase_def hm_then_def hm_gets_def hm_opt_def hm_ret_def hm_retire_def assms(4) [symmetric] split: sum.splits)
  then have s': "s' = s2" using assms(6) by (auto split: sum.splits)
  obtain h where h: "s2 = ?s1\<lparr>hm_nodes := h\<rparr>" using build_chain_fields [of pick "concat (hs ! b)" ?s1] b by auto
  have "?h \<subseteq>\<^sub>m hm_nodes s'"
    using offset_source.hm_erase_ok [OF assms(1,2), of k] assms(6) by (simp add: stage_def frame_def)
  then show ?thesis using bs(1) h s' by (intro exI [of _ bs] exI [of _ h]) simp
qed

lemma freed_chain_unreadable:
  assumes "tree hash h off r hs" "chain_blocks h (bkt_at h r b) = Some bs" "b = bucket_index (bucket_bits r) (hash x)" "hs ! b \<noteq> []"
  shows "snapshot_get hash x (h |` (- set (map fst bs))) off = None"
proof -
  define g where "g = h |` (- set (map fst bs))"
  have c: "chain_at h (bkt_at h r b) (hs ! b)" using assms(1,3) tree_bucket(1) [OF assms(1), of "hash x"] by (simp add: tree_def)
  then have nz: "bkt_at h r b \<noteq> 0" using assms(4) by (cases "hs ! b") auto
  note n = chain_blocks_nodes [OF c assms(2)]
  have k: "root_of g off = root_of h off" "bkt_at g r b = bkt_at h r b" using offsets_keep_blocks [OF n(1)] by (simp_all only: g_def)
  have "g (bkt_at h r b) = None" using n(2) [OF nz] by (simp add: g_def restrict_map_def)
  then have "chain_blocks g (bkt_at h r b) = None" using nz by (subst chain_blocks.simps) simp
  then have "snapshot_get hash x g off = None"
    using assms(1,3) k by (simp add: snapshot_get_def first_block_def root_of_def [of h] tree_def)
  then show ?thesis by (simp only: g_def)
qed


section \<open>Properties\<close>

text \<open>(C17) The staged root of the copy-on-write map is a finite map: \<^verbatim>\<open>put\<close> and \<^verbatim>\<open>erase\<close> update it, with the
  rehash a \<^verbatim>\<open>put\<close> may start, the writer reads back what it wrote, \<^verbatim>\<open>size\<close> is the number of keys and \<^verbatim>\<open>erase\<close>
  tells whether the key was there; they fail only when the allocator has no memory or the table its
  largest size.\<close>
theorem cow_map_refines_map:
  assumes "offset_source pick" "holds hash s m" "\<not> bulk_mode s"
  shows "(case hm_put hash pick k v s of
      (Inl e, s') \<Rightarrow> e = HmBadAlloc \<or> e = HmOverflow ''HashMap: max bucket count exceeded''
    | (Inr _, s') \<Rightarrow> holds hash s' (m(k \<mapsto> v)) \<and> \<not> bulk_mode s' \<and> hm_size s' = Some (card (dom (m(k \<mapsto> v))))
        \<and> staged_get hash x s' = Some ((m(k \<mapsto> v)) x))
   \<and> (case hm_erase hash pick k s of
      (Inl e, s') \<Rightarrow> e = HmBadAlloc \<and> holds hash s' m
    | (Inr erased, s') \<Rightarrow> holds hash s' (m(k := None)) \<and> (erased \<longleftrightarrow> m k \<noteq> None) \<and> hm_size s' = Some (card (dom (m(k := None))))
        \<and> staged_get hash x s' = Some ((m(k := None)) x))"
proof
  show "case hm_put hash pick k v s of
      (Inl e, s') \<Rightarrow> e = HmBadAlloc \<or> e = HmOverflow ''HashMap: max bucket count exceeded''
    | (Inr _, s') \<Rightarrow> holds hash s' (m(k \<mapsto> v)) \<and> \<not> bulk_mode s' \<and> hm_size s' = Some (card (dom (m(k \<mapsto> v))))
        \<and> staged_get hash x s' = Some ((m(k \<mapsto> v)) x)"
    using offset_source.put_holds [OF assms, of k v]
    by (auto simp: step_def hm_size_holds staged_get_holds simp del: fun_upd_apply split: prod.splits sum.splits)
  have "holds hash s' m" if "kept s s'" for s'
    using that assms(2) tree_mono unfolding kept_def frame_def holds_def by metis
  then show "case hm_erase hash pick k s of
      (Inl e, s') \<Rightarrow> e = HmBadAlloc \<and> holds hash s' m
    | (Inr erased, s') \<Rightarrow> holds hash s' (m(k := None)) \<and> (erased \<longleftrightarrow> m k \<noteq> None) \<and> hm_size s' = Some (card (dom (m(k := None))))
        \<and> staged_get hash x s' = Some ((m(k := None)) x)"
    using offset_source.erase_holds [OF assms(1,2), of k]
    by (auto simp: stage_def hm_size_holds staged_get_holds simp del: fun_upd_apply split: prod.splits sum.splits)
qed

definition small_map :: "(u64, nat) hashmap" where
  "small_map = \<lparr>hm_nodes = [1 \<mapsto> Offsets [0], 2 \<mapsto> RootNode (new_root 1 1), 3 \<mapsto> HeaderNode], pub_root = 2, staged_root = 2, hdr_root = 2, hdr_off = 3,
     retire = [], retired_batches = [], bulk_mode = False\<rparr>"

lemmas map_eval = next_offset_def Let_def hm_then_def hm_ret_def hm_gets_def hm_new_def hm_opt_def hm_retire_def hm_link_def set_staged_def
  staged_def root_of_def offsets_def slot_def cow_array_def bucket_count_def bucket_index_def kBucketsPerSeg_def kSegsPerChunk_def
  kMaxDirChunks_def kChunkDirLeafSlots_def kLoadFactor_def kBlockCap_def root_chunk_dir_slots_def chunk_dir_num_leaves_def
  chunk_dir_leaf_width_def chunk_dir_get_def chunk_at_def seg_at_def bkt_at_def b_chunk_def b_seg_def b_local_def updated_root_def new_root_def

lemma small_map_created: "hm_create next_offset 1 Map.empty = (Inr (), small_map)"
  by (simp add: small_map_def hm_create_def alloc_root_def map_eval numeral_2_eq_2 numeral_3_eq_3)

lemmas small_map_holds = bump.create_holds(1) [OF small_map_created, of "\<lambda>k. k"] bump.create_holds(2-) [OF small_map_created]

lemma small_put: "fst (hm_put (\<lambda>k. k) next_offset 3 7 small_map) = Inr ()"
  by (simp add: small_map_def hm_put_def do_put_def cow_bucket_put_def chain_blocks.simps [of _ 0] build_chain_def
      cow_segment_def cow_chunk_def cow_root_def map_eval)

theorem cow_map_refines_map_witness:
  "staged_get (\<lambda>k. k) 3 (snd (hm_put (\<lambda>k. k) next_offset 3 7 small_map)) = Some (Some 7)"
  using cow_map_refines_map [OF bump.offset_source_axioms small_map_holds(1,2), of 3 7 3] small_put
  by (auto split: prod.splits sum.splits)




text \<open>(C19) An \<^verbatim>\<open>erase\<close> of a key that is not there, in a bucket that is not empty, retires the blocks of the
  bucket although the staged root still refers to them. The \<^verbatim>\<open>publish\<close> that frees the batch leaves every
  key of that bucket unreadable: a reader follows the root into freed memory.\<close>
theorem erase_absent_frees_bucket:
  assumes "offset_source pick" "holds hash s m" "root_of (hm_nodes s) (staged_root s) = Some r"
    and "m k = None" "m y \<noteq> None" "bucket_index (bucket_bits r) (hash y) = bucket_index (bucket_bits r) (hash k)"
    and "hm_erase hash pick k s = (Inr False, s')" "retire s = []" "retired_batches s = []" "delay < now2" "now1 + delay \<le> now2"
  shows "let s'' = publish delay now1 now2 s' in snapshot_get hash y (hm_nodes s'') (acquire_snapshot s'') = None"
proof -
  let ?b = "bucket_index (bucket_bits r) (hash k)"
  obtain hs where t: "tree hash (hm_nodes s) (staged_root s) r hs" and m: "content hs = m"
    using assms(2,3) by (auto simp: holds_def tree_def root_of_def)
  have "table_ok hash (bucket_bits r) hs" using t by (simp add: tree_def)
  from table_lookup [OF this, of y] have ne: "hs ! ?b \<noteq> []" using m assms(5,6) by (auto simp: content_def)
  obtain bs h where e: "chain_blocks (hm_nodes s) (bkt_at (hm_nodes s) r ?b) = Some bs"
      "s' = s\<lparr>hm_nodes := h, retire := retire s @ map fst bs\<rparr>" "hm_nodes s \<subseteq>\<^sub>m h"
    using erase_absent [OF assms(1) t _ refl ne assms(7)] m assms(4) by auto
  have t': "tree hash h (staged_root s) r hs" by (rule tree_mono [OF t e(3)])
  have c: "chain_at (hm_nodes s) (bkt_at (hm_nodes s) r ?b) (hs ! ?b)" using t tree_bucket(1) [OF t, of "hash k"] by (simp add: tree_def)
  have bs: "chain_blocks h (bkt_at h r ?b) = Some bs"
    using chain_blocks_mono [OF c e(1,3)] shape_mono(3) [OF _ e(3)] t by (simp add: tree_def)
  have "bs \<noteq> []" using chain_at_blocks [OF c] e(1) ne by auto
  moreover have "now1 \<le> now2 - delay" using assms(11) by linarith
  ultimately have "hm_nodes (publish delay now1 now2 s') = h |` (- set (map fst bs))"
    using assms(8-10) by (simp add: publish_def Let_def e(2))
  moreover have "acquire_snapshot (publish delay now1 now2 s') = staged_root s" by (simp add: acquire_snapshot_def publish_root e(2))
  ultimately show ?thesis
    unfolding Let_def using freed_chain_unreadable [OF t' bs _ ne, of y] assms(6) by (simp only:)
qed


definition one_root :: HmRoot where
  "one_root = \<lparr>entry_count = 1, bucket_bits = 1, chunk_count = 1, chunk_dir_off = 7\<rparr>"

definition one_heap :: "(u64, nat) hm_heap" where
  "one_heap = [1 \<mapsto> HeaderNode, 3 \<mapsto> BlockNode [make_entry 3 3 7] 0, 4 \<mapsto> Offsets ((replicate 64 0)[1 := 3]), 5 \<mapsto> Offsets ((replicate 64 0)[0 := 4]),
     6 \<mapsto> Offsets [5], 7 \<mapsto> Offsets [6], 8 \<mapsto> RootNode one_root]"

definition one_map :: "(u64, nat) hashmap" where
  "one_map = \<lparr>hm_nodes = one_heap, pub_root = 8, staged_root = 8, hdr_root = 8, hdr_off = 1, retire = [], retired_batches = [], bulk_mode = False\<rparr>"

lemma one_slots:
  "slot one_heap 7 i = (if i = 0 then 6 else 0)" "slot one_heap 6 i = (if i = 0 then 5 else 0)"
  "slot one_heap 5 i = (if i = 0 then 4 else 0)" "slot one_heap 4 i = (if i = 1 then 3 else 0)"
  by (auto simp: slot_def offsets_def one_heap_def nth_list_update)

lemma one_parts: "b_chunk 1 = 0" "b_seg 1 = 0" "b_local 1 = 1"
  by (simp_all add: b_chunk_def b_seg_def b_local_def kBucketsPerSeg_def kSegsPerChunk_def)

lemma one_paths:
  "chunk_at one_heap one_root c = (if c = 0 then 5 else 0)" "seg_at one_heap one_root c g = (if c = 0 \<and> g = 0 then 4 else 0)"
  "bkt_at one_heap one_root b = (if b = 1 then 3 else 0)"
proof -
  have s: "root_chunk_dir_slots (bucket_count one_root) = 1" "chunk_dir_off one_root = 7"
    by (simp_all add: one_root_def bucket_count_def root_chunk_dir_slots_def kBucketsPerSeg_def kSegsPerChunk_def)
  show c: "chunk_at one_heap one_root c = (if c = 0 then 5 else 0)" for c
    by (simp add: chunk_at_def chunk_dir_get_def s one_slots Let_def)
  show g: "seg_at one_heap one_root c g = (if c = 0 \<and> g = 0 then 4 else 0)" for c g
    by (simp add: seg_at_def c one_slots Let_def)
  have "b = 1 \<longleftrightarrow> b_chunk b = 0 \<and> b_seg b = 0 \<and> b_local b = 1"
    using bucket_parts [of b 1] one_parts by metis
  then show "bkt_at one_heap one_root b = (if b = 1 then 3 else 0)" by (simp add: bkt_at_def g one_slots Let_def)
qed

lemma one_map_holds: "holds (\<lambda>k. k) one_map [3 \<mapsto> 7]"
proof -
  let ?hs = "[[], [[make_entry 3 3 7]]] :: (u64, nat) chain list"
  have f: "bucket_count one_root = 2" "bucket_bits one_root = 1" "entry_count one_root = 1" "chunk_count one_root = 1" "chunk_dir_off one_root = 7"
    by (simp_all add: one_root_def bucket_count_def)
  have n: "one_heap 3 = Some (BlockNode [make_entry 3 3 7] 0)" "one_heap 8 = Some (RootNode one_root)"
    by (simp_all add: one_heap_def)
  have a: "arr one_heap 7 1" "arr one_heap 6 1" "arr one_heap 5 64" "arr one_heap 4 64" "arr one_heap 0 w" for w
    by (simp_all add: arr_def one_heap_def)
  have sl: "root_chunk_dir_slots 2 = 1" "chunk_dir_num_leaves (Suc 0) = Suc 0" "chunk_dir_leaf_width 0 (Suc 0) = Suc 0"
    by (simp_all add: root_chunk_dir_slots_def kBucketsPerSeg_def kSegsPerChunk_def chunk_dir_num_leaves_def kChunkDirLeafSlots_def chunk_dir_leaf_width_def)
  have sh: "shape one_heap one_root"
    using a by (simp add: shape_def f sl one_paths one_slots kSegsPerChunk_def kBucketsPerSeg_def)
  have "bucket_ok (\<lambda>k. k) 1 i (?hs ! i)" if "i < 2" for i
    using that less_2_cases [OF that]
    by (auto simp: bucket_ok_def chain_ok_def hashed_def make_entry_def kBlockCap_def bucket_index_def)
  then have tb: "table_ok (\<lambda>k. k) 1 ?hs" by (simp add: table_ok_def numeral_2_eq_2)
  have "chain_at one_heap (bkt_at one_heap one_root b) (?hs ! b)" if "b < 2" for b
    using less_2_cases [OF that] n by (auto simp: one_paths)
  then have "tree (\<lambda>k. k) one_heap 8 one_root ?hs"
    using sh tb n by (simp add: tree_def f one_paths entries_def)
  moreover have "content ?hs = [3 \<mapsto> 7]" by (simp add: content_def entries_def make_entry_def)
  ultimately show ?thesis by (auto simp: holds_def one_map_def)
qed

lemma one_erase: "fst (hm_erase (\<lambda>k. k) next_offset 5 one_map) = Inr False"
proof -
  have st: "staged one_map = (Inr (8, one_root), one_map)" by (simp add: staged_def root_of_def one_map_def one_heap_def)
  have b: "bucket_index (bucket_bits one_root) 5 = 1" by (simp add: bucket_index_def one_root_def)
  have c: "chain_blocks one_heap 3 = Some [(3, [make_entry 3 3 7])]"
    by (subst chain_blocks.simps) (simp add: one_heap_def chain_blocks.simps [of _ 0])
  have h: "hm_nodes one_map = one_heap" by (simp add: one_map_def)
  have n: "next_offset (dom one_heap) = Some 9" by (simp add: next_offset_def one_heap_def)
  show ?thesis
    by (simp add: hm_erase_def cow_bucket_erase_def build_chain_def hm_then_def hm_gets_def hm_opt_def hm_ret_def hm_retire_def hm_new_def
        st b h one_parts one_paths c n make_entry_def entry_matches_def kBlockCap_def)
qed

theorem erase_absent_frees_bucket_witness:
  "let s'' = publish 1 2 9 (snd (hm_erase (\<lambda>k. k) next_offset 5 one_map))
   in snapshot_get (\<lambda>k. k) 3 (hm_nodes one_map) (pub_root one_map) = Some (Some 7)
      \<and> snapshot_get (\<lambda>k. k) 3 (hm_nodes s'') (pub_root s'') = None"
proof -
  have r: "root_of (hm_nodes one_map) (staged_root one_map) = Some one_root" by (simp add: root_of_def one_map_def one_heap_def)
  have e: "hm_erase (\<lambda>k. k) next_offset 5 one_map = (Inr False, snd (hm_erase (\<lambda>k. k) next_offset 5 one_map))"
    using one_erase by (simp add: prod_eq_iff)
  have "published (\<lambda>k. k) one_map [3 \<mapsto> 7]" using one_map_holds by (simp add: holds_def published_def one_map_def)
  note p = published_get [OF this, of 3]
  have b: "bucket_index (bucket_bits one_root) 3 = bucket_index (bucket_bits one_root) 5" by (simp add: bucket_index_def one_root_def)
  show ?thesis
    using erase_absent_frees_bucket [OF bump.offset_source_axioms one_map_holds r _ _ b e, of 1 9 2] p
    by (simp add: Let_def acquire_snapshot_def one_map_def)
qed

end
