(* ===== verification/ArenaList.thy ===== *)
theory ArenaList
  imports Prelude
begin

text \<open>
  The doubly linked list in the arena, src/libs/yikv/container/list.h. A node is a block of the
  arena at a non-zero offset, with the offsets of its neighbours; the root block holds the size and
  the offsets of the two ends. The nodes are a function from offsets; \<open>ls_live\<close> is the set of node
  blocks that are allocated. What \<^verbatim>\<open>Malloc\<close> answers is an argument of the operations that allocate: the
  offset of the block, or nothing when it throws. An iterator is the offset of its node, 0 at the
  end.
\<close>

section \<open>Nodes and root\<close>

record 'a node =
  nd_prev :: nat
  nd_next :: nat
  nd_value :: 'a

record 'a dlist =
  ls_size :: nat
  ls_head :: nat
  ls_tail :: nat
  ls_nodes :: "nat \<Rightarrow> 'a node"
  ls_live :: "nat set"

datatype list_error = ListOutOfRange string | ListBadAlloc | ListRuntimeError string

definition new_list :: "(nat \<Rightarrow> 'a node) \<Rightarrow> 'a dlist" where
  "new_list nodes = \<lparr>ls_size = 0, ls_head = 0, ls_tail = 0, ls_nodes = nodes, ls_live = {}\<rparr>"

text \<open>Attaching to an existing root checks its magic number and its version.\<close>

definition attach_list :: "bool \<Rightarrow> bool \<Rightarrow> 'a dlist \<Rightarrow> list_error + 'a dlist" where
  "attach_list magic_ok version_ok s =
     (if \<not> magic_ok then Inl (ListRuntimeError ''List: bad magic'')
      else if \<not> version_ok then Inl (ListRuntimeError ''List: bad version'')
      else Inr s)"

definition set_prev :: "nat \<Rightarrow> nat \<Rightarrow> 'a dlist \<Rightarrow> 'a dlist" where
  "set_prev off p s = s\<lparr>ls_nodes := (ls_nodes s)(off := (ls_nodes s off)\<lparr>nd_prev := p\<rparr>)\<rparr>"

definition set_next :: "nat \<Rightarrow> nat \<Rightarrow> 'a dlist \<Rightarrow> 'a dlist" where
  "set_next off n s = s\<lparr>ls_nodes := (ls_nodes s)(off := (ls_nodes s off)\<lparr>nd_next := n\<rparr>)\<rparr>"

definition make_node :: "nat \<Rightarrow> 'a \<Rightarrow> 'a dlist \<Rightarrow> 'a dlist" where
  "make_node off v s =
     s\<lparr>ls_nodes := (ls_nodes s)(off := \<lparr>nd_prev = 0, nd_next = 0, nd_value = v\<rparr>), ls_live := insert off (ls_live s)\<rparr>"

definition free_node :: "nat \<Rightarrow> 'a dlist \<Rightarrow> 'a dlist" where
  "free_node off s = s\<lparr>ls_live := ls_live s - {off}\<rparr>"

section \<open>Operations\<close>





definition list_front :: "'a dlist \<Rightarrow> list_error + 'a" where
  "list_front s = (if ls_head s = 0 then Inl (ListOutOfRange ''List::front'') else Inr (nd_value (ls_nodes s (ls_head s))))"

definition list_back :: "'a dlist \<Rightarrow> list_error + 'a" where
  "list_back s = (if ls_tail s = 0 then Inl (ListOutOfRange ''List::back'') else Inr (nd_value (ls_nodes s (ls_tail s))))"







section \<open>Chains of nodes\<close>

definition first_or :: "nat list \<Rightarrow> nat \<Rightarrow> nat" where
  "first_or os a = (if os = [] then a else hd os)"

definition last_or :: "nat \<Rightarrow> nat list \<Rightarrow> nat" where
  "last_or p os = (if os = [] then p else last os)"





lemma ends_simps [simp]:
  "first_or [] a = a" "first_or (x # os) a = x" "last_or p [] = p" "last_or p (xs @ [x]) = x" "last_or p (x # os) = last_or x os"
  by (auto simp: first_or_def last_or_def)

lemma list_update_simps [simp]:
  "ls_size (set_prev x p s) = ls_size s" "ls_size (set_next x p s) = ls_size s" "ls_size (make_node x v s) = ls_size s" "ls_size (free_node x s) = ls_size s"
  "ls_head (set_prev x p s) = ls_head s" "ls_head (set_next x p s) = ls_head s" "ls_head (make_node x v s) = ls_head s" "ls_head (free_node x s) = ls_head s"
  "ls_tail (set_prev x p s) = ls_tail s" "ls_tail (set_next x p s) = ls_tail s" "ls_tail (make_node x v s) = ls_tail s" "ls_tail (free_node x s) = ls_tail s"
  "ls_live (set_prev x p s) = ls_live s" "ls_live (set_next x p s) = ls_live s" "ls_live (make_node x v s) = insert x (ls_live s)"
  "ls_live (free_node x s) = ls_live s - {x}"
  "ls_nodes (set_prev x p s) = (ls_nodes s)(x := (ls_nodes s x)\<lparr>nd_prev := p\<rparr>)"
  "ls_nodes (set_next x p s) = (ls_nodes s)(x := (ls_nodes s x)\<lparr>nd_next := p\<rparr>)"
  "ls_nodes (make_node x v s) = (ls_nodes s)(x := \<lparr>nd_prev = 0, nd_next = 0, nd_value = v\<rparr>)"
  "ls_nodes (free_node x s) = ls_nodes s"
  by (simp_all add: set_prev_def set_next_def make_node_def free_node_def)

text \<open>Redirecting the last node of a chain and the first one.\<close>

definition relink_next :: "(nat \<Rightarrow> 'a node) \<Rightarrow> nat list \<Rightarrow> nat \<Rightarrow> nat \<Rightarrow> 'a node" where
  "relink_next nodes xs b = (if xs = [] then nodes else nodes(last xs := (nodes (last xs))\<lparr>nd_next := b\<rparr>))"

definition relink_prev :: "(nat \<Rightarrow> 'a node) \<Rightarrow> nat list \<Rightarrow> nat \<Rightarrow> nat \<Rightarrow> 'a node" where
  "relink_prev nodes ys q = (if ys = [] then nodes else nodes(hd ys := (nodes (hd ys))\<lparr>nd_prev := q\<rparr>))"


lemma relink_value [simp]:
  "nd_value (relink_next nodes xs b x) = nd_value (nodes x)" "nd_value (relink_prev nodes ys q x) = nd_value (nodes x)"
  by (auto simp: relink_next_def relink_prev_def)





section \<open>Each operation is the one on the sequence of values\<close>
















section \<open>The contract of a sequence that grows at its end\<close>



section \<open>Properties\<close>




end
