(* ===== verification/ArenaVector.thy ===== *)
theory ArenaVector
  imports ArenaList
begin

text \<open>
  The growing containers of the arena: src/libs/yikv/container/vector.h and string.cc. The root
  block holds size and capacity, the cells are those of the data block. \<^verbatim>\<open>Malloc\<close> is a parameter: for a
  request in bytes it gives the cells of a new block, with any contents, or nothing when it throws.
  The request is computed in 64 bits. The text that is assigned or appended to a string is a value,
  not a view into the string's own block. An access outside the block is undefined in C++ and an error
  of its own here.
\<close>

section \<open>Vector\<close>

record 'a vec =
  vc_size :: nat
  vc_cap :: nat
  vc_cells :: "'a list"

datatype vec_error = VecOutOfRange string | VecBadAlloc | VecOverrun | VecRuntimeError string

type_synonym 'a malloc = "u64 \<Rightarrow> 'a list option"

definition reallocate :: "nat \<Rightarrow> 'a malloc \<Rightarrow> nat \<Rightarrow> 'a vec \<Rightarrow> vec_error + 'a vec" where
  "reallocate tsz malloc new_cap s =
     (case malloc (word_of_nat (new_cap * tsz)) of
        None \<Rightarrow> Inl VecBadAlloc
      | Some mem \<Rightarrow>
          if length mem < vc_size s then Inl VecOverrun
          else Inr (s\<lparr>vc_cells := take (vc_size s) (vc_cells s) @ drop (vc_size s) mem, vc_cap := new_cap\<rparr>))"


definition new_vector :: "nat \<Rightarrow> 'a malloc \<Rightarrow> vec_error + 'a vec" where
  "new_vector tsz malloc =
     (case malloc (word_of_nat (4 * tsz)) of
        None \<Rightarrow> Inl VecBadAlloc
      | Some mem \<Rightarrow> Inr \<lparr>vc_size = 0, vc_cap = 4, vc_cells = mem\<rparr>)"

definition attach_vector :: "string \<Rightarrow> bool \<Rightarrow> bool \<Rightarrow> 'a vec \<Rightarrow> vec_error + 'a vec" where
  "attach_vector name magic_ok version_ok s =
     (if \<not> magic_ok then Inl (VecRuntimeError (name @ '': bad magic''))
      else if \<not> version_ok then Inl (VecRuntimeError (name @ '': bad version''))
      else Inr s)"

definition vec_at :: "nat \<Rightarrow> 'a vec \<Rightarrow> vec_error + 'a" where
  "vec_at i s =
     (if vc_size s \<le> i then Inl (VecOutOfRange ''Vector::at'')
      else if length (vc_cells s) \<le> i then Inl VecOverrun
      else Inr (vc_cells s ! i))"

definition vec_front :: "'a vec \<Rightarrow> vec_error + 'a" where
  "vec_front s = (if vc_size s = 0 then Inl (VecOutOfRange ''Vector::front'') else vec_at 0 s)"

definition vec_back :: "'a vec \<Rightarrow> vec_error + 'a" where
  "vec_back s = (if vc_size s = 0 then Inl (VecOutOfRange ''Vector::back'') else vec_at (vc_size s - 1) s)"


definition vec_reserve :: "nat \<Rightarrow> 'a malloc \<Rightarrow> nat \<Rightarrow> 'a vec \<Rightarrow> vec_error + 'a vec" where
  "vec_reserve tsz malloc new_cap s = (if new_cap \<le> vc_cap s then Inr s else reallocate tsz malloc new_cap s)"







section \<open>String\<close>

abbreviation nul :: char where "nul \<equiv> CHR 0x00"


definition new_string :: "char malloc \<Rightarrow> vec_error + char vec" where
  "new_string malloc =
     (case malloc 1 of
        None \<Rightarrow> Inl VecBadAlloc
      | Some mem \<Rightarrow> if mem = [] then Inl VecOverrun else Inr \<lparr>vc_size = 0, vc_cap = 1, vc_cells = mem[0 := nul]\<rparr>)"

definition view :: "char vec \<Rightarrow> string" where
  "view s = take (vc_size s) (vc_cells s)"









fun find_at :: "string \<Rightarrow> nat \<Rightarrow> string \<Rightarrow> nat option" where
  "find_at needle i tx =
     (if take (length needle) tx = needle then Some i
      else case tx of [] \<Rightarrow> None | c # cs \<Rightarrow> find_at needle (i + 1) cs)"

definition str_find :: "string \<Rightarrow> nat \<Rightarrow> char vec \<Rightarrow> nat option" where
  "str_find needle pos s = (if length (view s) < pos then None else find_at needle pos (drop pos (view s)))"



section \<open>Vectors as sequences\<close>
















section \<open>Strings\<close>












section \<open>Properties\<close>





end
