(* ===== verification/BatchQueue.thy ===== *)
theory BatchQueue
  imports Prelude
begin

text \<open>
  The bounded queue between the readers and the writer of an import,
  src/apps/workers/indexer/queue/parsed_batch_queue.cc: any number of threads that push and pop
  batches. Every operation runs under the mutex of the queue and gives it up only in the wait on a
  condition variable, so a step is one section under the mutex. A thread that waits is woken only by
  a notification, or for no reason, as C++ allows; woken, it evaluates its condition again.
\<close>

section \<open>The queue and its threads\<close>

datatype 'a qpc = Outside | PushReady 'a | PushWait 'a | PopReady | PopWait

record 'a batch_queue =
  bq_items :: "'a list"
  bq_cap :: nat
  bq_eos :: bool
  bq_aborted :: bool
  bq_pc :: "nat \<Rightarrow> 'a qpc"
  bq_pushed :: "'a list"
  bq_popped :: "'a list"

text \<open>\<open>bq_pushed\<close> and \<open>bq_popped\<close> record the items that went in and came out, in order.\<close>

definition BoundedParsedBatchQueue :: "nat \<Rightarrow> 'a batch_queue" where
  "BoundedParsedBatchQueue capacity =
     \<lparr>bq_items = [], bq_cap = (if capacity = 0 then 1 else capacity), bq_eos = False, bq_aborted = False,
      bq_pc = (\<lambda>_. Outside), bq_pushed = [], bq_popped = []\<rparr>"

definition set_pc :: "nat \<Rightarrow> 'a qpc \<Rightarrow> 'a batch_queue \<Rightarrow> 'a batch_queue" where
  "set_pc t p s = s\<lparr>bq_pc := (bq_pc s)(t := p)\<rparr>"

fun wake_pop :: "'a qpc \<Rightarrow> 'a qpc" where
  "wake_pop PopWait = PopReady"
| "wake_pop p = p"

fun wake_push :: "'a qpc \<Rightarrow> 'a qpc" where
  "wake_push (PushWait x) = PushReady x"
| "wake_push p = p"

definition notify_all :: "('a qpc \<Rightarrow> 'a qpc) \<Rightarrow> 'a batch_queue \<Rightarrow> 'a batch_queue" where
  "notify_all wake s = s\<lparr>bq_pc := wake \<circ> bq_pc s\<rparr>"

definition can_push :: "'a batch_queue \<Rightarrow> bool" where
  "can_push s \<longleftrightarrow> length (bq_items s) < bq_cap s \<or> bq_aborted s"

definition can_pop :: "'a batch_queue \<Rightarrow> bool" where
  "can_pop s \<longleftrightarrow> bq_items s \<noteq> [] \<or> bq_eos s \<or> bq_aborted s"

definition push_item :: "'a \<Rightarrow> 'a batch_queue \<Rightarrow> 'a batch_queue" where
  "push_item x s = s\<lparr>bq_items := bq_items s @ [x], bq_pushed := bq_pushed s @ [x]\<rparr>"

definition pop_item :: "'a batch_queue \<Rightarrow> 'a batch_queue" where
  "pop_item s = s\<lparr>bq_items := tl (bq_items s), bq_popped := bq_popped s @ [hd (bq_items s)]\<rparr>"

inductive qstep :: "'a batch_queue \<Rightarrow> 'a batch_queue \<Rightarrow> bool" where
  push_call: "bq_pc s t = Outside \<Longrightarrow> qstep s (set_pc t (PushReady x) s)"
| push_wait: "bq_pc s t = PushReady x \<Longrightarrow> \<not> can_push s \<Longrightarrow> qstep s (set_pc t (PushWait x) s)"
| push_dropped: "bq_pc s t = PushReady x \<Longrightarrow> bq_aborted s \<Longrightarrow> qstep s (set_pc t Outside s)"
| push_one: "bq_pc s t = PushReady x \<Longrightarrow> can_push s \<Longrightarrow> \<not> bq_aborted s \<Longrightarrow> bq_pc s u = PopWait \<Longrightarrow>
    qstep s (set_pc u PopReady (set_pc t Outside (push_item x s)))"
| push_none: "bq_pc s t = PushReady x \<Longrightarrow> can_push s \<Longrightarrow> \<not> bq_aborted s \<Longrightarrow> \<forall>u. bq_pc s u \<noteq> PopWait \<Longrightarrow>
    qstep s (set_pc t Outside (push_item x s))"
| push_eos: "qstep s (notify_all wake_pop (s\<lparr>bq_eos := True\<rparr>))"
| abort: "qstep s (notify_all wake_push (notify_all wake_pop (s\<lparr>bq_aborted := True, bq_eos := True\<rparr>)))"
| pop_call: "bq_pc s t = Outside \<Longrightarrow> qstep s (set_pc t PopReady s)"
| pop_wait: "bq_pc s t = PopReady \<Longrightarrow> \<not> can_pop s \<Longrightarrow> qstep s (set_pc t PopWait s)"
| pop_end: "bq_pc s t = PopReady \<Longrightarrow> can_pop s \<Longrightarrow> bq_items s = [] \<Longrightarrow> qstep s (set_pc t Outside s)"
| pop_one: "bq_pc s t = PopReady \<Longrightarrow> bq_items s \<noteq> [] \<Longrightarrow>
    qstep s (notify_all wake_push (set_pc t Outside (pop_item s)))"
| spurious: "bq_pc s t = PushWait x \<Longrightarrow> qstep s (set_pc t (PushReady x) s)"
| spurious_pop: "bq_pc s t = PopWait \<Longrightarrow> qstep s (set_pc t PopReady s)"

inductive qreach :: "nat \<Rightarrow> 'a batch_queue \<Rightarrow> bool" for capacity where
  qstart: "qreach capacity (BoundedParsedBatchQueue capacity)"
| qnext: "qreach capacity s \<Longrightarrow> qstep s s' \<Longrightarrow> qreach capacity s'"

text \<open>The first error of the import is kept.\<close>

record error_state =
  es_failed :: bool
  es_message :: string

definition ErrorState_Set :: "string option \<Rightarrow> error_state \<Rightarrow> error_state" where
  "ErrorState_Set st e =
     (case st of
        None \<Rightarrow> e
      | Some text \<Rightarrow> if es_failed e then e else e\<lparr>es_failed := True, es_message := text\<rparr>)"

section \<open>The invariant\<close>

abbreviation woken :: "'a batch_queue \<Rightarrow> nat set" where
  "woken s \<equiv> {t. bq_pc s t = PopReady}"

definition q_inv :: "nat \<Rightarrow> 'a batch_queue \<Rightarrow> bool" where
  "q_inv capacity s \<longleftrightarrow>
     bq_popped s @ bq_items s = bq_pushed s
     \<and> bq_cap s = max 1 capacity \<and> length (bq_items s) \<le> bq_cap s
     \<and> (bq_aborted s \<longrightarrow> bq_eos s)
     \<and> finite {t. bq_pc s t \<noteq> Outside}
     \<and> (\<forall>t x. bq_pc s t = PushWait x \<longrightarrow> length (bq_items s) = bq_cap s \<and> \<not> bq_aborted s)
     \<and> (\<forall>t. bq_pc s t = PopWait \<longrightarrow> \<not> bq_eos s \<and> length (bq_items s) \<le> card (woken s))"

lemma wake_simps [simp]:
  "wake_pop p = PushWait x \<longleftrightarrow> p = PushWait x" "wake_pop p \<noteq> PopWait" "wake_pop p = PopReady \<longleftrightarrow> p = PopReady \<or> p = PopWait"
  "wake_push p \<noteq> PushWait x" "wake_push p = PopWait \<longleftrightarrow> p = PopWait" "wake_push p = PopReady \<longleftrightarrow> p = PopReady"
  by (cases p, simp_all)+

lemma wake_outside [simp]: "wake_pop p = Outside \<longleftrightarrow> p = Outside" "wake_push p = Outside \<longleftrightarrow> p = Outside"
  by (cases p, simp_all)+

lemma update_simps [simp]:
  "bq_items (set_pc t p s) = bq_items s" "bq_items (notify_all w s) = bq_items s" "bq_items (push_item x s) = bq_items s @ [x]"
  "bq_items (pop_item s) = tl (bq_items s)"
  "bq_cap (set_pc t p s) = bq_cap s" "bq_cap (notify_all w s) = bq_cap s" "bq_cap (push_item x s) = bq_cap s" "bq_cap (pop_item s) = bq_cap s"
  "bq_eos (set_pc t p s) = bq_eos s" "bq_eos (notify_all w s) = bq_eos s" "bq_eos (push_item x s) = bq_eos s" "bq_eos (pop_item s) = bq_eos s"
  "bq_aborted (set_pc t p s) = bq_aborted s" "bq_aborted (notify_all w s) = bq_aborted s" "bq_aborted (push_item x s) = bq_aborted s"
  "bq_aborted (pop_item s) = bq_aborted s"
  "bq_pc (set_pc t p s) = (bq_pc s)(t := p)" "bq_pc (notify_all w s) = w \<circ> bq_pc s" "bq_pc (push_item x s) = bq_pc s" "bq_pc (pop_item s) = bq_pc s"
  "bq_pushed (set_pc t p s) = bq_pushed s" "bq_pushed (notify_all w s) = bq_pushed s" "bq_pushed (push_item x s) = bq_pushed s @ [x]"
  "bq_pushed (pop_item s) = bq_pushed s"
  "bq_popped (set_pc t p s) = bq_popped s" "bq_popped (notify_all w s) = bq_popped s" "bq_popped (push_item x s) = bq_popped s"
  "bq_popped (pop_item s) = bq_popped s @ [hd (bq_items s)]"
  by (simp_all add: set_pc_def notify_all_def push_item_def pop_item_def)

lemma woken_set_pc: "woken (set_pc t p s) = (if p = PopReady then insert t (woken s) else woken s - {t})"
  by auto

lemma finite_active:
  "finite {u. bq_pc s u \<noteq> Outside} \<Longrightarrow> finite {u. bq_pc (set_pc t p s) u \<noteq> Outside}"
  by (rule finite_subset [of _ "insert t {u. bq_pc s u \<noteq> Outside}"]) auto

lemma q_inv_move:
  assumes "q_inv capacity s" "\<And>x. p = PushWait x \<Longrightarrow> length (bq_items s) = bq_cap s \<and> \<not> bq_aborted s"
    and "p = PopWait \<Longrightarrow> \<not> bq_eos s \<and> bq_items s = []" "bq_pc s t = PopReady \<Longrightarrow> bq_items s = []"
  shows "q_inv capacity (set_pc t p s)"
proof -
  have fin: "finite {u. bq_pc s u \<noteq> Outside}" using assms(1) by (simp add: q_inv_def)
  then have "finite (woken s)" by (rule finite_subset [rotated]) auto
  moreover have "woken s - {t} = woken s" if "bq_pc s t \<noteq> PopReady" using that by auto
  ultimately have few: "bq_items s = [] \<or> card (woken s) \<le> card (woken (set_pc t p s))"
    unfolding woken_set_pc using assms(4) by (cases "bq_pc s t = PopReady") (auto simp: card_insert_le)
  have pop: "\<not> bq_eos s \<and> length (bq_items s) \<le> card (woken (set_pc t p s))" if w: "bq_pc (set_pc t p s) u = PopWait" for u
  proof (cases "u = t")
    case True
    then have "p = PopWait" using w by simp
    then show ?thesis using assms(3) by simp
  next
    case False
    then have "bq_pc s u = PopWait" using w by simp
    then have "length (bq_items s) \<le> card (woken s)" "\<not> bq_eos s" using assms(1) by (auto simp: q_inv_def)
    then show ?thesis using few by fastforce
  qed
  have push: "length (bq_items s) = bq_cap s \<and> \<not> bq_aborted s" if "bq_pc (set_pc t p s) u = PushWait x" for u x
    using that assms(1,2) by (cases "u = t") (auto simp: q_inv_def)
  show ?thesis
    using assms(1) finite_active [OF fin] pop push unfolding q_inv_def update_simps(1,5,9,13,21,25) by blast
qed

lemma q_inv_step:
  assumes "qstep s s'" "q_inv capacity s"
  shows "q_inv capacity s'"
proof -
  have fin: "finite {u. bq_pc s u \<noteq> Outside}" using assms(2) by (simp add: q_inv_def)
  then have "finite (woken s)" by (rule finite_subset [rotated]) auto
  then have card: "t \<in> woken s \<Longrightarrow> card (woken s - {t}) = card (woken s) - 1" "t \<notin> woken s \<Longrightarrow> card (insert t (woken s)) = Suc (card (woken s))" for t
    by simp_all
  show ?thesis using assms
  proof cases
    case (push_one t x u)
    have "woken s' = insert u (woken s)" "u \<notin> woken s" using push_one by auto
    then have c: "card (woken s') = Suc (card (woken s))" using card(2) by simp
    have "finite {v. bq_pc s' v \<noteq> Outside}" 
      using finite_active [OF finite_active [OF fin]] by (simp add: push_one(1) del: fun_upd_apply)
    moreover have "\<not> bq_eos s' \<and> length (bq_items s') \<le> card (woken s')" if "bq_pc s' v = PopWait" for v
      using assms(2) push_one(5) unfolding c by (auto simp: push_one(1) q_inv_def)
    moreover have "bq_pc s' v \<noteq> PushWait y" for v y
      using assms(2) push_one(3,4) by (auto simp: push_one(1) q_inv_def can_push_def)
    ultimately show ?thesis using push_one(1,3,4) assms(2) by (simp add: q_inv_def can_push_def)
  next
    case (pop_one t)
    have "woken s' = woken s - {t}" "t \<in> woken s" using pop_one by auto
    then have c: "card (woken s') = card (woken s) - 1" using card(1) by simp
    have "finite {v. bq_pc s' v \<noteq> Outside}" 
      by (rule finite_subset [OF _ fin]) (auto simp: pop_one(1))
    moreover have "\<not> bq_eos s' \<and> length (bq_items s') \<le> card (woken s')" if "bq_pc s' v = PopWait" for v
    proof -
      have "bq_pc s v = PopWait" using that by (simp add: pop_one(1) split: if_splits)
      then show ?thesis using assms(2) unfolding c by (auto simp: pop_one(1) q_inv_def)
    qed
    moreover have "bq_pc s' v \<noteq> PushWait y" for v y by (simp add: pop_one(1))
    ultimately show ?thesis using pop_one(1,3) assms(2) by (cases "bq_items s") (simp_all add: q_inv_def)
  next
    case (push_none t x)
    moreover have "finite {v. bq_pc s' v \<noteq> Outside}"
      by (rule finite_subset [OF _ fin]) (auto simp: push_none(1))
    ultimately show ?thesis using assms(2) by (auto simp: q_inv_def can_push_def)
  next
    case push_eos
    then show ?thesis using assms(2) by (simp add: q_inv_def)
  next
    case abort
    then show ?thesis using assms(2) by (simp add: q_inv_def)
  qed (use assms(2) in \<open>(auto intro!: q_inv_move simp: can_push_def can_pop_def q_inv_def [of capacity s])\<close>)
qed

lemma qreach_inv: "qreach capacity s \<Longrightarrow> q_inv capacity s"
proof (induction rule: qreach.induct)
  case qstart
  show ?case by (auto simp: q_inv_def BoundedParsedBatchQueue_def)
next
  case (qnext s s')
  then show ?case by (blast intro: q_inv_step)
qed

section \<open>Properties\<close>

text \<open>
  (C20) The import queue. In every interleaving of producers and consumers, the batches come out in
  the order they went in, none lost and none twice, and never more than the capacity (at least
  one) are held. No wake-up is lost: a producer waits only while the queue is full, a consumer only
  before the end of the stream and while other woken consumers are enough to take every batch that
  is there; after the end of the stream or an abort nobody waits at the empty side, and after an
  abort nobody waits at all.
\<close>

theorem batch_queue_correct:
  assumes "qreach capacity s"
  shows "bq_popped s @ bq_items s = bq_pushed s \<and> length (bq_items s) \<le> max 1 capacity
    \<and> (bq_pc s t = PushWait x \<longrightarrow> length (bq_items s) = max 1 capacity \<and> \<not> bq_aborted s)
    \<and> (bq_pc s t = PopWait \<longrightarrow> \<not> bq_eos s \<and> \<not> bq_aborted s \<and> length (bq_items s) \<le> card {u. bq_pc s u = PopReady})"
  using qreach_inv [OF assms] by (auto simp: q_inv_def)

text \<open>A consumer waits at the empty queue, a producer arrives and its batch wakes the consumer.\<close>

theorem batch_queue_correct_witness:
  "\<exists>s. qreach 2 s \<and> bq_pc s 0 = PopReady \<and> bq_popped s @ bq_items s = [7 :: nat] \<and> length (bq_items s) \<le> 2"
proof -
  let ?s0 = "BoundedParsedBatchQueue 2 :: nat batch_queue"
  let ?s1 = "set_pc 0 PopReady ?s0" and ?s2 = "set_pc 0 PopWait (set_pc 0 PopReady ?s0)"
  let ?s3 = "set_pc 1 (PushReady 7) ?s2"
  let ?s4 = "set_pc 0 PopReady (set_pc 1 Outside (push_item 7 ?s3))"
  have s0: "bq_pc ?s0 = (\<lambda>_. Outside)" "bq_items ?s0 = []" "bq_pushed ?s0 = []" "\<not> bq_eos ?s0" "\<not> bq_aborted ?s0" "bq_cap ?s0 = 2"
    by (simp_all add: BoundedParsedBatchQueue_def)
  have "qreach 2 ?s1" by (rule qnext [OF qstart pop_call]) (simp add: s0)
  then have "qreach 2 ?s2" by (rule qnext [OF _ pop_wait]) (simp_all add: s0 can_pop_def)
  then have "qreach 2 ?s3" by (rule qnext [OF _ push_call]) (simp add: s0)
  then have r: "qreach 2 ?s4" by (rule qnext [OF _ push_one]) (simp_all add: s0 can_push_def)
  then show ?thesis using batch_queue_correct [OF r, of 0 7] s0(3) by (intro exI [of _ ?s4]) auto
qed

end
