(* ===== verification/IndexMeta.thy ===== *)
theory IndexMeta
  imports SchemaJson
begin

text \<open>
  The file that records where the tables of an index start, src/libs/yikv/db/index_meta.cc: writing
  it and reading it back. The reader does not parse JSON; it looks for the first occurrence of each
  quoted key and reads what follows the colon, with \<^verbatim>\<open>std::strtoull\<close> for the numbers. \<^verbatim>\<open>std::isspace\<close> is that of
  the C locale and \<^verbatim>\<open>unsigned long long\<close> has 64 bits. The error text is the left value of a sum.
\<close>

section \<open>The record and its text\<close>

datatype IndexKind = KV | Inverted

record IndexMeta =
  im_kind :: IndexKind
  index_hdr_off :: u64
  docs_hdr_off :: u64
  posting_hdr_off :: u64
  record_count :: u64
  arena_bytes :: u64

primrec IndexKindName :: "IndexKind \<Rightarrow> string" where
  "IndexKindName KV = ''kv''"
| "IndexKindName Inverted = ''inverted''"

definition meta_line :: "string \<Rightarrow> string \<Rightarrow> string" where
  "meta_line k v = ''  '' @ quoted k @ '': '' @ v"

definition meta_number :: "string \<Rightarrow> u64 \<Rightarrow> string" where
  "meta_number k v = meta_line k (print_nat (unat v))"

definition SerializeIndexMeta :: "IndexMeta \<Rightarrow> string" where
  "SerializeIndexMeta m =
     ''{'' @ [newline]
     @ meta_line ''kind'' (quoted (IndexKindName (im_kind m))) @ '','' @ [newline]
     @ meta_number ''index_hdr_off'' (index_hdr_off m) @ '','' @ [newline]
     @ meta_number ''docs_hdr_off'' (docs_hdr_off m) @ '','' @ [newline]
     @ meta_number ''posting_hdr_off'' (posting_hdr_off m) @ '','' @ [newline]
     @ meta_number ''record_count'' (record_count m) @ '','' @ [newline]
     @ meta_number ''arena_bytes'' (arena_bytes m) @ [newline]
     @ ''}'' @ [newline]"

section \<open>Reading\<close>

definition isspace :: "char \<Rightarrow> bool" where
  "isspace c \<longleftrightarrow> c = CHR 0x20 \<or> (9 \<le> (of_char c :: nat) \<and> (of_char c :: nat) \<le> 13)"

fun strip :: "string \<Rightarrow> string \<Rightarrow> string option" where
  "strip [] s = Some s"
| "strip (n # ns) [] = None"
| "strip (n # ns) (c # cs) = (if n = c then strip ns cs else None)"

text \<open>What follows the first occurrence of a text.\<close>

fun find_after :: "string \<Rightarrow> string \<Rightarrow> string option" where
  "find_after needle [] = strip needle []"
| "find_after needle (c # cs) =
     (case strip needle (c # cs) of Some r \<Rightarrow> Some r | None \<Rightarrow> find_after needle cs)"

definition after_key :: "string \<Rightarrow> string \<Rightarrow> string option" where
  "after_key k json =
     (case find_after (quoted k) json of
        None \<Rightarrow> None
      | Some r \<Rightarrow>
          (case dropWhile isspace r of
             [] \<Rightarrow> None
           | c # cs \<Rightarrow> if c \<noteq> CHR '':'' then None else Some (dropWhile isspace cs)))"

definition ParseKind :: "string \<Rightarrow> IndexKind option" where
  "ParseKind json =
     (case after_key ''kind'' json of
        None \<Rightarrow> None
      | Some r \<Rightarrow>
          (case r of
             [] \<Rightarrow> None
           | c # cs \<Rightarrow>
               if c \<noteq> quot \<or> quot \<notin> set cs then None
               else let val = takeWhile (\<lambda>d. d \<noteq> quot) cs in
                 if val = ''kv'' then Some KV
                 else if val = ''inverted'' then Some Inverted
                 else None))"

fun decimal :: "string \<Rightarrow> nat \<Rightarrow> nat" where
  "decimal [] acc = acc"
| "decimal (c # cs) acc = decimal cs (acc * 10 + (of_char c - 48))"

text \<open>\<open>None\<close> when no digit is found; a value out of range gives the largest number, and a minus sign
  negates the unsigned value.\<close>

definition strtoull :: "string \<Rightarrow> u64 option" where
  "strtoull s =
     (let s1 = dropWhile isspace s;
          neg = (s1 \<noteq> [] \<and> hd s1 = CHR ''-'');
          s2 = (if s1 \<noteq> [] \<and> (hd s1 = CHR ''-'' \<or> hd s1 = CHR ''+'') then tl s1 else s1);
          ds = takeWhile isdigit s2;
          v = decimal ds 0
      in if ds = [] then None
         else if 2 ^ 64 \<le> v then Some (- 1)
         else if neg then Some (- word_of_nat v)
         else Some (word_of_nat v))"

definition ParseU64Field :: "string \<Rightarrow> string \<Rightarrow> u64 option" where
  "ParseU64Field json field = Option.bind (after_key field json) strtoull"

definition LoadIndexMeta :: "string \<Rightarrow> string + IndexMeta" where
  "LoadIndexMeta json =
     (case ParseKind json of
        None \<Rightarrow> Inl (''LoadIndexMeta: missing or invalid '' @ quoted ''kind'')
      | Some kind \<Rightarrow>
     (case ParseU64Field json ''index_hdr_off'' of
        None \<Rightarrow> Inl ''LoadIndexMeta: missing index_hdr_off''
      | Some ih \<Rightarrow>
     (case ParseU64Field json ''docs_hdr_off'' of
        None \<Rightarrow> Inl ''LoadIndexMeta: missing docs_hdr_off''
      | Some dh \<Rightarrow>
     (case ParseU64Field json ''posting_hdr_off'' of
        None \<Rightarrow> Inl ''LoadIndexMeta: missing posting_hdr_off''
      | Some ph \<Rightarrow>
          Inr \<lparr>im_kind = kind, index_hdr_off = ih, docs_hdr_off = dh, posting_hdr_off = ph,
               record_count = (case ParseU64Field json ''record_count'' of Some v \<Rightarrow> v | None \<Rightarrow> 0),
               arena_bytes = (case ParseU64Field json ''arena_bytes'' of Some v \<Rightarrow> v | None \<Rightarrow> 0)\<rparr>))))"

section \<open>Finding the keys\<close>

text \<open>Keys are non-empty, without quotes, and do not start with a colon.\<close>

definition is_key :: "string \<Rightarrow> bool" where
  "is_key k \<longleftrightarrow> quot \<notin> set k \<and> k \<noteq> [] \<and> hd k \<noteq> CHR '':'' \<and> hd k \<noteq> CHR '',''"

lemma strip_append: "strip n (n @ r) = Some r"
  by (induction n) auto

lemma strip_other_key: "quot \<notin> set k \<Longrightarrow> quot \<notin> set k' \<Longrightarrow> k \<noteq> k' \<Longrightarrow> strip (k @ [quot]) (k' @ quot # r) = None"
proof (induction k arbitrary: k')
  case Nil
  then show ?case by (cases k') auto
next
  case (Cons c k)
  then show ?case by (cases k') auto
qed

lemma find_skip: "quot \<notin> set xs \<Longrightarrow> find_after (quoted k) (xs @ r) = find_after (quoted k) r"
  by (induction xs) (auto simp: quoted_def)

lemma find_here: "find_after (quoted k) (quoted k @ r) = Some r"
  using strip_append [of "quoted k" r] by (cases "quoted k @ r") auto

lemma find_other_key:
  assumes "is_key k" "is_key k'" "k \<noteq> k'" "hd r = CHR '':'' \<or> hd r = CHR '',''" "r \<noteq> []"
  shows "find_after (quoted k) (quoted k' @ r) = find_after (quoted k) r"
proof -
  have k: "quot \<notin> set k" "k \<noteq> []" "hd k \<noteq> CHR '':''" "hd k \<noteq> CHR '',''" "quot \<notin> set k'" using assms(1,2) by (simp_all add: is_key_def)
  have "find_after (quoted k) (quoted k' @ r) = find_after (quoted k) (k' @ quot # r)"
    using strip_other_key [of k k' r] k(1,5) assms(3) by (simp add: quoted_def)
  also have "\<dots> = find_after (quoted k) (quot # r)" by (rule find_skip [OF k(5)])
  also have "\<dots> = find_after (quoted k) r"
    using k(2-4) assms(4,5) by (cases k; cases r) (auto simp: quoted_def)
  finally show ?thesis .
qed

lemma find_number:
  assumes "is_key k" "is_key k'" "quot \<notin> set xs"
  shows "find_after (quoted k) (meta_number k' v @ xs @ r) =
    (if k = k' then Some ('': '' @ print_nat (unat v) @ xs @ r) else find_after (quoted k) r)"
proof -
  have digits: "quot \<notin> set ('': '' @ print_nat (unat v) @ xs)"
    using assms(3) print_nat_digits [of quot "unat v"] by (auto simp: isdigit_def)
  have "find_after (quoted k) (meta_number k' v @ xs @ r) = find_after (quoted k) (quoted k' @ '': '' @ print_nat (unat v) @ xs @ r)"
    using find_skip [of "''  ''" k] by (simp add: meta_number_def meta_line_def)
  then show ?thesis
    using find_here [of k] find_other_key [OF assms(1,2), of "'': '' @ print_nat (unat v) @ xs @ r"] find_skip [OF digits, of k r] by auto
qed

lemma find_kind:
  assumes "is_key k" "is_key (IndexKindName i)" "k \<noteq> IndexKindName i" "quot \<notin> set xs" "xs \<noteq> []" "hd xs = CHR '',''"
  shows "find_after (quoted k) (meta_line ''kind'' (quoted (IndexKindName i)) @ xs @ r) =
    (if k = ''kind'' then Some ('': '' @ quoted (IndexKindName i) @ xs @ r) else find_after (quoted k) r)"
proof -
  have kind: "is_key ''kind''" by (simp add: is_key_def)
  have "find_after (quoted k) (meta_line ''kind'' (quoted (IndexKindName i)) @ xs @ r) =
      find_after (quoted k) (quoted ''kind'' @ '': '' @ quoted (IndexKindName i) @ xs @ r)"
    using find_skip [of "''  ''" k] by (simp add: meta_line_def)
  moreover have "find_after (quoted k) ('': '' @ quoted (IndexKindName i) @ xs @ r) = find_after (quoted k) r"
    using find_skip [of "'': ''" k] find_other_key [OF assms(1-3), of "xs @ r"] find_skip [OF assms(4), of k r] assms(5,6) by simp
  ultimately show ?thesis
    using find_here [of k] find_other_key [OF assms(1) kind, of "'': '' @ quoted (IndexKindName i) @ xs @ r"] by auto
qed

section \<open>Reading the values back\<close>

lemma decimal_append: "decimal (xs @ [c]) acc = decimal xs acc * 10 + (of_char c - 48)"
  by (induction xs arbitrary: acc) auto

lemma decimal_print_nat: "decimal (print_nat n) 0 = n"
proof (induction n rule: print_nat.induct)
  case (1 n)
  show ?case
  proof (cases "n < 10")
    case True
    then show ?thesis using digit_char(3) [OF True] by (simp add: print_nat.simps [of n])
  next
    case False
    have "of_char (char_of (48 + n mod 10) :: char) - 48 = n mod 10" using digit_char(3) [of "n mod 10"] by simp
    then show ?thesis using 1 [OF False] False by (simp add: print_nat.simps [of n] decimal_append)
  qed
qed

lemma takeWhile_print_nat: "no_digit r \<Longrightarrow> takeWhile isdigit (print_nat n @ r) = print_nat n"
proof -
  assume r: "no_digit r"
  have "takeWhile isdigit (print_nat n @ r) = print_nat n @ takeWhile isdigit r"
    by (rule takeWhile_append2) (rule print_nat_digits)
  then show ?thesis using r by (cases r) (auto simp: no_digit_def)
qed

lemma digit_no_space: "isdigit d \<Longrightarrow> \<not> isspace d \<and> d \<noteq> CHR ''-'' \<and> d \<noteq> CHR ''+''"
  by (auto simp: isdigit_def isspace_def)

lemma strtoull_print:
  assumes "no_digit r"
  shows "strtoull (dropWhile isspace ('' '' @ print_nat (unat (v :: u64)) @ r)) = Some v"
proof -
  obtain d cs where d: "print_nat (unat v) = d # cs" "isdigit d" using print_nat_front by blast
  note n = digit_no_space [OF d(2)]
  have space: "isspace (CHR '' '')" by (simp add: isspace_def)
  have "unat v < 2 ^ 64" using unsigned_less [of v, where ?'a = nat] by simp
  moreover have "takeWhile isdigit (d # cs @ r) = d # cs" "decimal (d # cs) 0 = unat v"
    using takeWhile_print_nat [OF assms, of "unat v"] decimal_print_nat [of "unat v"] d(1) by simp_all
  moreover have "dropWhile isspace ('' '' @ print_nat (unat v) @ r) = d # cs @ r" using n d(1) space by simp
  ultimately show ?thesis using n unfolding strtoull_def Let_def by simp
qed

lemma after_key_found: "find_after (quoted k) json = Some ('': '' @ v) \<Longrightarrow> after_key k json = Some (dropWhile isspace ('' '' @ v))"
  by (simp add: after_key_def isspace_def)

lemma parse_number:
  assumes "find_after (quoted k) json = Some ('': '' @ print_nat (unat v) @ r)" "no_digit r"
  shows "ParseU64Field json k = Some v"
  using after_key_found [OF assms(1)] strtoull_print [OF assms(2), of v] by (simp add: ParseU64Field_def)

lemma parse_kind:
  assumes "find_after (quoted ''kind'') json = Some ('': '' @ quoted (IndexKindName i) @ r)"
  shows "ParseKind json = Some i"
  using after_key_found [OF assms] by (cases i) (simp_all add: ParseKind_def quoted_def isspace_def)

lemma meta_keys [simp]:
  "is_key ''kind''" "is_key ''index_hdr_off''" "is_key ''docs_hdr_off''" "is_key ''posting_hdr_off''"
  "is_key ''record_count''" "is_key ''arena_bytes''"
  by (simp_all add: is_key_def)

lemma kind_key [simp]: "is_key (IndexKindName i)"
  by (cases i) (simp_all add: is_key_def)

lemma meta_kind_neq [simp]:
  "''kind'' \<noteq> IndexKindName i" "''index_hdr_off'' \<noteq> IndexKindName i" "''docs_hdr_off'' \<noteq> IndexKindName i"
  "''posting_hdr_off'' \<noteq> IndexKindName i" "''record_count'' \<noteq> IndexKindName i" "''arena_bytes'' \<noteq> IndexKindName i"
  by (cases i, simp_all)+

lemma LoadIndexMeta_SerializeIndexMeta: "LoadIndexMeta (SerializeIndexMeta m) = Inr m"
proof -
  have line: "find_after (quoted k) (meta_number k' v @ CHR '','' # newline # r) =
      (if k = k' then Some ('': '' @ print_nat (unat v) @ CHR '','' # newline # r) else find_after (quoted k) r)"
    if "is_key k" "is_key k'" for k k' v r
    using find_number [OF that, of "[CHR '','', newline]" v r] by simp
  have last: "find_after (quoted k) (meta_number k v @ newline # CHR ''}'' # r) = Some ('': '' @ print_nat (unat v) @ newline # CHR ''}'' # r)"
    if "is_key k" for k v r
    using find_number [OF that that, of "[newline, CHR ''}'']" v r] by simp
  have kind: "find_after (quoted k) (meta_line ''kind'' (quoted (IndexKindName i)) @ CHR '','' # newline # r) =
      (if k = ''kind'' then Some ('': '' @ quoted (IndexKindName i) @ CHR '','' # newline # r) else find_after (quoted k) r)"
    if "is_key k" "k \<noteq> IndexKindName i" for k i r
    using find_kind [OF that(1) _ that(2), of "[CHR '','', newline]" r] by simp
  have open_brace: "find_after (quoted k) (CHR ''{'' # newline # r) = find_after (quoted k) r" for k r
    using find_skip [of "[CHR ''{'', newline]" k r] by simp
  note find = line last kind open_brace
  have "ParseKind (SerializeIndexMeta m) = Some (im_kind m)"
    by (rule parse_kind) (simp add: SerializeIndexMeta_def find del: find_after.simps)
  moreover have "ParseU64Field (SerializeIndexMeta m) ''index_hdr_off'' = Some (index_hdr_off m)"
    by (rule parse_number) (simp add: SerializeIndexMeta_def find del: find_after.simps, simp)
  moreover have "ParseU64Field (SerializeIndexMeta m) ''docs_hdr_off'' = Some (docs_hdr_off m)"
    by (rule parse_number) (simp add: SerializeIndexMeta_def find del: find_after.simps, simp)
  moreover have "ParseU64Field (SerializeIndexMeta m) ''posting_hdr_off'' = Some (posting_hdr_off m)"
    by (rule parse_number) (simp add: SerializeIndexMeta_def find del: find_after.simps, simp)
  moreover have "ParseU64Field (SerializeIndexMeta m) ''record_count'' = Some (record_count m)"
    by (rule parse_number) (simp add: SerializeIndexMeta_def find del: find_after.simps, simp)
  moreover have "ParseU64Field (SerializeIndexMeta m) ''arena_bytes'' = Some (arena_bytes m)"
    by (rule parse_number) (simp add: SerializeIndexMeta_def find del: find_after.simps, simp add: no_digit_def isdigit_def)
  ultimately show ?thesis by (simp add: LoadIndexMeta_def)
qed

section \<open>Properties\<close>

text \<open>
  (C25) Round trip of the index metadata. Reading what was written gives back the kind, the three
  offsets and the two counters, for every value of the 64-bit fields.
\<close>

theorem index_meta_roundtrip: "LoadIndexMeta (SerializeIndexMeta m) = Inr m"
  by (rule LoadIndexMeta_SerializeIndexMeta)

end
