(* ===== verification/Catalog.thy ===== *)
theory Catalog
  imports IndexMeta
begin

text \<open>
  The catalogue of indexes, src/libs/yikv/db/db.cc, with file_io.cc and arena_lock.cc: every index has a
  directory with its schema, its metadata, its arena and a lock file; the catalogue creates, opens,
  closes and looks up indexes by name. Every operation runs under the mutex of the catalogue.

  The files the catalogue itself reads and writes are a map from paths to contents, \<open>cat_locks\<close> are the lock
  files that are locked, by this process or another, and \<open>cat_disk\<close> is what the arenas keep on disk. The answers
  of the operating system are the parameter \<open>os\<close>; opening an arena, constructing and destroying an index over
  it are the parameter \<open>be\<close>, since the catalogue only passes on what they throw. A destructor runs where the
  sources leave the scope of the slot, also for an exception. Paths have no links, and messages end where
  the sources append the text of a system error.
\<close>

section \<open>Files\<close>

datatype db_error = DbLogicError string | DbInvalidArgument string | DbRuntimeError string | DbSystemError string | DbOutOfRange

text \<open>What becomes of a file that is written: the stream keeps small texts until it is closed, and what goes wrong
  in its destructor is not reported, so the renamed file can be a part of the text (\<open>Truncated\<close>).\<close>

datatype write_answer = Written | OpenFails | WriteFails string | Truncated string | RenameFails

record cat_os =
  os_create_directories :: "string \<Rightarrow> bool"
  os_create_directory :: "string \<Rightarrow> bool"
  os_write :: "string \<Rightarrow> write_answer"
  os_open_lock :: "string \<Rightarrow> bool"

record ('d, 'i) backend =
  be_make :: "IndexKind \<Rightarrow> string \<Rightarrow> nat \<Rightarrow> Schema \<Rightarrow> u64 \<times> u64 \<times> u64 \<Rightarrow> nat \<Rightarrow> 'd \<Rightarrow> (string + 'i) \<times> 'd"
  be_close :: "'i \<Rightarrow> 'd \<Rightarrow> 'd"
  be_offsets :: "'i \<Rightarrow> u64 \<times> u64 \<times> u64"
  be_count :: "'i \<Rightarrow> nat"
  be_reserved :: "string \<Rightarrow> 'd \<Rightarrow> nat option"
  be_sizes :: "string \<Rightarrow> 'd \<Rightarrow> nat option \<times> nat list"

record 'i index_slot =
  sl_kind :: IndexKind
  sl_name :: string
  sl_schema :: Schema
  sl_index :: 'i
  sl_lock :: "string option"

record ('d, 'i) catalog =
  cat_path :: string
  cat_exclusive :: bool
  cat_max_arena :: nat
  cat_files :: "string \<rightharpoonup> string"
  cat_dirs :: "string set"
  cat_locks :: "string set"
  cat_disk :: 'd
  cat_indexes :: "(string \<times> 'i index_slot) list"

type_synonym ('d, 'i, 'a) cat_act = "('d, 'i) catalog \<Rightarrow> (db_error + 'a) \<times> ('d, 'i) catalog"

definition cat_ret :: "'a \<Rightarrow> ('d, 'i, 'a) cat_act" where
  "cat_ret x s = (Inr x, s)"

definition cat_throw :: "db_error \<Rightarrow> ('d, 'i, 'a) cat_act" where
  "cat_throw e s = (Inl e, s)"

definition cat_then :: "('d, 'i, 'a) cat_act \<Rightarrow> ('a \<Rightarrow> ('d, 'i, 'b) cat_act) \<Rightarrow> ('d, 'i, 'b) cat_act" where
  "cat_then m f s = (case m s of (Inl e, s') \<Rightarrow> (Inl e, s') | (Inr x, s') \<Rightarrow> f x s')"

definition cat_gets :: "(('d, 'i) catalog \<Rightarrow> 'a) \<Rightarrow> ('d, 'i, 'a) cat_act" where
  "cat_gets f s = (Inr (f s), s)"

text \<open>What the destructor of a value does when the rest throws.\<close>

definition on_throw :: "(('d, 'i) catalog \<Rightarrow> ('d, 'i) catalog) \<Rightarrow> ('d, 'i, 'a) cat_act \<Rightarrow> ('d, 'i, 'a) cat_act" where
  "on_throw undo m s = (case m s of (Inl e, s') \<Rightarrow> (Inl e, undo s') | r \<Rightarrow> r)"

definition ReadWholeFile :: "string \<Rightarrow> ('d, 'i, string) cat_act" where
  "ReadWholeFile path s =
     (case cat_files s path of
        None \<Rightarrow> (Inl (DbSystemError (''ReadWholeFile: open '' @ path)), s)
      | Some data \<Rightarrow> (Inr data, s))"

definition AtomicWriteFile :: "cat_os \<Rightarrow> string \<Rightarrow> string \<Rightarrow> ('d, 'i, unit) cat_act" where
  "AtomicWriteFile os path data s =
     (let tmp = path @ ''.tmp'' in
      case os_write os path of
        OpenFails \<Rightarrow> (Inl (DbSystemError (''AtomicWriteFile: open '' @ tmp)), s)
      | WriteFails part \<Rightarrow> (Inl (DbRuntimeError (''AtomicWriteFile: write '' @ tmp)), s\<lparr>cat_files := (cat_files s)(tmp \<mapsto> part)\<rparr>)
      | RenameFails \<Rightarrow> (Inl (DbSystemError (''AtomicWriteFile: rename to '' @ path)), s\<lparr>cat_files := (cat_files s)(tmp \<mapsto> data)\<rparr>)
      | Truncated part \<Rightarrow> (Inr (), s\<lparr>cat_files := (cat_files s)(path \<mapsto> part, tmp := None)\<rparr>)
      | Written \<Rightarrow> (Inr (), s\<lparr>cat_files := (cat_files s)(path \<mapsto> data, tmp := None)\<rparr>))"

definition ArenaExclusiveLock :: "cat_os \<Rightarrow> string \<Rightarrow> ('d, 'i, unit) cat_act" where
  "ArenaExclusiveLock os lock_path s =
     (if \<not> os_open_lock os lock_path then (Inl (DbSystemError (''ArenaExclusiveLock: open '' @ lock_path)), s)
      else
        let s1 = (if cat_files s lock_path = None then s\<lparr>cat_files := (cat_files s)(lock_path \<mapsto> '''')\<rparr> else s)
        in if lock_path \<in> cat_locks s then (Inl (DbRuntimeError (''ArenaExclusiveLock: flock failed on '' @ lock_path)), s1)
           else (Inr (), s1\<lparr>cat_locks := insert lock_path (cat_locks s)\<rparr>))"

definition release_lock :: "string option \<Rightarrow> ('d, 'i) catalog \<Rightarrow> ('d, 'i) catalog" where
  "release_lock l s = (case l of None \<Rightarrow> s | Some p \<Rightarrow> s\<lparr>cat_locks := cat_locks s - {p}\<rparr>)"

section \<open>Names and paths\<close>

definition ValidateIndexName :: "string \<Rightarrow> ('d, 'i, unit) cat_act" where
  "ValidateIndexName name =
     (if name = [] then cat_throw (DbInvalidArgument ''DB: index name is empty'')
      else if CHR ''/'' \<in> set name \<or> CHR 0x5C \<in> set name
      then cat_throw (DbInvalidArgument ''DB: index name must not contain path separators'')
      else cat_ret ())"

definition JoinIndexDir :: "string \<Rightarrow> string \<Rightarrow> string" where
  "JoinIndexDir db_path name = db_path @ ''/'' @ name"

definition SchemaPath :: "string \<Rightarrow> string \<Rightarrow> string" where
  "SchemaPath db_path name = JoinIndexDir db_path name @ ''/schema.json''"

definition MetaPath :: "string \<Rightarrow> string \<Rightarrow> string" where
  "MetaPath db_path name = JoinIndexDir db_path name @ ''/index.meta.json''"

definition ArenaPath :: "string \<Rightarrow> string \<Rightarrow> string" where
  "ArenaPath db_path name = JoinIndexDir db_path name @ ''/arena''"

definition ArenaLockPath :: "string \<Rightarrow> string \<Rightarrow> string" where
  "ArenaLockPath db_path name = JoinIndexDir db_path name @ ''/arena.lock''"

definition SumArenaDiskBytes :: "nat option \<times> nat list \<Rightarrow> u64" where
  "SumArenaDiskBytes = (\<lambda>(base, segs). word_of_nat ((case base of None \<Rightarrow> 0 | Some n \<Rightarrow> n) + sum_list segs))"

section \<open>Operations\<close>

definition DB_Init :: "cat_os \<Rightarrow> string \<Rightarrow> bool \<Rightarrow> nat \<Rightarrow> ('d, 'i) catalog \<Rightarrow> ('d, 'i) catalog option \<Rightarrow> db_error + ('d, 'i) catalog" where
  "DB_Init os path exclusive max_arena world g_db =
     (if g_db \<noteq> None then Inl (DbLogicError ''DB::Init: already initialized'')
      else if path = [] then Inl (DbInvalidArgument ''DB::Init: db_path is empty'')
      else if \<not> os_create_directories os path then Inl (DbRuntimeError (''DB::Init: create_directories '' @ path))
      else Inr (world\<lparr>cat_path := path, cat_exclusive := exclusive, cat_max_arena := max_arena, cat_indexes := [],
                      cat_dirs := insert path (cat_dirs world)\<rparr>))"

definition DB_Instance :: "('d, 'i) catalog option \<Rightarrow> db_error + ('d, 'i) catalog" where
  "DB_Instance g_db = (case g_db of None \<Rightarrow> Inl (DbLogicError ''DB::Instance: DB::Init not called'') | Some s \<Rightarrow> Inr s)"

definition slot_meta :: "('d, 'i) backend \<Rightarrow> IndexKind \<Rightarrow> 'i \<Rightarrow> nat \<Rightarrow> u64 \<Rightarrow> IndexMeta" where
  "slot_meta be kind i count bytes =
     (case be_offsets be i of (hdr, docs, posting) \<Rightarrow>
        \<lparr>im_kind = kind, index_hdr_off = hdr, docs_hdr_off = docs, posting_hdr_off = (if kind = KV then 0 else posting),
         record_count = word_of_nat count, arena_bytes = bytes\<rparr>)"

definition take_lock :: "cat_os \<Rightarrow> string \<Rightarrow> ('d, 'i, string option) cat_act" where
  "take_lock os name = (\<lambda>s.
     if cat_exclusive s
     then cat_then (ArenaExclusiveLock os (ArenaLockPath (cat_path s) name)) (\<lambda>_. cat_ret (Some (ArenaLockPath (cat_path s) name))) s
     else (Inr None, s))"

definition make_index :: "('d, 'i) backend \<Rightarrow> IndexKind \<Rightarrow> string \<Rightarrow> nat \<Rightarrow> Schema \<Rightarrow> u64 \<times> u64 \<times> u64 \<Rightarrow> nat \<Rightarrow> ('d, 'i, 'i) cat_act" where
  "make_index be kind name max_arena sch offs bits s =
     (case be_make be kind (ArenaPath (cat_path s) name) max_arena sch offs bits (cat_disk s) of
        (Inl e, d) \<Rightarrow> (Inl (DbRuntimeError e), s\<lparr>cat_disk := d\<rparr>)
      | (Inr i, d) \<Rightarrow> (Inr i, s\<lparr>cat_disk := d\<rparr>))"

definition destroy_index :: "('d, 'i) backend \<Rightarrow> 'i \<Rightarrow> ('d, 'i) catalog \<Rightarrow> ('d, 'i) catalog" where
  "destroy_index be i s = s\<lparr>cat_disk := be_close be i (cat_disk s)\<rparr>"

definition make_directory :: "cat_os \<Rightarrow> string \<Rightarrow> string \<Rightarrow> ('d, 'i, unit) cat_act" where
  "make_directory os who dir s =
     (if dir \<in> cat_dirs s \<or> cat_files s dir \<noteq> None then (Inl (DbRuntimeError (who @ '': directory already exists: '' @ dir)), s)
      else if \<not> os_create_directory os dir then (Inl (DbRuntimeError (who @ '': create_directory '' @ dir)), s)
      else (Inr (), s\<lparr>cat_dirs := insert dir (cat_dirs s)\<rparr>))"

definition load_schema :: "string \<Rightarrow> string \<Rightarrow> ('d, 'i, Schema) cat_act" where
  "load_schema who json =
     (case LoadJson json new_Schema of
        (sch, None) \<Rightarrow> cat_ret sch
      | (sch, Some (Err e)) \<Rightarrow> cat_throw (DbRuntimeError (who @ e))
      | (sch, Some Overflow) \<Rightarrow> cat_throw DbOutOfRange)"

definition emplace :: "string \<Rightarrow> 'i index_slot \<Rightarrow> ('d, 'i, unit) cat_act" where
  "emplace n slot s = (Inr (), s\<lparr>cat_indexes := (n, slot) # cat_indexes s\<rparr>)"

definition create_index :: "cat_os \<Rightarrow> ('d, 'i) backend \<Rightarrow> string \<Rightarrow> IndexKind \<Rightarrow> nat \<Rightarrow> string \<Rightarrow> Schema \<Rightarrow> ('d, 'i, unit) cat_act" where
  "create_index os be who kind bits name schema =
     cat_then (ValidateIndexName name) (\<lambda>_.
     cat_then (cat_gets (\<lambda>s. (cat_path s, cat_max_arena s, map_of (cat_indexes s) name))) (\<lambda>(db, max_arena, old).
       if old \<noteq> None then cat_throw (DbRuntimeError (who @ '': index already open: '' @ name))
       else
         cat_then (make_directory os who (JoinIndexDir db name)) (\<lambda>_.
         cat_then (AtomicWriteFile os (SchemaPath db name) (ToJson schema)) (\<lambda>_.
         cat_then (load_schema (who @ '': schema copy: '') (ToJson schema)) (\<lambda>sch.
         cat_then (take_lock os name) (\<lambda>lock.
         on_throw (release_lock lock)
          (cat_then (make_index be kind name max_arena sch (0, 0, 0) bits) (\<lambda>i.
           on_throw (destroy_index be i)
            (cat_then (cat_gets (\<lambda>s. SumArenaDiskBytes (be_sizes be (ArenaPath db name) (cat_disk s)))) (\<lambda>bytes.
             cat_then (AtomicWriteFile os (MetaPath db name) (SerializeIndexMeta (slot_meta be kind i 0 bytes))) (\<lambda>_.
             emplace name \<lparr>sl_kind = kind, sl_name = name, sl_schema = sch, sl_index = i, sl_lock = lock\<rparr>)))))))))))"




definition arena_limit :: "('d, 'i) backend \<Rightarrow> string \<Rightarrow> ('d, 'i) catalog \<Rightarrow> nat" where
  "arena_limit be name s =
     (case be_reserved be (ArenaPath (cat_path s) name) (cat_disk s) of
        Some r \<Rightarrow> if cat_max_arena s < r then r else cat_max_arena s
      | None \<Rightarrow> cat_max_arena s)"

definition load_meta :: "string \<Rightarrow> ('d, 'i, IndexMeta) cat_act" where
  "load_meta json =
     (case LoadIndexMeta json of
        Inl e \<Rightarrow> cat_throw (DbRuntimeError (''DB::OpenIndex: meta: '' @ e))
      | Inr m \<Rightarrow> cat_ret m)"

definition meta_offsets :: "IndexMeta \<Rightarrow> u64 \<times> u64 \<times> u64" where
  "meta_offsets m = (index_hdr_off m, docs_hdr_off m, if im_kind m = KV then 0 else posting_hdr_off m)"

definition OpenIndex :: "cat_os \<Rightarrow> ('d, 'i) backend \<Rightarrow> string \<Rightarrow> ('d, 'i, unit) cat_act" where
  "OpenIndex os be name =
     cat_then (ValidateIndexName name) (\<lambda>_.
     cat_then (cat_gets (\<lambda>s. (cat_path s, cat_dirs s, map_of (cat_indexes s) name))) (\<lambda>(db, dirs, old).
       if old \<noteq> None then cat_ret ()
       else if JoinIndexDir db name \<notin> dirs then cat_throw (DbRuntimeError (''DB::OpenIndex: not a directory: '' @ JoinIndexDir db name))
       else
         cat_then (ReadWholeFile (SchemaPath db name)) (\<lambda>schema_text.
         cat_then (load_schema ''DB::OpenIndex: schema: '' schema_text) (\<lambda>sch.
         cat_then (ReadWholeFile (MetaPath db name)) (\<lambda>meta_text.
         cat_then (load_meta meta_text) (\<lambda>meta.
         cat_then (take_lock os name) (\<lambda>lock.
         on_throw (release_lock lock)
          (cat_then (cat_gets (arena_limit be name)) (\<lambda>limit.
           cat_then (make_index be (im_kind meta) name limit sch (meta_offsets meta) 15) (\<lambda>i.
           emplace name \<lparr>sl_kind = im_kind meta, sl_name = name, sl_schema = sch, sl_index = i, sl_lock = lock\<rparr>))))))))))"

definition destroy_slot :: "('d, 'i) backend \<Rightarrow> 'i index_slot \<Rightarrow> ('d, 'i) catalog \<Rightarrow> ('d, 'i) catalog" where
  "destroy_slot be slot s = release_lock (sl_lock slot) (destroy_index be (sl_index slot) s)"


definition GetKVIndex :: "string \<Rightarrow> ('d, 'i, 'i) cat_act" where
  "GetKVIndex name s =
     (case map_of (cat_indexes s) name of
        None \<Rightarrow> (Inl (DbRuntimeError ''DB::GetKVIndex: unknown index''), s)
      | Some slot \<Rightarrow> if sl_kind slot \<noteq> KV then (Inl (DbRuntimeError ''DB::GetKVIndex: index is not KV''), s) else (Inr (sl_index slot), s))"

definition GetInvertedIndex :: "string \<Rightarrow> ('d, 'i, 'i) cat_act" where
  "GetInvertedIndex name s =
     (case map_of (cat_indexes s) name of
        None \<Rightarrow> (Inl (DbRuntimeError ''DB::GetInvertedIndex: unknown index''), s)
      | Some slot \<Rightarrow> if sl_kind slot \<noteq> Inverted then (Inl (DbRuntimeError ''DB::GetInvertedIndex: index is not inverted''), s) else (Inr (sl_index slot), s))"

definition CloseAll :: "('d, 'i) backend \<Rightarrow> ('d, 'i) catalog \<Rightarrow> ('d, 'i) catalog" where
  "CloseAll be s = fold (destroy_slot be) (map snd (cat_indexes s)) (s\<lparr>cat_indexes := []\<rparr>)"

text \<open>The pointer that is left, and the world as the destroyed catalogue leaves it.\<close>

definition ResetForTest :: "('d, 'i) backend \<Rightarrow> ('d, 'i) catalog option \<Rightarrow> ('d, 'i) catalog option \<times> ('d, 'i) catalog option" where
  "ResetForTest be g_db = (None, map_option (CloseAll be) g_db)"


section \<open>Runs\<close>

lemma cat_then_ok: "cat_then m f s = (Inr y, s') \<longleftrightarrow> (\<exists>x s1. m s = (Inr x, s1) \<and> f x s1 = (Inr y, s'))"
  by (auto simp: cat_then_def split: prod.splits sum.splits)

lemma on_throw_ok: "on_throw u m s = (Inr y, s') \<longleftrightarrow> m s = (Inr y, s')"
  by (auto simp: on_throw_def split: prod.splits sum.splits)

lemma cat_ret_ok: "cat_ret x s = (Inr y, s') \<longleftrightarrow> y = x \<and> s' = s"
  by (auto simp: cat_ret_def)

lemma cat_throw_ok: "cat_throw e s \<noteq> (Inr y, s')"
  by (simp add: cat_throw_def)

lemma cat_gets_ok: "cat_gets f s = (Inr y, s') \<longleftrightarrow> y = f s \<and> s' = s"
  by (auto simp: cat_gets_def)

lemmas run_ok = cat_then_ok on_throw_ok cat_ret_ok cat_throw_ok cat_gets_ok

definition flushes :: "cat_os \<Rightarrow> bool" where
  "flushes os \<longleftrightarrow> (\<forall>p part. os_write os p \<noteq> Truncated part)"

lemma write_ok:
  assumes "flushes os"
  shows "AtomicWriteFile os path data s = (Inr y, s') \<longleftrightarrow>
     os_write os path = Written \<and> s' = s\<lparr>cat_files := (cat_files s)(path \<mapsto> data, path @ ''.tmp'' := None)\<rparr>"
  using assms by (auto simp: AtomicWriteFile_def Let_def flushes_def split: write_answer.splits)

lemma validate_ok: "ValidateIndexName name s = (Inr y, s') \<longleftrightarrow> s' = s \<and> name \<noteq> [] \<and> CHR ''/'' \<notin> set name \<and> CHR 0x5C \<notin> set name"
  by (auto simp: ValidateIndexName_def run_ok split: if_splits)

lemma load_schema_ok: "load_schema who json s = (Inr sch, s') \<longleftrightarrow> s' = s \<and> LoadJson json new_Schema = (sch, None)"
  by (auto simp: load_schema_def run_ok split: prod.splits option.splits json_fail.splits)

lemma take_lock_ok:
  assumes "take_lock os name s = (Inr l, s')"
  shows "\<exists>fs ls. s' = s\<lparr>cat_files := fs, cat_locks := ls\<rparr> \<and> (\<forall>p. p \<noteq> ArenaLockPath (cat_path s) name \<longrightarrow> fs p = cat_files s p)
    \<and> l = (if cat_exclusive s then Some (ArenaLockPath (cat_path s) name) else None)
    \<and> (if cat_exclusive s then ArenaLockPath (cat_path s) name \<notin> cat_locks s \<and> ls = insert (ArenaLockPath (cat_path s) name) (cat_locks s) else ls = cat_locks s)"
proof -
  have id: "s = s\<lparr>cat_files := cat_files s, cat_locks := cat_locks s\<rparr>" by simp
  show ?thesis
    using assms id
    by (auto simp: take_lock_def ArenaExclusiveLock_def run_ok Let_def split: if_splits intro!: exI)
qed

lemma paths_differ:
  "SchemaPath db n \<noteq> MetaPath db n" "SchemaPath db n \<noteq> MetaPath db n @ ''.tmp''" "SchemaPath db n \<noteq> ArenaLockPath db n"
  "MetaPath db n \<noteq> ArenaLockPath db n" "SchemaPath db n @ ''.tmp'' \<noteq> SchemaPath db n" "MetaPath db n @ ''.tmp'' \<noteq> MetaPath db n"
  by (simp_all add: SchemaPath_def MetaPath_def ArenaLockPath_def)

text \<open>An open index whose directory holds what opening needs.\<close>

definition stored :: "('d, 'i) backend \<Rightarrow> ('d, 'i) catalog \<Rightarrow> string \<Rightarrow> Schema \<Rightarrow> 'i index_slot \<Rightarrow> bool" where
  "stored be s name schema slot \<longleftrightarrow>
     map_of (cat_indexes s) name = Some slot \<and> JoinIndexDir (cat_path s) name \<in> cat_dirs s
     \<and> cat_files s (SchemaPath (cat_path s) name) = Some (ToJson schema)
     \<and> (\<exists>count bytes. cat_files s (MetaPath (cat_path s) name) = Some (SerializeIndexMeta (slot_meta be (sl_kind slot) (sl_index slot) count bytes)))
     \<and> sl_lock slot = (if cat_exclusive s then Some (ArenaLockPath (cat_path s) name) else None)
     \<and> name \<noteq> [] \<and> CHR ''/'' \<notin> set name \<and> CHR 0x5C \<notin> set name"

lemma create_stored:
  assumes "create_index os be who kind bits name schema s = (Inr (), s1)" "flushes os"
  shows "\<exists>slot. stored be s1 name schema slot \<and> sl_kind slot = kind
    \<and> be_make be kind (ArenaPath (cat_path s) name) (cat_max_arena s) (sl_schema slot) (0, 0, 0) bits (cat_disk s) = (Inr (sl_index slot), cat_disk s1)
    \<and> LoadJson (ToJson schema) new_Schema = (sl_schema slot, None) \<and> cat_path s1 = cat_path s"
proof -
  let ?db = "cat_path s"
  obtain sA sB sch lock sC i sD bytes sE where
      v: "name \<noteq> [] \<and> CHR ''/'' \<notin> set name \<and> CHR 0x5C \<notin> set name"
    and md: "make_directory os who (JoinIndexDir ?db name) s = (Inr (), sA)"
    and w: "AtomicWriteFile os (SchemaPath ?db name) (ToJson schema) sA = (Inr (), sB)"
    and ls: "LoadJson (ToJson schema) new_Schema = (sch, None)"
    and tl: "take_lock os name sB = (Inr lock, sC)"
    and mk: "make_index be kind name (cat_max_arena s) sch (0, 0, 0) bits sC = (Inr i, sD)"
    and w2: "AtomicWriteFile os (MetaPath ?db name) (SerializeIndexMeta (slot_meta be kind i 0 bytes)) sD = (Inr (), sE)"
    and e: "emplace name \<lparr>sl_kind = kind, sl_name = name, sl_schema = sch, sl_index = i, sl_lock = lock\<rparr> sE = (Inr (), s1)"
    using assms(1) unfolding create_index_def run_ok
    by (auto simp: run_ok load_schema_ok validate_ok split: if_splits)
  have sA: "sA = s\<lparr>cat_dirs := insert (JoinIndexDir ?db name) (cat_dirs s)\<rparr>" using md by (auto simp: make_directory_def split: if_splits)
  have sB: "sB = sA\<lparr>cat_files := (cat_files sA)(SchemaPath ?db name \<mapsto> ToJson schema, SchemaPath ?db name @ ''.tmp'' := None)\<rparr>"
    using w by (simp add: write_ok [OF assms(2)])
  have pB: "cat_path sB = ?db" "cat_exclusive sB = cat_exclusive s" by (simp_all add: sA sB)
  obtain fs ls where sC: "sC = sB\<lparr>cat_files := fs, cat_locks := ls\<rparr>" "\<forall>p. p \<noteq> ArenaLockPath ?db name \<longrightarrow> fs p = cat_files sB p"
      "lock = (if cat_exclusive s then Some (ArenaLockPath ?db name) else None)"
    using take_lock_ok [OF tl] unfolding pB by blast
  have sD: "sD = sC\<lparr>cat_disk := cat_disk sD\<rparr>" "be_make be kind (ArenaPath ?db name) (cat_max_arena s) sch (0, 0, 0) bits (cat_disk s) = (Inr i, cat_disk sD)"
    using mk by (auto simp: make_index_def sA sB sC(1) split: prod.splits sum.splits)
  have sE: "sE = sD\<lparr>cat_files := (cat_files sD)(MetaPath ?db name \<mapsto> SerializeIndexMeta (slot_meta be kind i 0 bytes), MetaPath ?db name @ ''.tmp'' := None)\<rparr>"
    using w2 by (simp add: write_ok [OF assms(2)])
  let ?slot = "\<lparr>sl_kind = kind, sl_name = name, sl_schema = sch, sl_index = i, sl_lock = lock\<rparr>"
  have s1: "s1 = sE\<lparr>cat_indexes := (name, ?slot) # cat_indexes sE\<rparr>" using e by (simp add: emplace_def)
  have files: "cat_files sD = fs" by (subst sD(1)) (simp add: sC)
  have f: "cat_files s1 (SchemaPath ?db name) = Some (ToJson schema)"
      "cat_files s1 (MetaPath ?db name) = Some (SerializeIndexMeta (slot_meta be kind i 0 bytes))"
    using sC(2) paths_differ [of ?db name] by (simp_all add: s1 sE files sB)
  have o: "cat_path s1 = ?db" "cat_exclusive s1 = cat_exclusive s" "cat_dirs s1 = insert (JoinIndexDir ?db name) (cat_dirs s)" "cat_disk s1 = cat_disk sD"
    by (simp_all add: s1 sE) (subst sD(1), simp add: sC sB sA)+
  have mi: "map_of (cat_indexes s1) name = Some ?slot" by (simp add: s1)
  have "stored be s1 name schema ?slot"
    unfolding stored_def o using f v sC(3) mi by auto
  then show ?thesis using sD(2) o ls by (intro exI [of _ ?slot]) simp
qed









section \<open>Failures\<close>

text \<open>A run whose failures leave a condition on the state.\<close>

definition keep :: "(('d, 'i) catalog \<Rightarrow> bool) \<Rightarrow> (db_error + 'a) \<times> ('d, 'i) catalog \<Rightarrow> ('a \<Rightarrow> ('d, 'i) catalog \<Rightarrow> bool) \<Rightarrow> bool" where
  "keep K out Q \<longleftrightarrow> (case out of (Inl e, s') \<Rightarrow> K s' | (Inr x, s') \<Rightarrow> Q x s')"

lemma keep_then: "keep K (m s) P \<Longrightarrow> (\<And>x s'. P x s' \<Longrightarrow> keep K (f x s') Q) \<Longrightarrow> keep K (cat_then m f s) Q"
  by (fastforce simp: keep_def cat_then_def split: prod.splits sum.splits)

lemma keep_on_throw: "keep K (m s) Q \<Longrightarrow> (\<And>s'. K s' \<Longrightarrow> K (undo s')) \<Longrightarrow> keep K (on_throw undo m s) Q"
  by (auto simp: keep_def on_throw_def split: prod.splits sum.splits)

definition half_made :: "string \<Rightarrow> string \<Rightarrow> ('d, 'i) catalog \<Rightarrow> bool" where
  "half_made db name s \<longleftrightarrow> cat_path s = db \<and> JoinIndexDir db name \<in> cat_dirs s \<and> cat_files s (MetaPath db name) = None
     \<and> map_of (cat_indexes s) name = None"

lemma half_made_undo:
  "half_made db name s \<Longrightarrow> half_made db name (release_lock l s)" "half_made db name s \<Longrightarrow> half_made db name (destroy_index be i s)"
  by (auto simp: half_made_def release_lock_def destroy_index_def split: option.splits)

lemma write_keeps:
  assumes "half_made db name s" "path \<noteq> MetaPath db name" "path @ ''.tmp'' \<noteq> MetaPath db name"
  shows "keep (half_made db name) (AtomicWriteFile os path data s) (\<lambda>_. half_made db name)"
  using assms by (auto simp: keep_def AtomicWriteFile_def Let_def half_made_def split: write_answer.splits)

lemma meta_write_keeps:
  "half_made db name s \<Longrightarrow> keep (half_made db name) (AtomicWriteFile os (MetaPath db name) data s) (\<lambda>_ _. True)"
  by (auto simp: keep_def AtomicWriteFile_def Let_def half_made_def split: write_answer.splits)

lemma take_lock_keeps:
  assumes "half_made db name s"
  shows "keep (half_made db name) (take_lock os name s) (\<lambda>_. half_made db name)"
  using assms paths_differ(4) [of db name]
  by (auto simp: keep_def take_lock_def ArenaExclusiveLock_def cat_then_def cat_ret_def Let_def half_made_def)

lemma make_index_keeps:
  "half_made db name s \<Longrightarrow> keep (half_made db name) (make_index be kind name lim sch offs bits s) (\<lambda>_. half_made db name)"
  by (auto simp: keep_def make_index_def half_made_def split: prod.splits sum.splits)

lemma load_schema_keeps: "half_made db name s \<Longrightarrow> keep (half_made db name) (load_schema who json s) (\<lambda>_. half_made db name)"
  by (auto simp: keep_def load_schema_def cat_ret_def cat_throw_def split: prod.splits option.splits json_fail.splits)

lemma create_failed:
  assumes "create_index os be who kind bits name schema s = (Inl e, s1)" "name \<noteq> []" "CHR ''/'' \<notin> set name" "CHR 0x5C \<notin> set name"
    and "map_of (cat_indexes s) name = None" "JoinIndexDir (cat_path s) name \<notin> cat_dirs s" "cat_files s (JoinIndexDir (cat_path s) name) = None"
    and "os_create_directory os (JoinIndexDir (cat_path s) name)" "cat_files s (MetaPath (cat_path s) name) = None"
  shows "half_made (cat_path s) name s1"
proof -
  let ?db = "cat_path s" and ?K = "half_made (cat_path s) name"
  have differ: "SchemaPath ?db name \<noteq> MetaPath ?db name" "SchemaPath ?db name @ ''.tmp'' \<noteq> MetaPath ?db name"
    by (simp_all add: SchemaPath_def MetaPath_def)
  have v: "ValidateIndexName name s = (Inr (), s)" using assms(2-4) by (simp add: ValidateIndexName_def cat_ret_def)
  have dir: "make_directory os who (JoinIndexDir ?db name) s = (Inr (), s\<lparr>cat_dirs := insert (JoinIndexDir ?db name) (cat_dirs s)\<rparr>)"
    using assms(6-8) by (simp add: make_directory_def)
  have "keep ?K (create_index os be who kind bits name schema s) (\<lambda>_ _. True)"
    unfolding create_index_def
    apply (rule keep_then [where P = "\<lambda>_ s'. s' = s"], simp add: v keep_def)
    apply (rule keep_then [where P = "\<lambda>x s'. s' = s \<and> x = (?db, cat_max_arena s, None)"], simp add: cat_gets_def keep_def assms(5))
    apply (elim conjE, hypsubst, unfold prod.case, simp only: simp_thms if_False)
    apply (rule keep_then [where P = "\<lambda>_. ?K"], simp add: dir keep_def half_made_def assms(5,9))
    apply (rule keep_then, rule write_keeps, assumption, rule differ, rule differ)
    apply (rule keep_then, rule load_schema_keeps, assumption)
    apply (rule keep_then, rule take_lock_keeps, assumption)
    apply (rule keep_on_throw)
     prefer 2 apply (erule half_made_undo)
    apply (rule keep_then, rule make_index_keeps, assumption)
    apply (rule keep_on_throw)
     prefer 2 apply (erule half_made_undo)
    apply (rule keep_then [where P = "\<lambda>_. ?K"], simp add: cat_gets_def keep_def)
    apply (rule keep_then, rule meta_write_keeps, assumption)
    apply (simp add: emplace_def keep_def)
    done
  then show ?thesis using assms(1) by (simp add: keep_def)
qed


section \<open>Properties\<close>



definition calm :: cat_os where
  "calm = \<lparr>os_create_directories = (\<lambda>_. True), os_create_directory = (\<lambda>_. True), os_write = (\<lambda>_. Written), os_open_lock = (\<lambda>_. True)\<rparr>"

definition tiny_backend :: "(nat, nat) backend" where
  "tiny_backend = \<lparr>be_make = (\<lambda>kind path lim sch offs bits d. if offs = (0, 0, 0) then (Inr 5, 5) else (Inr d, d)), be_close = (\<lambda>i d. d),
     be_offsets = (\<lambda>i. (64, 128, 0)), be_count = (\<lambda>i. 0), be_reserved = (\<lambda>p d. None), be_sizes = (\<lambda>p d. (Some 4096, []))\<rparr>"

definition empty_catalog :: "(nat, nat) catalog" where
  "empty_catalog = \<lparr>cat_path = ''db'', cat_exclusive = True, cat_max_arena = 4096, cat_files = Map.empty, cat_dirs = {}, cat_locks = {}, cat_disk = 0,
     cat_indexes = []\<rparr>"



text \<open>(C24) A creation that fails after it has made the directory of the index leaves the name unusable: it can
  be neither created again, since the directory exists, nor opened, since there is no metadata.\<close>
theorem failed_create_blocks_name:
  assumes "create_index os be who kind bits name schema s = (Inl e, s1)" "name \<noteq> []" "CHR ''/'' \<notin> set name" "CHR 0x5C \<notin> set name"
    and "map_of (cat_indexes s) name = None" "JoinIndexDir (cat_path s) name \<notin> cat_dirs s" "cat_files s (JoinIndexDir (cat_path s) name) = None"
    and "os_create_directory os (JoinIndexDir (cat_path s) name)" "cat_files s (MetaPath (cat_path s) name) = None"
  shows "create_index os' be' who' kind' bits' name schema' s1 = (Inl (DbRuntimeError (who' @ '': directory already exists: '' @ JoinIndexDir (cat_path s) name)), s1)
    \<and> (\<exists>e'. OpenIndex os' be' name s1 = (Inl e', s1))"
proof -
  have h: "half_made (cat_path s) name s1" by (rule create_failed [OF assms])
  have v: "ValidateIndexName name s1 = (Inr (), s1)" using assms(2-4) by (simp add: ValidateIndexName_def cat_ret_def)
  have "\<exists>e'. OpenIndex os' be' name s1 = (Inl e', s1)"
    using h v by (auto simp: OpenIndex_def cat_then_def cat_gets_def ReadWholeFile_def load_schema_def cat_ret_def cat_throw_def half_made_def
        split: option.splits prod.splits json_fail.splits)
  then show ?thesis using h v by (simp add: create_index_def cat_then_def cat_gets_def make_directory_def half_made_def)
qed

theorem failed_create_blocks_name_witness:
  "\<exists>e s1 e'. create_index calm (tiny_backend\<lparr>be_make := (\<lambda>kind path lim sch offs bits d. (Inl ''mmap'', d))\<rparr>) ''c'' KV 15 ''t'' sample_schema empty_catalog = (Inl e, s1)
    \<and> create_index calm tiny_backend ''c'' KV 15 ''t'' sample_schema s1 = (Inl e', s1)"
proof -
  let ?be = "tiny_backend\<lparr>be_make := (\<lambda>kind path lim sch offs bits d. (Inl ''mmap'', d))\<rparr>"
  have "create_index calm ?be ''c'' KV 15 ''t'' sample_schema empty_catalog \<noteq> (Inr (), s1)" for s1
    using create_stored [of calm ?be "''c''" KV 15 "''t''" sample_schema empty_catalog s1] by (auto simp: calm_def flushes_def)
  moreover obtain out s1 where "create_index calm ?be ''c'' KV 15 ''t'' sample_schema empty_catalog = (out, s1)" by fastforce
  ultimately obtain e where "create_index calm ?be ''c'' KV 15 ''t'' sample_schema empty_catalog = (Inl e, s1)" by (cases out) auto
  then show ?thesis
    using failed_create_blocks_name [of calm ?be "''c''" KV 15 "''t''" sample_schema empty_catalog e s1 calm tiny_backend "''c''" KV 15 sample_schema]
    by (auto simp: calm_def empty_catalog_def)
qed

end
