(* ===== verification/Registry.thy ===== *)
theory Registry
  imports Prelude
begin

text \<open>
  The tables of the server, src/apps/yikv_server/table_registry.h and table_registry.cc: loading a
  table, the handles that pin it during a request, the reload that swaps the index under running
  requests, and the visit of all tables for the metrics.

  The state is what the threads share: the heads of the tables, the slots they point to, and the
  indexes the database has open under a name. An index is identified by a number that no other index
  gets. A step is one section under a lock, or one call of the database, which has a lock of its own.
  Whether opening an index, making a link or building a slot succeeds is not determined, so every
  outcome is a step. The Kafka reader of a slot and the counters of the metrics are not part of the
  state. A request holds one handle at a time; the reload spins until the count of the old slot shows
  that no request holds it.
\<close>

section \<open>State\<close>

record table_slot =
  ts_key :: string
  ts_kv :: nat

record table_head =
  hd_slot :: nat
  staging_is_live :: bool

datatype reg_pc =
    Elsewhere
  | LoadOpen string | LoadBuild string | LoadInstall string nat
  | ReloadLink string bool | ReloadClose string bool | ReloadOpen string bool | ReloadBuild string bool | ReloadSwap string bool nat
  | ReloadDrain string bool nat | ReloadDrop string bool

record registry =
  heads :: "string \<rightharpoonup> table_head"
  slots :: "nat \<rightharpoonup> table_slot"
  indexes :: "string \<rightharpoonup> nat"
  fresh_id :: nat
  handles :: "nat \<Rightarrow> nat option"
  visits :: "nat \<Rightarrow> nat option"
  reg_pc :: "nat \<Rightarrow> reg_pc"
  load_table_mu :: "nat option"
  reload_serial :: "string \<rightharpoonup> nat"

definition kReloadSuffix :: string where "kReloadSuffix = ''~reload''"

definition IsReservedReloadStagingDirName :: "string \<Rightarrow> bool" where
  "IsReservedReloadStagingDirName name \<longleftrightarrow>
     length kReloadSuffix \<le> length name \<and> drop (length name - length kReloadSuffix) name = kReloadSuffix"

definition ReloadStagingDbName :: "string \<Rightarrow> string" where
  "ReloadStagingDbName logical_table = logical_table @ kReloadSuffix"

definition TableRegistry :: registry where
  "TableRegistry = \<lparr>heads = Map.empty, slots = Map.empty, indexes = Map.empty, fresh_id = 0, handles = (\<lambda>_. None), visits = (\<lambda>_. None),
     reg_pc = (\<lambda>_. Elsewhere), load_table_mu = None, reload_serial = Map.empty\<rparr>"

text \<open>The key of the database a table is open under.\<close>

definition db_key :: "string \<Rightarrow> bool \<Rightarrow> string" where
  "db_key name staging = (if staging then ReloadStagingDbName name else name)"

section \<open>Steps\<close>

definition at_pc :: "nat \<Rightarrow> reg_pc \<Rightarrow> registry \<Rightarrow> registry" where
  "at_pc t p s = s\<lparr>reg_pc := (reg_pc s)(t := p)\<rparr>"

definition db_open :: "string \<Rightarrow> registry \<Rightarrow> registry" where
  "db_open key s = (if key \<in> dom (indexes s) then s
     else s\<lparr>indexes := (indexes s)(key \<mapsto> fresh_id s), fresh_id := fresh_id s + 1\<rparr>)"

definition db_close :: "string \<Rightarrow> registry \<Rightarrow> registry" where
  "db_close key s = s\<lparr>indexes := (indexes s)(key := None)\<rparr>"

text \<open>\<^verbatim>\<open>BuildSlotAfterOpen\<close> asks the database for the index and makes a slot for it.\<close>

definition build_slot :: "string \<Rightarrow> registry \<Rightarrow> nat \<times> registry" where
  "build_slot key s = (fresh_id s,
     s\<lparr>slots := (slots s)(fresh_id s \<mapsto> \<lparr>ts_key = key, ts_kv = the (indexes s key)\<rparr>), fresh_id := fresh_id s + 1\<rparr>)"

definition drop_slot :: "nat \<Rightarrow> registry \<Rightarrow> registry" where
  "drop_slot i s = s\<lparr>slots := (slots s)(i := None)\<rparr>"

definition leave_load :: "nat \<Rightarrow> registry \<Rightarrow> registry" where
  "leave_load t s = at_pc t Elsewhere (s\<lparr>load_table_mu := None\<rparr>)"

definition leave_reload :: "nat \<Rightarrow> string \<Rightarrow> registry \<Rightarrow> registry" where
  "leave_reload t name s = at_pc t Elsewhere (s\<lparr>reload_serial := (reload_serial s)(name := None)\<rparr>)"

text \<open>\<^verbatim>\<open>LoadTable\<close>, from the startup scan or for a table that was not there at startup.\<close>

inductive load_step :: "registry \<Rightarrow> registry \<Rightarrow> bool" where
  load_call: "reg_pc s t = Elsewhere \<Longrightarrow> load_table_mu s = None \<Longrightarrow> name \<noteq> [] \<Longrightarrow> hd name \<noteq> CHR ''.'' \<Longrightarrow>
    \<not> IsReservedReloadStagingDirName name \<Longrightarrow> heads s name = None \<Longrightarrow>
    load_step s (at_pc t (LoadOpen name) (s\<lparr>load_table_mu := Some t\<rparr>))"
| load_open: "reg_pc s t = LoadOpen name \<Longrightarrow> load_step s (at_pc t (LoadBuild name) (db_open name s))"
| load_open_fails: "reg_pc s t = LoadOpen name \<Longrightarrow> load_step s (leave_load t s)"
| load_no_path: "reg_pc s t = LoadBuild name \<Longrightarrow> load_step s (leave_load t (db_close name s))"
| load_no_kv: "reg_pc s t = LoadBuild name \<Longrightarrow> load_step s (leave_load t s)"
| load_build: "reg_pc s t = LoadBuild name \<Longrightarrow> build_slot name s = (i, s') \<Longrightarrow> load_step s (at_pc t (LoadInstall name i) s')"
| load_install: "reg_pc s t = LoadInstall name i \<Longrightarrow> \<forall>u. visits s u = None \<Longrightarrow> heads s name = None \<Longrightarrow>
    load_step s (leave_load t (s\<lparr>heads := (heads s)(name \<mapsto> \<lparr>hd_slot = i, staging_is_live = False\<rparr>)\<rparr>))"
| load_twice: "reg_pc s t = LoadInstall name i \<Longrightarrow> \<forall>u. visits s u = None \<Longrightarrow> heads s name \<noteq> None \<Longrightarrow>
    load_step s (leave_load t (drop_slot i (db_close name s)))"

text \<open>\<^verbatim>\<open>Acquire\<close>, the end of a request, and \<^verbatim>\<open>ForEach\<close>, which passes a reference to the slot on.\<close>

inductive request_step :: "registry \<Rightarrow> registry \<Rightarrow> bool" where
  acquire: "handles s t = None \<Longrightarrow> heads s name = Some h \<Longrightarrow> request_step s (s\<lparr>handles := (handles s)(t \<mapsto> hd_slot h)\<rparr>)"
| release: "request_step s (s\<lparr>handles := (handles s)(t := None)\<rparr>)"

inductive visit_step :: "registry \<Rightarrow> registry \<Rightarrow> bool" where
  visit: "heads s name = Some h \<Longrightarrow> visit_step s (s\<lparr>visits := (visits s)(t \<mapsto> hd_slot h)\<rparr>)"
| visit_done: "visit_step s (s\<lparr>visits := (visits s)(t := None)\<rparr>)"

text \<open>\<^verbatim>\<open>ReloadTable\<close> of a table that is there. The flag tells whether the new index is open under the staging
  name.\<close>

inductive reload_step :: "registry \<Rightarrow> registry \<Rightarrow> bool" where
  reload_call: "reg_pc s t = Elsewhere \<Longrightarrow> heads s name = Some h \<Longrightarrow> reload_serial s name = None \<Longrightarrow>
    reload_step s (at_pc t (ReloadLink name (\<not> staging_is_live h)) (s\<lparr>reload_serial := (reload_serial s)(name \<mapsto> t)\<rparr>))"
| reload_no_link: "reg_pc s t = ReloadLink name stg \<Longrightarrow> reload_step s (leave_reload t name s)"
| reload_link: "reg_pc s t = ReloadLink name stg \<Longrightarrow> reload_step s (at_pc t (ReloadClose name stg) s)"
| reload_close: "reg_pc s t = ReloadClose name stg \<Longrightarrow> reload_step s (at_pc t (ReloadOpen name stg) (db_close (db_key name stg) s))"
| reload_open: "reg_pc s t = ReloadOpen name stg \<Longrightarrow> reload_step s (at_pc t (ReloadBuild name stg) (db_open (db_key name stg) s))"
| reload_open_fails: "reg_pc s t = ReloadOpen name stg \<Longrightarrow> reload_step s (leave_reload t name s)"
| reload_no_slot: "reg_pc s t = ReloadBuild name stg \<Longrightarrow> reload_step s (leave_reload t name (db_close (db_key name stg) s))"
| reload_no_kv: "reg_pc s t = ReloadBuild name stg \<Longrightarrow> reload_step s (leave_reload t name s)"
| reload_build: "reg_pc s t = ReloadBuild name stg \<Longrightarrow> build_slot (db_key name stg) s = (i, s') \<Longrightarrow>
    reload_step s (at_pc t (ReloadSwap name stg i) s')"
| reload_swap: "reg_pc s t = ReloadSwap name stg i \<Longrightarrow> heads s name = Some h \<Longrightarrow>
    reload_step s (at_pc t (ReloadDrain name stg (hd_slot h)) (s\<lparr>heads := (heads s)(name \<mapsto> \<lparr>hd_slot = i, staging_is_live = stg\<rparr>)\<rparr>))"
| reload_drained: "reg_pc s t = ReloadDrain name stg i \<Longrightarrow> \<forall>u. handles s u \<noteq> Some i \<Longrightarrow>
    reload_step s (at_pc t (ReloadDrop name stg) (drop_slot i s))"
| reload_drop: "reg_pc s t = ReloadDrop name stg \<Longrightarrow> reload_step s (leave_reload t name (db_close (db_key name (\<not> stg)) s))"

inductive reg_step :: "registry \<Rightarrow> registry \<Rightarrow> bool" where
  "load_step s s' \<Longrightarrow> reg_step s s'"
| "request_step s s' \<Longrightarrow> reg_step s s'"
| "visit_step s s' \<Longrightarrow> reg_step s s'"
| "reload_step s s' \<Longrightarrow> reg_step s s'"

inductive reg_reach :: "registry \<Rightarrow> bool" where
  reg_start: "reg_reach TableRegistry"
| reg_next: "reg_reach s \<Longrightarrow> reg_step s s' \<Longrightarrow> reg_reach s'"

section \<open>The invariant\<close>

definition slot_live :: "registry \<Rightarrow> nat \<Rightarrow> string \<Rightarrow> bool" where
  "slot_live s i key \<longleftrightarrow> (\<exists>kv. slots s i = Some \<lparr>ts_key = key, ts_kv = kv\<rparr> \<and> indexes s key = Some kv)"

definition loading :: "registry \<Rightarrow> nat \<Rightarrow> string \<Rightarrow> bool" where
  "loading s t n \<longleftrightarrow> load_table_mu s = Some t \<and> \<not> IsReservedReloadStagingDirName n \<and> heads s n = None"

definition reloading :: "registry \<Rightarrow> nat \<Rightarrow> string \<Rightarrow> bool \<Rightarrow> bool" where
  "reloading s t n live \<longleftrightarrow> reload_serial s n = Some t \<and> (\<exists>h. heads s n = Some h \<and> staging_is_live h = live)"

fun pc_ok :: "registry \<Rightarrow> nat \<Rightarrow> reg_pc \<Rightarrow> bool" where
  "pc_ok s t Elsewhere \<longleftrightarrow> True"
| "pc_ok s t (LoadOpen n) \<longleftrightarrow> loading s t n"
| "pc_ok s t (LoadBuild n) \<longleftrightarrow> loading s t n \<and> n \<in> dom (indexes s)"
| "pc_ok s t (LoadInstall n i) \<longleftrightarrow> loading s t n \<and> slot_live s i n"
| "pc_ok s t (ReloadLink n stg) \<longleftrightarrow> reloading s t n (\<not> stg)"
| "pc_ok s t (ReloadClose n stg) \<longleftrightarrow> reloading s t n (\<not> stg)"
| "pc_ok s t (ReloadOpen n stg) \<longleftrightarrow> reloading s t n (\<not> stg)"
| "pc_ok s t (ReloadBuild n stg) \<longleftrightarrow> reloading s t n (\<not> stg) \<and> db_key n stg \<in> dom (indexes s)"
| "pc_ok s t (ReloadSwap n stg i) \<longleftrightarrow> reloading s t n (\<not> stg) \<and> slot_live s i (db_key n stg)"
| "pc_ok s t (ReloadDrain n stg i) \<longleftrightarrow> reloading s t n stg \<and> slot_live s i (db_key n (\<not> stg))"
| "pc_ok s t (ReloadDrop n stg) \<longleftrightarrow> reloading s t n stg"

definition heads_ok :: "registry \<Rightarrow> bool" where
  "heads_ok s \<longleftrightarrow> (\<forall>n h. heads s n = Some h \<longrightarrow>
     \<not> IsReservedReloadStagingDirName n \<and> slot_live s (hd_slot h) (db_key n (staging_is_live h)))"

definition handles_ok :: "registry \<Rightarrow> bool" where
  "handles_ok s \<longleftrightarrow> (\<forall>u i. handles s u = Some i \<longrightarrow>
     (\<exists>n h. heads s n = Some h \<and> hd_slot h = i) \<or> (\<exists>t n stg. reg_pc s t = ReloadDrain n stg i))"

definition reg_inv :: "registry \<Rightarrow> bool" where
  "reg_inv s \<longleftrightarrow> heads_ok s \<and> handles_ok s \<and> (\<forall>t. pc_ok s t (reg_pc s t)) \<and> (\<forall>i \<in> dom (slots s). i < fresh_id s)"

lemma reserved_staging: "IsReservedReloadStagingDirName (ReloadStagingDbName n)"
  by (simp add: IsReservedReloadStagingDirName_def ReloadStagingDbName_def)

lemma db_key_eq:
  "\<not> IsReservedReloadStagingDirName n \<Longrightarrow> \<not> IsReservedReloadStagingDirName m \<Longrightarrow> db_key n a = db_key m b \<longleftrightarrow> n = m \<and> a = b"
  using reserved_staging [of n] reserved_staging [of m] by (auto simp: db_key_def) (simp_all add: ReloadStagingDbName_def kReloadSuffix_def)

text \<open>What a step does to one of the parts leaves the conditions on the others alone.\<close>

lemma pc_ok_cong:
  assumes "pc_ok s t p" "load_table_mu s' = load_table_mu s" "reload_serial s' = reload_serial s" "heads s' = heads s"
    and "\<And>n stg i. p \<in> {LoadBuild n, LoadInstall n i} \<Longrightarrow> indexes s' n = indexes s n"
    and "\<And>n stg i. p \<in> {ReloadBuild n stg, ReloadSwap n stg i} \<Longrightarrow> indexes s' (db_key n stg) = indexes s (db_key n stg)"
    and "\<And>n stg i. p = ReloadDrain n stg i \<Longrightarrow> indexes s' (db_key n (\<not> stg)) = indexes s (db_key n (\<not> stg))"
    and "\<And>n stg i. p \<in> {LoadInstall n i, ReloadSwap n stg i, ReloadDrain n stg i} \<Longrightarrow> slots s' i = slots s i"
  shows "pc_ok s' t p"
  using assms by (cases p) (auto simp: loading_def reloading_def slot_live_def domIff)

lemma pc_fields [simp]:
  "heads (at_pc t p s) = heads s" "slots (at_pc t p s) = slots s" "indexes (at_pc t p s) = indexes s" "fresh_id (at_pc t p s) = fresh_id s"
  "handles (at_pc t p s) = handles s" "visits (at_pc t p s) = visits s" "reg_pc (at_pc t p s) = (reg_pc s)(t := p)"
  "load_table_mu (at_pc t p s) = load_table_mu s" "reload_serial (at_pc t p s) = reload_serial s"
  by (simp_all add: at_pc_def)

lemma reg_fields [simp]:
  "heads (leave_load t s) = heads s" "slots (leave_load t s) = slots s" "indexes (leave_load t s) = indexes s"
  "fresh_id (leave_load t s) = fresh_id s" "handles (leave_load t s) = handles s" "visits (leave_load t s) = visits s"
  "reg_pc (leave_load t s) = (reg_pc s)(t := Elsewhere)" "load_table_mu (leave_load t s) = None"
  "reload_serial (leave_load t s) = reload_serial s"
  "heads (leave_reload t n s) = heads s" "slots (leave_reload t n s) = slots s" "indexes (leave_reload t n s) = indexes s"
  "fresh_id (leave_reload t n s) = fresh_id s" "handles (leave_reload t n s) = handles s" "visits (leave_reload t n s) = visits s"
  "reg_pc (leave_reload t n s) = (reg_pc s)(t := Elsewhere)" "load_table_mu (leave_reload t n s) = load_table_mu s"
  "reload_serial (leave_reload t n s) = (reload_serial s)(n := None)"
  "heads (db_close k s) = heads s" "slots (db_close k s) = slots s" "indexes (db_close k s) = (indexes s)(k := None)"
  "fresh_id (db_close k s) = fresh_id s" "handles (db_close k s) = handles s" "visits (db_close k s) = visits s"
  "reg_pc (db_close k s) = reg_pc s" "load_table_mu (db_close k s) = load_table_mu s" "reload_serial (db_close k s) = reload_serial s"
  "heads (drop_slot i s) = heads s" "slots (drop_slot i s) = (slots s)(i := None)" "indexes (drop_slot i s) = indexes s"
  "fresh_id (drop_slot i s) = fresh_id s" "handles (drop_slot i s) = handles s" "visits (drop_slot i s) = visits s"
  "reg_pc (drop_slot i s) = reg_pc s" "load_table_mu (drop_slot i s) = load_table_mu s" "reload_serial (drop_slot i s) = reload_serial s"
  "heads (db_open k s) = heads s" "slots (db_open k s) = slots s" "handles (db_open k s) = handles s" "visits (db_open k s) = visits s"
  "reg_pc (db_open k s) = reg_pc s" "load_table_mu (db_open k s) = load_table_mu s" "reload_serial (db_open k s) = reload_serial s"
  by (simp_all add: leave_load_def leave_reload_def db_close_def drop_slot_def db_open_def)

lemma db_open_grows: "indexes s \<subseteq>\<^sub>m indexes (db_open k s)" "k \<in> dom (indexes (db_open k s))" "fresh_id s \<le> fresh_id (db_open k s)"
  by (auto simp: db_open_def map_le_def)

text \<open>Steps that add to the state.\<close>

definition others_keep :: "nat \<Rightarrow> registry \<Rightarrow> registry \<Rightarrow> bool" where
  "others_keep t s s' \<longleftrightarrow> heads s' = heads s \<and> handles s' = handles s \<and> (\<exists>p. reg_pc s' = (reg_pc s)(t := p))
     \<and> (\<forall>u. u \<noteq> t \<longrightarrow> load_table_mu s = Some u \<longrightarrow> load_table_mu s' = Some u)
     \<and> (\<forall>u n. u \<noteq> t \<longrightarrow> reload_serial s n = Some u \<longrightarrow> reload_serial s' n = Some u)"

lemma others_pc:
  assumes "others_keep t s s'" "pc_ok s u p" "u \<noteq> t" "slots s \<subseteq>\<^sub>m slots s'" "indexes s \<subseteq>\<^sub>m indexes s'"
  shows "pc_ok s' u p"
proof -
  have l: "loading s' u n" if "loading s u n" for n using that assms(1,3) by (auto simp: loading_def others_keep_def)
  have r: "reloading s' u n b" if "reloading s u n b" for n b using that assms(1,3) by (auto simp: reloading_def others_keep_def)
  have v: "slot_live s' i k" if "slot_live s i k" for i k using that assms(4,5) unfolding slot_live_def map_le_def by (metis domI)
  have d: "k \<in> dom (indexes s')" if "k \<in> dom (indexes s)" for k using that assms(5) by (meson map_le_implies_dom_le subsetD)
  show ?thesis using assms(2) by (cases p) (simp_all add: l r v d)
qed

lemma inv_grow:
  assumes "reg_inv s" "others_keep t s s'" "slots s \<subseteq>\<^sub>m slots s'" "indexes s \<subseteq>\<^sub>m indexes s'" "\<forall>i \<in> dom (slots s'). i < fresh_id s'"
    and "pc_ok s' t (reg_pc s' t)" "\<And>n stg i. reg_pc s t \<noteq> ReloadDrain n stg i"
  shows "reg_inv s'"
proof -
  have pc: "reg_pc s' u = reg_pc s u" if "u \<noteq> t" for u using assms(2) that by (auto simp: others_keep_def)
  have v: "slot_live s' i k" if "slot_live s i k" for i k using that assms(3,4) unfolding slot_live_def map_le_def by (metis domI)
  have "heads_ok s'" using assms(1,2) v unfolding reg_inv_def heads_ok_def others_keep_def by metis
  moreover have "handles_ok s'" using assms(1,2,7) pc unfolding reg_inv_def handles_ok_def others_keep_def by metis
  moreover have "pc_ok s' u (reg_pc s' u)" for u
    using assms(1,6) others_pc [OF assms(2) _ _ assms(3,4)] pc unfolding reg_inv_def by (cases "u = t") auto
  ultimately show ?thesis using assms(5) by (simp add: reg_inv_def)
qed

text \<open>Closing an index nobody uses.\<close>

fun pc_key :: "reg_pc \<Rightarrow> string option" where
  "pc_key (LoadBuild n) = Some n"
| "pc_key (LoadInstall n i) = Some n"
| "pc_key (ReloadBuild n stg) = Some (db_key n stg)"
| "pc_key (ReloadSwap n stg i) = Some (db_key n stg)"
| "pc_key (ReloadDrain n stg i) = Some (db_key n (\<not> stg))"
| "pc_key p = None"

definition unused :: "registry \<Rightarrow> nat \<Rightarrow> string \<Rightarrow> bool" where
  "unused s t k \<longleftrightarrow> (\<forall>n h. heads s n = Some h \<longrightarrow> db_key n (staging_is_live h) \<noteq> k) \<and> (\<forall>u. u \<noteq> t \<longrightarrow> pc_key (reg_pc s u) \<noteq> Some k)"

lemma inv_close:
  assumes "reg_inv s" "others_keep t s s'" "slots s' = slots s" "indexes s' = (indexes s)(k := None)" "fresh_id s' = fresh_id s"
    and "pc_ok s' t (reg_pc s' t)" "\<And>n stg i. reg_pc s t \<noteq> ReloadDrain n stg i" "unused s t k"
  shows "reg_inv s'"
proof -
  have pc: "reg_pc s' u = reg_pc s u" if "u \<noteq> t" for u using assms(2) that by (auto simp: others_keep_def)
  have v: "slot_live s' i x" if "slot_live s i x" "x \<noteq> k" for i x using that assms(3,4) by (auto simp: slot_live_def)
  have "heads_ok s'" using assms(1,2,8) v unfolding reg_inv_def heads_ok_def others_keep_def unused_def by metis
  moreover have "handles_ok s'" using assms(1,2,7) pc unfolding reg_inv_def handles_ok_def others_keep_def by metis
  moreover have "pc_ok s' u (reg_pc s u)" if "u \<noteq> t" for u
  proof -
    have ok: "pc_ok s u (reg_pc s u)" and un: "pc_key (reg_pc s u) \<noteq> Some k" using assms(1,8) that by (auto simp: reg_inv_def unused_def)
    have l: "loading s' u n" if "loading s u n" for n using that assms(2) \<open>u \<noteq> t\<close> by (auto simp: loading_def others_keep_def)
    have r: "reloading s' u n b" if "reloading s u n b" for n b using that assms(2) \<open>u \<noteq> t\<close> by (auto simp: reloading_def others_keep_def)
    have d: "x \<in> dom (indexes s')" if "x \<in> dom (indexes s)" "x \<noteq> k" for x using that assms(4) by auto
    show ?thesis using ok un by (cases "reg_pc s u") (auto simp: l r v d)
  qed
  ultimately show ?thesis using assms(1,3,5,6) pc unfolding reg_inv_def by metis
qed

lemma pc_key_owner:
  assumes "reg_inv s" "pc_key (reg_pc s u) = Some k"
  shows "\<exists>m b. k = db_key m b \<and> \<not> IsReservedReloadStagingDirName m \<and> (loading s u m \<or> (\<exists>c. reloading s u m c))"
proof -
  have ok: "pc_ok s u (reg_pc s u)" using assms(1) by (simp add: reg_inv_def)
  have nr: "\<not> IsReservedReloadStagingDirName m" if "reloading s u m c" for m c
    using assms(1) that unfolding reg_inv_def heads_ok_def reloading_def by blast
  have ld: "k = db_key k False \<and> \<not> IsReservedReloadStagingDirName k" if "loading s u k"
    using that by (simp add: loading_def db_key_def)
  show ?thesis using ok assms(2) nr ld by (cases "reg_pc s u") auto
qed

lemma load_unused: "reg_inv s \<Longrightarrow> loading s t n \<Longrightarrow> unused s t n"
  unfolding unused_def
proof (intro conjI allI impI)
  assume inv: "reg_inv s" and l: "loading s t n"
  have n: "n = db_key n False" "\<not> IsReservedReloadStagingDirName n" "heads s n = None" using l by (auto simp: loading_def db_key_def)
  show "db_key m (staging_is_live h) \<noteq> n" if "heads s m = Some h" for m h
    using inv that n db_key_eq [of m n _ False] unfolding reg_inv_def heads_ok_def by (metis option.distinct(1))
  show "pc_key (reg_pc s u) \<noteq> Some n" if "u \<noteq> t" for u
  proof
    assume "pc_key (reg_pc s u) = Some n"
    from pc_key_owner [OF inv this] obtain m b where m: "n = db_key m b" "\<not> IsReservedReloadStagingDirName m"
        "loading s u m \<or> (\<exists>c. reloading s u m c)" by blast
    have "m = n" using db_key_eq [OF n(2) m(2), of False b] n(1) m(1) by metis
    then show False using m(3) l that by (auto simp: loading_def reloading_def)
  qed
qed

lemma reload_unused: "reg_inv s \<Longrightarrow> reloading s t n (\<not> b) \<Longrightarrow> unused s t (db_key n b)"
  unfolding unused_def
proof (intro conjI allI impI)
  assume inv: "reg_inv s" and l: "reloading s t n (\<not> b)"
  obtain h0 where h0: "heads s n = Some h0" "staging_is_live h0 = (\<not> b)" using l by (auto simp: reloading_def)
  have n: "\<not> IsReservedReloadStagingDirName n" using inv h0 unfolding reg_inv_def heads_ok_def by blast
  show "db_key m (staging_is_live h) \<noteq> db_key n b" if "heads s m = Some h" for m h
    using inv that n h0 db_key_eq [of m n "staging_is_live h" b] unfolding reg_inv_def heads_ok_def by auto
  show "pc_key (reg_pc s u) \<noteq> Some (db_key n b)" if "u \<noteq> t" for u
  proof
    assume "pc_key (reg_pc s u) = Some (db_key n b)"
    from pc_key_owner [OF inv this] obtain m c where m: "db_key n b = db_key m c" "\<not> IsReservedReloadStagingDirName m"
        "loading s u m \<or> (\<exists>c. reloading s u m c)" by blast
    have "m = n" using db_key_eq [OF n m(2), of b c] m(1) by simp
    then show False using m(3) l that by (auto simp: loading_def reloading_def)
  qed
qed

section \<open>Every step keeps the invariant\<close>

lemma build_slot_fields:
  assumes "build_slot key s = (i, s')"
  shows "i = fresh_id s" "slots s' = (slots s)(i \<mapsto> \<lparr>ts_key = key, ts_kv = the (indexes s key)\<rparr>)" "fresh_id s' = fresh_id s + 1"
    "heads s' = heads s" "indexes s' = indexes s" "handles s' = handles s" "visits s' = visits s" "reg_pc s' = reg_pc s"
    "load_table_mu s' = load_table_mu s" "reload_serial s' = reload_serial s"
  using assms by (auto simp: build_slot_def)

lemma build_slot_grows:
  assumes "reg_inv s" "build_slot key s = (i, s')" "key \<in> dom (indexes s)"
  shows "slots s \<subseteq>\<^sub>m slots s'" "\<forall>j \<in> dom (slots s'). j < fresh_id s'" "slot_live s' i key"
  using assms(1,3) by (auto simp: build_slot_fields [OF assms(2)] reg_inv_def map_le_def slot_live_def dom_def intro: less_SucI)

lemma handles_ok_step:
  assumes "handles_ok s" "handles s' = handles s"
    and "\<And>n h. heads s n = Some h \<Longrightarrow> (\<exists>m h'. heads s' m = Some h' \<and> hd_slot h' = hd_slot h) \<or> (\<exists>t m stg. reg_pc s' t = ReloadDrain m stg (hd_slot h))"
    and "\<And>t n stg i. reg_pc s t = ReloadDrain n stg i \<Longrightarrow> (\<exists>u. handles s u = Some i) \<Longrightarrow> reg_pc s' t = ReloadDrain n stg i"
  shows "handles_ok s'"
  unfolding handles_ok_def
proof (intro allI impI)
  fix u i assume u: "handles s' u = Some i"
  then have "(\<exists>n h. heads s n = Some h \<and> hd_slot h = i) \<or> (\<exists>t n stg. reg_pc s t = ReloadDrain n stg i)"
    using assms(1,2) by (simp add: handles_ok_def)
  then show "(\<exists>n h. heads s' n = Some h \<and> hd_slot h = i) \<or> (\<exists>t n stg. reg_pc s' t = ReloadDrain n stg i)"
    using assms(2-4) u by metis
qed

lemma load_step_inv:
  assumes "load_step s s'" "reg_inv s"
  shows "reg_inv s'"
  using assms
proof cases
  case (load_call t name)
  show ?thesis
    by (rule inv_grow [OF assms(2), of t]) (use load_call assms(2) in \<open>auto simp: others_keep_def loading_def reg_inv_def\<close>)
next
  case (load_open t name)
  have "pc_ok s t (LoadOpen name)" using assms(2) load_open(2) by (metis reg_inv_def)
  then show ?thesis
    using load_open assms(2) db_open_grows(1) [of s name] db_open_grows(2) [of name s] db_open_grows(3) [of s name]
    by (intro inv_grow [OF assms(2), of t]) (auto simp: others_keep_def loading_def reg_inv_def intro: less_le_trans)
next
  case (load_open_fails t name)
  have "pc_ok s t (LoadOpen name)" using assms(2) load_open_fails(2) by (metis reg_inv_def)
  then show ?thesis
    using load_open_fails assms(2) by (intro inv_grow [OF assms(2), of t]) (auto simp: others_keep_def loading_def reg_inv_def)
next
  case (load_no_path t name)
  have "pc_ok s t (LoadBuild name)" using assms(2) load_no_path(2) by (metis reg_inv_def)
  then show ?thesis
    using load_no_path load_unused [OF assms(2), of t name] by (intro inv_close [OF assms(2), of t _ name]) (auto simp: others_keep_def loading_def)
next
  case (load_no_kv t name)
  have "pc_ok s t (LoadBuild name)" using assms(2) load_no_kv(2) by (metis reg_inv_def)
  then show ?thesis
    using load_no_kv assms(2) by (intro inv_grow [OF assms(2), of t]) (auto simp: others_keep_def loading_def reg_inv_def)
next
  case (load_build t name i s1)
  have ok: "pc_ok s t (LoadBuild name)" using assms(2) load_build(2) by (metis reg_inv_def)
  then have d: "name \<in> dom (indexes s)" by simp
  note f = build_slot_fields [OF load_build(3)] and g = build_slot_grows [OF assms(2) load_build(3) d]
  show ?thesis
    using load_build ok f g by (intro inv_grow [OF assms(2), of t]) (auto simp: others_keep_def loading_def slot_live_def)
next
  case (load_install t name i)
  have ok: "pc_ok s t (LoadInstall name i)" using assms(2) load_install(2) by (metis reg_inv_def)
  have o: "pc_ok s' u (reg_pc s u)" if "u \<noteq> t" for u
  proof -
    have "pc_ok s u (reg_pc s u)" using assms(2) by (simp add: reg_inv_def)
    then show ?thesis using load_install(1,4) ok that by (cases "reg_pc s u") (auto simp: loading_def reloading_def slot_live_def)
  qed
  have v: "slot_live s' j k \<longleftrightarrow> slot_live s j k" for j k using load_install(1) by (simp add: slot_live_def)
  have "heads_ok s'" using assms(2) ok load_install(1) unfolding reg_inv_def heads_ok_def v by (auto simp: loading_def db_key_def)
  moreover have "handles_ok s'"
  proof (rule handles_ok_step)
    show "handles_ok s" using assms(2) by (simp add: reg_inv_def)
    show "(\<exists>m h'. heads s' m = Some h' \<and> hd_slot h' = hd_slot h) \<or> (\<exists>t m stg. reg_pc s' t = ReloadDrain m stg (hd_slot h))"
      if "heads s n = Some h" for n h
      using that load_install(1,4) by (intro disjI1 exI [of _ n] exI [of _ h]) auto
  qed (use load_install in auto)
  ultimately show ?thesis using assms(2) o load_install(1) by (simp add: reg_inv_def)
next
  case (load_twice t name i)
  have "pc_ok s t (LoadInstall name i)" using assms(2) load_twice(2) by (metis reg_inv_def)
  then show ?thesis using load_twice(4) by (simp add: loading_def)
qed

lemma request_step_inv: "request_step s s' \<Longrightarrow> reg_inv s \<Longrightarrow> reg_inv s'"
proof (induction rule: request_step.induct)
  case (acquire s t name h)
  let ?s = "s\<lparr>handles := (handles s)(t \<mapsto> hd_slot h)\<rparr>"
  have p: "pc_ok ?s u p \<longleftrightarrow> pc_ok s u p" for u p by (cases p) (auto simp: loading_def reloading_def slot_live_def)
  show ?case
    using acquire unfolding reg_inv_def p by (auto simp: heads_ok_def handles_ok_def slot_live_def)
next
  case (release s t)
  let ?s = "s\<lparr>handles := (handles s)(t := None)\<rparr>"
  have p: "pc_ok ?s u p \<longleftrightarrow> pc_ok s u p" for u p by (cases p) (auto simp: loading_def reloading_def slot_live_def)
  show ?case using release unfolding reg_inv_def p by (auto simp: heads_ok_def handles_ok_def slot_live_def)
qed

lemma visit_step_inv: "visit_step s s' \<Longrightarrow> reg_inv s \<Longrightarrow> reg_inv s'"
proof -
  have p: "pc_ok (s\<lparr>visits := v\<rparr>) u p \<longleftrightarrow> pc_ok s u p" for u p v by (cases p) (auto simp: loading_def reloading_def slot_live_def)
  have "reg_inv (s\<lparr>visits := v\<rparr>) \<longleftrightarrow> reg_inv s" for v unfolding reg_inv_def p by (simp add: heads_ok_def handles_ok_def slot_live_def)
  then show "visit_step s s' \<Longrightarrow> reg_inv s \<Longrightarrow> reg_inv s'" by (auto elim: visit_step.cases)
qed

lemma reload_pc: "reg_inv s \<Longrightarrow> reg_pc s t = p \<Longrightarrow> pc_ok s t p"
  by (auto simp: reg_inv_def)

lemma reload_step_inv:
  assumes "reload_step s s'" "reg_inv s"
  shows "reg_inv s'"
  using assms
proof cases
  case (reload_call t name h)
  show ?thesis
    by (rule inv_grow [OF assms(2), of t]) (use reload_call assms(2) in \<open>auto simp: others_keep_def reloading_def reg_inv_def\<close>)
next
  case (reload_no_link t name stg)
  then show ?thesis using assms(2) reload_pc [OF assms(2) reload_no_link(2)]
    by (intro inv_grow [OF assms(2), of t]) (auto simp: others_keep_def reloading_def reg_inv_def)
next
  case (reload_link t name stg)
  then show ?thesis using assms(2) reload_pc [OF assms(2) reload_link(2)]
    by (intro inv_grow [OF assms(2), of t]) (auto simp: others_keep_def reloading_def reg_inv_def)
next
  case (reload_close t name stg)
  then show ?thesis using reload_pc [OF assms(2) reload_close(2)] reload_unused [OF assms(2), of t name stg]
    by (intro inv_close [OF assms(2), of t _ "db_key name stg"]) (auto simp: others_keep_def reloading_def)
next
  case (reload_open t name stg)
  then show ?thesis
    using assms(2) reload_pc [OF assms(2) reload_open(2)] db_open_grows(1) [of s "db_key name stg"] db_open_grows(2) [of "db_key name stg" s] db_open_grows(3) [of s "db_key name stg"]
    by (intro inv_grow [OF assms(2), of t]) (auto simp: others_keep_def reloading_def reg_inv_def intro: less_le_trans)
next
  case (reload_open_fails t name stg)
  then show ?thesis using assms(2) reload_pc [OF assms(2) reload_open_fails(2)]
    by (intro inv_grow [OF assms(2), of t]) (auto simp: others_keep_def reloading_def reg_inv_def)
next
  case (reload_no_slot t name stg)
  then show ?thesis using reload_pc [OF assms(2) reload_no_slot(2)] reload_unused [OF assms(2), of t name stg]
    by (intro inv_close [OF assms(2), of t _ "db_key name stg"]) (auto simp: others_keep_def reloading_def)
next
  case (reload_no_kv t name stg)
  then show ?thesis using assms(2) reload_pc [OF assms(2) reload_no_kv(2)]
    by (intro inv_grow [OF assms(2), of t]) (auto simp: others_keep_def reloading_def reg_inv_def)
next
  case (reload_build t name stg i s1)
  note ok = reload_pc [OF assms(2) reload_build(2)]
  then have d: "db_key name stg \<in> dom (indexes s)" by simp
  note f = build_slot_fields [OF reload_build(3)] and g = build_slot_grows [OF assms(2) reload_build(3) d]
  show ?thesis
    using reload_build ok f g by (intro inv_grow [OF assms(2), of t]) (auto simp: others_keep_def reloading_def slot_live_def)
next
  case (reload_swap t name stg i h)
  have ok: "reloading s t name (\<not> stg)" "slot_live s i (db_key name stg)" using reload_pc [OF assms(2) reload_swap(2)] by simp_all
  have st: "staging_is_live h = (\<not> stg)" using ok(1) reload_swap(3) by (simp add: reloading_def)
  have v: "slot_live s' j k \<longleftrightarrow> slot_live s j k" for j k using reload_swap(1) by (simp add: slot_live_def)
  have old: "\<not> IsReservedReloadStagingDirName name" "slot_live s (hd_slot h) (db_key name (\<not> stg))"
    using assms(2) reload_swap(3) unfolding reg_inv_def heads_ok_def st [symmetric] by blast+
  have "heads_ok s'" using assms(2) ok old(1) reload_swap(1) unfolding reg_inv_def heads_ok_def v by auto
  moreover have "handles_ok s'"
  proof (rule handles_ok_step)
    show "handles_ok s" using assms(2) by (simp add: reg_inv_def)
    show "(\<exists>m h'. heads s' m = Some h' \<and> hd_slot h' = hd_slot g) \<or> (\<exists>t m stg. reg_pc s' t = ReloadDrain m stg (hd_slot g))"
      if "heads s n = Some g" for n g
    proof (cases "n = name")
      case True
      then show ?thesis using that reload_swap by (intro disjI2 exI [of _ t] exI [of _ name] exI [of _ stg]) auto
    next
      case False
      then show ?thesis using that reload_swap(1) by (intro disjI1 exI [of _ n] exI [of _ g]) auto
    qed
  qed (use reload_swap in auto)
  moreover have "pc_ok s' u (reg_pc s' u)" for u
  proof (cases "u = t")
    case True
    then show ?thesis using ok(1) old(2) reload_swap(1) by (simp add: slot_live_def reloading_def)
  next
    case False
    have l: "loading s' u n" if "loading s u n" for n using that reload_swap(1,3) by (auto simp: loading_def)
    have r: "reloading s' u n b" if "reloading s u n b" for n b using that ok(1) False reload_swap(1) by (auto simp: reloading_def)
    have "pc_ok s u (reg_pc s u)" "reg_pc s' u = reg_pc s u" "indexes s' = indexes s"
      using assms(2) False reload_swap(1) by (auto simp: reg_inv_def)
    then show ?thesis by (cases "reg_pc s u") (auto simp: l r v)
  qed
  ultimately show ?thesis using assms(2) reload_swap(1) by (simp add: reg_inv_def)
next
  case (reload_drained t name stg i)
  let ?k = "db_key name (\<not> stg)"
  have ok: "reloading s t name stg" "slot_live s i ?k" using reload_pc [OF assms(2) reload_drained(2)] by simp_all
  have un: "unused s t ?k" using reload_unused [OF assms(2), of t name "\<not> stg"] ok(1) by simp
  have v: "slot_live s' j k" if "slot_live s j k" "k \<noteq> ?k" for j k
    using that ok(2) reload_drained(1) by (auto simp: slot_live_def)
  have "heads_ok s'" using assms(2) un v reload_drained(1) unfolding reg_inv_def heads_ok_def unused_def by auto
  moreover have "handles_ok s'"
    by (rule handles_ok_step [of s]) (use assms(2) reload_drained in \<open>auto simp: reg_inv_def\<close>)
  moreover have "pc_ok s' u (reg_pc s' u)" for u
  proof (cases "u = t")
    case True
    then show ?thesis using ok(1) reload_drained(1) by (simp add: reloading_def)
  next
    case False
    have "pc_ok s u (reg_pc s u)" "reg_pc s' u = reg_pc s u" "indexes s' = indexes s" "pc_key (reg_pc s u) \<noteq> Some ?k"
      "loading s' u = loading s u" "reloading s' u = reloading s u"
      using assms(2) False un reload_drained(1) by (auto simp: reg_inv_def unused_def loading_def reloading_def fun_eq_iff)
    then show ?thesis by (cases "reg_pc s u") (auto simp: v)
  qed
  ultimately show ?thesis using assms(2) reload_drained(1) by (simp add: reg_inv_def)
next
  case (reload_drop t name stg)
  then show ?thesis using reload_pc [OF assms(2) reload_drop(2)] reload_unused [OF assms(2), of t name "\<not> stg"]
    by (intro inv_close [OF assms(2), of t _ "db_key name (\<not> stg)"]) (auto simp: others_keep_def reloading_def)
qed

lemma reg_reach_inv: "reg_reach s \<Longrightarrow> reg_inv s"
proof (induction rule: reg_reach.induct)
  case reg_start
  show ?case by (simp add: reg_inv_def TableRegistry_def heads_ok_def handles_ok_def)
next
  case (reg_next s s')
  from reg_next.hyps(2) reg_next.IH show ?case
    by cases (auto intro: load_step_inv request_step_inv visit_step_inv reload_step_inv)
qed

lemma tables_stay: "reg_step s s' \<Longrightarrow> heads s name \<noteq> None \<Longrightarrow> heads s' name \<noteq> None"
  by (auto elim!: reg_step.cases load_step.cases request_step.cases visit_step.cases reload_step.cases simp: build_slot_fields(4) split: if_splits)

section \<open>Properties\<close>

text \<open>(C21) Whatever requests, loads and reloads do, the index behind every handle a request holds, and
  behind the slot every table hands out, is open in the database and is the one the slot was built
  for: a reload never closes an index under a request. A table that is loaded stays available.\<close>
theorem reload_keeps_tables_open:
  assumes "reg_reach s"
  shows "(\<forall>t i. handles s t = Some i \<longrightarrow> (\<exists>sl. slots s i = Some sl \<and> indexes s (ts_key sl) = Some (ts_kv sl)))
    \<and> (\<forall>name h. heads s name = Some h \<longrightarrow> (\<exists>sl. slots s (hd_slot h) = Some sl \<and> indexes s (ts_key sl) = Some (ts_kv sl)))
    \<and> (\<forall>s' name. reg_step s s' \<longrightarrow> heads s name \<noteq> None \<longrightarrow> heads s' name \<noteq> None)"
proof -
  have inv: "reg_inv s" by (rule reg_reach_inv [OF assms])
  have live: "\<exists>sl. slots s i = Some sl \<and> indexes s (ts_key sl) = Some (ts_kv sl)" if "slot_live s i k" for i k
    using that by (auto simp: slot_live_def)
  have hd: "\<exists>sl. slots s (hd_slot h) = Some sl \<and> indexes s (ts_key sl) = Some (ts_kv sl)" if "heads s name = Some h" for name h
    using inv that live unfolding reg_inv_def heads_ok_def by blast
  have dr: "\<exists>sl. slots s i = Some sl \<and> indexes s (ts_key sl) = Some (ts_kv sl)" if "reg_pc s t = ReloadDrain n stg i" for t n stg i
    using reload_pc [OF inv that] live by auto
  have "\<exists>sl. slots s i = Some sl \<and> indexes s (ts_key sl) = Some (ts_kv sl)" if "handles s t = Some i" for t i
    using inv that hd dr unfolding reg_inv_def handles_ok_def by blast
  then show ?thesis using hd tables_stay by blast
qed

text \<open>A run: the table \<^verbatim>\<open>t\<close> is loaded, thread 1 visits it for the metrics, and it is reloaded.\<close>

definition loaded :: registry where
  "loaded = (let s1 = at_pc 0 (LoadOpen ''t'') (TableRegistry\<lparr>load_table_mu := Some 0\<rparr>);
                 s2 = at_pc 0 (LoadBuild ''t'') (db_open ''t'' s1);
                 (i, s3) = build_slot ''t'' s2;
                 s4 = at_pc 0 (LoadInstall ''t'' i) s3
             in leave_load 0 (s4\<lparr>heads := (heads s4)(''t'' \<mapsto> \<lparr>hd_slot = i, staging_is_live = False\<rparr>)\<rparr>))"

lemmas reg_eval = TableRegistry_def db_open_def build_slot_def Let_def db_key_def

lemma loaded_fields:
  "heads loaded = [''t'' \<mapsto> \<lparr>hd_slot = 1, staging_is_live = False\<rparr>]" "slots loaded = [1 \<mapsto> \<lparr>ts_key = ''t'', ts_kv = 0\<rparr>]"
  "indexes loaded = [''t'' \<mapsto> 0]" "fresh_id loaded = 2" "handles loaded = (\<lambda>_. None)" "visits loaded = (\<lambda>_. None)"
  "reg_pc loaded = (\<lambda>_. Elsewhere)" "load_table_mu loaded = None" "reload_serial loaded = Map.empty"
  by (simp_all add: loaded_def reg_eval at_pc_def leave_load_def fun_eq_iff)

lemma loaded_reach: "reg_reach loaded"
proof -
  let ?s1 = "at_pc 0 (LoadOpen ''t'') (TableRegistry\<lparr>load_table_mu := Some 0\<rparr>)"
  let ?s2 = "at_pc 0 (LoadBuild ''t'') (db_open ''t'' ?s1)"
  let ?s3 = "snd (build_slot ''t'' ?s2)" and ?i = "fst (build_slot ''t'' ?s2)"
  let ?s4 = "at_pc 0 (LoadInstall ''t'' ?i) ?s3"
  have 1: "reg_reach ?s1"
    by (rule reg_next [OF reg_start]) (intro reg_step.intros(1) load_call; simp add: TableRegistry_def IsReservedReloadStagingDirName_def kReloadSuffix_def)
  have 2: "reg_reach ?s2" by (rule reg_next [OF 1]) (intro reg_step.intros(1) load_open; simp)
  have 3: "reg_reach ?s4" by (rule reg_next [OF 2]) (intro reg_step.intros(1) load_build; simp)
  have "reg_step ?s4 loaded"
    unfolding loaded_def Let_def prod.case_eq_if
    by (intro reg_step.intros(1) load_install; simp add: reg_eval)
  then show ?thesis by (rule reg_next [OF 3])
qed

theorem reload_keeps_tables_open_witness:
  "\<exists>sl. slots (loaded\<lparr>handles := (handles loaded)(7 \<mapsto> 1)\<rparr>) 1 = Some sl \<and> indexes (loaded\<lparr>handles := (handles loaded)(7 \<mapsto> 1)\<rparr>) (ts_key sl) = Some (ts_kv sl)"
proof -
  have "reg_step loaded (loaded\<lparr>handles := (handles loaded)(7 \<mapsto> hd_slot \<lparr>hd_slot = 1, staging_is_live = False\<rparr>)\<rparr>)"
    by (intro reg_step.intros(2) acquire [where name = "''t''"]; simp add: loaded_fields)
  then have "reg_reach (loaded\<lparr>handles := (handles loaded)(7 \<mapsto> 1)\<rparr>)" by (intro reg_next [OF loaded_reach]) simp
  from reload_keeps_tables_open [OF this] show ?thesis by (auto simp: loaded_fields)
qed

text \<open>The reload of the loaded table by thread 0, up to the release of the old slot and the old index.\<close>

definition visited :: registry where
  "visited = loaded\<lparr>visits := (visits loaded)(1 \<mapsto> 1)\<rparr>"

definition before_swap :: registry where
  "before_swap = (let s1 = at_pc 0 (ReloadLink ''t'' True) (visited\<lparr>reload_serial := [''t'' \<mapsto> 0]\<rparr>);
                      s2 = at_pc 0 (ReloadOpen ''t'' True) (db_close (db_key ''t'' True) (at_pc 0 (ReloadClose ''t'' True) s1));
                      s3 = at_pc 0 (ReloadBuild ''t'' True) (db_open (db_key ''t'' True) s2);
                      (i, s4) = build_slot (db_key ''t'' True) s3
                  in at_pc 0 (ReloadSwap ''t'' True i) s4)"

definition swapped :: registry where
  "swapped = at_pc 0 (ReloadDrain ''t'' True 1) (before_swap\<lparr>heads := (heads before_swap)(''t'' \<mapsto> \<lparr>hd_slot = 3, staging_is_live = True\<rparr>)\<rparr>)"

definition closed :: registry where
  "closed = leave_reload 0 ''t'' (db_close (db_key ''t'' (\<not> True)) (at_pc 0 (ReloadDrop ''t'' True) (drop_slot 1 swapped)))"

lemma before_swap_reach: "reg_reach before_swap"
proof -
  let ?h = "\<lparr>hd_slot = 1, staging_is_live = False\<rparr>"
  let ?s1 = "at_pc 0 (ReloadLink ''t'' True) (visited\<lparr>reload_serial := [''t'' \<mapsto> 0]\<rparr>)"
  let ?s2 = "at_pc 0 (ReloadOpen ''t'' True) (db_close (db_key ''t'' True) (at_pc 0 (ReloadClose ''t'' True) ?s1))"
  let ?s3 = "at_pc 0 (ReloadBuild ''t'' True) (db_open (db_key ''t'' True) ?s2)"
  have "visit_step loaded (loaded\<lparr>visits := (visits loaded)(1 \<mapsto> hd_slot ?h)\<rparr>)" by (rule visit [of _ "''t''"]) (simp add: loaded_fields)
  then have 0: "reg_reach visited" unfolding visited_def by (intro reg_next [OF loaded_reach] reg_step.intros(3)) simp
  have "reload_step visited (at_pc 0 (ReloadLink ''t'' (\<not> staging_is_live ?h)) (visited\<lparr>reload_serial := (reload_serial visited)(''t'' \<mapsto> 0)\<rparr>))"
    by (rule reload_call) (simp_all add: visited_def loaded_fields)
  then have 1: "reg_reach ?s1" by (intro reg_next [OF 0] reg_step.intros(4)) (simp add: visited_def loaded_fields)
  have 2: "reg_reach (at_pc 0 (ReloadClose ''t'' True) ?s1)" by (rule reg_next [OF 1]) (intro reg_step.intros(4) reload_link; simp)
  have 3: "reg_reach ?s2" by (rule reg_next [OF 2]) (intro reg_step.intros(4) reload_close; simp)
  have 4: "reg_reach ?s3" by (rule reg_next [OF 3]) (intro reg_step.intros(4) reload_open; simp)
  show ?thesis
    by (rule reg_next [OF 4], unfold before_swap_def Let_def prod.case_eq_if) (intro reg_step.intros(4) reload_build; simp)
qed

lemma before_swap_fields:
  "heads before_swap = heads loaded" "handles before_swap = handles loaded" "visits before_swap = (visits loaded)(1 \<mapsto> 1)"
  "reg_pc before_swap 0 = ReloadSwap ''t'' True 3"
  by (simp_all add: before_swap_def visited_def reg_eval loaded_fields at_pc_def db_close_def)

text \<open>(C22) The visit of all tables does not pin the slot it passes on: a reload that runs during a scrape of
  the metrics sees no handle, destroys the slot and closes its index while the visit still uses them.\<close>
theorem visit_outlives_slot:
  "\<exists>s t i. reg_reach s \<and> visits s t = Some i \<and> slots s i = None \<and> indexes s ''t'' = None \<and> heads s ''t'' \<noteq> None"
proof -
  let ?h = "\<lparr>hd_slot = 1, staging_is_live = False\<rparr>"
  have "reload_step before_swap (at_pc 0 (ReloadDrain ''t'' True (hd_slot ?h)) (before_swap\<lparr>heads := (heads before_swap)(''t'' \<mapsto> \<lparr>hd_slot = 3, staging_is_live = True\<rparr>)\<rparr>))"
    by (rule reload_swap) (simp_all add: before_swap_fields loaded_fields)
  then have 1: "reg_reach swapped" unfolding swapped_def by (intro reg_next [OF before_swap_reach] reg_step.intros(4)) simp
  have 2: "reg_reach (at_pc 0 (ReloadDrop ''t'' True) (drop_slot 1 swapped))"
    by (rule reg_next [OF 1]) (intro reg_step.intros(4) reload_drained; simp add: swapped_def before_swap_fields loaded_fields)
  have "reg_reach closed"
    unfolding closed_def by (rule reg_next [OF 2]) (intro reg_step.intros(4) reload_drop; simp)
  moreover have "visits closed 1 = Some 1" "slots closed 1 = None" "indexes closed ''t'' = None" "heads closed ''t'' \<noteq> None"
    by (simp_all add: closed_def swapped_def before_swap_fields db_key_def)
  ultimately show ?thesis by blast
qed

end
