(* ===== verification/Spec2Isabelle.thy ===== *)
theory Spec2Isabelle
  imports IndexArena RoaringWire SeqLock CowSnapshots ArenaVector BatchQueue Catalog Registry
begin

text \<open>
  Verification of the core of yikv.
\<close>

end
